(* ===== verification/Rivet_Base.thy ===== *)
theory Rivet_Base
  imports Main "HOL-Library.Word" "HOL-Library.Monad_Syntax"
begin

text \<open>
  The prelude: machine integer types, the bit operations the kernel uses on its 32-bit
  ready bitmaps (shifted single bits, leading and trailing zero counts, clearing the
  lowest set bit), and generic facts on lists updated by index. Rust panics are the
  value \<open>None\<close> of an \<open>option\<close>; everything that can panic lives in the option
  monad, so a panic propagates the way it does in the code.
\<close>

unbundle bit_operations_syntax

type_synonym u8 = "8 word"
type_synonym u16 = "16 word"
type_synonym u32 = "32 word"
type_synonym u64 = "64 word"
type_synonym usize = "32 word"

named_theorems word_bits \<open>single-bit reasoning on ready words\<close>
named_theorems frame \<open>state components an operation leaves unchanged\<close>

section \<open>Single bits\<close>

text \<open>Rust's \<open>1u32 << n\<close> for \<open>n < 32\<close>.\<close>

definition shl1 :: "nat \<Rightarrow> u32" where
  "shl1 n = push_bit n 1"

lemma bit_shl1 [simp, word_bits]: "bit (shl1 n) i \<longleftrightarrow> i = n \<and> n < 32"
  by (auto simp: shl1_def bit_exp_iff possible_bit_def)

lemma shl1_eq_0_iff [simp]: "shl1 n = 0 \<longleftrightarrow> 32 \<le> n"
proof
  assume "shl1 n = 0"
  then have "\<not> bit (shl1 n) n" by simp
  then show "32 \<le> n" by simp
next
  assume "32 \<le> n"
  then show "shl1 n = 0" by (intro bit_word_eqI) simp
qed

lemma bit_set_bit [word_bits]: "bit (w OR shl1 n) i \<longleftrightarrow> bit w i \<or> (i = n \<and> n < 32)"
  by (simp add: bit_or_iff)

lemma bit_clear_bit [word_bits]: "i < 32 \<Longrightarrow> bit (w AND NOT (shl1 n)) i \<longleftrightarrow> bit w i \<and> i \<noteq> n"
  by (auto simp: bit_and_iff bit_not_iff)

lemma bit_clear_bit' [word_bits]:
  "bit ((w :: u32) AND NOT (shl1 n)) i \<longleftrightarrow> bit w i \<and> i \<noteq> n"
  by (auto simp: bit_and_iff bit_not_iff dest: bit_imp_le_length)

lemma bit_u32_less: "bit (w :: u32) i \<Longrightarrow> i < 32"
  by (drule bit_imp_le_length) simp

lemma u32_eq_iff: "(v :: u32) = w \<longleftrightarrow> (\<forall>i < 32. bit v i = bit w i)"
  by (auto intro: bit_word_eqI)

lemma u32_eq_0_iff: "(w :: u32) = 0 \<longleftrightarrow> (\<forall>i < 32. \<not> bit w i)"
  by (auto simp: u32_eq_iff)

lemma u32_neq_0_iff: "(w :: u32) \<noteq> 0 \<longleftrightarrow> (\<exists>i < 32. bit w i)"
  by (simp add: u32_eq_0_iff)

text \<open>
  The test \<open>prev == bit\<close> after a \<open>fetch_and(!bit)\<close>: the word has become empty, or it
  was empty before.
\<close>

lemma clear_bit_eq_0_iff: "w AND NOT (shl1 n) = 0 \<longleftrightarrow> w = 0 \<or> w = shl1 n"
proof
  assume *: "w AND NOT (shl1 n) = 0"
  have b: "\<And>i. bit w i \<Longrightarrow> i = n"
    using * by (metis bit_0_eq bit_clear_bit' bot_apply bot_bool_def)
  show "w = 0 \<or> w = shl1 n"
  proof (cases "bit w n")
    case True
    then have "w = shl1 n" using bit_u32_less [OF True] by (intro bit_word_eqI) (auto dest: b)
    then show ?thesis ..
  next
    case False
    then have "w = 0" by (intro bit_word_eqI) (auto dest: b)
    then show ?thesis ..
  qed
next
  assume "w = 0 \<or> w = shl1 n"
  then show "w AND NOT (shl1 n) = 0" by auto
qed

section \<open>Zero counts\<close>

text \<open>\<open>u32::leading_zeros\<close> and \<open>u32::trailing_zeros\<close>; both are 32 on the zero word.\<close>

definition leading_zeros :: "u32 \<Rightarrow> nat" where
  "leading_zeros w = length (takeWhile (\<lambda>i. \<not> bit w i) (rev [0..<32]))"

definition trailing_zeros :: "u32 \<Rightarrow> nat" where
  "trailing_zeros w = length (takeWhile (\<lambda>i. \<not> bit w i) [0..<32])"

text \<open>The index of the highest set bit, \<open>31 - w.leading_zeros()\<close>.\<close>

definition hi_bit :: "u32 \<Rightarrow> nat" where
  "hi_bit w = 31 - leading_zeros w"

lemma leading_zeros_less: "w \<noteq> 0 \<Longrightarrow> leading_zeros w < 32"
proof -
  assume "w \<noteq> 0"
  then obtain i where "i < 32" "bit w i" by (auto simp: u32_neq_0_iff)
  then have "\<exists>x \<in> set (rev [0..<32]). bit w x" by auto
  then have "length (takeWhile (\<lambda>i. \<not> bit w i) (rev [0..<32])) < length (rev [0..<32])"
    by (metis (no_types, lifting) linorder_not_le length_takeWhile_le nat_less_le
        takeWhile_eq_all_conv takeWhile_eq_take take_all)
  then show ?thesis by (simp add: leading_zeros_def)
qed

lemma hi_bit_less [simp]: "hi_bit w < 32"
  by (simp add: hi_bit_def)

lemma hi_bit_set: "w \<noteq> 0 \<Longrightarrow> bit w (hi_bit w)"
proof -
  assume "w \<noteq> 0"
  then have l: "leading_zeros w < 32" by (rule leading_zeros_less)
  then have "bit w (rev [0..<32] ! leading_zeros w)"
    using nth_length_takeWhile [of "\<lambda>i. \<not> bit w i" "rev [0..<32]"]
    by (simp add: leading_zeros_def)
  moreover have "rev [0..<32] ! leading_zeros w = 31 - leading_zeros w"
    using l by (simp add: rev_nth)
  ultimately show ?thesis by (simp add: hi_bit_def)
qed

lemma hi_bit_max: "bit w j \<Longrightarrow> j \<le> hi_bit w"
proof (rule ccontr)
  assume b: "bit w j" and "\<not> j \<le> hi_bit w"
  from b have j: "j < 32" by (rule bit_u32_less)
  have w: "w \<noteq> 0" using b by auto
  then have l: "leading_zeros w < 32" by (rule leading_zeros_less)
  from \<open>\<not> j \<le> hi_bit w\<close> l j have "31 - j < leading_zeros w"
    by (simp add: hi_bit_def)
  then have "\<not> bit w (takeWhile (\<lambda>i. \<not> bit w i) (rev [0..<32]) ! (31 - j))"
    unfolding leading_zeros_def using nth_mem set_takeWhileD by fastforce
  moreover have "takeWhile (\<lambda>i. \<not> bit w i) (rev [0..<32]) ! (31 - j) = rev [0..<32] ! (31 - j)"
    using \<open>31 - j < leading_zeros w\<close> unfolding leading_zeros_def by (rule takeWhile_nth)
  ultimately show False using b j by (simp add: rev_nth)
qed

lemma trailing_zeros_less: "w \<noteq> 0 \<Longrightarrow> trailing_zeros w < 32"
proof -
  assume "w \<noteq> 0"
  then obtain i where "i < 32" "bit w i" by (auto simp: u32_neq_0_iff)
  then have "\<exists>x \<in> set [0..<32]. bit w x" by auto
  then have "length (takeWhile (\<lambda>i. \<not> bit w i) [0..<32]) < length [0..<32]"
    by (metis (no_types, lifting) linorder_not_le length_takeWhile_le nat_less_le
        takeWhile_eq_all_conv takeWhile_eq_take take_all)
  then show ?thesis by (simp add: trailing_zeros_def)
qed

lemma trailing_zeros_set: "w \<noteq> 0 \<Longrightarrow> bit w (trailing_zeros w)"
proof -
  assume "w \<noteq> 0"
  then have l: "trailing_zeros w < 32" by (rule trailing_zeros_less)
  then have "bit w ([0..<32] ! trailing_zeros w)"
    using nth_length_takeWhile [of "\<lambda>i. \<not> bit w i" "[0..<32]"]
    by (simp add: trailing_zeros_def)
  then show ?thesis using l by simp
qed

lemma trailing_zeros_min: "bit w j \<Longrightarrow> trailing_zeros w \<le> j"
proof (rule ccontr)
  assume b: "bit w j" and "\<not> trailing_zeros w \<le> j"
  then have l: "j < trailing_zeros w" by simp
  then have "\<not> bit w (takeWhile (\<lambda>i. \<not> bit w i) [0..<32] ! j)"
    unfolding trailing_zeros_def using nth_mem set_takeWhileD by fastforce
  moreover have "takeWhile (\<lambda>i. \<not> bit w i) [0..<32] ! j = [0..<32] ! j"
    using l unfolding trailing_zeros_def by (rule takeWhile_nth)
  ultimately show False using b bit_u32_less [OF b] by simp
qed

lemma trailing_zeros_eqI:
  "bit w n \<Longrightarrow> (\<And>j. j < n \<Longrightarrow> \<not> bit w j) \<Longrightarrow> trailing_zeros w = n"
  by (metis bit_0_eq bot_apply bot_bool_def linorder_neqE_nat not_less trailing_zeros_min
      trailing_zeros_set)

section \<open>The lowest set bit\<close>

text \<open>
  \<open>w & (w - 1)\<close> clears the lowest set bit and \<open>w & w.wrapping_neg()\<close> isolates it. Both
  follow from the shape of \<open>w - 1\<close>: below the lowest set bit it is all ones, at it zero,
  above it unchanged.
\<close>

lemma bit_minus_1_lowest:
  fixes w :: u32
  assumes "w \<noteq> 0"
  shows "bit (w - 1) i \<longleftrightarrow>
    i < 32 \<and> (i < trailing_zeros w \<or> (trailing_zeros w < i \<and> bit w i))"
proof -
  define k where "k = trailing_zeros w"
  have k: "k < 32" "bit w k" "\<And>j. bit w j \<Longrightarrow> k \<le> j"
    using trailing_zeros_less [OF assms] trailing_zeros_set [OF assms] trailing_zeros_min
    by (auto simp: k_def)
  define h where "h = w AND NOT (shl1 k)"
  have hb: "bit h i \<longleftrightarrow> bit w i \<and> i \<noteq> k" for i by (simp add: h_def bit_clear_bit')
  have "h + shl1 k = h OR shl1 k"
    by (rule disjunctive_add_eq_or) (auto simp: bit_eq_iff bit_and_iff hb)
  also have "\<dots> = w" using k by (auto intro!: bit_word_eqI simp: bit_or_iff hb)
  finally have w: "w = h + shl1 k" by simp
  have m: "shl1 k - 1 = mask k" by (simp add: shl1_def mask_eq_exp_minus_1)
  have "w - 1 = h + (shl1 k - 1)" using w by (simp add: algebra_simps)
  also have "\<dots> = h + mask k" by (simp add: m)
  also have "\<dots> = h OR mask k"
    by (rule disjunctive_add_eq_or)
      (auto simp: bit_eq_iff bit_and_iff bit_mask_iff hb dest: k(3))
  finally have "bit (w - 1) i \<longleftrightarrow> bit h i \<or> i < k \<and> i < 32"
    by (simp add: bit_or_iff bit_mask_iff possible_bit_def conj_commute)
  then show ?thesis
    using k(3) [of i] bit_u32_less [of w i] by (auto simp: hb k_def)
qed

definition clear_lowest :: "u32 \<Rightarrow> u32" where
  "clear_lowest w = w AND (w - 1)"

definition lowest_bit :: "u32 \<Rightarrow> u32" where
  "lowest_bit w = w AND (- w)"

lemma bit_clear_lowest [word_bits]:
  "w \<noteq> 0 \<Longrightarrow> bit (clear_lowest w) i \<longleftrightarrow> bit w i \<and> i \<noteq> trailing_zeros w"
  using bit_u32_less [of w i] trailing_zeros_min [of w i]
  by (auto simp: clear_lowest_def bit_and_iff bit_minus_1_lowest)

lemma lowest_bit_eq: "w \<noteq> 0 \<Longrightarrow> lowest_bit w = shl1 (trailing_zeros w)"
  using trailing_zeros_less [of w] trailing_zeros_set [of w]
  by (intro bit_word_eqI)
    (auto simp: lowest_bit_def bit_and_iff minus_eq_not_minus_1 bit_not_iff bit_minus_1_lowest
      dest: trailing_zeros_min)

lemma and_clear_unat_less:
  assumes "bit (w :: u32) n"
  shows "unat (w AND NOT (shl1 n)) < unat w"
proof -
  have "(w AND NOT (shl1 n)) + shl1 n = (w AND NOT (shl1 n)) OR shl1 n"
    by (rule disjunctive_add_eq_or) (auto simp: bit_eq_iff bit_and_iff bit_not_iff)
  also have "\<dots> = w"
    using assms by (auto intro!: bit_word_eqI simp: bit_or_iff bit_clear_bit' dest: bit_u32_less)
  finally have eq: "w = (w AND NOT (shl1 n)) + shl1 n" by simp
  have "w AND NOT (shl1 n) \<noteq> w"
    using assms by (metis bit_clear_bit')
  moreover have "w AND NOT (shl1 n) \<le> w" by (rule word_and_le2)
  ultimately show ?thesis by (simp add: word_less_nat_alt [symmetric])
qed

lemma clear_lowest_unat_less: "w \<noteq> 0 \<Longrightarrow> unat (clear_lowest w) < unat w"
proof -
  assume w: "w \<noteq> 0"
  have "clear_lowest w = w AND NOT (shl1 (trailing_zeros w))"
    by (rule bit_word_eqI) (simp add: w bit_clear_lowest bit_clear_bit')
  then show ?thesis using and_clear_unat_less [OF trailing_zeros_set [OF w]] by simp
qed

section \<open>Lists updated by index\<close>

text \<open>An in-place field update of one array element.\<close>

definition upd_at :: "nat \<Rightarrow> ('a \<Rightarrow> 'a) \<Rightarrow> 'a list \<Rightarrow> 'a list" where
  "upd_at i f xs = (if i < length xs then xs[i := f (xs ! i)] else xs)"

lemma length_upd_at [simp]: "length (upd_at i f xs) = length xs"
  by (simp add: upd_at_def)

lemma nth_upd_at: "j < length xs \<Longrightarrow> upd_at i f xs ! j = (if j = i then f (xs ! i) else xs ! j)"
  by (auto simp: upd_at_def)

lemma nth_upd_at_eq [simp]: "i < length xs \<Longrightarrow> upd_at i f xs ! i = f (xs ! i)"
  by (simp add: nth_upd_at)

lemma nth_upd_at_neq [simp]: "i \<noteq> j \<Longrightarrow> upd_at i f xs ! j = xs ! j"
  by (simp add: upd_at_def)

lemma upd_at_upd_at [simp]: "upd_at i f (upd_at i g xs) = upd_at i (\<lambda>x. f (g x)) xs"
  by (simp add: upd_at_def)

lemma upd_at_id [simp]: "upd_at i (\<lambda>x. x) xs = xs"
  by (simp add: upd_at_def)

lemma map_upd_at: "(\<And>x. g (f x) = g x) \<Longrightarrow> map g (upd_at i f xs) = map g xs"
  by (auto simp: upd_at_def map_update list_update_same_conv)


end
