(* ===== verification/Kernel_State.thy ===== *)
theory Kernel_State
  imports Rivet_Base
begin

text \<open>
  The data of the kernel: build-time configuration (\<open>rivet/build.rs\<close>), the task control
  block and the registry (\<open>rivet/src/preempt/tcb.rs\<close>), the scheduler globals
  (\<open>rivet/src/preempt/sched.rs\<close>), the priority-inheritance mutex, the timer queues, the
  per-task accounting arrays, and the cooperative waker bitmaps, gathered in one record
  because the code keeps them as \<open>static\<close>s that every component reaches. A static array
  is a list whose length is the configured capacity; a sentinel (\<open>NO_TASK\<close>, a null
  pointer) is \<open>None\<close>. Calls into the port layer are appended to \<open>events\<close>.
\<close>

section \<open>Build-time configuration\<close>

text \<open>
  \<open>cfg_usize\<close>: an environment variable is absent, or holds text that parses to a number
  or does not. \<open>None\<close> is the build script's panic.
\<close>

datatype env_var = Unset | Parsed nat | Unparsable

definition cfg_usize :: "env_var \<Rightarrow> nat \<Rightarrow> nat \<Rightarrow> nat \<Rightarrow> nat option" where
  "cfg_usize raw dflt mn mx =
    (case raw of
       Unparsable \<Rightarrow> None
     | Unset \<Rightarrow> (if mn \<le> dflt \<and> dflt \<le> mx then Some dflt else None)
     | Parsed v \<Rightarrow> (if mn \<le> v \<and> v \<le> mx then Some v else None))"

record config =
  cfg_max_ptasks :: nat
  cfg_max_timers :: nat
  cfg_max_coop :: nat
  cfg_priorities :: nat
  cfg_tick_hz :: nat
  cfg_max_held :: nat
  cfg_max_irqs :: nat
  cfg_max_harts :: nat

definition build_config :: "(string \<Rightarrow> env_var) \<Rightarrow> config option" where
  "build_config env = do {
     max_ptasks \<leftarrow> cfg_usize (env ''RIVET_MAX_PTASKS'') 16 1 32;
     max_timers \<leftarrow> cfg_usize (env ''RIVET_MAX_TIMERS'') 16 1 64;
     max_coop \<leftarrow> cfg_usize (env ''RIVET_MAX_COOP_TASKS'') 16 1 32;
     priorities \<leftarrow> cfg_usize (env ''RIVET_PRIORITIES'') 32 1 32;
     tick_hz \<leftarrow> cfg_usize (env ''RIVET_TICK_HZ'') 1000 1 1000000;
     max_held \<leftarrow> cfg_usize (env ''RIVET_MAX_HELD_MUTEXES'') 4 1 16;
     max_irqs \<leftarrow> cfg_usize (env ''RIVET_MAX_IRQS'') 32 1 240;
     max_harts \<leftarrow> cfg_usize (env ''RIVET_MAX_HARTS'') 1 1 8;
     Some \<lparr>cfg_max_ptasks = max_ptasks, cfg_max_timers = max_timers,
       cfg_max_coop = max_coop, cfg_priorities = priorities, cfg_tick_hz = tick_hz,
       cfg_max_held = max_held, cfg_max_irqs = max_irqs, cfg_max_harts = max_harts\<rparr>
   }"

section \<open>Task control blocks\<close>

text \<open>The state byte of a slot, with the constants of \<open>tcb.rs\<close>, and the public view of it.\<close>

datatype raw_state = READY | RUNNING | BLOCKED | RESERVED | SUSPENDED

datatype task_state = Ready | Running | Blocked

record tcb =
  sp :: usize
  base_priority :: nat
  effective_priority :: nat
  raw_state :: raw_state
  used :: bool
  stack_base :: usize
  stack_size :: usize
  held :: "nat option list"
  held_count :: u8
  last_checkin :: u32
  generation :: u32
  result_buf :: "u8 list"
  result_size :: u8
  result_drop :: usize
  exited :: bool
  joiner :: "nat option"
  stop_requested :: bool

definition new_tcb :: "nat \<Rightarrow> tcb" where
  "new_tcb max_held =
    \<lparr>sp = 0, base_priority = 0, effective_priority = 0, raw_state = READY, used = False,
     stack_base = 0, stack_size = 0, held = replicate max_held None, held_count = 0,
     last_checkin = 0, generation = 0, result_buf = replicate 32 0, result_size = 0,
     result_drop = 0, exited = False, joiner = None, stop_requested = False\<rparr>"

section \<open>Mutexes\<close>

text \<open>
  A \<open>PriorityMutex\<close> without its payload; it is named by its index in \<open>mutexes\<close> below,
  which stands for its address. The type-erased pointer of a held slot is that index.
\<close>

record mutex =
  locked :: bool
  owner :: "nat option"
  waiters :: "nat option list"
  poisoned :: bool

definition new_mutex :: "nat \<Rightarrow> mutex" where
  "new_mutex max_ptasks =
    \<lparr>locked = False, owner = None, waiters = replicate max_ptasks None, poisoned = False\<rparr>"

section \<open>Faults\<close>

datatype fault_kind = InstructionAccess | LoadAccess | StoreAccess | MemManage u32
  | StackOverflow | BudgetExceeded

record fault_info =
  fault_task :: "nat option"
  fault_kind :: fault_kind
  fault_address :: usize
  fault_pc :: usize

datatype fault_policy = PolicyPanic | IsolateTask

section \<open>The kernel\<close>

datatype event =
    Request_reschedule
  | Request_reschedule_on nat
  | Switch_to usize usize
  | Drop_result nat
  | Fault_hook nat fault_info
  | Release_stack usize usize
  | Console_write string
  | Board_exit u32
  | Board_reset

record kernel =
  tasks :: "tcb list"
  ready_bitmap :: u32
  queues :: "u32 list"
  current_ids :: "nat option list"
  dispatch_counter :: u32
  dispatch_seq :: "u32 list"
  mutexes :: "mutex list"
  timer_slots :: "(u64 \<times> u16) list"
  ptask_deadlines :: "u64 list"
  busy_cycles_of :: "u64 list"
  last_dispatch :: u64
  boot_cycle :: u64
  wallclock_boot_us :: u64
  started :: bool
  period_us_of :: "u32 list"
  budget_us_of :: "u32 list"
  next_us_of :: "u64 list"
  budget_start_of :: "u64 list"
  policy :: fault_policy
  hook_set :: bool
  wk_bitmap :: u32
  wk_queues :: "u32 list"
  wk_pend :: u32
  events :: "event list"

abbreviation max_ptasks :: "kernel \<Rightarrow> nat" where
  "max_ptasks k \<equiv> length (tasks k)"

abbreviation max_harts :: "kernel \<Rightarrow> nat" where
  "max_harts k \<equiv> length (current_ids k)"

abbreviation emit :: "event \<Rightarrow> kernel \<Rightarrow> kernel" where
  "emit e k \<equiv> k\<lparr>events := events k @ [e]\<rparr>"

abbreviation emits :: "event list \<Rightarrow> kernel \<Rightarrow> kernel" where
  "emits es k \<equiv> k\<lparr>events := events k @ es\<rparr>"

text \<open>The statics as the loader leaves them, for \<open>n\<close> mutexes declared by the application.\<close>

definition boot_kernel :: "config \<Rightarrow> nat \<Rightarrow> kernel" where
  "boot_kernel c n =
    \<lparr>tasks = replicate (cfg_max_ptasks c) (new_tcb (cfg_max_held c)),
     ready_bitmap = 0, queues = replicate 32 0,
     current_ids = replicate (cfg_max_harts c) None,
     dispatch_counter = 0, dispatch_seq = replicate (cfg_max_ptasks c) 0,
     mutexes = replicate n (new_mutex (cfg_max_ptasks c)),
     timer_slots = replicate (cfg_max_timers c) (0, 0),
     ptask_deadlines = replicate (cfg_max_ptasks c) 0,
     busy_cycles_of = replicate (cfg_max_ptasks c) 0,
     last_dispatch = 0, boot_cycle = 0, wallclock_boot_us = 0, started = False,
     period_us_of = replicate (cfg_max_ptasks c) 0,
     budget_us_of = replicate (cfg_max_ptasks c) 0,
     next_us_of = replicate (cfg_max_ptasks c) 0,
     budget_start_of = replicate (cfg_max_ptasks c) 0,
     policy = PolicyPanic, hook_set = False,
     wk_bitmap = 0, wk_queues = replicate 32 0, wk_pend = 0, events = []\<rparr>"

section \<open>Task access\<close>

text \<open>An update of one control block, and of one mutex, in place.\<close>

definition upd_task :: "nat \<Rightarrow> (tcb \<Rightarrow> tcb) \<Rightarrow> kernel \<Rightarrow> kernel" where
  "upd_task i f k = k\<lparr>tasks := upd_at i f (tasks k)\<rparr>"

definition upd_mutex :: "nat \<Rightarrow> (mutex \<Rightarrow> mutex) \<Rightarrow> kernel \<Rightarrow> kernel" where
  "upd_mutex m f k = k\<lparr>mutexes := upd_at m f (mutexes k)\<rparr>"

text \<open>\<open>tcb::get\<close>: a used slot inside the registry.\<close>

definition get_task :: "nat \<Rightarrow> kernel \<Rightarrow> tcb option" where
  "get_task i k = (if i < max_ptasks k \<and> used (tasks k ! i) then Some (tasks k ! i) else None)"

lemma get_task_Some_iff:
  "get_task i k = Some t \<longleftrightarrow> i < max_ptasks k \<and> used (tasks k ! i) \<and> t = tasks k ! i"
  by (auto simp: get_task_def)

lemma get_task_None_iff: "get_task i k = None \<longleftrightarrow> i < max_ptasks k \<longrightarrow> \<not> used (tasks k ! i)"
  by (auto simp: get_task_def)

lemma upd_task_simps [simp]:
  "tasks (upd_task i f k) = upd_at i f (tasks k)"
  "ready_bitmap (upd_task i f k) = ready_bitmap k"
  "queues (upd_task i f k) = queues k"
  "current_ids (upd_task i f k) = current_ids k"
  "dispatch_counter (upd_task i f k) = dispatch_counter k"
  "dispatch_seq (upd_task i f k) = dispatch_seq k"
  "mutexes (upd_task i f k) = mutexes k"
  "ptask_deadlines (upd_task i f k) = ptask_deadlines k"
  "timer_slots (upd_task i f k) = timer_slots k"
  "events (upd_task i f k) = events k"
  by (simp_all add: upd_task_def)

lemma upd_mutex_simps [simp]:
  "mutexes (upd_mutex m g k) = upd_at m g (mutexes k)"
  "tasks (upd_mutex m g k) = tasks k"
  "ready_bitmap (upd_mutex m g k) = ready_bitmap k"
  "queues (upd_mutex m g k) = queues k"
  "current_ids (upd_mutex m g k) = current_ids k"
  "dispatch_counter (upd_mutex m g k) = dispatch_counter k"
  "dispatch_seq (upd_mutex m g k) = dispatch_seq k"
  "ptask_deadlines (upd_mutex m g k) = ptask_deadlines k"
  "timer_slots (upd_mutex m g k) = timer_slots k"
  "events (upd_mutex m g k) = events k"
  by (simp_all add: upd_mutex_def)

section \<open>Structural well-formedness\<close>

text \<open>
  What the static array types of the code guarantee (lengths, capacities), together with
  the range of the indices and priorities stored in them. Every operation keeps it. The
  state RESERVED exists only inside \<open>register_full\<close>, which \<open>spawn\<close> runs in a critical
  section, so no slot is in it between operations.
\<close>

definition wf_tcb :: "kernel \<Rightarrow> tcb \<Rightarrow> bool" where
  "wf_tcb k t \<longleftrightarrow> base_priority t < 32 \<and> effective_priority t < 32 \<and>
     length (result_buf t) = 32 \<and> raw_state t \<noteq> RESERVED \<and>
     (\<forall>m. Some m \<in> set (held t) \<longrightarrow> m < length (mutexes k)) \<and>
     (\<forall>j. joiner t = Some j \<longrightarrow> j < max_ptasks k)"

definition wf_mutex :: "kernel \<Rightarrow> mutex \<Rightarrow> bool" where
  "wf_mutex k m \<longleftrightarrow> length (waiters m) = max_ptasks k \<and>
     (\<forall>w. Some w \<in> set (waiters m) \<longrightarrow> w < max_ptasks k) \<and>
     (\<forall>t. owner m = Some t \<longrightarrow> t < max_ptasks k)"

definition wf :: "kernel \<Rightarrow> bool" where
  "wf k \<longleftrightarrow> 0 < max_ptasks k \<and> max_ptasks k \<le> 32 \<and> 0 < max_harts k \<and>
     length (queues k) = 32 \<and> length (dispatch_seq k) = max_ptasks k \<and>
     length (ptask_deadlines k) = max_ptasks k \<and>
     (\<forall>i. Some i \<in> set (current_ids k) \<longrightarrow> i < max_ptasks k) \<and>
     (\<forall>t \<in> set (tasks k). wf_tcb k t) \<and>
     (\<forall>m \<in> set (mutexes k). wf_mutex k m)"

end
