(* ===== verification/Ready_Bitmap.thy ===== *)
theory Ready_Bitmap
  imports Rivet_Base
begin

text \<open>
  The two-level ready structure: one bitmap word with a bit per priority level, and 32
  queue words with a bit per task. The preemptive scheduler (\<open>READY_BITMAP\<close> and
  \<open>QUEUES\<close> in \<open>sched.rs\<close>) and the cooperative waker (\<open>READY_BITMAP\<close> and
  \<open>PRIORITY_QUEUES\<close> in \<open>waker.rs\<close>) both keep their ready tasks in it. The locale
  \<open>prio_set\<close> is what the two clients rely on: a set of (priority, index) pairs with
  insertion, deletion and the highest occupied priority.
\<close>

section \<open>The interface\<close>

locale prio_set =
  fixes mem :: "'s \<Rightarrow> nat \<Rightarrow> nat \<Rightarrow> bool"
    and ins :: "nat \<Rightarrow> nat \<Rightarrow> 's \<Rightarrow> 's"
    and del :: "nat \<Rightarrow> nat \<Rightarrow> 's \<Rightarrow> 's"
    and top :: "'s \<Rightarrow> nat option"
    and inv :: "'s \<Rightarrow> bool"
  assumes mem_ins: "inv s \<Longrightarrow> p < 32 \<Longrightarrow> i < 32 \<Longrightarrow>
      mem (ins p i s) q j \<longleftrightarrow> mem s q j \<or> (q = p \<and> j = i)"
    and mem_del: "inv s \<Longrightarrow> p < 32 \<Longrightarrow> mem (del p i s) q j \<longleftrightarrow> mem s q j \<and> \<not> (q = p \<and> j = i)"
    and top_None: "inv s \<Longrightarrow> top s = None \<longleftrightarrow> (\<forall>p i. \<not> mem s p i)"
    and top_Some: "inv s \<Longrightarrow> top s = Some p \<Longrightarrow> (\<exists>i. mem s p i) \<and> (\<forall>q i. mem s q i \<longrightarrow> q \<le> p)"
    and inv_ins: "inv s \<Longrightarrow> p < 32 \<Longrightarrow> i < 32 \<Longrightarrow> inv (ins p i s)"
    and inv_del: "inv s \<Longrightarrow> p < 32 \<Longrightarrow> inv (del p i s)"
begin

definition members :: "'s \<Rightarrow> (nat \<times> nat) set" where
  "members s = {(p, i). mem s p i}"

lemma members_ins: "inv s \<Longrightarrow> p < 32 \<Longrightarrow> i < 32 \<Longrightarrow> members (ins p i s) = insert (p, i) (members s)"
  by (auto simp: members_def mem_ins)

lemma members_del: "inv s \<Longrightarrow> p < 32 \<Longrightarrow> members (del p i s) = members s - {(p, i)}"
  by (auto simp: members_def mem_del)

lemma del_ins: "inv s \<Longrightarrow> p < 32 \<Longrightarrow> i < 32 \<Longrightarrow> \<not> mem s p i \<Longrightarrow>
    members (del p i (ins p i s)) = members s"
  by (auto simp: members_ins members_del inv_ins) (simp add: members_def)

lemma top_is_max:
  assumes "inv s" and "mem s p i" and "top s = Some q"
  shows "p \<le> q"
  using top_Some [OF assms(1,3)] assms(2) by blast

lemma top_exists: "inv s \<Longrightarrow> mem s p i \<Longrightarrow> \<exists>q. top s = Some q \<and> p \<le> q"
  by (cases "top s") (auto simp: top_None dest: top_is_max)

lemma top_after_ins:
  assumes "inv s" and "p < 32" and "i < 32"
  shows "top (ins p i s) = Some (case top s of None \<Rightarrow> p | Some q \<Rightarrow> max p q)"
proof -
  have inv': "inv (ins p i s)" using assms by (rule inv_ins)
  have m: "mem (ins p i s) p i" using assms by (simp add: mem_ins)
  obtain q where q: "top (ins p i s) = Some q" "p \<le> q" using top_exists [OF inv' m] by blast
  from top_Some [OF inv' q(1)] obtain j where j: "mem (ins p i s) q j"
    and mx: "\<And>r l. mem (ins p i s) r l \<Longrightarrow> r \<le> q" by blast
  show ?thesis
  proof (cases "top s")
    case None
    then have "q = p" using assms j by (simp add: mem_ins top_None)
    then show ?thesis by (simp add: None q)
  next
    case (Some r)
    from top_Some [OF assms(1) Some] obtain l where l: "mem s r l"
      and mr: "\<And>u v. mem s u v \<Longrightarrow> u \<le> r" by blast
    have "r \<le> q" using mx [of r l] l assms by (simp add: mem_ins)
    moreover have "q = p \<or> q \<le> r" using j mr assms by (auto simp: mem_ins)
    ultimately have "q = max p r" using q(2) by auto
    then show ?thesis by (simp add: Some q)
  qed
qed

end

section \<open>The two-level bitmap\<close>

type_synonym ready_words = "u32 \<times> u32 list"

definition rb_mem :: "ready_words \<Rightarrow> nat \<Rightarrow> nat \<Rightarrow> bool" where
  "rb_mem s p i \<longleftrightarrow> p < 32 \<and> bit (snd s ! p) i"

text \<open>\<open>QUEUES[prio].fetch_or(1 << id); READY_BITMAP.fetch_or(1 << prio)\<close>.\<close>

definition rb_add :: "nat \<Rightarrow> nat \<Rightarrow> ready_words \<Rightarrow> ready_words" where
  "rb_add p i s = (fst s OR shl1 p, (snd s)[p := (snd s ! p) OR shl1 i])"

text \<open>
  \<open>prev = QUEUES[prio].fetch_and(!(1 << id)); if prev == 1 << id\<close> the priority bit is
  cleared.
\<close>

definition rb_del :: "nat \<Rightarrow> nat \<Rightarrow> ready_words \<Rightarrow> ready_words" where
  "rb_del p i s =
    (if snd s ! p = shl1 i then fst s AND NOT (shl1 p) else fst s,
     (snd s)[p := (snd s ! p) AND NOT (shl1 i)])"

definition rb_top :: "ready_words \<Rightarrow> nat option" where
  "rb_top s = (if fst s = 0 then None else Some (hi_bit (fst s)))"

text \<open>The two levels agree: a priority bit is set exactly when its queue word is non-empty.\<close>

definition rb_inv :: "ready_words \<Rightarrow> bool" where
  "rb_inv s \<longleftrightarrow> length (snd s) = 32 \<and> (\<forall>p < 32. bit (fst s) p \<longleftrightarrow> snd s ! p \<noteq> 0)"

lemma rb_mem_less: "rb_mem s p i \<Longrightarrow> p < 32 \<and> i < 32"
  by (auto simp: rb_mem_def dest: bit_u32_less)

lemma rb_mem_add: "rb_inv s \<Longrightarrow> p < 32 \<Longrightarrow> i < 32 \<Longrightarrow>
    rb_mem (rb_add p i s) q j \<longleftrightarrow> rb_mem s q j \<or> (q = p \<and> j = i)"
  by (auto simp: rb_mem_def rb_add_def rb_inv_def nth_list_update word_bits)

lemma rb_mem_del: "rb_inv s \<Longrightarrow> p < 32 \<Longrightarrow>
    rb_mem (rb_del p i s) q j \<longleftrightarrow> rb_mem s q j \<and> \<not> (q = p \<and> j = i)"
  by (auto simp: rb_mem_def rb_del_def rb_inv_def nth_list_update word_bits)

lemma rb_inv_add: "rb_inv s \<Longrightarrow> p < 32 \<Longrightarrow> i < 32 \<Longrightarrow> rb_inv (rb_add p i s)"
  by (auto simp: rb_inv_def rb_add_def nth_list_update word_bits u32_eq_0_iff)

lemma rb_inv_del:
  assumes "rb_inv s" and "p < 32"
  shows "rb_inv (rb_del p i s)"
proof -
  have "bit (fst (rb_del p i s)) q \<longleftrightarrow> snd (rb_del p i s) ! q \<noteq> 0" if "q < 32" for q
    using assms that
    by (cases "q = p")
      (auto simp: rb_inv_def rb_del_def bit_clear_bit' clear_bit_eq_0_iff)
  then show ?thesis using assms by (simp add: rb_inv_def rb_del_def)
qed

lemma rb_mem_ex_iff: "p < 32 \<Longrightarrow> (\<exists>i. rb_mem s p i) \<longleftrightarrow> snd s ! p \<noteq> 0"
  by (auto simp: rb_mem_def u32_neq_0_iff dest: bit_u32_less)

lemma rb_top_None: "rb_inv s \<Longrightarrow> rb_top s = None \<longleftrightarrow> (\<forall>p i. \<not> rb_mem s p i)"
  by (simp add: rb_top_def rb_inv_def rb_mem_def u32_eq_0_iff) (meson bit_u32_less)

lemma rb_top_Some:
  assumes "rb_inv s" and "rb_top s = Some p"
  shows "(\<exists>i. rb_mem s p i) \<and> (\<forall>q i. rb_mem s q i \<longrightarrow> q \<le> p)"
proof -
  from assms(2) have nz: "fst s \<noteq> 0" and p: "p = hi_bit (fst s)"
    by (auto simp: rb_top_def split: if_splits)
  have "snd s ! p \<noteq> 0"
    using assms(1) hi_bit_set [OF nz] by (simp add: rb_inv_def p)
  then have "\<exists>i. rb_mem s p i" by (simp add: rb_mem_ex_iff p)
  moreover have "q \<le> p" if "rb_mem s q i" for q i
  proof -
    have "q < 32" using rb_mem_less [OF that] by simp
    then have "bit (fst s) q"
      using assms(1) that rb_mem_ex_iff [of q s] by (auto simp: rb_inv_def)
    then show ?thesis unfolding p by (rule hi_bit_max)
  qed
  ultimately show ?thesis by blast
qed

lemma rb_inv_empty: "rb_inv (0, replicate 32 0)"
  by (simp add: rb_inv_def)

interpretation rb: prio_set rb_mem rb_add rb_del rb_top rb_inv
  by unfold_locales
    (simp_all add: rb_mem_add rb_mem_del rb_top_None rb_inv_add rb_inv_del rb_top_Some)

lemma rb_add_idem: "rb_inv s \<Longrightarrow> rb_mem s p i \<Longrightarrow> rb_add p i s = s"
proof -
  assume inv: "rb_inv s" and m: "rb_mem s p i"
  have p: "p < 32" "bit (snd s ! p) i" using m by (auto simp: rb_mem_def)
  have "fst s OR shl1 p = fst s"
    using inv p by (intro bit_word_eqI) (auto simp: rb_inv_def word_bits)
  moreover have "(snd s ! p) OR shl1 i = snd s ! p"
    using p by (intro bit_word_eqI) (auto simp: word_bits)
  ultimately show ?thesis by (simp add: rb_add_def)
qed

lemma rb_del_absent: "rb_inv s \<Longrightarrow> p < 32 \<Longrightarrow> i < 32 \<Longrightarrow> \<not> rb_mem s p i \<Longrightarrow> rb_del p i s = s"
proof -
  assume inv: "rb_inv s" and p: "p < 32" and i: "i < 32" and m: "\<not> rb_mem s p i"
  have b: "\<not> bit (snd s ! p) i" using m p by (simp add: rb_mem_def)
  have "(snd s ! p) AND NOT (shl1 i) = snd s ! p"
    using b by (intro bit_word_eqI) (auto simp: bit_clear_bit')
  moreover have "snd s ! p \<noteq> shl1 i" using b i by auto
  ultimately show ?thesis by (simp add: rb_del_def)
qed

end
