(* ===== verification/Sched.thy ===== *)
theory Sched
  imports Kernel_State Ready_Bitmap
begin

text \<open>
  The scheduler of the preemptive tier (\<open>rivet/src/preempt/sched.rs\<close>): the ready queues,
  the selection of the next task (highest effective priority, least recently dispatched
  within it), dispatch stamps and the tick-time preemption test. \<open>h\<close> is the calling hart
  (\<open>port::arch::hart_id\<close>), an index below \<open>MAX_HARTS\<close> by the port contract.
\<close>

section \<open>Ready queues\<close>

definition ready_words :: "kernel \<Rightarrow> ready_words" where
  "ready_words k = (ready_bitmap k, queues k)"

definition set_ready_words :: "ready_words \<Rightarrow> kernel \<Rightarrow> kernel" where
  "set_ready_words s k = k\<lparr>ready_bitmap := fst s, queues := snd s\<rparr>"

definition current :: "nat \<Rightarrow> kernel \<Rightarrow> nat option" where
  "current h k = current_ids k ! h"

definition set_current :: "nat \<Rightarrow> nat \<Rightarrow> kernel \<Rightarrow> kernel" where
  "set_current h tid k = k\<lparr>current_ids := (current_ids k)[h := Some tid]\<rparr>"

definition wake_other_harts :: "nat \<Rightarrow> kernel \<Rightarrow> kernel" where
  "wake_other_harts h k =
    (if max_harts k > 1
     then emits (map Request_reschedule_on (filter (\<lambda>hart. hart \<noteq> h) [0..<max_harts k])) k
     else k)"

text \<open>\<open>QUEUES[prio]\<close> is out of bounds for a priority of 32 or more: the panic \<open>None\<close>.\<close>

definition ready_add :: "nat \<Rightarrow> nat \<Rightarrow> kernel \<Rightarrow> kernel option" where
  "ready_add h tid k =
    (if tid \<ge> max_ptasks k then Some k
     else let prio = effective_priority (tasks k ! tid)
          in if prio \<ge> 32 then None
             else Some (wake_other_harts h
                    (set_ready_words (rb_add prio tid (ready_words k)) k)))"

definition ready_remove :: "nat \<Rightarrow> kernel \<Rightarrow> kernel option" where
  "ready_remove tid k =
    (if tid \<ge> max_ptasks k then Some k
     else let prio = effective_priority (tasks k ! tid)
          in if prio \<ge> 32 then None
             else Some (set_ready_words (rb_del prio tid (ready_words k)) k))"

text \<open>\<open>Tcb::state\<close>: every byte that is not RUNNING or BLOCKED reads as Ready.\<close>

definition state_of :: "tcb \<Rightarrow> task_state" where
  "state_of t = (case raw_state t of RUNNING \<Rightarrow> Running | BLOCKED \<Rightarrow> Blocked | _ \<Rightarrow> Ready)"

definition on_effective_priority_change :: "nat \<Rightarrow> nat \<Rightarrow> nat \<Rightarrow> kernel \<Rightarrow> kernel option" where
  "on_effective_priority_change tid old_prio new_prio k =
    (if tid \<ge> max_ptasks k \<or> old_prio = new_prio then Some k
     else if state_of (tasks k ! tid) \<noteq> Ready then Some k
     else if old_prio \<ge> 32 \<or> new_prio \<ge> 32 then None
     else Some (set_ready_words
            (rb_add new_prio tid (rb_del old_prio tid (ready_words k))) k))"

section \<open>Selection\<close>

text \<open>
  The scan of the set bits of a queue word, lowest first, keeping the smallest dispatch
  stamp seen: the \<open>while w != 0\<close> loop of \<open>schedule\<close>.
\<close>

function best_scan :: "nat \<Rightarrow> u32 list \<Rightarrow> u32 \<Rightarrow> nat option \<times> u32 \<Rightarrow> nat option \<times> u32" where
  "best_scan n seqs w best =
    (if w = 0 then best
     else let tid = trailing_zeros w
          in best_scan n seqs (clear_lowest w)
               (if tid < n \<and> seqs ! tid < snd best then (Some tid, seqs ! tid) else best))"
  by pat_completeness auto
termination
  by (relation "measure (\<lambda>(n, seqs, w, best). unat w)") (auto simp: clear_lowest_unat_less)

declare best_scan.simps [simp del]

text \<open>
  The task taken from a non-empty queue word; when no stamp is below \<open>u32::MAX\<close> the code
  falls back to the lowest set bit modulo \<open>MAX_PTASKS\<close>.
\<close>

definition pick :: "kernel \<Rightarrow> u32 \<Rightarrow> nat option" where
  "pick k word =
    (case fst (best_scan (max_ptasks k) (dispatch_seq k) word (None, -1)) of
       Some tid \<Rightarrow> Some tid
     | None \<Rightarrow> (if max_ptasks k = 0 then None
               else Some (trailing_zeros word mod max_ptasks k)))"

text \<open>
  \<open>schedule\<close>: take the highest priority bit; if its queue word is empty the bit is stale,
  so clear it and try again; otherwise pick from the word.
\<close>

function schedule :: "kernel \<Rightarrow> nat option \<times> kernel" where
  "schedule k =
    (if ready_bitmap k = 0 then (None, k)
     else let prio = hi_bit (ready_bitmap k); word = queues k ! prio
          in if word = 0
             then schedule (k\<lparr>ready_bitmap := ready_bitmap k AND NOT (shl1 prio)\<rparr>)
             else (pick k word, k))"
  by pat_completeness auto
termination
  by (relation "measure (\<lambda>k. unat (ready_bitmap k))") (auto simp: and_clear_unat_less hi_bit_set)

declare schedule.simps [simp del]

definition on_dispatch :: "nat \<Rightarrow> kernel \<Rightarrow> kernel" where
  "on_dispatch tid k =
    (if tid < max_ptasks k
     then k\<lparr>dispatch_counter := dispatch_counter k + 1,
            dispatch_seq := (dispatch_seq k)[tid := dispatch_counter k + 1]\<rparr>
     else k)"

text \<open>Indexing \<open>TASKS\<close> out of range panics.\<close>

definition should_preempt :: "nat \<Rightarrow> nat \<Rightarrow> kernel \<Rightarrow> bool option" where
  "should_preempt candidate running k =
    (if candidate = running then Some False
     else if candidate < max_ptasks k \<and> running < max_ptasks k
     then Some (effective_priority (tasks k ! candidate) \<ge> effective_priority (tasks k ! running))
     else None)"

section \<open>Frame rules of the queue operations\<close>

lemma set_ready_words_simps [simp]:
  "tasks (set_ready_words s k) = tasks k"
  "ready_bitmap (set_ready_words s k) = fst s"
  "queues (set_ready_words s k) = snd s"
  "current_ids (set_ready_words s k) = current_ids k"
  "dispatch_counter (set_ready_words s k) = dispatch_counter k"
  "dispatch_seq (set_ready_words s k) = dispatch_seq k"
  "mutexes (set_ready_words s k) = mutexes k"
  "ptask_deadlines (set_ready_words s k) = ptask_deadlines k"
  "timer_slots (set_ready_words s k) = timer_slots k"
  "events (set_ready_words s k) = events k"
  "ready_words (set_ready_words s k) = s"
  by (simp_all add: set_ready_words_def ready_words_def)

lemma wake_other_harts_simps [simp]:
  "tasks (wake_other_harts h k) = tasks k"
  "ready_bitmap (wake_other_harts h k) = ready_bitmap k"
  "queues (wake_other_harts h k) = queues k"
  "current_ids (wake_other_harts h k) = current_ids k"
  "dispatch_counter (wake_other_harts h k) = dispatch_counter k"
  "dispatch_seq (wake_other_harts h k) = dispatch_seq k"
  "mutexes (wake_other_harts h k) = mutexes k"
  "ptask_deadlines (wake_other_harts h k) = ptask_deadlines k"
  "timer_slots (wake_other_harts h k) = timer_slots k"
  "ready_words (wake_other_harts h k) = ready_words k"
  by (simp_all add: wake_other_harts_def ready_words_def)

lemma ready_words_upd [simp]:
  "ready_words (upd_task i f k) = ready_words k"
  "ready_words (upd_mutex m g k) = ready_words k"
  by (simp_all add: ready_words_def)

lemma on_dispatch_simps [simp]:
  "tasks (on_dispatch i k) = tasks k"
  "ready_bitmap (on_dispatch i k) = ready_bitmap k"
  "queues (on_dispatch i k) = queues k"
  "current_ids (on_dispatch i k) = current_ids k"
  "mutexes (on_dispatch i k) = mutexes k"
  "ptask_deadlines (on_dispatch i k) = ptask_deadlines k"
  "timer_slots (on_dispatch i k) = timer_slots k"
  "ready_words (on_dispatch i k) = ready_words k"
  "length (dispatch_seq (on_dispatch i k)) = length (dispatch_seq k)"
  by (simp_all add: on_dispatch_def ready_words_def)

lemma set_current_simps [simp]:
  "tasks (set_current h i k) = tasks k"
  "ready_words (set_current h i k) = ready_words k"
  "ready_bitmap (set_current h i k) = ready_bitmap k"
  "queues (set_current h i k) = queues k"
  "mutexes (set_current h i k) = mutexes k"
  "ptask_deadlines (set_current h i k) = ptask_deadlines k"
  "dispatch_seq (set_current h i k) = dispatch_seq k"
  "dispatch_counter (set_current h i k) = dispatch_counter k"
  "current_ids (set_current h i k) = (current_ids k)[h := Some i]"
  by (simp_all add: set_current_def ready_words_def)

end
