(* ===== verification/Sched_Spec.thy ===== *)
theory Sched_Spec
  imports Sched
begin

text \<open>
  What the scheduler computes, and the invariant its queues keep: \<open>schedule\<close> returns the
  oldest task of the highest occupied priority, also from a bitmap with stale bits, which it
  clears; \<open>queue_ok\<close> ties the ready queues to the task states, with one lemma per way a
  state change touches the queues.
\<close>

section \<open>What the selection computes\<close>

text \<open>Task \<open>i\<close> was dispatched before task \<open>j\<close>; equal stamps are ordered by slot.\<close>

definition older :: "u32 list \<Rightarrow> nat \<Rightarrow> nat \<Rightarrow> bool" where
  "older seqs i j \<longleftrightarrow> seqs ! i < seqs ! j \<or> (seqs ! i = seqs ! j \<and> i < j)"

lemma older_trans: "older s i j \<Longrightarrow> older s j l \<Longrightarrow> older s i l"
  by (auto simp: older_def)

lemma older_irrefl [simp]: "\<not> older s i i"
  by (simp add: older_def)

lemma older_linear: "i \<noteq> j \<Longrightarrow> older s i j \<or> older s j i"
  by (auto simp: older_def)

definition oldest_of :: "u32 list \<Rightarrow> u32 \<Rightarrow> nat \<Rightarrow> bool" where
  "oldest_of seqs w i \<longleftrightarrow> bit w i \<and> (\<forall>j. bit w j \<longrightarrow> j = i \<or> older seqs i j)"

text \<open>
  The scan returns its starting value when no set bit beats it, and otherwise the oldest
  of the set bits.
\<close>

lemma best_scan_spec:
  assumes "\<forall>j. bit w j \<longrightarrow> j < n"
  shows "(best_scan n seqs w best = best \<and> (\<forall>j. bit w j \<longrightarrow> snd best \<le> seqs ! j)) \<or>
    (\<exists>i. best_scan n seqs w best = (Some i, seqs ! i) \<and> oldest_of seqs w i \<and> seqs ! i < snd best)"
  using assms
proof (induction n seqs w best rule: best_scan.induct)
  case (1 n seqs w best)
  show ?case
  proof (cases "w = 0")
    case True
    then show ?thesis by (simp add: best_scan.simps)
  next
    case False
    define d where "d = trailing_zeros w"
    define best' where "best' = (if d < n \<and> seqs ! d < snd best then (Some d, seqs ! d) else best)"
    have d: "bit w d" "\<And>j. bit w j \<Longrightarrow> d \<le> j" "d < n"
      using False "1.prems" trailing_zeros_set [OF False] trailing_zeros_min
      by (auto simp: d_def)
    have bw: "bit w j \<longleftrightarrow> j = d \<or> bit (clear_lowest w) j" for j
      using d(1) False by (auto simp: bit_clear_lowest d_def)
    have cl: "bit (clear_lowest w) j \<longleftrightarrow> bit w j \<and> j \<noteq> d" for j
      using False by (simp add: bit_clear_lowest d_def)
    have eq: "best_scan n seqs w best = best_scan n seqs (clear_lowest w) best'"
      using False by (subst best_scan.simps) (simp add: Let_def best'_def d_def)
    have IH: "(best_scan n seqs (clear_lowest w) best' = best' \<and>
        (\<forall>j. bit (clear_lowest w) j \<longrightarrow> snd best' \<le> seqs ! j)) \<or>
      (\<exists>i. best_scan n seqs (clear_lowest w) best' = (Some i, seqs ! i) \<and>
        oldest_of seqs (clear_lowest w) i \<and> seqs ! i < snd best')"
      unfolding best'_def d_def using False "1.prems" by (intro "1.IH") (auto simp: cl)
    show ?thesis
    proof (cases "seqs ! d < snd best")
      case True
      then have b': "best' = (Some d, seqs ! d)" using d(3) by (simp add: best'_def)
      from IH show ?thesis
      proof
        assume *: "best_scan n seqs (clear_lowest w) best' = best' \<and>
          (\<forall>j. bit (clear_lowest w) j \<longrightarrow> snd best' \<le> seqs ! j)"
        have "oldest_of seqs w d"
          using * d b' by (fastforce simp: oldest_of_def older_def cl order_le_less)
        then show ?thesis using * True eq b' by auto
      next
        assume "\<exists>i. best_scan n seqs (clear_lowest w) best' = (Some i, seqs ! i) \<and>
          oldest_of seqs (clear_lowest w) i \<and> seqs ! i < snd best'"
        then obtain i where i: "best_scan n seqs (clear_lowest w) best' = (Some i, seqs ! i)"
          "oldest_of seqs (clear_lowest w) i" "seqs ! i < snd best'" by blast
        have "oldest_of seqs w i" using i b' by (auto simp: oldest_of_def bw older_def)
        then show ?thesis using i True eq b' by auto
      qed
    next
      case False
      then have b': "best' = best" by (simp add: best'_def)
      from IH show ?thesis
      proof
        assume "best_scan n seqs (clear_lowest w) best' = best' \<and>
          (\<forall>j. bit (clear_lowest w) j \<longrightarrow> snd best' \<le> seqs ! j)"
        then show ?thesis using False eq b' bw by auto
      next
        assume "\<exists>i. best_scan n seqs (clear_lowest w) best' = (Some i, seqs ! i) \<and>
          oldest_of seqs (clear_lowest w) i \<and> seqs ! i < snd best'"
        then obtain i where i: "best_scan n seqs (clear_lowest w) best' = (Some i, seqs ! i)"
          "oldest_of seqs (clear_lowest w) i" "seqs ! i < snd best'" by blast
        have "oldest_of seqs w i" using i b' False by (auto simp: oldest_of_def bw older_def)
        then show ?thesis using i eq b' by auto
      qed
    qed
  qed
qed

lemma u32_max: "(w :: u32) \<le> - 1"
  by (rule word_n1_ge)

text \<open>
  The choice from a non-empty word of valid slots is the oldest of them, also when every
  stamp is \<open>u32::MAX\<close> and the fallback is taken.
\<close>

lemma pick_oldest:
  assumes "w \<noteq> 0" and "\<forall>j. bit w j \<longrightarrow> j < max_ptasks k"
  shows "\<exists>i. pick k w = Some i \<and> oldest_of (dispatch_seq k) w i"
proof -
  have n: "0 < max_ptasks k" "trailing_zeros w < max_ptasks k"
    using assms trailing_zeros_set [OF assms(1)] by auto
  from best_scan_spec [OF assms(2), of "dispatch_seq k" "(None, -1)"] show ?thesis
  proof
    assume *: "best_scan (max_ptasks k) (dispatch_seq k) w (None, - 1) = (None, - 1) \<and>
      (\<forall>j. bit w j \<longrightarrow> snd (None :: nat option, - 1) \<le> dispatch_seq k ! j)"
    then have "\<forall>j. bit w j \<longrightarrow> dispatch_seq k ! j = - 1"
      using u32_max by (auto intro: antisym)
    then have "oldest_of (dispatch_seq k) w (trailing_zeros w)"
      using trailing_zeros_set [OF assms(1)] trailing_zeros_min
      by (auto simp: oldest_of_def older_def order_le_less)
    then show ?thesis using * n by (simp add: pick_def)
  next
    assume "\<exists>i. best_scan (max_ptasks k) (dispatch_seq k) w (None, - 1) =
        (Some i, dispatch_seq k ! i) \<and> oldest_of (dispatch_seq k) w i \<and>
        dispatch_seq k ! i < snd (None :: nat option, - 1)"
    then show ?thesis by (auto simp: pick_def)
  qed
qed

text \<open>
  The bitmap may carry stale bits but misses no occupied level, and queued slots exist:
  what \<open>schedule\<close> itself relies on.
\<close>

definition bitmap_covers :: "kernel \<Rightarrow> bool" where
  "bitmap_covers k \<longleftrightarrow> length (queues k) = 32 \<and>
     (\<forall>p < 32. queues k ! p \<noteq> 0 \<longrightarrow> bit (ready_bitmap k) p) \<and>
     (\<forall>p < 32. \<forall>i. bit (queues k ! p) i \<longrightarrow> i < max_ptasks k)"

definition best_ready :: "kernel \<Rightarrow> nat \<Rightarrow> bool" where
  "best_ready k i \<longleftrightarrow> (\<exists>p. rb_mem (ready_words k) p i \<and>
     (\<forall>q j. rb_mem (ready_words k) q j \<longrightarrow> q < p \<or>
        (q = p \<and> (j = i \<or> older (dispatch_seq k) i j))))"

definition schedule_result :: "kernel \<Rightarrow> nat option \<Rightarrow> bool" where
  "schedule_result k r \<longleftrightarrow>
     (case r of None \<Rightarrow> (\<forall>p i. \<not> rb_mem (ready_words k) p i) | Some i \<Rightarrow> best_ready k i)"

lemma schedule_spec:
  assumes "bitmap_covers k"
  shows "schedule_result k (fst (schedule k)) \<and> bitmap_covers (snd (schedule k)) \<and>
    (\<exists>b. snd (schedule k) = k\<lparr>ready_bitmap := b\<rparr> \<and>
         (\<forall>p < 32. bit b p \<longrightarrow> bit (ready_bitmap k) p))"
  using assms
proof (induction k rule: schedule.induct)
  case (1 k)
  have len: "length (queues k) = 32" and
    cov: "\<And>p. p < 32 \<Longrightarrow> queues k ! p \<noteq> 0 \<Longrightarrow> bit (ready_bitmap k) p" and
    lt: "\<And>p i. p < 32 \<Longrightarrow> bit (queues k ! p) i \<Longrightarrow> i < max_ptasks k"
    using "1.prems" by (auto simp: bitmap_covers_def)
  show ?case
  proof (cases "ready_bitmap k = 0")
    case True
    then have "\<not> rb_mem (ready_words k) p i" for p i
      using cov [of p] by (cases "queues k ! p = 0") (auto simp: rb_mem_def ready_words_def)
    then show ?thesis using True "1.prems"
      by (auto simp: schedule.simps [of k] schedule_result_def intro!: exI [of _ "ready_bitmap k"])
  next
    case False
    define p where "p = hi_bit (ready_bitmap k)"
    have p32: "p < 32" by (simp add: p_def)
    have top: "\<And>q. q < 32 \<Longrightarrow> queues k ! q \<noteq> 0 \<Longrightarrow> q \<le> p"
      using cov hi_bit_max by (auto simp: p_def)
    show ?thesis
    proof (cases "queues k ! p = 0")
      case True
      define k2 where "k2 = k\<lparr>ready_bitmap := ready_bitmap k AND NOT (shl1 p)\<rparr>"
      have cov2: "bitmap_covers k2"
        using "1.prems" True by (auto simp: bitmap_covers_def k2_def bit_clear_bit')
      have eq: "schedule k = schedule k2"
        using False True by (subst schedule.simps) (simp add: Let_def p_def k2_def)
      have rw: "rb_mem (ready_words k2) = rb_mem (ready_words k)"
        by (simp add: fun_eq_iff rb_mem_def ready_words_def k2_def)
      have ds: "dispatch_seq k2 = dispatch_seq k" by (simp add: k2_def)
      have "schedule_result k2 (fst (schedule k2)) \<and> bitmap_covers (snd (schedule k2)) \<and>
        (\<exists>b. snd (schedule k2) = k2\<lparr>ready_bitmap := b\<rparr> \<and>
           (\<forall>q < 32. bit b q \<longrightarrow> bit (ready_bitmap k2) q))"
        unfolding k2_def p_def
        by (rule "1.IH") (use False True cov2 in \<open>simp_all add: p_def k2_def\<close>)
      then show ?thesis unfolding eq schedule_result_def best_ready_def rw ds
        by (auto simp: k2_def bit_clear_bit')
    next
      case nz: False
      have eq: "schedule k = (pick k (queues k ! p), k)"
        using False nz by (subst schedule.simps) (simp add: Let_def p_def)
      obtain i where i: "pick k (queues k ! p) = Some i"
        "oldest_of (dispatch_seq k) (queues k ! p) i"
        using pick_oldest [OF nz] lt [OF p32] by blast
      have "best_ready k i"
        unfolding best_ready_def
      proof (intro exI [of _ p] conjI allI impI)
        show "rb_mem (ready_words k) p i"
          using i p32 by (simp add: rb_mem_def ready_words_def oldest_of_def)
        fix q j assume m: "rb_mem (ready_words k) q j"
        then have "q \<le> p"
          using top [of q] by (cases "queues k ! q = 0") (auto simp: rb_mem_def ready_words_def)
        then show "q < p \<or> (q = p \<and> (j = i \<or> older (dispatch_seq k) i j))"
          using m i(2) by (auto simp: rb_mem_def ready_words_def oldest_of_def)
      qed
      then show ?thesis using i eq "1.prems"
        by (auto simp: schedule_result_def intro!: exI [of _ "ready_bitmap k"])
    qed
  qed
qed

lemma schedule_exact:
  assumes "rb_inv (ready_words k)" and "\<forall>p < 32. \<forall>i. bit (queues k ! p) i \<longrightarrow> i < max_ptasks k"
  shows "snd (schedule k) = k \<and> schedule_result k (fst (schedule k))"
proof -
  have c: "bitmap_covers k"
    using assms by (simp add: bitmap_covers_def rb_inv_def ready_words_def)
  have "snd (schedule k) = k"
  proof (cases "ready_bitmap k = 0")
    case True
    then show ?thesis by (simp add: schedule.simps)
  next
    case False
    then have "queues k ! hi_bit (ready_bitmap k) \<noteq> 0"
      using assms(1) hi_bit_set [OF False] by (auto simp: rb_inv_def ready_words_def)
    then show ?thesis using False by (simp add: schedule.simps [of k] Let_def)
  qed
  then show ?thesis using schedule_spec [OF c] by simp
qed

section \<open>The ready-queue invariant\<close>

text \<open>
  The queues hold exactly the used slots that are ready, each at its effective priority.
  A suspended slot may appear in a queue: \<open>on_effective_priority_change\<close> reads its state
  as Ready (see \<open>boost_requeues_paused\<close> in \<open>Props_Tasks\<close>).
\<close>

definition queueable :: "tcb \<Rightarrow> bool" where
  "queueable t \<longleftrightarrow> used t \<and> (raw_state t = READY \<or> raw_state t = SUSPENDED)"

definition must_queue :: "tcb \<Rightarrow> bool" where
  "must_queue t \<longleftrightarrow> used t \<and> raw_state t = READY"

definition queue_ok :: "kernel \<Rightarrow> bool" where
  "queue_ok k \<longleftrightarrow> rb_inv (ready_words k) \<and>
     (\<forall>p i. rb_mem (ready_words k) p i \<longrightarrow>
        i < max_ptasks k \<and> queueable (tasks k ! i) \<and> effective_priority (tasks k ! i) = p) \<and>
     (\<forall>i < max_ptasks k. must_queue (tasks k ! i) \<longrightarrow>
        rb_mem (ready_words k) (effective_priority (tasks k ! i)) i)"

definition queued :: "kernel \<Rightarrow> nat \<Rightarrow> bool" where
  "queued k i \<longleftrightarrow> (\<exists>p. rb_mem (ready_words k) p i)"

lemma queue_okI:
  assumes "rb_inv (ready_words k)"
    and "\<And>p i. rb_mem (ready_words k) p i \<Longrightarrow>
      i < max_ptasks k \<and> queueable (tasks k ! i) \<and> effective_priority (tasks k ! i) = p"
    and "\<And>i. i < max_ptasks k \<Longrightarrow> must_queue (tasks k ! i) \<Longrightarrow>
      rb_mem (ready_words k) (effective_priority (tasks k ! i)) i"
  shows "queue_ok k"
  using assms unfolding queue_ok_def by blast

lemma queue_okD:
  assumes "queue_ok k" and "rb_mem (ready_words k) p i"
  shows "i < max_ptasks k" "queueable (tasks k ! i)" "effective_priority (tasks k ! i) = p"
  using assms unfolding queue_ok_def by blast+

lemma queue_ok_must: "queue_ok k \<Longrightarrow> i < max_ptasks k \<Longrightarrow> must_queue (tasks k ! i) \<Longrightarrow>
    rb_mem (ready_words k) (effective_priority (tasks k ! i)) i"
  unfolding queue_ok_def by blast

lemma queued_iff: "queue_ok k \<Longrightarrow>
    queued k i \<longleftrightarrow> rb_mem (ready_words k) (effective_priority (tasks k ! i)) i"
  unfolding queued_def using queue_okD(3) by blast

lemma queue_ok_rb_inv: "queue_ok k \<Longrightarrow> rb_inv (ready_words k)"
  by (simp add: queue_ok_def)

text \<open>The part of a control block the queues depend on.\<close>

definition sched_view :: "tcb \<Rightarrow> bool \<times> nat \<times> raw_state" where
  "sched_view t = (used t, effective_priority t, raw_state t)"

lemma sched_view_eqD: "sched_view t = sched_view u \<Longrightarrow>
    used t = used u \<and> effective_priority t = effective_priority u \<and>
    queueable t = queueable u \<and> must_queue t = must_queue u"
  by (simp add: sched_view_def queueable_def must_queue_def)

lemma queue_ok_cong:
  assumes "ready_words k' = ready_words k" and "map sched_view (tasks k') = map sched_view (tasks k)"
  shows "queue_ok k' = queue_ok k"
proof -
  have l: "max_ptasks k' = max_ptasks k" using map_eq_imp_length_eq [OF assms(2)] .
  have v: "sched_view (tasks k' ! i) = sched_view (tasks k ! i)" if "i < max_ptasks k" for i
    using arg_cong [OF assms(2), of "\<lambda>xs. xs ! i"] that l by simp
  show ?thesis
    unfolding queue_ok_def assms(1) l
    using sched_view_eqD [OF v] by (metis (no_types, lifting))
qed

text \<open>Adding and removing at the effective priority, when it is in range.\<close>

lemma ready_add_eq: "i < max_ptasks k \<Longrightarrow> effective_priority (tasks k ! i) < 32 \<Longrightarrow>
    ready_add h i k = Some (wake_other_harts h
      (set_ready_words (rb_add (effective_priority (tasks k ! i)) i (ready_words k)) k))"
  by (simp add: ready_add_def Let_def)

lemma ready_remove_eq: "i < max_ptasks k \<Longrightarrow> effective_priority (tasks k ! i) < 32 \<Longrightarrow>
    ready_remove i k = Some
      (set_ready_words (rb_del (effective_priority (tasks k ! i)) i (ready_words k)) k)"
  by (simp add: ready_remove_def Let_def)

text \<open>
  The three ways a state change can touch the queues: a slot that becomes ready is added, a
  slot that stops being ready is removed, a queued slot moves to a new priority.
\<close>

lemma queue_ok_add:
  assumes ok: "queue_ok k" and i: "i < max_ptasks k" "i < 32"
    and f: "queueable (f (tasks k ! i))" "effective_priority (f (tasks k ! i)) = p" "p < 32"
    and p: "queued k i \<Longrightarrow> effective_priority (tasks k ! i) = p"
  shows "queue_ok (set_ready_words (rb_add p i (ready_words k)) (upd_task i f k))"
proof (rule queue_okI)
  have inv: "rb_inv (ready_words k)" using ok by (rule queue_ok_rb_inv)
  then show "rb_inv (ready_words (set_ready_words (rb_add p i (ready_words k)) (upd_task i f k)))"
    using f i by (simp add: rb_inv_add)
  have m: "rb_mem (rb_add p i (ready_words k)) q j \<longleftrightarrow>
      rb_mem (ready_words k) q j \<or> q = p \<and> j = i" for q j
    using inv f i by (simp add: rb_mem_add)
  have own: "rb_mem (ready_words k) q i \<Longrightarrow> q = p" for q
    using p queue_okD(3) [OF ok] unfolding queued_def by metis
  fix q j
  show "rb_mem (ready_words (set_ready_words (rb_add p i (ready_words k)) (upd_task i f k))) q j \<Longrightarrow>
    j < max_ptasks (set_ready_words (rb_add p i (ready_words k)) (upd_task i f k)) \<and>
    queueable (tasks (set_ready_words (rb_add p i (ready_words k)) (upd_task i f k)) ! j) \<and>
    effective_priority (tasks (set_ready_words (rb_add p i (ready_words k)) (upd_task i f k)) ! j) = q"
    using f i own queue_okD [OF ok] by (cases "j = i") (auto simp: m)
  show "j < max_ptasks (set_ready_words (rb_add p i (ready_words k)) (upd_task i f k)) \<Longrightarrow>
    must_queue (tasks (set_ready_words (rb_add p i (ready_words k)) (upd_task i f k)) ! j) \<Longrightarrow>
    rb_mem (ready_words (set_ready_words (rb_add p i (ready_words k)) (upd_task i f k)))
      (effective_priority (tasks (set_ready_words (rb_add p i (ready_words k)) (upd_task i f k)) ! j)) j"
    using f i queue_ok_must [OF ok] by (cases "j = i") (auto simp: m)
qed

lemma queue_ok_del:
  assumes ok: "queue_ok k" and i: "i < max_ptasks k"
    and p: "effective_priority (tasks k ! i) = p" "p < 32"
    and f: "\<not> must_queue (f (tasks k ! i))"
  shows "queue_ok (set_ready_words (rb_del p i (ready_words k)) (upd_task i f k))"
proof (rule queue_okI)
  have inv: "rb_inv (ready_words k)" using ok by (rule queue_ok_rb_inv)
  then show "rb_inv (ready_words (set_ready_words (rb_del p i (ready_words k)) (upd_task i f k)))"
    using p by (simp add: rb_inv_del)
  have m: "rb_mem (rb_del p i (ready_words k)) q j \<longleftrightarrow>
      rb_mem (ready_words k) q j \<and> \<not> (q = p \<and> j = i)" for q j
    using inv p by (simp add: rb_mem_del)
  have own: "rb_mem (ready_words k) q i \<Longrightarrow> q = p" for q
    using p queue_okD(3) [OF ok] by metis
  fix q j
  show "rb_mem (ready_words (set_ready_words (rb_del p i (ready_words k)) (upd_task i f k))) q j \<Longrightarrow>
    j < max_ptasks (set_ready_words (rb_del p i (ready_words k)) (upd_task i f k)) \<and>
    queueable (tasks (set_ready_words (rb_del p i (ready_words k)) (upd_task i f k)) ! j) \<and>
    effective_priority (tasks (set_ready_words (rb_del p i (ready_words k)) (upd_task i f k)) ! j) = q"
    using own queue_okD [OF ok] by (cases "j = i") (auto simp: m)
  show "j < max_ptasks (set_ready_words (rb_del p i (ready_words k)) (upd_task i f k)) \<Longrightarrow>
    must_queue (tasks (set_ready_words (rb_del p i (ready_words k)) (upd_task i f k)) ! j) \<Longrightarrow>
    rb_mem (ready_words (set_ready_words (rb_del p i (ready_words k)) (upd_task i f k)))
      (effective_priority (tasks (set_ready_words (rb_del p i (ready_words k)) (upd_task i f k)) ! j)) j"
    using f i queue_ok_must [OF ok] by (cases "j = i") (auto simp: m)
qed

lemma queue_ok_move:
  assumes ok: "queue_ok k" and i: "i < max_ptasks k" "i < 32" "queueable (tasks k ! i)"
    and p: "effective_priority (tasks k ! i) = p" "p < 32" "q < 32"
    and f: "queueable (f (tasks k ! i))" "effective_priority (f (tasks k ! i)) = q"
  shows "queue_ok (set_ready_words (rb_add q i (rb_del p i (ready_words k))) (upd_task i f k))"
proof -
  define g where "g = (\<lambda>t :: tcb. t\<lparr>raw_state := BLOCKED\<rparr>)"
  define k1 where "k1 = set_ready_words (rb_del p i (ready_words k)) (upd_task i g k)"
  have ok1: "queue_ok k1"
    unfolding k1_def by (rule queue_ok_del) (use ok i p in \<open>auto simp: g_def must_queue_def\<close>)
  have nq: "\<not> queued k1 i"
    using queue_okD(2) [OF ok1, of _ i] i by (auto simp: queued_def k1_def queueable_def g_def)
  have "queue_ok (set_ready_words (rb_add q i (ready_words k1)) (upd_task i (\<lambda>_. f (tasks k ! i)) k1))"
    by (rule queue_ok_add) (use ok1 i f p nq in \<open>auto simp: k1_def\<close>)
  then show ?thesis
    by (rule iffD1 [OF queue_ok_cong, rotated 2]) (auto simp: k1_def upd_at_def)
qed

lemma queue_ok_upd:
  assumes ok: "queue_ok k" and f: "\<And>t. sched_view (f t) = sched_view t"
  shows "queue_ok (upd_task i f k)"
  using ok by (subst queue_ok_cong [of _ k]) (simp_all add: map_upd_at f)

lemma queue_ok_bits: "queue_ok k \<Longrightarrow> \<forall>p < 32. \<forall>i. bit (queues k ! p) i \<longrightarrow> i < max_ptasks k"
  using queue_okD(1) by (auto simp: rb_mem_def ready_words_def)

text \<open>Under the invariant the selection is pure and exact.\<close>

lemma schedule_ok: "queue_ok k \<Longrightarrow> snd (schedule k) = k"
  using schedule_exact [OF queue_ok_rb_inv queue_ok_bits] by blast

lemma schedule_ok_None: "queue_ok k \<Longrightarrow> fst (schedule k) = None \<Longrightarrow> \<not> queued k i"
  using schedule_exact [OF queue_ok_rb_inv queue_ok_bits]
  by (fastforce simp: schedule_result_def queued_def)

lemma schedule_ok_Some: "queue_ok k \<Longrightarrow> fst (schedule k) = Some i \<Longrightarrow> best_ready k i"
  using schedule_exact [OF queue_ok_rb_inv queue_ok_bits]
  by (fastforce simp: schedule_result_def)

lemma best_readyD:
  assumes "queue_ok k" and "best_ready k i"
  shows "queued k i" "i < max_ptasks k" "queueable (tasks k ! i)"
  using assms by (auto simp: best_ready_def queued_def dest: queue_okD)

lemma schedule_eq: "queue_ok k \<Longrightarrow> schedule k = (fst (schedule k), k)"
  by (metis prod.collapse schedule_ok)

end
