(* ===== verification/Tcb.thy ===== *)
theory Tcb
  imports Sched_Spec
begin

text \<open>
  The task registry (\<open>rivet/src/preempt/tcb.rs\<close>), the scheduler entry points that change a
  task's state (\<open>unblock\<close>, \<open>block_current\<close> of \<open>sched.rs\<close>), and the operations of a
  \<open>TaskHandle\<close> (\<open>rivet/src/preempt/mod.rs\<close>). The operations run inside a critical
  section or on fields only the caller writes, so each is one function on the kernel.
\<close>

section \<open>State and priority changes\<close>

definition set_state :: "nat \<Rightarrow> nat \<Rightarrow> task_state \<Rightarrow> kernel \<Rightarrow> kernel option" where
  "set_state h tid s k =
    (let v = (case s of Ready \<Rightarrow> READY | Running \<Rightarrow> RUNNING | Blocked \<Rightarrow> BLOCKED);
         k1 = upd_task tid (\<lambda>t. t\<lparr>raw_state := v\<rparr>) k
     in case s of
          Ready \<Rightarrow> ready_add h tid k1
        | Running \<Rightarrow> ready_remove tid k1
        | Blocked \<Rightarrow> ready_remove tid k1)"

definition set_effective_priority :: "nat \<Rightarrow> nat \<Rightarrow> kernel \<Rightarrow> kernel option" where
  "set_effective_priority tid new k =
    (let old = effective_priority (tasks k ! tid)
     in on_effective_priority_change tid old new
          (upd_task tid (\<lambda>t. t\<lparr>effective_priority := new\<rparr>) k))"

definition unblock :: "nat \<Rightarrow> nat \<Rightarrow> kernel \<Rightarrow> kernel option" where
  "unblock h tid k =
    (case get_task tid k of None \<Rightarrow> Some k | Some _ \<Rightarrow> set_state h tid Ready k)"

definition block_current :: "nat \<Rightarrow> kernel \<Rightarrow> kernel option" where
  "block_current h k =
    (case current h k of
       None \<Rightarrow> Some k
     | Some tid \<Rightarrow>
         (case get_task tid k of None \<Rightarrow> Some k | Some _ \<Rightarrow> set_state h tid Blocked k))"

section \<open>Held mutexes\<close>

text \<open>
  The loops over the \<open>held\<close> array: the first null slot is taken, the first slot with the
  given pointer is cleared.
\<close>

fun fill_first :: "nat \<Rightarrow> nat option list \<Rightarrow> nat option list option" where
  "fill_first m [] = None"
| "fill_first m (None # hs) = Some (Some m # hs)"
| "fill_first m (Some x # hs) = map_option (\<lambda>r. Some x # r) (fill_first m hs)"

fun clear_first :: "nat \<Rightarrow> nat option list \<Rightarrow> nat option list option" where
  "clear_first m [] = None"
| "clear_first m (x # hs) =
     (if x = Some m then Some (None # hs) else map_option (\<lambda>r. x # r) (clear_first m hs))"

definition push_held :: "nat \<Rightarrow> tcb \<Rightarrow> bool \<times> tcb" where
  "push_held m t =
    (if unat (held_count t) \<ge> length (held t) then (False, t)
     else case fill_first m (held t) of
            None \<Rightarrow> (False, t)
          | Some hs \<Rightarrow> (True, t\<lparr>held := hs, held_count := held_count t + 1\<rparr>))"

definition remove_held :: "nat \<Rightarrow> tcb \<Rightarrow> tcb" where
  "remove_held m t =
    (case clear_first m (held t) of
       None \<Rightarrow> t
     | Some hs \<Rightarrow> t\<lparr>held := hs, held_count := held_count t - 1\<rparr>)"

section \<open>Registration\<close>

text \<open>
  \<open>register_full\<close>: slots are tried in order; a slot that is not used and whose state byte
  is READY is claimed (the compare-exchange READY to RESERVED), initialised, published with
  \<open>used\<close> and added to the ready queues. A result left by the previous occupant is dropped.
\<close>

definition claim_slot :: "usize \<Rightarrow> nat \<Rightarrow> usize \<Rightarrow> usize \<Rightarrow> tcb \<Rightarrow> tcb" where
  "claim_slot sp0 priority base sz t =
     t\<lparr>sp := sp0, base_priority := priority, effective_priority := priority,
       stack_base := base, stack_size := sz, result_drop := 0, joiner := None,
       exited := False, stop_requested := False, result_size := 0, held_count := 0,
       raw_state := READY, used := True, generation := generation t + 1\<rparr>"

fun register_from :: "nat list \<Rightarrow> nat \<Rightarrow> usize \<Rightarrow> nat \<Rightarrow> usize \<Rightarrow> usize \<Rightarrow> kernel
    \<Rightarrow> (nat option \<times> kernel) option" where
  "register_from [] h sp0 priority base sz k = Some (None, k)"
| "register_from (i # is) h sp0 priority base sz k =
     (if used (tasks k ! i) then register_from is h sp0 priority base sz k
      else if raw_state (tasks k ! i) = READY
      then do {
        let k1 = (if result_drop (tasks k ! i) \<noteq> 0 then emit (Drop_result i) k else k);
        k2 \<leftarrow> ready_add h i (upd_task i (claim_slot sp0 priority base sz) k1);
        Some (Some i, k2)
      }
      else register_from is h sp0 priority base sz k)"

definition register_full :: "nat \<Rightarrow> usize \<Rightarrow> nat \<Rightarrow> usize \<Rightarrow> usize \<Rightarrow> kernel
    \<Rightarrow> (nat option \<times> kernel) option" where
  "register_full h sp0 priority base sz k =
     register_from [0..<max_ptasks k] h sp0 priority base sz k"

definition register :: "nat \<Rightarrow> usize \<Rightarrow> nat \<Rightarrow> kernel \<Rightarrow> (nat option \<times> kernel) option" where
  "register h sp0 priority k = register_full h sp0 priority 0 0 k"

definition stack_info :: "tcb \<Rightarrow> (usize \<times> usize) option" where
  "stack_info t = (if stack_base t = 0 \<or> stack_size t = 0 then None
                   else Some (stack_base t, stack_size t))"

section \<open>Spawning\<close>

record task_handle =
  handle_id :: nat
  handle_gen :: u32

datatype spawn_error = RegistryFull | StackPoolFull

text \<open>
  \<open>spawn\<close> on a stack \<open>(base, sz)\<close>. The port's \<open>min_task_stack\<close> and the initial
  stack pointer its \<open>init_task_stack\<close> builds are arguments, as are the size of the entry's
  return type and its drop function (0 when it needs none).
\<close>

definition spawn :: "nat \<Rightarrow> usize \<Rightarrow> (usize \<Rightarrow> usize \<Rightarrow> usize) \<Rightarrow> usize \<Rightarrow> usize \<Rightarrow> nat
    \<Rightarrow> u8 \<Rightarrow> usize \<Rightarrow> kernel \<Rightarrow> ((spawn_error + task_handle) \<times> kernel) option" where
  "spawn h min_task_stack init_task_stack base sz priority ret_size drop_fn k =
    (if sz < min_task_stack then None
     else do {
       let sp0 = init_task_stack base sz;
       (r, k1) \<leftarrow> register_full h sp0 priority base sz k;
       (case r of
          None \<Rightarrow> Some (Inl RegistryFull, k1)
        | Some i \<Rightarrow>
            (case get_task i k1 of
               None \<Rightarrow> None
             | Some t \<Rightarrow>
                 Some (Inr \<lparr>handle_id = i, handle_gen = generation t\<rparr>,
                   upd_task i (\<lambda>t. t\<lparr>result_size := ret_size, result_drop := drop_fn\<rparr>) k1)))
     })"

section \<open>Handles\<close>

definition is_valid :: "task_handle \<Rightarrow> kernel \<Rightarrow> bool" where
  "is_valid th k = (case get_task (handle_id th) k of
     None \<Rightarrow> False | Some t \<Rightarrow> generation t = handle_gen th)"

definition request_stop :: "task_handle \<Rightarrow> kernel \<Rightarrow> bool \<times> kernel" where
  "request_stop th k = (case get_task (handle_id th) k of
     Some t \<Rightarrow> (if generation t = handle_gen th
               then (True, upd_task (handle_id th) (\<lambda>t. t\<lparr>stop_requested := True\<rparr>) k)
               else (False, k))
   | None \<Rightarrow> (False, k))"

definition should_stop :: "nat \<Rightarrow> kernel \<Rightarrow> bool" where
  "should_stop h k = (case current h k of
     None \<Rightarrow> False
   | Some tid \<Rightarrow> (case get_task tid k of None \<Rightarrow> False | Some t \<Rightarrow> stop_requested t))"

definition despawn :: "nat \<Rightarrow> task_handle \<Rightarrow> kernel \<Rightarrow> (bool \<times> kernel) option" where
  "despawn h th k =
    (let i = handle_id th
     in case get_task i k of
          None \<Rightarrow> Some (False, k)
        | Some t \<Rightarrow>
            (if generation t \<noteq> handle_gen th then Some (False, k)
             else if current h k = Some i then Some (False, k)
             else do {
               k1 \<leftarrow> ready_remove i k;
               let k2 = (if result_drop t \<noteq> 0 then emit (Drop_result i) k1 else k1);
               let k3 = upd_task i (\<lambda>t. t\<lparr>result_drop := 0, raw_state := READY, exited := False,
                   result_size := 0, stop_requested := False, used := False\<rparr>) k2;
               let k4 = (case stack_info t of
                   None \<Rightarrow> k3 | Some (base, sz) \<Rightarrow> emit (Release_stack base sz) k3);
               Some (True, upd_task i (\<lambda>t. t\<lparr>stack_base := 0, stack_size := 0\<rparr>) k4)
             }))"

definition pause :: "task_handle \<Rightarrow> kernel \<Rightarrow> (bool \<times> kernel) option" where
  "pause th k =
    (let i = handle_id th
     in case get_task i k of
          None \<Rightarrow> Some (False, k)
        | Some t \<Rightarrow>
            (if generation t \<noteq> handle_gen th then Some (False, k)
             else if raw_state t = READY
             then do {
               k1 \<leftarrow> ready_remove i (upd_task i (\<lambda>t. t\<lparr>raw_state := SUSPENDED\<rparr>) k);
               Some (True, k1)
             }
             else Some (False, k)))"

definition resume :: "nat \<Rightarrow> task_handle \<Rightarrow> kernel \<Rightarrow> (bool \<times> kernel) option" where
  "resume h th k =
    (let i = handle_id th
     in case get_task i k of
          None \<Rightarrow> Some (False, k)
        | Some t \<Rightarrow>
            (if generation t \<noteq> handle_gen th then Some (False, k)
             else if raw_state t = SUSPENDED
             then do {
               k1 \<leftarrow> ready_add h i (upd_task i (\<lambda>t. t\<lparr>raw_state := READY\<rparr>) k);
               Some (True, k1)
             }
             else Some (False, k)))"

end
