(* ===== verification/Tcb_Inv.thy ===== *)
theory Tcb_Inv
  imports Tcb
begin

text \<open>
  The kernel invariant \<open>good\<close> (structural well-formedness and the ready-queue invariant)
  and its preservation by the registry and handle operations. Under it no operation panics.
\<close>

section \<open>Structural well-formedness of the primitive updates\<close>

lemma wf_tcb_cong: "length (mutexes k') = length (mutexes k) \<Longrightarrow> max_ptasks k' = max_ptasks k \<Longrightarrow>
    wf_tcb k' t = wf_tcb k t"
  by (simp add: wf_tcb_def)

lemma wf_mutex_cong: "max_ptasks k' = max_ptasks k \<Longrightarrow> wf_mutex k' m = wf_mutex k m"
  by (simp add: wf_mutex_def)

lemma wfD:
  assumes "wf k"
  shows "0 < max_ptasks k" "max_ptasks k \<le> 32" "0 < max_harts k" "length (queues k) = 32"
    "length (dispatch_seq k) = max_ptasks k" "length (ptask_deadlines k) = max_ptasks k"
    "i < max_ptasks k \<Longrightarrow> i < 32"
    "i < max_ptasks k \<Longrightarrow> wf_tcb k (tasks k ! i)"
    "m < length (mutexes k) \<Longrightarrow> wf_mutex k (mutexes k ! m)"
    "h < max_harts k \<Longrightarrow> current_ids k ! h = Some i \<Longrightarrow> i < max_ptasks k"
    "i < max_ptasks k \<Longrightarrow> effective_priority (tasks k ! i) < 32"
    "i < max_ptasks k \<Longrightarrow> base_priority (tasks k ! i) < 32"
  using assms unfolding wf_def wf_tcb_def by (auto dest!: nth_mem)

lemma set_upd_at: "x \<in> set (upd_at i f xs) \<Longrightarrow> x \<in> set xs \<or> (i < length xs \<and> x = f (xs ! i))"
  by (auto simp: upd_at_def split: if_splits dest: set_update_subset_insert [THEN subsetD])

lemma wf_upd_task:
  assumes "wf k" and "i < max_ptasks k \<Longrightarrow> wf_tcb k (f (tasks k ! i))"
  shows "wf (upd_task i f k)"
  using assms unfolding wf_def
  by (auto dest!: set_upd_at simp: wf_tcb_cong [of "upd_task i f k" k] wf_mutex_cong [of "upd_task i f k" k])

lemma wf_upd_mutex:
  assumes "wf k" and "m < length (mutexes k) \<Longrightarrow> wf_mutex k (f (mutexes k ! m))"
  shows "wf (upd_mutex m f k)"
  using assms unfolding wf_def
  by (auto dest!: set_upd_at simp: wf_tcb_cong [of "upd_mutex m f k" k] wf_mutex_cong [of "upd_mutex m f k" k])

lemma wf_frame:
  assumes "wf k" and "tasks k' = tasks k" and "mutexes k' = mutexes k"
    and "current_ids k' = current_ids k" and "length (queues k') = length (queues k)"
    and "length (dispatch_seq k') = length (dispatch_seq k)"
    and "length (ptask_deadlines k') = length (ptask_deadlines k)"
  shows "wf k'"
  using assms unfolding wf_def by (auto simp: wf_tcb_cong [of k' k] wf_mutex_cong [of k' k])

lemma wf_set_ready_words: "wf k \<Longrightarrow> length (snd s) = 32 \<Longrightarrow> wf (set_ready_words s k)"
  by (frule wfD(4), erule wf_frame) simp_all

lemma wf_wake_other_harts: "wf k \<Longrightarrow> wf (wake_other_harts h k)"
  by (erule wf_frame) simp_all

lemma wf_emits: "wf k \<Longrightarrow> wf (emits es k)"
  by (erule wf_frame) simp_all

lemma wf_on_dispatch: "wf k \<Longrightarrow> wf (on_dispatch i k)"
  by (erule wf_frame) simp_all

lemma wf_set_current: "wf k \<Longrightarrow> i < max_ptasks k \<Longrightarrow> wf (set_current h i k)"
  unfolding wf_def
  by (auto simp: wf_tcb_cong [of "set_current h i k" k] wf_mutex_cong [of "set_current h i k" k]
      dest!: set_update_subset_insert [THEN subsetD])

lemma length_rb [simp]:
  "length (snd (rb_add p i s)) = length (snd s)" "length (snd (rb_del p i s)) = length (snd s)"
  by (simp_all add: rb_add_def rb_del_def)

lemma length_ready_words [simp]: "length (snd (ready_words k)) = length (queues k)"
  by (simp add: ready_words_def)

section \<open>The kernel invariant\<close>

definition good :: "kernel \<Rightarrow> bool" where
  "good k \<longleftrightarrow> wf k \<and> queue_ok k"

lemma goodI: "wf k \<Longrightarrow> queue_ok k \<Longrightarrow> good k"
  by (simp add: good_def)

lemma goodD: "good k \<Longrightarrow> wf k" "good k \<Longrightarrow> queue_ok k"
  by (simp_all add: good_def)

lemmas good_wf = goodD(1) [THEN wfD(1)] goodD(1) [THEN wfD(2)] goodD(1) [THEN wfD(3)]
  goodD(1) [THEN wfD(4)] goodD(1) [THEN wfD(5)] goodD(1) [THEN wfD(6)] goodD(1) [THEN wfD(7)]
  goodD(1) [THEN wfD(8)] goodD(1) [THEN wfD(9)] goodD(1) [THEN wfD(10)] goodD(1) [THEN wfD(11)]
  goodD(1) [THEN wfD(12)]

text \<open>Any update of fields the invariant does not read.\<close>

lemma good_frame:
  assumes "good k" and "tasks k' = tasks k" and "mutexes k' = mutexes k"
    and "current_ids k' = current_ids k" and "ready_words k' = ready_words k"
    and "length (dispatch_seq k') = length (dispatch_seq k)"
    and "length (ptask_deadlines k') = length (ptask_deadlines k)"
  shows "good k'"
proof (rule goodI)
  have "queues k' = queues k" using assms(5) by (simp add: ready_words_def)
  then show "wf k'" using assms by (intro wf_frame [OF goodD(1) [OF assms(1)]]) auto
  show "queue_ok k'" using assms by (subst queue_ok_cong [of k' k]) (auto dest: goodD)
qed

lemma ready_words_emits [simp]: "ready_words (emits es k) = ready_words k"
  by (simp add: ready_words_def)

lemma good_emits [simp]: "good k \<Longrightarrow> good (emits es k)"
  by (erule good_frame) simp_all

lemma good_wake_other_harts [simp]: "good k \<Longrightarrow> good (wake_other_harts h k)"
  by (erule good_frame) simp_all

lemma good_on_dispatch [simp]: "good k \<Longrightarrow> good (on_dispatch i k)"
  by (erule good_frame) simp_all

lemma good_set_current: "good k \<Longrightarrow> i < max_ptasks k \<Longrightarrow> good (set_current h i k)"
  using queue_ok_cong [of "set_current h i k" k]
  by (auto simp: good_def wf_set_current)

lemma good_upd_task:
  assumes "good k" and "i < max_ptasks k \<Longrightarrow> wf_tcb k (f (tasks k ! i))"
    and "\<And>t. sched_view (f t) = sched_view t"
  shows "good (upd_task i f k)"
  using assms by (auto simp: good_def intro: wf_upd_task queue_ok_upd)

text \<open>An update of fields the invariant does not read.\<close>

definition inv_view :: "tcb \<Rightarrow> (bool \<times> nat \<times> raw_state) \<times> nat \<times> nat \<times> nat option list \<times> nat option" where
  "inv_view t = (sched_view t, base_priority t, length (result_buf t), held t, joiner t)"

lemma good_upd_view: "good k \<Longrightarrow> (\<And>t. inv_view (f t) = inv_view t) \<Longrightarrow> good (upd_task i f k)"
  by (rule good_upd_task)
    (auto simp: inv_view_def sched_view_def wf_tcb_def dest: goodD(1) [THEN wfD(8)])

lemma good_upd_mutex:
  assumes "good k" and "m < length (mutexes k) \<Longrightarrow> wf_mutex k (f (mutexes k ! m))"
  shows "good (upd_mutex m f k)"
  using assms queue_ok_cong [of "upd_mutex m f k" k] by (auto simp: good_def intro: wf_upd_mutex)

section \<open>State changes\<close>

abbreviation set_raw :: "nat \<Rightarrow> raw_state \<Rightarrow> kernel \<Rightarrow> kernel" where
  "set_raw i v k \<equiv> upd_task i (\<lambda>t. t\<lparr>raw_state := v\<rparr>) k"

lemma wf_set_raw [simp]: "wf k \<Longrightarrow> v \<noteq> RESERVED \<Longrightarrow> wf (set_raw i v k)"
  by (rule wf_upd_task) (auto simp: wf_tcb_def dest: wfD(8))

text \<open>A task enters the queues at its own effective priority.\<close>

definition enqueue :: "nat \<Rightarrow> nat \<Rightarrow> kernel \<Rightarrow> kernel" where
  "enqueue h i k = wake_other_harts h
     (set_ready_words (rb_add (effective_priority (tasks k ! i)) i (ready_words k)) k)"

definition dequeue :: "nat \<Rightarrow> kernel \<Rightarrow> kernel" where
  "dequeue i k = set_ready_words (rb_del (effective_priority (tasks k ! i)) i (ready_words k)) k"

lemma enqueue_simps [simp]:
  "tasks (enqueue h i k) = tasks k" "mutexes (enqueue h i k) = mutexes k"
  "current_ids (enqueue h i k) = current_ids k" "dispatch_seq (enqueue h i k) = dispatch_seq k"
  "ptask_deadlines (enqueue h i k) = ptask_deadlines k"
  "timer_slots (enqueue h i k) = timer_slots k"
  "dispatch_counter (enqueue h i k) = dispatch_counter k"
  "ready_words (enqueue h i k) = rb_add (effective_priority (tasks k ! i)) i (ready_words k)"
  by (simp_all add: enqueue_def)

lemma dequeue_simps [simp]:
  "tasks (dequeue i k) = tasks k" "mutexes (dequeue i k) = mutexes k"
  "current_ids (dequeue i k) = current_ids k" "dispatch_seq (dequeue i k) = dispatch_seq k"
  "ptask_deadlines (dequeue i k) = ptask_deadlines k"
  "timer_slots (dequeue i k) = timer_slots k"
  "dispatch_counter (dequeue i k) = dispatch_counter k"
  "ready_words (dequeue i k) = rb_del (effective_priority (tasks k ! i)) i (ready_words k)"
  by (simp_all add: dequeue_def)

lemma ready_add_wf: "wf k \<Longrightarrow> i < max_ptasks k \<Longrightarrow> ready_add h i k = Some (enqueue h i k)"
  by (simp add: ready_add_eq wfD enqueue_def)

lemma ready_remove_wf: "wf k \<Longrightarrow> i < max_ptasks k \<Longrightarrow> ready_remove i k = Some (dequeue i k)"
  by (simp add: ready_remove_eq wfD dequeue_def)

lemma wf_enqueue [simp]: "wf k \<Longrightarrow> wf (enqueue h i k)"
  by (simp add: enqueue_def wf_wake_other_harts wf_set_ready_words wfD)

lemma wf_dequeue [simp]: "wf k \<Longrightarrow> wf (dequeue i k)"
  by (simp add: dequeue_def wf_set_ready_words wfD)

lemma good_enqueue:
  assumes g: "good k" and wf': "wf (upd_task i f k)" and i: "i < max_ptasks k"
    and f: "queueable (f (tasks k ! i))"
    and p: "queued k i \<Longrightarrow>
      effective_priority (tasks k ! i) = effective_priority (f (tasks k ! i))"
  shows "good (enqueue h i (upd_task i f k))"
proof -
  let ?p = "effective_priority (f (tasks k ! i))"
  have p32: "?p < 32" using wfD(11) [OF wf', of i] i by simp
  have "queue_ok (set_ready_words (rb_add ?p i (ready_words k)) (upd_task i f k))"
    by (rule queue_ok_add) (use g i f p p32 good_wf(7) [OF g] in \<open>auto dest: goodD\<close>)
  moreover have "wf (set_ready_words (rb_add ?p i (ready_words k)) (upd_task i f k))"
    using wf' g by (simp add: wf_set_ready_words good_wf)
  ultimately have "good (set_ready_words (rb_add ?p i (ready_words k)) (upd_task i f k))"
    by (simp add: good_def)
  then show ?thesis using i by (simp add: enqueue_def)
qed

lemma good_dequeue:
  assumes g: "good k" and wf': "wf (upd_task i f k)" and i: "i < max_ptasks k"
    and f: "\<not> must_queue (f (tasks k ! i))"
    and p: "effective_priority (f (tasks k ! i)) = effective_priority (tasks k ! i)"
  shows "good (dequeue i (upd_task i f k))"
  using queue_ok_del [of k i "effective_priority (tasks k ! i)" f] assms
    good_wf(11) [OF g i]
  by (auto simp: good_def dequeue_def wf_set_ready_words wfD)

text \<open>
  The invariant does not constrain a slot that is neither used nor queued, so a removal may
  come before the update of the fields and not only after it.
\<close>

lemma good_dequeue_first:
  assumes g: "good k" and i: "i < max_ptasks k" and wf': "wf (upd_task i f k)"
    and f: "\<not> must_queue (f (tasks k ! i))"
  shows "good (upd_task i f (dequeue i k))"
proof -
  let ?p = "effective_priority (tasks k ! i)"
  have "queue_ok (set_ready_words (rb_del ?p i (ready_words k)) (upd_task i f k))"
    by (rule queue_ok_del) (use assms good_wf(11) [OF g i] in \<open>auto dest: goodD\<close>)
  moreover have "upd_task i f (dequeue i k) =
      set_ready_words (rb_del ?p i (ready_words k)) (upd_task i f k)"
    by (simp add: dequeue_def upd_task_def set_ready_words_def)
  ultimately show ?thesis using wf' g by (simp add: good_def wf_set_ready_words good_wf)
qed

lemma set_state_Ready_wf: "wf k \<Longrightarrow> i < max_ptasks k \<Longrightarrow>
    set_state h i Ready k = Some (enqueue h i (set_raw i READY k))"
  by (simp add: set_state_def ready_add_wf)

lemma set_state_Running_wf: "wf k \<Longrightarrow> i < max_ptasks k \<Longrightarrow>
    set_state h i Running k = Some (dequeue i (set_raw i RUNNING k))"
  by (simp add: set_state_def ready_remove_wf)

lemma set_state_Blocked_wf: "wf k \<Longrightarrow> i < max_ptasks k \<Longrightarrow>
    set_state h i Blocked k = Some (dequeue i (set_raw i BLOCKED k))"
  by (simp add: set_state_def ready_remove_wf)

lemmas set_state_wf = set_state_Ready_wf set_state_Running_wf set_state_Blocked_wf

lemma good_make_ready: "good k \<Longrightarrow> i < max_ptasks k \<Longrightarrow> used (tasks k ! i) \<Longrightarrow>
    good (enqueue h i (set_raw i READY k))"
  by (rule good_enqueue) (auto simp: goodD queueable_def)

lemma good_make_unready: "good k \<Longrightarrow> i < max_ptasks k \<Longrightarrow> v \<noteq> READY \<Longrightarrow> v \<noteq> RESERVED \<Longrightarrow>
    good (dequeue i (set_raw i v k))"
  by (rule good_dequeue) (auto simp: goodD must_queue_def)

lemma set_state_good:
  assumes "good k" and "i < max_ptasks k" and "s = Ready \<Longrightarrow> used (tasks k ! i)"
  shows "\<exists>k'. set_state h i s k = Some k' \<and> good k'"
  using assms
  by (cases s) (auto simp: set_state_wf goodD good_make_ready good_make_unready)

section \<open>Priority changes\<close>

definition requeue :: "nat \<Rightarrow> nat \<Rightarrow> kernel \<Rightarrow> kernel" where
  "requeue i new k =
    (let t = tasks k ! i; k1 = upd_task i (\<lambda>t. t\<lparr>effective_priority := new\<rparr>) k
     in if effective_priority t = new \<or> state_of t \<noteq> Ready then k1
        else set_ready_words
          (rb_add new i (rb_del (effective_priority t) i (ready_words k))) k1)"

lemma set_effective_priority_wf:
  "wf k \<Longrightarrow> i < max_ptasks k \<Longrightarrow> new < 32 \<Longrightarrow>
    set_effective_priority i new k = Some (requeue i new k)"
  by (auto simp: set_effective_priority_def on_effective_priority_change_def requeue_def Let_def
      state_of_def split: raw_state.splits dest!: wfD(11) [of k i])

lemma requeue_simps [simp]:
  "tasks (requeue i new k) = upd_at i (\<lambda>t. t\<lparr>effective_priority := new\<rparr>) (tasks k)"
  "mutexes (requeue i new k) = mutexes k" "current_ids (requeue i new k) = current_ids k"
  "dispatch_seq (requeue i new k) = dispatch_seq k"
  "ptask_deadlines (requeue i new k) = ptask_deadlines k"
  by (simp_all add: requeue_def Let_def)

lemma wf_requeue: "wf k \<Longrightarrow> new < 32 \<Longrightarrow> wf (requeue i new k)"
  by (auto simp: requeue_def Let_def wf_tcb_def wfD intro!: wf_set_ready_words wf_upd_task
      dest: wfD(8))

text \<open>
  Changing a priority keeps the invariant, provided the slot is in use.
\<close>

lemma good_requeue:
  assumes g: "good k" and i: "i < max_ptasks k" "new < 32"
    and u: "used (tasks k ! i)"
  shows "good (requeue i new k)"
proof -
  let ?t = "tasks k ! i" and ?f = "\<lambda>t :: tcb. t\<lparr>effective_priority := new\<rparr>"
  have s: "used ?t" "raw_state ?t \<noteq> RESERVED" using u good_wf(8) [OF g i(1)] by (auto simp: wf_tcb_def)
  have w: "wf (requeue i new k)" using g i by (simp add: wf_requeue goodD)
  have "queue_ok (requeue i new k)"
  proof (cases "state_of ?t = Ready")
    case True
    then have q: "queueable ?t" using s by (auto simp: queueable_def state_of_def split: raw_state.splits)
    show ?thesis
    proof (cases "effective_priority ?t = new")
      case True
      then have "tasks (upd_task i ?f k) = tasks k" by (auto simp: upd_at_def intro!: list_update_same_conv [THEN iffD2])
      then show ?thesis using True g queue_ok_cong [of "upd_task i ?f k" k]
        by (simp add: requeue_def Let_def goodD)
    next
      case False
      have "queue_ok (set_ready_words (rb_add new i (rb_del (effective_priority ?t) i (ready_words k)))
          (upd_task i ?f k))"
        by (rule queue_ok_move) (use g i q good_wf(11) [OF g i(1)] good_wf(7) [OF g i(1)] in
            \<open>auto simp: queueable_def dest: goodD\<close>)
      then show ?thesis using True False by (simp add: requeue_def Let_def)
    qed
  next
    case False
    then have nq: "\<not> queueable ?t" by (auto simp: queueable_def state_of_def)
    have "queue_ok (upd_task i ?f k)"
    proof (rule queue_okI)
      show "rb_inv (ready_words (upd_task i ?f k))" using g by (simp add: queue_ok_rb_inv goodD)
      fix p j
      show "rb_mem (ready_words (upd_task i ?f k)) p j \<Longrightarrow> j < max_ptasks (upd_task i ?f k) \<and>
          queueable (tasks (upd_task i ?f k) ! j) \<and> effective_priority (tasks (upd_task i ?f k) ! j) = p"
        using queue_okD [OF goodD(2) [OF g]] nq by (cases "j = i") auto
      show "j < max_ptasks (upd_task i ?f k) \<Longrightarrow> must_queue (tasks (upd_task i ?f k) ! j) \<Longrightarrow>
          rb_mem (ready_words (upd_task i ?f k)) (effective_priority (tasks (upd_task i ?f k) ! j)) j"
        using queue_ok_must [OF goodD(2) [OF g]] nq i
        by (cases "j = i") (auto simp: must_queue_def queueable_def)
    qed
    then show ?thesis using False by (simp add: requeue_def Let_def)
  qed
  then show ?thesis using w by (rule goodI [rotated])
qed

end
