(* ===== verification/Tcb_Ops.thy ===== *)
theory Tcb_Ops
  imports Tcb_Inv
begin

text \<open>
  The operations of \<open>Tcb\<close> under the kernel invariant: each is total, keeps the invariant,
  and has the effect its documentation states. The locale \<open>task_states\<close> is the interface
  through which the timers, mutexes and the lifecycle code wake tasks.
\<close>

section \<open>Waking and blocking\<close>

lemma unblock_wf: "wf k \<Longrightarrow> unblock h i k =
    Some (if i < max_ptasks k \<and> used (tasks k ! i) then enqueue h i (set_raw i READY k) else k)"
  by (auto simp: unblock_def get_task_def set_state_wf)

lemma unblock_good: "good k \<Longrightarrow> \<exists>k'. unblock h i k = Some k' \<and> good k'"
  by (auto simp: unblock_wf goodD good_make_ready)

lemma block_current_wf: "wf k \<Longrightarrow> h < max_harts k \<Longrightarrow> block_current h k =
    Some (case current h k of None \<Rightarrow> k
      | Some i \<Rightarrow> (if used (tasks k ! i) then dequeue i (set_raw i BLOCKED k) else k))"
  by (auto simp: block_current_def current_def get_task_def set_state_wf dest: wfD(10)
      split: option.splits)

lemma block_current_good: "good k \<Longrightarrow> h < max_harts k \<Longrightarrow>
    \<exists>k'. block_current h k = Some k' \<and> good k'"
  by (auto simp: block_current_wf goodD current_def split: option.splits
      intro!: good_make_unready dest: good_wf(10))

text \<open>
  What a component that wakes tasks relies on: waking never panics, keeps the invariant and
  the sizes of the arrays, makes exactly the named task ready, and leaves every other task's
  control block alone.
\<close>

locale task_states =
  fixes inv :: "'k \<Rightarrow> bool"
    and n_tasks :: "'k \<Rightarrow> nat"
    and ready :: "'k \<Rightarrow> nat \<Rightarrow> bool"
    and live :: "'k \<Rightarrow> nat \<Rightarrow> bool"
    and wake :: "nat \<Rightarrow> 'k \<Rightarrow> 'k option"
  assumes wake_total: "inv k \<Longrightarrow> \<exists>k'. wake i k = Some k' \<and> inv k'"
    and wake_live: "inv k \<Longrightarrow> wake i k = Some k' \<Longrightarrow> live k' j = live k j"
    and wake_ready: "inv k \<Longrightarrow> wake i k = Some k' \<Longrightarrow>
      ready k' j \<longleftrightarrow> ready k j \<or> (j = i \<and> live k i)"
begin

fun wake_each :: "nat list \<Rightarrow> 'k \<Rightarrow> 'k option" where
  "wake_each [] k = Some k"
| "wake_each (i # is) k = (case wake i k of None \<Rightarrow> None | Some k' \<Rightarrow> wake_each is k')"

lemma wake_each_spec:
  "inv k \<Longrightarrow> \<exists>k'. wake_each is k = Some k' \<and> inv k' \<and>
    (\<forall>j. live k' j = live k j) \<and>
    (\<forall>j. ready k' j \<longleftrightarrow> ready k j \<or> (j \<in> set is \<and> live k j))"
proof (induction "is" arbitrary: k)
  case Nil
  then show ?case by simp
next
  case (Cons i "is")
  obtain k1 where k1: "wake i k = Some k1" "inv k1" using wake_total [OF Cons.prems] by blast
  from Cons.IH [OF k1(2)] obtain k' where k': "wake_each is k1 = Some k'" "inv k'"
    "\<forall>j. live k' j = live k1 j"
    "\<forall>j. ready k' j \<longleftrightarrow> ready k1 j \<or> (j \<in> set is \<and> live k1 j)" by blast
  then show ?case
    using k1 wake_live [OF Cons.prems k1(1)] wake_ready [OF Cons.prems k1(1)]
    by (intro exI [of _ k']) auto
qed

lemma wake_each_append: "wake_each (xs @ ys) k =
    (case wake_each xs k of None \<Rightarrow> None | Some k' \<Rightarrow> wake_each ys k')"
  by (induction xs arbitrary: k) (auto split: option.splits)

end

definition task_live :: "kernel \<Rightarrow> nat \<Rightarrow> bool" where
  "task_live k i \<longleftrightarrow> i < max_ptasks k \<and> used (tasks k ! i)"

definition task_ready :: "kernel \<Rightarrow> nat \<Rightarrow> bool" where
  "task_ready k i \<longleftrightarrow> i < max_ptasks k \<and> used (tasks k ! i) \<and> raw_state (tasks k ! i) = READY"

lemma task_ready_queued: "good k \<Longrightarrow> task_ready k i \<Longrightarrow> queued k i"
  using queue_ok_must [OF goodD(2)] by (auto simp: task_ready_def must_queue_def queued_def)

interpretation ts: task_states good "\<lambda>k. max_ptasks k" task_ready task_live "unblock h" for h
proof unfold_locales
  fix k k' i j
  show "good k \<Longrightarrow> \<exists>k'. unblock h i k = Some k' \<and> good k'" by (rule unblock_good)
  assume g: "good k" and u: "unblock h i k = Some k'"
  have k': "k' = (if i < max_ptasks k \<and> used (tasks k ! i) then enqueue h i (set_raw i READY k) else k)"
    using u g by (simp add: unblock_wf goodD)
  show "task_live k' j = task_live k j"
    by (cases "j = i") (auto simp: k' task_live_def)
  show "task_ready k' j = (task_ready k j \<or> j = i \<and> task_live k i)"
    by (cases "j = i") (auto simp: k' task_ready_def task_live_def)
qed

section \<open>Held mutexes\<close>

definition held_ok :: "tcb \<Rightarrow> bool" where
  "held_ok t \<longleftrightarrow> unat (held_count t) = length (filter (\<lambda>x. x \<noteq> None) (held t)) \<and>
     length (held t) < 256"

definition held_set :: "tcb \<Rightarrow> nat set" where
  "held_set t = {m. Some m \<in> set (held t)}"

lemma fill_first_None: "fill_first m hs = None \<longleftrightarrow> None \<notin> set hs"
  by (induction m hs rule: fill_first.induct) auto

lemma fill_first_Some:
  "fill_first m hs = Some hs' \<Longrightarrow> length hs' = length hs \<and>
    length (filter (\<lambda>x. x \<noteq> None) hs') = Suc (length (filter (\<lambda>x. x \<noteq> None) hs)) \<and>
    (\<forall>x. Some x \<in> set hs' \<longleftrightarrow> x = m \<or> Some x \<in> set hs)"
  by (induction m hs arbitrary: hs' rule: fill_first.induct) auto

lemma clear_first_None: "clear_first m hs = None \<longleftrightarrow> Some m \<notin> set hs"
  by (induction m hs rule: clear_first.induct) auto

lemma clear_first_Some:
  "clear_first m hs = Some hs' \<Longrightarrow> length hs' = length hs \<and>
    Suc (length (filter (\<lambda>x. x \<noteq> None) hs')) = length (filter (\<lambda>x. x \<noteq> None) hs) \<and>
    (\<forall>x. x \<noteq> m \<longrightarrow> (Some x \<in> set hs' \<longleftrightarrow> Some x \<in> set hs))"
  by (induction m hs arbitrary: hs' rule: clear_first.induct) (auto split: if_splits)

lemma filter_all: "length (filter P xs) = length xs \<longleftrightarrow> (\<forall>x \<in> set xs. P x)"
  by (metis filter_True filter_id_conv length_filter_less less_irrefl_nat)

lemma push_held_spec:
  assumes "held_ok t"
  shows "fst (push_held m t) \<longleftrightarrow> unat (held_count t) < length (held t)"
    and "fst (push_held m t) \<Longrightarrow> held_ok (snd (push_held m t)) \<and>
      held_set (snd (push_held m t)) = insert m (held_set t)"
    and "\<not> fst (push_held m t) \<Longrightarrow> snd (push_held m t) = t"
proof -
  have full: "None \<notin> set (held t) \<longleftrightarrow> unat (held_count t) = length (held t)"
    using assms filter_all [of "\<lambda>x. x \<noteq> None" "held t"] by (auto simp: held_ok_def)
  show "fst (push_held m t) \<longleftrightarrow> unat (held_count t) < length (held t)"
    using full by (auto simp: push_held_def fill_first_None split: option.splits)
  show "\<not> fst (push_held m t) \<Longrightarrow> snd (push_held m t) = t"
    by (auto simp: push_held_def split: option.splits if_splits)
  assume "fst (push_held m t)"
  then obtain hs where hs: "fill_first m (held t) = Some hs"
    and lt: "unat (held_count t) < length (held t)"
    by (auto simp: push_held_def split: option.splits if_splits)
  have "unat (held_count t + 1) = Suc (unat (held_count t))"
    using lt assms by (simp add: held_ok_def unat_word_ariths)
  then show "held_ok (snd (push_held m t)) \<and>
      held_set (snd (push_held m t)) = insert m (held_set t)"
    using hs lt assms fill_first_Some [OF hs]
    by (auto simp: push_held_def held_ok_def held_set_def)
qed

lemma remove_held_spec:
  assumes "held_ok t"
  shows "held_ok (remove_held m t)" "held_set t - {m} \<subseteq> held_set (remove_held m t)"
    "held_set (remove_held m t) \<subseteq> held_set t"
proof -
  show "held_ok (remove_held m t)"
  proof (cases "clear_first m (held t)")
    case None
    then show ?thesis using assms by (simp add: remove_held_def)
  next
    case (Some hs)
    from clear_first_Some [OF this] have
      c: "Suc (length (filter (\<lambda>x. x \<noteq> None) hs)) = unat (held_count t)" "length hs = length (held t)"
      using assms by (auto simp: held_ok_def)
    then have "held_count t \<noteq> 0" by auto
    then have "unat (held_count t - 1) = unat (held_count t) - 1" by (simp add: unat_minus_one)
    then show ?thesis using c Some assms by (simp add: remove_held_def held_ok_def)
  qed
  show "held_set t - {m} \<subseteq> held_set (remove_held m t)"
    by (auto simp: remove_held_def held_set_def split: option.splits dest: clear_first_Some)
  show "held_set (remove_held m t) \<subseteq> held_set t"
    using clear_first_None [of m "held t"]
    by (auto simp: remove_held_def held_set_def split: option.splits)
      (metis clear_first_Some option.distinct(1))
qed

section \<open>Registration\<close>

text \<open>The slot \<open>register_full\<close> takes, and whether one is there.\<close>

definition claimable :: "tcb \<Rightarrow> bool" where
  "claimable t \<longleftrightarrow> \<not> used t \<and> raw_state t = READY"

definition claimed :: "nat \<Rightarrow> nat \<Rightarrow> usize \<Rightarrow> nat \<Rightarrow> usize \<Rightarrow> usize \<Rightarrow> kernel \<Rightarrow> kernel" where
  "claimed h i sp0 priority base sz k =
     enqueue h i (upd_task i (claim_slot sp0 priority base sz)
       (if result_drop (tasks k ! i) \<noteq> 0 then emit (Drop_result i) k else k))"

lemma wf_tcb_claim_slot [simp]:
  "wf_tcb k t \<Longrightarrow> p < 32 \<Longrightarrow> wf_tcb k (claim_slot sp0 p base sz t)"
  by (simp add: wf_tcb_def claim_slot_def)

lemma wf_upd_claim_slot: "wf k \<Longrightarrow> p < 32 \<Longrightarrow> wf (upd_task i (claim_slot sp0 p base sz) k)"
  by (rule wf_upd_task) (auto intro!: wf_tcb_claim_slot wfD(8))

lemma register_from_eq:
  assumes "wf k" and "priority < 32" and "set is \<subseteq> {..<max_ptasks k}"
  shows "register_from is h sp0 priority base sz k =
    (case filter (\<lambda>i. claimable (tasks k ! i)) is of
       [] \<Rightarrow> Some (None, k)
     | i # _ \<Rightarrow> Some (Some i, claimed h i sp0 priority base sz k))"
  using assms(3)
proof (induction "is")
  case Nil
  then show ?case by simp
next
  case (Cons i "is")
  let ?k1 = "if result_drop (tasks k ! i) \<noteq> 0 then emit (Drop_result i) k else k"
  have k1: "wf ?k1" "tasks ?k1 = tasks k"
    using wf_emits [OF assms(1), of "[Drop_result i]"] assms(1) by auto
  have "wf (upd_task i (claim_slot sp0 priority base sz) ?k1)"
    using k1(1) assms(2) by (rule wf_upd_claim_slot)
  then have "ready_add h i (upd_task i (claim_slot sp0 priority base sz) ?k1) =
      Some (claimed h i sp0 priority base sz k)"
    using Cons.prems k1 by (simp add: ready_add_wf claimed_def)
  then show ?case using Cons by (auto simp: claimable_def Let_def)
qed

lemma good_claimed:
  assumes g: "good k" and i: "i < max_ptasks k" and c: "claimable (tasks k ! i)" and p: "priority < 32"
  shows "good (claimed h i sp0 priority base sz k)"
proof -
  let ?k1 = "if result_drop (tasks k ! i) \<noteq> 0 then emit (Drop_result i) k else k"
  have k1: "good ?k1" "tasks ?k1 = tasks k" "ready_words ?k1 = ready_words k" using g by auto
  have nq: "\<not> queued ?k1 i"
    using queue_okD(2) [OF goodD(2) [OF g]] c
    by (auto simp: queued_def claimable_def queueable_def)
  show ?thesis
    unfolding claimed_def
  proof (rule good_enqueue [OF k1(1)])
    show "wf (upd_task i (claim_slot sp0 priority base sz) ?k1)"
      using goodD(1) [OF k1(1)] p by (rule wf_upd_claim_slot)
    show "i < max_ptasks ?k1" using i k1 by simp
    show "queueable (claim_slot sp0 priority base sz (tasks ?k1 ! i))"
      by (simp add: queueable_def claim_slot_def)
    show "queued ?k1 i \<Longrightarrow> effective_priority (tasks ?k1 ! i) =
      effective_priority (claim_slot sp0 priority base sz (tasks ?k1 ! i))" using nq by blast
  qed
qed

lemma register_full_cases:
  assumes "wf k" and "priority < 32"
  obtains (full) "register_full h sp0 priority base sz k = Some (None, k)"
      "\<forall>i < max_ptasks k. \<not> claimable (tasks k ! i)"
  | (slot) i where "register_full h sp0 priority base sz k =
        Some (Some i, claimed h i sp0 priority base sz k)"
      "i < max_ptasks k" "claimable (tasks k ! i)"
      "\<forall>j < i. \<not> claimable (tasks k ! j)"
proof -
  let ?c = "\<lambda>i. claimable (tasks k ! i)"
  have eq: "register_full h sp0 priority base sz k =
    (case filter ?c [0..<max_ptasks k] of [] \<Rightarrow> Some (None, k)
     | i # _ \<Rightarrow> Some (Some i, claimed h i sp0 priority base sz k))"
    unfolding register_full_def by (rule register_from_eq) (use assms in auto)
  show thesis
  proof (cases "filter ?c [0..<max_ptasks k]")
    case Nil
    then have "\<forall>i < max_ptasks k. \<not> ?c i" by (auto simp: filter_empty_conv)
    then show thesis using full eq Nil by simp
  next
    case (Cons i rest)
    then have i: "i \<in> set (filter ?c [0..<max_ptasks k])" by simp
    then have ic: "i < max_ptasks k" "?c i" by auto
    have "\<not> ?c j" if "j < i" for j
    proof
      assume cj: "?c j"
      have "j \<in> set (filter ?c [0..<max_ptasks k])" using cj that i by auto
      then have "j = i \<or> j \<in> set rest" using Cons by simp
      moreover have "sorted_wrt (<) (filter ?c [0..<max_ptasks k])"
        by (simp add: sorted_wrt_filter)
      then have "\<forall>x \<in> set rest. i < x" using Cons by simp
      ultimately show False using that by auto
    qed
    then show thesis using slot [of i] eq Cons ic by auto
  qed
qed

section \<open>Spawning and handles\<close>

lemma tasks_claimed [simp]: "tasks (claimed h i sp0 priority base sz k) =
    upd_at i (claim_slot sp0 priority base sz) (tasks k)"
  by (simp add: claimed_def)

lemma claimed_frame [simp]:
  "mutexes (claimed h i sp0 priority base sz k) = mutexes k"
  "current_ids (claimed h i sp0 priority base sz k) = current_ids k"
  by (simp_all add: claimed_def)

definition spawn_ok :: "kernel \<Rightarrow> nat \<Rightarrow> usize \<Rightarrow> usize \<Rightarrow> (spawn_error + task_handle) \<Rightarrow> kernel \<Rightarrow> bool" where
  "spawn_ok k priority base sz r k' \<longleftrightarrow> good k' \<and>
    (case r of
       Inl e \<Rightarrow> e = RegistryFull \<and> k' = k \<and> (\<forall>i < max_ptasks k. \<not> claimable (tasks k ! i))
     | Inr th \<Rightarrow> handle_id th < max_ptasks k \<and> claimable (tasks k ! handle_id th) \<and>
         is_valid th k' \<and> handle_gen th = generation (tasks k ! handle_id th) + 1 \<and>
         task_ready k' (handle_id th) \<and> queued k' (handle_id th) \<and>
         base_priority (tasks k' ! handle_id th) = priority \<and>
         effective_priority (tasks k' ! handle_id th) = priority \<and>
         stack_base (tasks k' ! handle_id th) = base \<and> stack_size (tasks k' ! handle_id th) = sz \<and>
         max_ptasks k' = max_ptasks k \<and>
         (\<forall>j. j \<noteq> handle_id th \<longrightarrow> tasks k' ! j = tasks k ! j))"

lemma spawn_spec:
  assumes g: "good k" and p: "priority < 32" and sz: "min_stack \<le> sz"
  shows "\<exists>r k'. spawn h min_stack init base sz priority rs df k = Some (r, k') \<and>
    spawn_ok k priority base sz r k'"
  using goodD(1) [OF g] p
proof (cases rule: register_full_cases [of k priority h "init base sz" base sz])
  case full
  then show ?thesis using sz g by (auto simp: spawn_def spawn_ok_def)
next
  case (slot i)
  let ?k1 = "claimed h i (init base sz) priority base sz k"
  let ?f = "\<lambda>t :: tcb. t\<lparr>result_size := rs, result_drop := df\<rparr>"
  have g1: "good ?k1" using g slot p by (intro good_claimed)
  have g2: "good (upd_task i ?f ?k1)"
    by (rule good_upd_view [OF g1]) (simp add: inv_view_def sched_view_def)
  have r: "task_ready (upd_task i ?f ?k1) i"
    using slot by (simp add: task_ready_def claim_slot_def)
  show ?thesis
    using slot sz g2 r task_ready_queued [OF g2 r]
    by (simp add: spawn_def spawn_ok_def get_task_def is_valid_def claim_slot_def)
qed

text \<open>A priority outside the 32 levels is not rejected: registering it panics.\<close>

lemma spawn_priority_panics:
  assumes "i < max_ptasks k" and "claimable (tasks k ! i)" and "32 \<le> priority"
  shows "spawn h min_stack init base sz priority rs df k = None"
proof -
  have "register_from is h sp0 priority base sz k = None"
    if "\<exists>i \<in> set is. claimable (tasks k ! i)" "set is \<subseteq> {..<max_ptasks k}" for "is" sp0
    using that assms(3)
    by (induction "is")
      (auto simp: claimable_def ready_add_def Let_def claim_slot_def upd_at_def)
  then have "register_full h sp0 priority base sz k = None" for sp0
    unfolding register_full_def by (rule) (use assms in auto)
  then show ?thesis by (simp add: spawn_def)
qed

lemma is_valid_iff: "is_valid th k \<longleftrightarrow> handle_id th < max_ptasks k \<and>
    used (tasks k ! handle_id th) \<and> generation (tasks k ! handle_id th) = handle_gen th"
  by (auto simp: is_valid_def get_task_def)

definition freed :: "tcb \<Rightarrow> tcb" where
  "freed t = t\<lparr>result_drop := 0, raw_state := READY, exited := False, result_size := 0,
     stop_requested := False, used := False, stack_base := 0, stack_size := 0\<rparr>"

definition despawned :: "nat \<Rightarrow> kernel \<Rightarrow> kernel" where
  "despawned i k = upd_task i freed (dequeue i
     (emits ((if result_drop (tasks k ! i) \<noteq> 0 then [Drop_result i] else []) @
        (case stack_info (tasks k ! i) of None \<Rightarrow> [] | Some (b, s) \<Rightarrow> [Release_stack b s])) k))"

lemma despawn_eq:
  assumes "wf k"
  shows "despawn h th k =
    (if is_valid th k \<and> current h k \<noteq> Some (handle_id th)
     then Some (True, despawned (handle_id th) k) else Some (False, k))"
proof (cases "is_valid th k \<and> current h k \<noteq> Some (handle_id th)")
  case True
  let ?i = "handle_id th"
  have i: "?i < max_ptasks k" using True by (simp add: is_valid_iff)
  have valid: "get_task ?i k = Some (tasks k ! ?i)" "generation (tasks k ! ?i) = handle_gen th"
    "current h k \<noteq> Some ?i"
    using True by (auto simp: is_valid_iff get_task_def)
  have "despawn h th k = Some (True, snd (the (despawn h th k)))"
    by (simp add: despawn_def Let_def valid ready_remove_wf [OF assms i])
  moreover have "snd (the (despawn h th k)) = despawned ?i k"
    by (rule kernel.equality)
      (simp_all add: despawn_def Let_def valid ready_remove_wf [OF assms i] despawned_def
        freed_def [abs_def] dequeue_def upd_task_def set_ready_words_def ready_words_def
        split: option.splits)
  ultimately show ?thesis using True by simp
next
  case False
  then show ?thesis by (auto simp: despawn_def Let_def is_valid_iff get_task_def)
qed

lemma tasks_despawned [simp]: "tasks (despawned i k) = upd_at i freed (tasks k)"
  by (simp add: despawned_def)

lemma wf_upd_freed: "wf k \<Longrightarrow> wf (upd_task i freed k)"
  by (rule wf_upd_task) (auto simp: wf_tcb_def freed_def dest: wfD(8))

lemma good_despawned: "good k \<Longrightarrow> i < max_ptasks k \<Longrightarrow> good (despawned i k)"
  unfolding despawned_def
  by (rule good_dequeue_first)
    (simp_all add: wf_upd_freed wf_emits goodD, simp add: freed_def must_queue_def)

lemma pause_eq: "wf k \<Longrightarrow> pause th k =
    (if is_valid th k \<and> raw_state (tasks k ! handle_id th) = READY
     then Some (True, dequeue (handle_id th) (set_raw (handle_id th) SUSPENDED k))
     else Some (False, k))"
  by (auto simp: pause_def Let_def get_task_def is_valid_iff ready_remove_wf)

lemma resume_eq: "wf k \<Longrightarrow> resume h th k =
    (if is_valid th k \<and> raw_state (tasks k ! handle_id th) = SUSPENDED
     then Some (True, enqueue h (handle_id th) (set_raw (handle_id th) READY k))
     else Some (False, k))"
  by (auto simp: resume_def Let_def get_task_def is_valid_iff ready_add_wf)

lemma request_stop_eq: "request_stop th k =
    (is_valid th k, if is_valid th k then upd_task (handle_id th) (\<lambda>t. t\<lparr>stop_requested := True\<rparr>) k else k)"
  by (auto simp: request_stop_def is_valid_iff get_task_def)

end
