(* ===== verification/Waker.thy ===== *)
theory Waker
  imports Tcb_Inv
begin

text \<open>
  The cooperative tier's wake-ups: task identities packed into 16 bits
  (\<open>rivet/src/task.rs\<close>) and the waker's ready words, pend flag and dequeue
  (\<open>rivet/src/waker.rs\<close>). The ready words are the same two-level structure as the
  scheduler's and refine the same priority set. The last section splits \<open>next_ready\<close> into
  its atomic accesses, because interrupts may run between them.
\<close>

section \<open>Task identities\<close>

type_synonym task_id = u16

definition tid_new :: "u8 \<Rightarrow> u8 \<Rightarrow> task_id" where
  "tid_new priority index = push_bit 8 (ucast priority) OR ucast index"

definition tid_priority :: "task_id \<Rightarrow> u8" where
  "tid_priority t = ucast (drop_bit 8 t)"

definition tid_index :: "task_id \<Rightarrow> u8" where
  "tid_index t = ucast (t AND 0xFF)"

lemma tid_priority_new [simp]: "tid_priority (tid_new p i) = p"
  by (rule bit_word_eqI) (auto simp: tid_priority_def tid_new_def bit_simps dest: bit_imp_le_length)

lemma tid_index_new [simp]: "tid_index (tid_new p i) = i"
proof (rule bit_word_eqI)
  fix n assume n: "n < LENGTH(8)"
  have "bit (0xFF :: u16) n" using n by (auto simp: less_Suc_eq numeral_eq_Suc)
  then show "bit (tid_index (tid_new p i)) n = bit i n"
    using n by (auto simp: tid_index_def tid_new_def bit_simps)
qed

lemma tid_new_eq: "tid_new (tid_priority t) (tid_index t) = t"
proof (rule bit_word_eqI)
  fix n assume n: "n < LENGTH(16)"
  have m: "bit (0xFF :: u16) m" if "m < 8" for m
    using that by (auto simp: less_Suc_eq numeral_eq_Suc)
  show "bit (tid_new (tid_priority t) (tid_index t)) n = bit t n"
    using n m [of n] by (cases "n < 8") (auto simp: tid_priority_def tid_index_def tid_new_def bit_simps)
qed

text \<open>
  The waker's data pointer is the address of a cell of \<open>TASK_ID_CELLS\<close>, a table of
  identities by priority and index; encoding indexes it (and panics out of range), decoding
  reads the cell back.
\<close>

definition task_id_cells :: "task_id list list" where
  "task_id_cells = map (\<lambda>p. map (\<lambda>i. tid_new (of_nat p) (of_nat i)) [0..<32]) [0..<32]"

definition encode_waker_data :: "task_id \<Rightarrow> (nat \<times> nat) option" where
  "encode_waker_data t =
    (let p = unat (tid_priority t); i = unat (tid_index t)
     in if p < 32 \<and> i < 32 then Some (p, i) else None)"

definition decode_waker_data :: "nat \<times> nat \<Rightarrow> task_id" where
  "decode_waker_data d = task_id_cells ! fst d ! snd d"

lemma decode_encode: "encode_waker_data t = Some d \<Longrightarrow> decode_waker_data d = t"
  by (auto simp: encode_waker_data_def decode_waker_data_def task_id_cells_def Let_def tid_new_eq
      split: if_splits)

lemma encode_total: "encode_waker_data t \<noteq> None \<longleftrightarrow>
    unat (tid_priority t) < 32 \<and> unat (tid_index t) < 32"
  by (simp add: encode_waker_data_def Let_def)

section \<open>The ready words\<close>

definition wk_words :: "kernel \<Rightarrow> ready_words" where
  "wk_words k = (wk_bitmap k, wk_queues k)"

definition wk_reset :: "kernel \<Rightarrow> kernel" where
  "wk_reset k = k\<lparr>wk_bitmap := 0, wk_queues := map (\<lambda>_. 0) (wk_queues k), wk_pend := 0\<rparr>"

text \<open>The queue is indexed by the priority; the index is taken modulo 32.\<close>

definition mark_ready :: "task_id \<Rightarrow> kernel \<Rightarrow> kernel option" where
  "mark_ready t k =
    (let p = unat (tid_priority t); i = unat (tid_index t AND 0x1F); s = rb_add p i (wk_words k)
     in if p < 32 then Some (k\<lparr>wk_bitmap := fst s, wk_queues := snd s, wk_pend := 1\<rparr>) else None)"

definition has_pending :: "kernel \<Rightarrow> bool" where
  "has_pending k \<longleftrightarrow> wk_pend k \<noteq> 0 \<or> wk_bitmap k \<noteq> 0"

definition clear_pend :: "kernel \<Rightarrow> kernel" where
  "clear_pend k = k\<lparr>wk_pend := 0\<rparr>"

definition next_ready :: "kernel \<Rightarrow> task_id option \<times> kernel" where
  "next_ready k =
    (let bitmap = wk_bitmap k
     in if bitmap = 0 then (None, k)
        else let prio = hi_bit bitmap; queue = wk_queues k ! prio
             in if queue = 0 then (None, k\<lparr>wk_bitmap := bitmap AND NOT (shl1 prio)\<rparr>)
                else let b = lowest_bit queue; index = trailing_zeros b;
                         k1 = k\<lparr>wk_queues := (wk_queues k)[prio := queue AND NOT b]\<rparr>;
                         k2 = (if queue = b
                               then k1\<lparr>wk_bitmap := bitmap AND NOT (shl1 prio)\<rparr> else k1)
                     in (Some (tid_new (of_nat prio) (of_nat index)), k2))"

definition broadcast_reschedule :: "nat \<Rightarrow> kernel \<Rightarrow> kernel" where
  "broadcast_reschedule h k =
    emits (map Request_reschedule_on (filter (\<lambda>other. other \<noteq> h) [0..<max_harts k])) k"

definition wake_task :: "nat \<Rightarrow> task_id \<Rightarrow> kernel \<Rightarrow> kernel option" where
  "wake_task h t k = map_option (broadcast_reschedule h) (mark_ready t k)"

section \<open>Correctness of the sequential operations\<close>

definition wk_ok :: "kernel \<Rightarrow> bool" where
  "wk_ok k \<longleftrightarrow> rb_inv (wk_words k)"

definition wk_ready :: "kernel \<Rightarrow> (nat \<times> nat) set" where
  "wk_ready k = rb.members (wk_words k)"

definition coop_id :: "task_id \<Rightarrow> bool" where
  "coop_id t \<longleftrightarrow> unat (tid_priority t) < 32 \<and> unat (tid_index t) < 32"

lemma tid_index_mask: "unat (tid_index t) < 32 \<Longrightarrow> tid_index t AND 0x1F = tid_index t"
proof -
  assume "unat (tid_index t) < 32"
  then have "tid_index t AND mask 5 = tid_index t"
    by (intro less_mask_eq) (simp add: word_less_nat_alt)
  then show ?thesis by (simp add: mask_eq_exp_minus_1)
qed

lemma unat_u8_small: "n < 32 \<Longrightarrow> unat (of_nat n :: u8) = n"
  by (simp add: unat_of_nat take_bit_nat_eq_self)

lemma mark_ready_spec:
  assumes "wk_ok k" and "coop_id t"
  shows "\<exists>k'. mark_ready t k = Some k' \<and> wk_ok k' \<and> has_pending k' \<and>
    wk_ready k' = insert (unat (tid_priority t), unat (tid_index t)) (wk_ready k)"
  using assms
  by (auto simp: mark_ready_def wk_ok_def wk_words_def wk_ready_def coop_id_def Let_def
      tid_index_mask rb.members_ins rb.inv_ins has_pending_def)

lemma trailing_zeros_shl1: "n < 32 \<Longrightarrow> trailing_zeros (shl1 n) = n"
  by (rule trailing_zeros_eqI) simp_all

text \<open>A dequeue is the removal of one pair from the two words.\<close>

lemma next_ready_eq:
  fixes k
  defines "p \<equiv> hi_bit (wk_bitmap k)"
  defines "i \<equiv> trailing_zeros (wk_queues k ! p)"
  assumes nb: "wk_bitmap k \<noteq> 0" and nz: "wk_queues k ! p \<noteq> 0"
  shows "next_ready k = (Some (tid_new (of_nat p) (of_nat i)),
      k\<lparr>wk_bitmap := fst (rb_del p i (wk_words k)), wk_queues := snd (rb_del p i (wk_words k))\<rparr>)"
proof -
  define q where "q = wk_queues k ! p"
  have i32: "i < 32" using trailing_zeros_less [OF nz] by (simp add: i_def)
  have lb: "lowest_bit q = shl1 i" using lowest_bit_eq [OF nz] by (simp add: i_def q_def)
  have tz: "trailing_zeros (shl1 i) = i" using i32 by (rule trailing_zeros_shl1)
  have "next_ready k = (Some (tid_new (of_nat p) (of_nat i)),
    (if q = shl1 i
     then k\<lparr>wk_queues := (wk_queues k)[p := q AND NOT (shl1 i)],
            wk_bitmap := wk_bitmap k AND NOT (shl1 p)\<rparr>
     else k\<lparr>wk_queues := (wk_queues k)[p := q AND NOT (shl1 i)]\<rparr>))"
    unfolding next_ready_def Let_def p_def [symmetric] q_def [symmetric] lb tz
    using nb nz by (simp add: q_def)
  then show ?thesis
    by (cases "q = shl1 i") (simp_all add: rb_del_def wk_words_def q_def [symmetric])
qed

lemma next_ready_spec:
  assumes ok: "wk_ok k"
  shows "case next_ready k of
      (None, k') \<Rightarrow> k' = k \<and> wk_ready k = {}
    | (Some t, k') \<Rightarrow> wk_ok k' \<and> coop_id t \<and>
        (unat (tid_priority t), unat (tid_index t)) \<in> wk_ready k \<and>
        (\<forall>(p, i) \<in> wk_ready k. p < unat (tid_priority t) \<or>
           (p = unat (tid_priority t) \<and> unat (tid_index t) \<le> i)) \<and>
        wk_ready k' = wk_ready k - {(unat (tid_priority t), unat (tid_index t))}"
proof (cases "wk_bitmap k = 0")
  case True
  have inv: "rb_inv (wk_words k)" using ok by (simp add: wk_ok_def)
  have "rb_top (wk_words k) = None" using True by (simp add: rb_top_def wk_words_def)
  then have "wk_ready k = {}"
    using rb_top_None [OF inv] by (simp add: wk_ready_def rb.members_def)
  then show ?thesis using True by (simp add: next_ready_def)
next
  case False
  have inv: "rb_inv (wk_words k)" using ok by (simp add: wk_ok_def)
  define p where "p = hi_bit (wk_bitmap k)"
  define q where "q = wk_queues k ! p"
  define i where "i = trailing_zeros q"
  have p32: "p < 32" by (simp add: p_def)
  have nz: "q \<noteq> 0"
    using inv hi_bit_set [OF False] p32 by (auto simp: rb_inv_def wk_words_def p_def q_def)
  have i32: "i < 32" and bi: "bit q i" using trailing_zeros_less [OF nz] trailing_zeros_set [OF nz]
    by (auto simp: i_def)
  have mem: "rb_mem (wk_words k) p i" using p32 bi by (simp add: rb_mem_def wk_words_def q_def)
  have top: "\<And>r j. rb_mem (wk_words k) r j \<Longrightarrow> r \<le> p"
    using rb_top_Some [OF inv, of p] False by (auto simp: rb_top_def wk_words_def p_def)
  have low: "\<And>j. rb_mem (wk_words k) p j \<Longrightarrow> i \<le> j"
    by (auto simp: rb_mem_def wk_words_def q_def [symmetric] i_def intro: trailing_zeros_min)
  note eq = next_ready_eq [OF False, folded p_def, folded q_def, folded i_def, OF nz]
  let ?t = "tid_new (of_nat p) (of_nat i)"
  let ?k' = "k\<lparr>wk_bitmap := fst (rb_del p i (wk_words k)), wk_queues := snd (rb_del p i (wk_words k))\<rparr>"
  have t: "unat (tid_priority ?t) = p" "unat (tid_index ?t) = i" "coop_id ?t"
    using p32 i32 by (simp_all add: coop_id_def unat_u8_small)
  have w: "wk_words ?k' = rb_del p i (wk_words k)" by (simp add: wk_words_def)
  have c1: "wk_ready ?k' = wk_ready k - {(p, i)}" "wk_ok ?k'" "(p, i) \<in> wk_ready k"
    using rb.members_del [OF inv p32] inv p32 mem
    by (simp_all add: wk_ready_def wk_ok_def w rb_inv_del rb.members_def)
  have c2: "\<forall>(r, j) \<in> wk_ready k. r < p \<or> (r = p \<and> i \<le> j)"
  proof (rule ballI, rule case_prodI2)
    fix x r j assume "x \<in> wk_ready k" "x = (r, j)"
    then have m: "rb_mem (wk_words k) r j" by (simp add: wk_ready_def rb.members_def)
    then show "r < p \<or> (r = p \<and> i \<le> j)" using top [OF m] low [of j] by (cases "r = p") auto
  qed
  show ?thesis
    unfolding eq prod.case option.case t(1,2) by (intro conjI c1 c2 t(3))
qed

text \<open>
  Draining: repeated \<open>next_ready\<close> returns every marked task once and leaves nothing.
\<close>

lemma wk_ready_finite: "wk_ok k \<Longrightarrow> finite (wk_ready k)"
proof -
  assume "wk_ok k"
  have "wk_ready k \<subseteq> {..<32} \<times> {..<32}"
    by (auto simp: wk_ready_def rb.members_def dest: rb_mem_less)
  then show ?thesis by (rule finite_subset) simp
qed

fun drain :: "nat \<Rightarrow> kernel \<Rightarrow> task_id list \<times> kernel" where
  "drain 0 k = ([], k)"
| "drain (Suc n) k =
    (case next_ready k of
       (None, k') \<Rightarrow> ([], k')
     | (Some t, k') \<Rightarrow> (let (ts, k'') = drain n k' in (t # ts, k'')))"

definition tid_pair :: "task_id \<Rightarrow> nat \<times> nat" where
  "tid_pair t = (unat (tid_priority t), unat (tid_index t))"

lemma drain_spec:
  "wk_ok k \<Longrightarrow> card (wk_ready k) \<le> n \<Longrightarrow>
    wk_ready (snd (drain n k)) = {} \<and> tid_pair ` set (fst (drain n k)) = wk_ready k \<and>
    length (fst (drain n k)) = card (wk_ready k)"
proof (induction n arbitrary: k)
  case 0
  then show ?case using wk_ready_finite [of k] by simp
next
  case (Suc n)
  note sp = next_ready_spec [OF Suc.prems(1)]
  show ?case
  proof (cases "next_ready k")
    case (Pair r k')
    show ?thesis
    proof (cases r)
      case None
      then show ?thesis using sp Pair by simp
    next
      case (Some t)
      have ok': "wk_ok k'" and mem: "tid_pair t \<in> wk_ready k"
        and del: "wk_ready k' = wk_ready k - {tid_pair t}"
        using sp Pair Some by (auto simp: tid_pair_def)
      have fin: "finite (wk_ready k)" using Suc.prems(1) by (rule wk_ready_finite)
      have "card (wk_ready k) = Suc (card (wk_ready k'))"
        using fin mem del card_Suc_Diff1 [OF fin mem] by simp
      then have IH: "wk_ready (snd (drain n k')) = {}"
        "tid_pair ` set (fst (drain n k')) = wk_ready k'"
        "length (fst (drain n k')) = card (wk_ready k')"
        "card (wk_ready k) = Suc (card (wk_ready k'))"
        using Suc.IH [OF ok'] Suc.prems by auto
      obtain ts k'' where d: "drain n k' = (ts, k'')" by fastforce
      have "tid_pair ` set (t # ts) = wk_ready k"
        using IH(2) mem del by (simp add: d insert_absorb)
      then show ?thesis using IH d by (simp add: Pair Some)
    qed
  qed
qed

section \<open>The accesses of \<open>next_ready\<close>\<close>

text \<open>
  \<open>next_ready\<close> runs outside any critical section. Its accesses to the shared words, and the
  function composed of them; \<open>isr\<close> stands for what an interrupt does between the clearing of
  the queue bit and the clearing of the bitmap bit.
\<close>

definition nr_load :: "kernel \<Rightarrow> nat option" where
  "nr_load k = (if wk_bitmap k = 0 then None else Some (hi_bit (wk_bitmap k)))"

definition nr_claim :: "nat \<Rightarrow> u32 \<Rightarrow> kernel \<Rightarrow> u32 \<times> kernel" where
  "nr_claim p b k = (wk_queues k ! p, k\<lparr>wk_queues := (wk_queues k)[p := wk_queues k ! p AND NOT b]\<rparr>)"

definition nr_clear :: "nat \<Rightarrow> kernel \<Rightarrow> kernel" where
  "nr_clear p k = k\<lparr>wk_bitmap := wk_bitmap k AND NOT (shl1 p)\<rparr>"

definition next_ready_with :: "(kernel \<Rightarrow> kernel) \<Rightarrow> kernel \<Rightarrow> task_id option \<times> kernel" where
  "next_ready_with isr k =
    (case nr_load k of
       None \<Rightarrow> (None, k)
     | Some p \<Rightarrow>
         (let q = wk_queues k ! p
          in if q = 0 then (None, nr_clear p k)
             else let b = lowest_bit q; (prev, k1) = nr_claim p b k; k2 = isr k1
                  in (Some (tid_new (of_nat p) (of_nat (trailing_zeros b))),
                      if prev = b then nr_clear p k2 else k2)))"

lemma next_ready_with_id: "next_ready_with (\<lambda>k. k) k = next_ready k"
  by (simp add: next_ready_with_def next_ready_def nr_load_def nr_claim_def nr_clear_def Let_def)

text \<open>
  An interrupt that marks a task of the same priority in that window sets the queue bit and
  the bitmap bit, and the executor then clears the bitmap bit: the mark is invisible.
\<close>

lemma interrupted_next_ready:
  assumes ok: "wk_ok k" and t: "coop_id t" and u: "coop_id u"
    and top: "wk_ready k = {tid_pair t}" and same: "tid_priority u = tid_priority t"
  shows "\<exists>k'. next_ready_with (\<lambda>k. the (mark_ready u k)) k = (Some t, k') \<and>
    bit (wk_queues k' ! unat (tid_priority u)) (unat (tid_index u)) \<and> wk_bitmap k' = 0 \<and>
    next_ready (clear_pend k') = (None, clear_pend k') \<and> \<not> has_pending (clear_pend k')"
proof -
  define p where "p = unat (tid_priority t)"
  define i where "i = unat (tid_index t)"
  define j where "j = unat (tid_index u)"
  have p: "p < 32" "i < 32" "j < 32" using t u by (simp_all add: coop_id_def p_def i_def j_def)
  have inv: "rb_inv (wk_words k)" using ok by (simp add: wk_ok_def)
  have mem: "rb_mem (wk_words k) r x \<longleftrightarrow> r = p \<and> x = i" for r x
    using top by (auto simp: wk_ready_def rb.members_def tid_pair_def p_def i_def)
  have bm: "wk_bitmap k = shl1 p"
  proof (rule bit_word_eqI)
    fix r assume "r < LENGTH(32)"
    then show "bit (wk_bitmap k) r = bit (shl1 p) r"
      using inv mem p u32_neq_0_iff [of "wk_queues k ! r"]
      by (auto simp: rb_inv_def rb_mem_def wk_words_def)
  qed
  have q: "wk_queues k ! p = shl1 i"
    by (rule bit_word_eqI) (use mem [of p] p in \<open>auto simp: rb_mem_def wk_words_def\<close>)
  have len: "length (wk_queues k) = 32" using inv by (simp add: rb_inv_def wk_words_def)
  have hi: "hi_bit (shl1 p) = p" using hi_bit_set [of "shl1 p"] p by simp
  have lb: "lowest_bit (shl1 i) = shl1 i"
    using lowest_bit_eq [of "shl1 i"] trailing_zeros_shl1 [OF p(2)] p by simp
  have t_eq: "tid_new (of_nat p) (of_nat i) = t" by (simp add: p_def i_def tid_new_eq)
  have mask: "unat (tid_index u AND 0x1F) = j" using tid_index_mask [of u] p by (simp add: j_def)
  let ?k1 = "k\<lparr>wk_queues := (wk_queues k)[p := shl1 i AND NOT (shl1 i)]\<rparr>"
  obtain k2 where k2: "mark_ready u ?k1 = Some k2" "wk_queues k2 ! p = shl1 j"
    "wk_bitmap k2 = shl1 p"
    using same p len bm
    by (auto simp: mark_ready_def Let_def mask p_def [symmetric] rb_add_def wk_words_def)
  have eq: "next_ready_with (\<lambda>k. the (mark_ready u k)) k = (Some t, nr_clear p k2)"
    using k2(1) bm p
    by (simp add: next_ready_with_def nr_load_def hi q lb nr_claim_def t_eq Let_def trailing_zeros_shl1)
  have z: "wk_bitmap (nr_clear p k2) = 0" by (simp add: nr_clear_def k2(3))
  have bq: "bit (wk_queues (nr_clear p k2) ! p) j" using p by (simp add: nr_clear_def k2(2))
  show ?thesis
    using eq z bq same
    by (simp add: p_def j_def next_ready_def clear_pend_def has_pending_def)
qed

end
