(* ===== verification/Timer.thy ===== *)
theory Timer
  imports Tcb_Ops Waker
begin

text \<open>
  The timer queues (\<open>rivet/src/timer.rs\<close>): deadline slots of cooperative sleeps, with
  registration, cancellation by handle and expiry on the tick, and the one deadline slot
  per preemptive task that backs \<open>sleep_until\<close> and the mutex timeouts. A deadline of 0
  marks a free slot.
\<close>

section \<open>Cooperative deadlines\<close>

type_synonym timer_slot = "u64 \<times> u16"

record timer_handle =
  th_slot :: u8
  th_deadline :: u64

text \<open>The first free slot is filled; \<open>None\<close> is the error \<open>TimerQueueFull\<close>.\<close>

fun fill_slot :: "u64 \<Rightarrow> u16 \<Rightarrow> timer_slot list \<Rightarrow> (nat \<times> timer_slot list) option" where
  "fill_slot d t [] = None"
| "fill_slot d t (s # ss) =
     (if fst s = 0 then Some (0, (d, t) # ss)
      else map_option (\<lambda>(i, r). (Suc i, s # r)) (fill_slot d t ss))"

definition register_deadline :: "u64 \<Rightarrow> u16 \<Rightarrow> timer_slot list \<Rightarrow> timer_handle option \<times> timer_slot list" where
  "register_deadline d t ss =
    (case fill_slot d t ss of
       None \<Rightarrow> (None, ss)
     | Some (i, ss') \<Rightarrow> (Some \<lparr>th_slot = of_nat i, th_deadline = d\<rparr>, ss'))"

definition cancel_deadline :: "timer_handle \<Rightarrow> timer_slot list \<Rightarrow> timer_slot list" where
  "cancel_deadline th ss =
    (let i = unat (th_slot th)
     in if i < length ss \<and> fst (ss ! i) = th_deadline th
        then ss[i := (0, snd (ss ! i))] else ss)"

definition slots_in_use :: "timer_slot list \<Rightarrow> nat" where
  "slots_in_use ss = length (filter (\<lambda>s. fst s \<noteq> 0) ss)"

definition timer_reset :: "timer_slot list \<Rightarrow> u64 list \<Rightarrow> timer_slot list \<times> u64 list" where
  "timer_reset ss ds = (map (\<lambda>s. (0, snd s)) ss, map (\<lambda>_. 0) ds)"

text \<open>
  The scan of \<open>poll_timers\<close> inside its critical section: expired slots are freed and their
  tasks marked ready, in slot order. \<open>fst\<close> of the result is \<open>woke_any\<close>.
\<close>

definition expired :: "u64 \<Rightarrow> u64 \<Rightarrow> bool" where
  "expired now d \<longleftrightarrow> d \<noteq> 0 \<and> now \<ge> d"

fun scan_timers :: "nat list \<Rightarrow> u64 \<Rightarrow> bool \<Rightarrow> kernel \<Rightarrow> (bool \<times> kernel) option" where
  "scan_timers [] now woke k = Some (woke, k)"
| "scan_timers (i # is) now woke k =
     (if expired now (fst (timer_slots k ! i))
      then do {
        k1 \<leftarrow> mark_ready (snd (timer_slots k ! i))
               (k\<lparr>timer_slots := (timer_slots k)[i := (0, snd (timer_slots k ! i))]\<rparr>);
        scan_timers is now True k1
      }
      else scan_timers is now woke k)"

section \<open>Preemptive deadlines\<close>

text \<open>\<open>False\<close> is the error \<open>TimerQueueFull\<close>, returned for an id outside the registry.\<close>

definition register_ptask_deadline :: "u64 \<Rightarrow> nat \<Rightarrow> kernel \<Rightarrow> bool \<times> kernel" where
  "register_ptask_deadline d i k =
    (if i < length (ptask_deadlines k)
     then (True, k\<lparr>ptask_deadlines := (ptask_deadlines k)[i := d]\<rparr>) else (False, k))"

definition cancel_ptask_deadline :: "nat \<Rightarrow> kernel \<Rightarrow> kernel" where
  "cancel_ptask_deadline i k =
    (if i < length (ptask_deadlines k)
     then k\<lparr>ptask_deadlines := (ptask_deadlines k)[i := 0]\<rparr> else k)"

fun scan_ptasks :: "nat list \<Rightarrow> nat \<Rightarrow> u64 \<Rightarrow> bool \<Rightarrow> kernel \<Rightarrow> (bool \<times> kernel) option" where
  "scan_ptasks [] h now woke k = Some (woke, k)"
| "scan_ptasks (i # is) h now woke k =
     (if expired now (ptask_deadlines k ! i)
      then do {
        k1 \<leftarrow> unblock h i (k\<lparr>ptask_deadlines := (ptask_deadlines k)[i := 0]\<rparr>);
        scan_ptasks is h now True k1
      }
      else scan_ptasks is h now woke k)"

definition poll_ptask_deadlines :: "nat \<Rightarrow> u64 \<Rightarrow> kernel \<Rightarrow> kernel option" where
  "poll_ptask_deadlines h now k = do {
     (woke, k1) \<leftarrow> scan_ptasks [0..<length (ptask_deadlines k)] h now False k;
     Some (if woke then broadcast_reschedule h k1 else k1)
   }"

definition poll_timers :: "nat \<Rightarrow> u64 \<Rightarrow> kernel \<Rightarrow> kernel option" where
  "poll_timers h now k = do {
     (woke, k1) \<leftarrow> scan_timers [0..<length (timer_slots k)] now False k;
     poll_ptask_deadlines h now (if woke then broadcast_reschedule h k1 else k1)
   }"

section \<open>The deadline table\<close>

text \<open>
  What a sleeper relies on: registering adds its entry, cancelling removes one entry with
  the handle's deadline and no other deadline, and the table reports when it is full.
\<close>

definition pending :: "timer_slot list \<Rightarrow> (nat \<times> u64 \<times> u16) set" where
  "pending ss = {(i, d, t). i < length ss \<and> ss ! i = (d, t) \<and> d \<noteq> 0}"

lemma fill_slot_None: "fill_slot d t ss = None \<longleftrightarrow> (\<forall>s \<in> set ss. fst s \<noteq> 0)"
  by (induction d t ss rule: fill_slot.induct) auto

lemma fill_slot_Some:
  "fill_slot d t ss = Some (i, ss') \<Longrightarrow> i < length ss \<and> fst (ss ! i) = 0 \<and> ss' = ss[i := (d, t)]"
  by (induction d t ss arbitrary: i ss' rule: fill_slot.induct) (auto split: if_splits)

lemma register_full: "fst (register_deadline d t ss) = None \<longleftrightarrow> slots_in_use ss = length ss"
proof -
  have "slots_in_use ss = length ss \<longleftrightarrow> (\<forall>s \<in> set ss. fst s \<noteq> 0)"
    unfolding slots_in_use_def by (rule filter_all)
  then show ?thesis
    using fill_slot_None [of d t ss] by (auto simp: register_deadline_def split: option.splits)
qed

lemma register_pending:
  assumes "register_deadline d t ss = (Some th, ss')" and "length ss < 256" and "d \<noteq> 0"
  shows "pending ss' = insert (unat (th_slot th), d, t) (pending ss)"
    "unat (th_slot th) < length ss" "th_deadline th = d" "length ss' = length ss"
    "fst (ss ! unat (th_slot th)) = 0"
proof -
  obtain i where i: "fill_slot d t ss = Some (i, ss')" "th = \<lparr>th_slot = of_nat i, th_deadline = d\<rparr>"
    using assms(1) by (auto simp: register_deadline_def split: option.splits)
  from fill_slot_Some [OF i(1)] have f: "i < length ss" "fst (ss ! i) = 0" "ss' = ss[i := (d, t)]"
    by auto
  have u: "unat (of_nat i :: u8) = i" using f(1) assms(2) by (simp add: unat_of_nat take_bit_nat_eq_self)
  show "unat (th_slot th) < length ss" "th_deadline th = d" "length ss' = length ss"
    "fst (ss ! unat (th_slot th)) = 0"
    using f i u by simp_all
  show "pending ss' = insert (unat (th_slot th), d, t) (pending ss)"
    using f i u assms(3) by (auto simp: pending_def nth_list_update split: if_splits)
qed

lemma cancel_pending:
  "pending (cancel_deadline th ss) =
    pending ss - {(i, d, t). i = unat (th_slot th) \<and> d = th_deadline th}"
  by (auto simp: cancel_deadline_def pending_def Let_def nth_list_update split: if_splits)

lemma slots_in_use_update: "i < length ss \<Longrightarrow> slots_in_use (ss[i := s]) + (if fst (ss ! i) \<noteq> 0 then 1 else 0) =
    slots_in_use ss + (if fst s \<noteq> 0 then 1 else 0)"
proof (induction ss arbitrary: i)
  case Nil
  then show ?case by simp
next
  case (Cons x ss)
  then show ?case by (cases i) (auto simp: slots_in_use_def)
qed

section \<open>Expiry\<close>

text \<open>A slot carries an identity with a valid priority, or it is free.\<close>

definition timers_ok :: "kernel \<Rightarrow> bool" where
  "timers_ok k \<longleftrightarrow> wk_ok k \<and> (\<forall>s \<in> set (timer_slots k). fst s \<noteq> 0 \<longrightarrow> coop_id (snd s))"

text \<open>The state of the kernel outside the waker words and the timer slots.\<close>

lemma mark_ready_frame:
  assumes "mark_ready t k = Some k'"
  shows "timer_slots k' = timer_slots k" "good k \<Longrightarrow> good k'" "tasks k' = tasks k"
    "ptask_deadlines k' = ptask_deadlines k" "current_ids k' = current_ids k"
    "mutexes k' = mutexes k"
proof -
  show f: "timer_slots k' = timer_slots k" "tasks k' = tasks k" "mutexes k' = mutexes k"
    "ptask_deadlines k' = ptask_deadlines k" "current_ids k' = current_ids k"
    using assms by (auto simp: mark_ready_def Let_def split: if_splits)
  show "good k \<Longrightarrow> good k'"
    by (erule good_frame) (use assms in \<open>auto simp: mark_ready_def Let_def ready_words_def split: if_splits\<close>)
qed

lemma good_timer_slots [simp]: "good k \<Longrightarrow> good (k\<lparr>timer_slots := ss\<rparr>)"
  by (erule good_frame) (simp_all add: ready_words_def)

lemma good_ptask_deadlines [simp]: "good k \<Longrightarrow> length ds = length (ptask_deadlines k) \<Longrightarrow>
    good (k\<lparr>ptask_deadlines := ds\<rparr>)"
  by (erule good_frame) (simp_all add: ready_words_def)

lemma coop_wk_frame [simp]:
  "wk_ok (k\<lparr>timer_slots := ss\<rparr>) = wk_ok k" "wk_ready (k\<lparr>timer_slots := ss\<rparr>) = wk_ready k"
  by (simp_all add: wk_ok_def wk_words_def wk_ready_def)

definition due :: "nat list \<Rightarrow> u64 \<Rightarrow> kernel \<Rightarrow> (nat \<times> nat) set" where
  "due is now k = {tid_pair (snd (timer_slots k ! i)) | i.
     i \<in> set is \<and> expired now (fst (timer_slots k ! i))}"

text \<open>The table after a scan of the slots \<open>is\<close>.\<close>

definition scanned :: "nat list \<Rightarrow> u64 \<Rightarrow> (u64 \<times> u16) list \<Rightarrow> (u64 \<times> u16) list \<Rightarrow> bool" where
  "scanned is now ts ts' \<longleftrightarrow> length ts' = length ts \<and>
     (\<forall>j < length ts. ts' ! j = (if j \<in> set is \<and> expired now (fst (ts ! j)) then (0, snd (ts ! j)) else ts ! j))"

lemma scanned_all:
  assumes "scanned [0..<length ts] now ts ts'"
  shows "ts' = map (\<lambda>(d, t). (if expired now d then 0 else d, t)) ts"
proof (rule nth_equalityI)
  show len: "length ts' = length (map (\<lambda>(d, t). (if expired now d then 0 else d, t)) ts)"
    using assms by (simp add: scanned_def)
  show "ts' ! j = map (\<lambda>(d, t). (if expired now d then 0 else d, t)) ts ! j" if "j < length ts'" for j
    using assms that len by (cases "ts ! j") (simp add: scanned_def)
qed

lemma scanned_skip: "\<not> expired now (fst (ts ! i)) \<Longrightarrow> scanned is now ts ts' \<Longrightarrow> scanned (i # is) now ts ts'"
  unfolding scanned_def by (metis set_ConsD list.set_intros(2))

lemma scanned_take:
  assumes "i < length ts" "i \<notin> set is" "expired now (fst (ts ! i))"
    and s: "scanned is now (ts[i := (0, snd (ts ! i))]) ts'"
  shows "scanned (i # is) now ts ts'"
  unfolding scanned_def
proof (intro conjI allI impI)
  show "length ts' = length ts" using s by (simp add: scanned_def)
  show "ts' ! j = (if j \<in> set (i # is) \<and> expired now (fst (ts ! j)) then (0, snd (ts ! j)) else ts ! j)"
    if "j < length ts" for j
    using s that assms(1-3) by (cases "j = i") (simp_all add: scanned_def)
qed

text \<open>One expired slot: it is freed and its task marked.\<close>

lemma expire_slot:
  assumes ok: "timers_ok k" "good k" and i: "i < length (timer_slots k)" and x: "expired now (fst (timer_slots k ! i))"
  defines "t \<equiv> snd (timer_slots k ! i)"
  shows "\<exists>k1. mark_ready t (k\<lparr>timer_slots := (timer_slots k)[i := (0, t)]\<rparr>) = Some k1 \<and> timers_ok k1 \<and> good k1 \<and>
    timer_slots k1 = (timer_slots k)[i := (0, t)] \<and> wk_ready k1 = insert (tid_pair t) (wk_ready k) \<and>
    tasks k1 = tasks k \<and> ptask_deadlines k1 = ptask_deadlines k \<and> current_ids k1 = current_ids k \<and> mutexes k1 = mutexes k"
proof -
  let ?k0 = "k\<lparr>timer_slots := (timer_slots k)[i := (0, t)]\<rparr>"
  have c: "coop_id t" and ok0: "wk_ok ?k0" using ok(1) x i by (auto simp: timers_ok_def expired_def t_def)
  obtain k1 where k1: "mark_ready t ?k0 = Some k1" "wk_ok k1" "wk_ready k1 = insert (tid_pair t) (wk_ready k)"
    using mark_ready_spec [OF ok0 c] by (auto simp: tid_pair_def)
  note fr = mark_ready_frame [OF k1(1)]
  have sl: "timer_slots k1 = (timer_slots k)[i := (0, t)]" using fr(1) by simp
  have "timers_ok k1"
    using k1(2) ok(1) i by (auto simp: timers_ok_def sl dest!: set_update_subset_insert [THEN subsetD])
  then show ?thesis using k1 sl fr(2-6) ok(2) by auto
qed

lemma due_skip: "\<not> expired now (fst (timer_slots k ! i)) \<Longrightarrow> due (i # is) now k = due is now k"
  by (auto simp: due_def)

lemma due_take:
  assumes "i \<notin> set is" "expired now (fst (timer_slots k ! i))" "timer_slots k1 = (timer_slots k)[i := s]"
  shows "due (i # is) now k = insert (tid_pair (snd (timer_slots k ! i))) (due is now k1)"
proof -
  have "timer_slots k1 ! j = timer_slots k ! j" if "j \<in> set is" for j
    using that assms(1,3) by (metis nth_list_update_neq)
  then show ?thesis using assms(2) by (auto simp: due_def) metis+
qed

lemma scan_timers_spec:
  assumes "distinct is" and "\<forall>i \<in> set is. i < length (timer_slots k)"
    and "timers_ok k" and "good k"
  shows "\<exists>woke' k'. scan_timers is now woke k = Some (woke', k') \<and> timers_ok k' \<and> good k' \<and>
    (woke' \<longleftrightarrow> woke \<or> (\<exists>i \<in> set is. expired now (fst (timer_slots k ! i)))) \<and>
    wk_ready k' = wk_ready k \<union> due is now k \<and>
    scanned is now (timer_slots k) (timer_slots k') \<and>
    tasks k' = tasks k \<and> ptask_deadlines k' = ptask_deadlines k \<and>
    current_ids k' = current_ids k \<and> mutexes k' = mutexes k"
  using assms
proof (induction "is" arbitrary: k woke)
  case Nil
  then show ?case by (simp add: due_def scanned_def)
next
  case (Cons i "is")
  have i: "i < length (timer_slots k)" "i \<notin> set is" "distinct is" "\<forall>j \<in> set is. j < length (timer_slots k)"
    using Cons.prems by auto
  show ?case
  proof (cases "expired now (fst (timer_slots k ! i))")
    case False
    obtain w' k' where "scan_timers is now woke k = Some (w', k')" "timers_ok k'" "good k'"
      "w' \<longleftrightarrow> woke \<or> (\<exists>i \<in> set is. expired now (fst (timer_slots k ! i)))" "wk_ready k' = wk_ready k \<union> due is now k"
      "scanned is now (timer_slots k) (timer_slots k')" "tasks k' = tasks k" "ptask_deadlines k' = ptask_deadlines k"
      "current_ids k' = current_ids k" "mutexes k' = mutexes k"
      using Cons.IH [OF i(3,4) Cons.prems(3,4), of woke] by blast
    then show ?thesis using False due_skip [OF False] scanned_skip [OF False]
      by (intro exI [of _ w'] exI [of _ k']) simp
  next
    case True
    let ?t = "snd (timer_slots k ! i)"
    obtain k1 where k1: "mark_ready ?t (k\<lparr>timer_slots := (timer_slots k)[i := (0, ?t)]\<rparr>) = Some k1" "timers_ok k1" "good k1"
      "timer_slots k1 = (timer_slots k)[i := (0, ?t)]" "wk_ready k1 = insert (tid_pair ?t) (wk_ready k)"
      "tasks k1 = tasks k" "ptask_deadlines k1 = ptask_deadlines k" "current_ids k1 = current_ids k" "mutexes k1 = mutexes k"
      using expire_slot [OF Cons.prems(3,4) i(1) True] by blast
    have "\<forall>j \<in> set is. j < length (timer_slots k1)" using i(4) by (simp add: k1(4))
    then obtain w' k' where "scan_timers is now True k1 = Some (w', k')" "timers_ok k'" "good k'" "w'"
      "wk_ready k' = wk_ready k1 \<union> due is now k1" "scanned is now (timer_slots k1) (timer_slots k')"
      "tasks k' = tasks k1" "ptask_deadlines k' = ptask_deadlines k1" "current_ids k' = current_ids k1" "mutexes k' = mutexes k1"
      using Cons.IH [OF i(3) _ k1(2,3), of True] by blast
    moreover from this(6) have "scanned (i # is) now (timer_slots k) (timer_slots k')"
      unfolding k1(4) by (rule scanned_take [OF i(1,2) True])
    ultimately show ?thesis using True k1(1,5-9) due_take [OF i(2) True k1(4)]
      by (intro exI [of _ w'] exI [of _ k']) simp
  qed
qed

lemma unblock_frame:
  assumes "good k" and "unblock h i k = Some k'"
  shows "ptask_deadlines k' = ptask_deadlines k" "timer_slots k' = timer_slots k"
    "max_ptasks k' = max_ptasks k" "current_ids k' = current_ids k" "mutexes k' = mutexes k"
    "wk_words k' = wk_words k" "dispatch_seq k' = dispatch_seq k"
    "map effective_priority (tasks k') = map effective_priority (tasks k)"
    "map held (tasks k') = map held (tasks k)"
    "map base_priority (tasks k') = map base_priority (tasks k)"
  using assms
  by (auto simp: unblock_wf goodD enqueue_def wake_other_harts_def set_ready_words_def
      upd_task_def wk_words_def map_upd_at split: if_splits)

text \<open>One deadline that has passed: it is cleared and its task unblocked.\<close>

lemma expire_deadline:
  assumes g: "good k"
  shows "\<exists>k1. unblock h i (k\<lparr>ptask_deadlines := (ptask_deadlines k)[i := 0]\<rparr>) = Some k1 \<and> good k1 \<and>
    ptask_deadlines k1 = (ptask_deadlines k)[i := 0] \<and> (\<forall>j. task_live k1 j = task_live k j) \<and>
    (\<forall>j. task_ready k1 j \<longleftrightarrow> task_ready k j \<or> (j = i \<and> task_live k i)) \<and>
    timer_slots k1 = timer_slots k \<and> wk_words k1 = wk_words k"
proof -
  let ?k0 = "k\<lparr>ptask_deadlines := (ptask_deadlines k)[i := 0]\<rparr>"
  have g0: "good ?k0" using g by simp
  obtain k1 where k1: "unblock h i ?k0 = Some k1" "good k1" using unblock_good [OF g0] by blast
  note fr = unblock_frame [OF g0 k1(1)]
  have "task_live k1 j = task_live k j" for j
    using ts.wake_live [OF g0 k1(1)] by (simp add: task_live_def)
  moreover have "task_ready k1 j \<longleftrightarrow> task_ready k j \<or> (j = i \<and> task_live k i)" for j
    using ts.wake_ready [OF g0 k1(1)] by (simp add: task_live_def task_ready_def)
  moreover have "ptask_deadlines k1 = (ptask_deadlines k)[i := 0]" "timer_slots k1 = timer_slots k" "wk_words k1 = wk_words k"
    using fr(1,2,6) by (simp_all add: wk_words_def)
  ultimately show ?thesis using k1 by blast
qed

lemma scan_ptasks_spec:
  assumes "distinct is" and "\<forall>i \<in> set is. i < length (ptask_deadlines k)" and "good k"
  shows "\<exists>woke' k'. scan_ptasks is h now woke k = Some (woke', k') \<and> good k' \<and>
    (\<forall>j. task_live k' j = task_live k j) \<and>
    (\<forall>j. task_ready k' j \<longleftrightarrow> task_ready k j \<or>
       (j \<in> set is \<and> expired now (ptask_deadlines k ! j) \<and> task_live k j)) \<and>
    ptask_deadlines k' = map (\<lambda>(j, d). if j \<in> set is \<and> expired now d then 0 else d)
      (enumerate 0 (ptask_deadlines k)) \<and>
    timer_slots k' = timer_slots k \<and> wk_words k' = wk_words k"
  using assms
proof (induction "is" arbitrary: k woke)
  case Nil
  have "map (\<lambda>(j, d). d) (enumerate 0 (ptask_deadlines k)) = ptask_deadlines k"
    by (simp add: list_eq_iff_nth_eq nth_enumerate_eq)
  then show ?case using Nil by simp
next
  case (Cons i "is")
  have i: "i < length (ptask_deadlines k)" "i \<notin> set is" "distinct is"
    "\<forall>j \<in> set is. j < length (ptask_deadlines k)" using Cons.prems by auto
  show ?case
  proof (cases "expired now (ptask_deadlines k ! i)")
    case False
    have m: "map (\<lambda>(j, d). if j \<in> set (i # is) \<and> expired now d then 0 else d) (enumerate 0 (ptask_deadlines k))
      = map (\<lambda>(j, d). if j \<in> set is \<and> expired now d then 0 else d) (enumerate 0 (ptask_deadlines k))"
      using False by (auto simp: list_eq_iff_nth_eq nth_enumerate_eq)
    obtain w' k' where r: "scan_ptasks is h now woke k = Some (w', k')" "good k'"
      "\<forall>j. task_live k' j = task_live k j"
      "\<forall>j. task_ready k' j \<longleftrightarrow> task_ready k j \<or>
         (j \<in> set is \<and> expired now (ptask_deadlines k ! j) \<and> task_live k j)"
      "ptask_deadlines k' = map (\<lambda>(j, d). if j \<in> set is \<and> expired now d then 0 else d)
        (enumerate 0 (ptask_deadlines k))"
      "timer_slots k' = timer_slots k" "wk_words k' = wk_words k"
      using Cons.IH [OF i(3,4) Cons.prems(3), of woke] by blast
    show ?thesis unfolding m using r False by (intro exI [of _ w'] exI [of _ k']) auto
  next
    case True
    obtain k1 where k1: "unblock h i (k\<lparr>ptask_deadlines := (ptask_deadlines k)[i := 0]\<rparr>) = Some k1" "good k1"
      and dl: "ptask_deadlines k1 = (ptask_deadlines k)[i := 0]" and live: "\<And>j. task_live k1 j = task_live k j"
      and ready: "\<And>j. task_ready k1 j \<longleftrightarrow> task_ready k j \<or> (j = i \<and> task_live k i)"
      and fr: "timer_slots k1 = timer_slots k" "wk_words k1 = wk_words k"
      using expire_deadline [OF Cons.prems(3)] by blast
    have bnd: "\<forall>j \<in> set is. j < length (ptask_deadlines k1)" using i by (simp add: dl)
    obtain w' k' where r: "scan_ptasks is h now True k1 = Some (w', k')" "good k'"
      "\<forall>j. task_live k' j = task_live k1 j"
      "\<forall>j. task_ready k' j \<longleftrightarrow> task_ready k1 j \<or>
         (j \<in> set is \<and> expired now (ptask_deadlines k1 ! j) \<and> task_live k1 j)"
      "ptask_deadlines k' = map (\<lambda>(j, d). if j \<in> set is \<and> expired now d then 0 else d)
        (enumerate 0 (ptask_deadlines k1))"
      "timer_slots k' = timer_slots k1" "wk_words k' = wk_words k1"
      using Cons.IH [OF i(3) bnd k1(2), of True] by blast
    have same: "ptask_deadlines k1 ! j = ptask_deadlines k ! j" if "j \<in> set is" for j
      using that i(2) by (cases "j = i") (simp_all add: dl)
    have m: "ptask_deadlines k' = map (\<lambda>(j, d). if j \<in> set (i # is) \<and> expired now d then 0 else d)
        (enumerate 0 (ptask_deadlines k))"
      using True i
      by (auto simp: r(5) list_eq_iff_nth_eq nth_enumerate_eq dl nth_list_update expired_def)
    have "task_ready k' j \<longleftrightarrow> task_ready k j \<or>
       (j \<in> set (i # is) \<and> expired now (ptask_deadlines k ! j) \<and> task_live k j)" for j
      using r(4) ready live same True by auto
    then show ?thesis
      using True k1(1) r m live fr by (intro exI [of _ w'] exI [of _ k']) auto
  qed
qed

lemma good_broadcast [simp]: "good k \<Longrightarrow> good (broadcast_reschedule h k)"
  by (simp add: broadcast_reschedule_def)

lemma broadcast_frame [simp]:
  "tasks (broadcast_reschedule h k) = tasks k"
  "timer_slots (broadcast_reschedule h k) = timer_slots k"
  "ptask_deadlines (broadcast_reschedule h k) = ptask_deadlines k"
  "wk_words (broadcast_reschedule h k) = wk_words k"
  "task_live (broadcast_reschedule h k) = task_live k"
  "task_ready (broadcast_reschedule h k) = task_ready k"
  by (simp_all add: broadcast_reschedule_def wk_words_def fun_eq_iff task_live_def task_ready_def)

definition coop_due :: "u64 \<Rightarrow> kernel \<Rightarrow> (nat \<times> nat) set" where
  "coop_due now k = {tid_pair t | i d t. (i, d, t) \<in> pending (timer_slots k) \<and> d \<le> now}"

lemma due_all: "due [0..<length (timer_slots k)] now k = coop_due now k"
  by (force simp: due_def coop_due_def pending_def expired_def)

definition polled :: "u64 \<Rightarrow> kernel \<Rightarrow> kernel \<Rightarrow> bool" where
  "polled now k k' \<longleftrightarrow> good k' \<and> timers_ok k' \<and>
     wk_ready k' = wk_ready k \<union> coop_due now k \<and>
     (\<forall>j. task_ready k' j \<longleftrightarrow> task_ready k j \<or>
        (j < length (ptask_deadlines k) \<and> expired now (ptask_deadlines k ! j) \<and> task_live k j)) \<and>
     timer_slots k' = map (\<lambda>(d, t). (if expired now d then 0 else d, t)) (timer_slots k) \<and>
     ptask_deadlines k' = map (\<lambda>d. if expired now d then 0 else d) (ptask_deadlines k)"

lemma all_deadlines: "map (\<lambda>(j, d). if j \<in> set [0..<length ds] \<and> expired now d then 0 else d) (enumerate 0 ds) =
    map (\<lambda>d. if expired now d then 0 else d) ds"
  by (rule nth_equalityI) (simp_all add: nth_enumerate_eq)

lemma poll_timers_spec:
  assumes g: "good k" and t: "timers_ok k"
  shows "\<exists>k'. poll_timers h now k = Some k' \<and> polled now k k'"
proof -
  let ?is = "[0..<length (timer_slots k)]"
  have pre: "distinct ?is" "\<forall>i \<in> set ?is. i < length (timer_slots k)" by auto
  obtain w k1 where r: "scan_timers ?is now False k = Some (w, k1)" "timers_ok k1" "good k1"
      "wk_ready k1 = wk_ready k \<union> due ?is now k" "scanned ?is now (timer_slots k) (timer_slots k1)"
      "tasks k1 = tasks k" "ptask_deadlines k1 = ptask_deadlines k"
    using scan_timers_spec [OF pre t g, of now False] by blast
  define k2 where "k2 = (if w then broadcast_reschedule h k1 else k1)"
  have k2: "good k2" "timers_ok k2" "wk_words k2 = wk_words k1" "tasks k2 = tasks k"
    "timer_slots k2 = timer_slots k1" "ptask_deadlines k2 = ptask_deadlines k"
    using r by (auto simp: k2_def timers_ok_def wk_ok_def)
  let ?js = "[0..<length (ptask_deadlines k2)]"
  have pre2: "distinct ?js" "\<forall>i \<in> set ?js. i < length (ptask_deadlines k2)" by auto
  obtain w2 k3 where s: "scan_ptasks ?js h now False k2 = Some (w2, k3)" "good k3"
      "\<forall>j. task_ready k3 j \<longleftrightarrow> task_ready k2 j \<or>
       (j \<in> set ?js \<and> expired now (ptask_deadlines k2 ! j) \<and> task_live k2 j)"
      "ptask_deadlines k3 = map (\<lambda>(j, d). if j \<in> set ?js \<and> expired now d then 0 else d)
        (enumerate 0 (ptask_deadlines k2))"
      "timer_slots k3 = timer_slots k2" "wk_words k3 = wk_words k2"
    using scan_ptasks_spec [OF pre2 k2(1), of h now False] by blast
  define k4 where "k4 = (if w2 then broadcast_reschedule h k3 else k3)"
  have "poll_timers h now k = Some k4"
    using r(1) s(1) by (simp add: poll_timers_def poll_ptask_deadlines_def k2_def k4_def)
  moreover have "polled now k k4"
    unfolding polled_def
  proof (intro conjI allI)
    have tsl: "timer_slots k4 = timer_slots k1" and ww: "wk_words k4 = wk_words k1"
      using s k2 by (simp_all add: k4_def)
    show "good k4" using s by (simp add: k4_def)
    show "timers_ok k4" using r(2) tsl ww by (simp add: timers_ok_def wk_ok_def)
    show "wk_ready k4 = wk_ready k \<union> coop_due now k"
      using r(4) ww by (simp add: wk_ready_def due_all)
    show "timer_slots k4 = map (\<lambda>(d, t). (if expired now d then 0 else d, t)) (timer_slots k)"
      unfolding tsl by (rule scanned_all [OF r(5)])
    show "ptask_deadlines k4 = map (\<lambda>d. if expired now d then 0 else d) (ptask_deadlines k)"
      using s(4) by (simp add: k4_def k2 all_deadlines del: set_upt)
    show "task_ready k4 j \<longleftrightarrow> task_ready k j \<or>
        (j < length (ptask_deadlines k) \<and> expired now (ptask_deadlines k ! j) \<and> task_live k j)" for j
      using s(3) k2 by (auto simp: k4_def task_ready_def task_live_def)
  qed
  ultimately show ?thesis by blast
qed

end
