(* ===== verification/Mutex.thy ===== *)
theory Mutex
  imports Timer
begin

text \<open>
  The priority-inheritance mutex (\<open>rivet/src/preempt/mutex.rs\<close>): acquisition with rollback,
  the boost of the holder, the waiter array, one iteration of the locking loop split where
  the code leaves its critical section, poisoning, and the unlock in the guard's drop.
\<close>

section \<open>Acquisition\<close>

datatype lock_error = Recursive | Timeout | TooManyHeldMutexes | NotInTask | Poisoned

definition the_mutex :: "nat \<Rightarrow> kernel \<Rightarrow> mutex" where
  "the_mutex m k = mutexes k ! m"

definition is_poisoned :: "nat \<Rightarrow> kernel \<Rightarrow> bool" where
  "is_poisoned m k = poisoned (the_mutex m k)"

definition try_acquire :: "nat \<Rightarrow> nat \<Rightarrow> kernel \<Rightarrow> bool \<times> kernel" where
  "try_acquire m me k =
    (if locked (the_mutex m k) then (False, k)
     else (True, upd_mutex m (\<lambda>x. x\<lparr>locked := True, owner := Some me\<rparr>) k))"

definition mutex_push_held :: "nat \<Rightarrow> nat \<Rightarrow> kernel \<Rightarrow> (lock_error + unit) \<times> kernel" where
  "mutex_push_held m me k =
    (case get_task me k of
       None \<Rightarrow> (Inl NotInTask, k)
     | Some t \<Rightarrow> (let (ok, t') = push_held m t
                 in if ok then (Inr (), upd_task me (\<lambda>_. t') k)
                    else (Inl TooManyHeldMutexes, upd_task me (\<lambda>_. t') k)))"

definition try_acquire_guarded :: "nat \<Rightarrow> nat \<Rightarrow> kernel \<Rightarrow> bool \<times> kernel" where
  "try_acquire_guarded m me k =
    (if poisoned (the_mutex m k) then (False, k)
     else let (got, k1) = try_acquire m me k
          in if \<not> got then (False, k1)
             else case mutex_push_held m me k1 of
                    (Inr _, k2) \<Rightarrow> (True, k2)
                  | (Inl _, k2) \<Rightarrow>
                      (False, upd_mutex m (\<lambda>x. x\<lparr>locked := False\<rparr>)
                                (upd_mutex m (\<lambda>x. x\<lparr>owner := None\<rparr>) k2)))"

definition try_lock :: "nat \<Rightarrow> nat \<Rightarrow> kernel \<Rightarrow> bool \<times> kernel" where
  "try_lock h m k = (case current h k of None \<Rightarrow> (False, k) | Some me \<Rightarrow> try_acquire_guarded m me k)"

section \<open>Inheritance\<close>

text \<open>The largest base priority among the live waiters; 0 without waiters.\<close>

fun hwp_scan :: "kernel \<Rightarrow> nat option list \<Rightarrow> nat \<Rightarrow> nat" where
  "hwp_scan k [] mx = mx"
| "hwp_scan k (None # ws) mx = hwp_scan k ws mx"
| "hwp_scan k (Some w # ws) mx =
     hwp_scan k ws (case get_task w k of
        None \<Rightarrow> mx
      | Some t \<Rightarrow> (if base_priority t > mx then base_priority t else mx))"

definition highest_waiter_priority :: "nat \<Rightarrow> kernel \<Rightarrow> nat" where
  "highest_waiter_priority m k = hwp_scan k (waiters (the_mutex m k)) 0"

definition boost_holder :: "nat \<Rightarrow> nat \<Rightarrow> kernel \<Rightarrow> kernel option" where
  "boost_holder m me k =
    (case owner (the_mutex m k) of
       None \<Rightarrow> Some k
     | Some ow \<Rightarrow>
         (case (get_task me k, get_task ow k) of
            (Some mt, Some ot) \<Rightarrow>
              (if base_priority mt > effective_priority ot
               then set_effective_priority ow (base_priority mt) k else Some k)
          | _ \<Rightarrow> Some k))"

section \<open>Waiters\<close>

text \<open>The first free slot takes the waiter; a full array leaves it unregistered.\<close>

definition add_waiter :: "nat \<Rightarrow> nat \<Rightarrow> kernel \<Rightarrow> kernel" where
  "add_waiter m i k =
    (case fill_first i (waiters (the_mutex m k)) of
       None \<Rightarrow> k
     | Some ws \<Rightarrow> upd_mutex m (\<lambda>x. x\<lparr>waiters := ws\<rparr>) k)"

definition remove_waiter :: "nat \<Rightarrow> nat \<Rightarrow> kernel \<Rightarrow> kernel" where
  "remove_waiter m i k =
    upd_mutex m (\<lambda>x. x\<lparr>waiters := map (\<lambda>w. if w = Some i then None else w) (waiters x)\<rparr>) k"

fun wake_slots :: "nat list \<Rightarrow> nat \<Rightarrow> nat \<Rightarrow> kernel \<Rightarrow> kernel option" where
  "wake_slots [] h m k = Some k"
| "wake_slots (s # ss) h m k =
     (let w = waiters (the_mutex m k) ! s;
          k1 = upd_mutex m (\<lambda>x. x\<lparr>waiters := (waiters x)[s := None]\<rparr>) k
      in case w of
           None \<Rightarrow> wake_slots ss h m k1
         | Some i \<Rightarrow> do {
             k2 \<leftarrow> unblock h i k1;
             wake_slots ss h m (cancel_ptask_deadline i k2)
           })"

definition wake_all_waiters :: "nat \<Rightarrow> nat \<Rightarrow> kernel \<Rightarrow> kernel option" where
  "wake_all_waiters h m k = wake_slots [0..<length (waiters (the_mutex m k))] h m k"

definition poison_mutex :: "nat \<Rightarrow> nat \<Rightarrow> kernel \<Rightarrow> kernel option" where
  "poison_mutex h m k = wake_all_waiters h m (upd_mutex m (\<lambda>x. x\<lparr>poisoned := True\<rparr>) k)"

section \<open>Locking\<close>

text \<open>
  One iteration of \<open>lock_timeout\<close>. \<open>lock_fast\<close> runs with interrupts enabled; it answers, or
  leaves the slow path to run (\<open>None\<close>). \<open>deadline\<close> is the absolute deadline and \<open>now\<close> the
  clock read when there is one. \<open>lock_slow\<close> is the critical section and the reschedule
  request after it; it answers \<open>True\<close> when it acquired, \<open>False\<close> when it blocked.
\<close>

definition lock_fast :: "nat \<Rightarrow> nat \<Rightarrow> u64 option \<Rightarrow> u64 \<Rightarrow> kernel
    \<Rightarrow> (lock_error + unit) option \<times> kernel" where
  "lock_fast m me deadline now k =
    (if poisoned (the_mutex m k) then (Some (Inl Poisoned), k)
     else let (got, k1) = try_acquire_guarded m me k
          in if got then (Some (Inr ()), k1)
             else if owner (the_mutex m k1) = Some me then (Some (Inl Recursive), k1)
             else case deadline of
                    None \<Rightarrow> (None, k1)
                  | Some d \<Rightarrow>
                      (if now \<ge> d
                       then (Some (Inl Timeout), cancel_ptask_deadline me (remove_waiter m me k1))
                       else (None, k1)))"

definition lock_slow :: "nat \<Rightarrow> nat \<Rightarrow> nat \<Rightarrow> u64 option \<Rightarrow> kernel \<Rightarrow> (bool \<times> kernel) option" where
  "lock_slow h m me deadline k =
    (let (got, k1) = try_acquire_guarded m me k
     in if got then Some (True, k1)
        else do {
          k2 \<leftarrow> boost_holder m me k1;
          let k3 = add_waiter m me k2;
          let k4 = (case deadline of None \<Rightarrow> k3 | Some d \<Rightarrow> snd (register_ptask_deadline d me k3));
          k5 \<leftarrow> block_current h k4;
          Some (False, emit Request_reschedule k5)
        })"

text \<open>
  The whole of \<open>lock_timeout\<close> on behalf of a task, as a run in which the rest of the system
  may change the kernel arbitrarily (\<open>env\<close>) between the fast path and the critical section
  and while the task is switched out. \<open>None\<close> as a final kernel is a panic.
\<close>

inductive lock_run :: "(kernel \<Rightarrow> kernel \<Rightarrow> bool) \<Rightarrow> nat \<Rightarrow> nat \<Rightarrow> nat \<Rightarrow> u64 option
    \<Rightarrow> kernel \<Rightarrow> (lock_error + unit) \<Rightarrow> kernel \<Rightarrow> bool"
  for env h m me d where
  fast: "lock_fast m me d now k = (Some r, k1) \<Longrightarrow> lock_run env h m me d k r k1"
| slow: "lock_fast m me d now k = (None, k1) \<Longrightarrow> env k1 k2 \<Longrightarrow>
    lock_slow h m me d k2 = Some (True, k3) \<Longrightarrow> lock_run env h m me d k (Inr ()) k3"
| again: "lock_fast m me d now k = (None, k1) \<Longrightarrow> env k1 k2 \<Longrightarrow>
    lock_slow h m me d k2 = Some (False, k3) \<Longrightarrow> env k3 k4 \<Longrightarrow>
    lock_run env h m me d k4 r k5 \<Longrightarrow> lock_run env h m me d k r k5"

definition lock_deadline :: "u64 option \<Rightarrow> u64 \<Rightarrow> u64 option" where
  "lock_deadline timeout now = map_option (\<lambda>d. now + d) timeout"

definition lock_timeout :: "(kernel \<Rightarrow> kernel \<Rightarrow> bool) \<Rightarrow> nat \<Rightarrow> nat \<Rightarrow> u64 option \<Rightarrow> u64
    \<Rightarrow> kernel \<Rightarrow> (lock_error + unit) \<Rightarrow> kernel \<Rightarrow> bool" where
  "lock_timeout env h m timeout now k r k' \<longleftrightarrow>
    (case current h k of
       None \<Rightarrow> r = Inl NotInTask \<and> k' = k
     | Some me \<Rightarrow> lock_run env h m me (lock_deadline timeout now) k r k')"

section \<open>Unlocking\<close>

fun eff_scan :: "kernel \<Rightarrow> nat option list \<Rightarrow> nat \<Rightarrow> nat" where
  "eff_scan k [] eff = eff"
| "eff_scan k (None # hs) eff = eff_scan k hs eff"
| "eff_scan k (Some m # hs) eff =
     eff_scan k hs (let hwp = highest_waiter_priority m k in if hwp > eff then hwp else eff)"

definition guard_drop :: "nat \<Rightarrow> nat \<Rightarrow> kernel \<Rightarrow> kernel option" where
  "guard_drop h m k = do {
     let ow = owner (the_mutex m k);
     let k1 = upd_mutex m (\<lambda>x. x\<lparr>owner := None\<rparr>) k;
     k2 \<leftarrow> (case ow of
              None \<Rightarrow> Some k1
            | Some o' \<Rightarrow>
                (case get_task o' k1 of
                   None \<Rightarrow> Some k1
                 | Some t \<Rightarrow>
                     (let t' = remove_held m t; k1' = upd_task o' (\<lambda>_. t') k1
                      in set_effective_priority o' (eff_scan k1' (held t') (base_priority t')) k1')));
     let k3 = upd_mutex m (\<lambda>x. x\<lparr>locked := False\<rparr>) k2;
     k4 \<leftarrow> wake_all_waiters h m k3;
     Some (emit Request_reschedule k4)
   }"

end
