(* ===== verification/Mutex_Spec.thy ===== *)
theory Mutex_Spec
  imports Mutex
begin

text \<open>
  The mutex under the kernel invariant: every operation is total and keeps it; acquisition
  succeeds exactly on a free, unpoisoned mutex with room in the caller's held list; a
  blocked waiter boosts the holder; the unlock recomputes the holder's priority from the
  mutexes it still holds and readies every waiter.
\<close>

section \<open>What a wake-up leaves alone\<close>

definition quiet_view :: "tcb \<Rightarrow> tcb" where
  "quiet_view t = t\<lparr>raw_state := READY\<rparr>"

definition same_tasks :: "kernel \<Rightarrow> kernel \<Rightarrow> bool" where
  "same_tasks k k' \<longleftrightarrow> map quiet_view (tasks k') = map quiet_view (tasks k)"

lemma same_tasks_refl [simp]: "same_tasks k k"
  by (simp add: same_tasks_def)

lemma same_tasks_trans: "same_tasks k k1 \<Longrightarrow> same_tasks k1 k2 \<Longrightarrow> same_tasks k k2"
  by (simp add: same_tasks_def)

lemma same_tasksD:
  assumes "same_tasks k k'"
  shows "max_ptasks k' = max_ptasks k"
    "i < max_ptasks k \<Longrightarrow> quiet_view (tasks k' ! i) = quiet_view (tasks k ! i)"
proof -
  show l: "max_ptasks k' = max_ptasks k"
    using assms unfolding same_tasks_def by (metis length_map)
  show "i < max_ptasks k \<Longrightarrow> quiet_view (tasks k' ! i) = quiet_view (tasks k ! i)"
    using assms l unfolding same_tasks_def by (metis nth_map)
qed

lemma quiet_view_eqD:
  assumes "quiet_view t = quiet_view u"
  shows "base_priority t = base_priority u" "effective_priority t = effective_priority u"
    "held t = held u" "used t = used u" "held_count t = held_count u"
    "generation t = generation u" "joiner t = joiner u" "exited t = exited u"
proof -
  have "base_priority (quiet_view t) = base_priority (quiet_view u)"
    "effective_priority (quiet_view t) = effective_priority (quiet_view u)"
    "held (quiet_view t) = held (quiet_view u)" "used (quiet_view t) = used (quiet_view u)"
    "held_count (quiet_view t) = held_count (quiet_view u)"
    "generation (quiet_view t) = generation (quiet_view u)"
    "joiner (quiet_view t) = joiner (quiet_view u)" "exited (quiet_view t) = exited (quiet_view u)"
    using assms by simp_all
  then show "base_priority t = base_priority u" "effective_priority t = effective_priority u"
    "held t = held u" "used t = used u" "held_count t = held_count u"
    "generation t = generation u" "joiner t = joiner u" "exited t = exited u"
    by (simp_all add: quiet_view_def)
qed

lemmas same_tasks_fields = quiet_view_eqD [OF same_tasksD(2)]

lemma same_tasks_live: "same_tasks k k' \<Longrightarrow> task_live k' i = task_live k i"
  using same_tasksD(1) [of k k'] same_tasks_fields(4) [of k k' i] by (auto simp: task_live_def)

lemma unblock_same: "good k \<Longrightarrow> unblock h i k = Some k' \<Longrightarrow> same_tasks k k'"
  by (auto simp: unblock_wf goodD same_tasks_def map_upd_at quiet_view_def split: if_splits)

lemma cancel_frame [simp]:
  "tasks (cancel_ptask_deadline i k) = tasks k"
  "mutexes (cancel_ptask_deadline i k) = mutexes k"
  "current_ids (cancel_ptask_deadline i k) = current_ids k"
  "ready_words (cancel_ptask_deadline i k) = ready_words k"
  "task_ready (cancel_ptask_deadline i k) = task_ready k"
  "task_live (cancel_ptask_deadline i k) = task_live k"
  by (simp_all add: cancel_ptask_deadline_def ready_words_def fun_eq_iff task_ready_def task_live_def)

lemma good_cancel [simp]: "good k \<Longrightarrow> good (cancel_ptask_deadline i k)"
  by (simp add: cancel_ptask_deadline_def)

lemma register_ptask_frame [simp]:
  "tasks (snd (register_ptask_deadline d i k)) = tasks k"
  "mutexes (snd (register_ptask_deadline d i k)) = mutexes k"
  "current_ids (snd (register_ptask_deadline d i k)) = current_ids k"
  "ready_words (snd (register_ptask_deadline d i k)) = ready_words k"
  by (simp_all add: register_ptask_deadline_def ready_words_def)

lemma good_register_ptask [simp]: "good k \<Longrightarrow> good (snd (register_ptask_deadline d i k))"
  by (simp add: register_ptask_deadline_def)

section \<open>Acquisition\<close>

lemma the_mutex_upd: "m < length (mutexes k) \<Longrightarrow> the_mutex n (upd_mutex m f k) =
    (if n = m then f (the_mutex m k) else the_mutex n k)"
  by (cases "n = m") (simp_all add: the_mutex_def)

lemma the_mutex_frame [simp]:
  "the_mutex m (upd_task i f k) = the_mutex m k"
  "the_mutex m (cancel_ptask_deadline i k) = the_mutex m k"
  "the_mutex m (emits es k) = the_mutex m k"
  by (simp_all add: the_mutex_def)

definition can_hold :: "kernel \<Rightarrow> nat \<Rightarrow> nat \<Rightarrow> bool" where
  "can_hold k m me \<longleftrightarrow> task_live k me \<and> fst (push_held m (tasks k ! me))"

definition can_acquire :: "kernel \<Rightarrow> nat \<Rightarrow> nat \<Rightarrow> bool" where
  "can_acquire k m me \<longleftrightarrow> \<not> poisoned (the_mutex m k) \<and> \<not> locked (the_mutex m k) \<and> can_hold k m me"

definition acquired :: "nat \<Rightarrow> nat \<Rightarrow> kernel \<Rightarrow> kernel" where
  "acquired m me k = upd_task me (\<lambda>t. snd (push_held m t))
     (upd_mutex m (\<lambda>x. x\<lparr>locked := True, owner := Some me\<rparr>) k)"

definition rolled_back :: "nat \<Rightarrow> kernel \<Rightarrow> kernel" where
  "rolled_back m k = upd_mutex m (\<lambda>x. x\<lparr>owner := None, locked := False\<rparr>) k"

lemma push_held_fail: "\<not> fst (push_held m t) \<Longrightarrow> snd (push_held m t) = t"
  by (auto simp: push_held_def split: option.splits if_splits)

lemma upd_task_const: "i < max_ptasks k \<Longrightarrow> upd_task i (\<lambda>_. f (tasks k ! i)) k = upd_task i f k"
  by (simp add: upd_task_def upd_at_def)

lemma upd_task_same: "i < max_ptasks k \<Longrightarrow> f (tasks k ! i) = tasks k ! i \<Longrightarrow> upd_task i f k = k"
  by (simp add: upd_task_def upd_at_def)

lemma upd_task_upd_mutex: "upd_task i f (upd_mutex m g k) = upd_mutex m g (upd_task i f k)"
  by (simp add: upd_task_def upd_mutex_def)

lemma upd_mutex_upd_mutex [simp]: "upd_mutex m f (upd_mutex m g k) = upd_mutex m (\<lambda>x. f (g x)) k"
  by (simp add: upd_mutex_def)

lemma try_acquire_guarded_eq:
  "try_acquire_guarded m me k =
    (if can_acquire k m me then (True, acquired m me k)
     else if poisoned (the_mutex m k) \<or> locked (the_mutex m k) then (False, k)
     else (False, rolled_back m k))"
proof (cases "poisoned (the_mutex m k) \<or> locked (the_mutex m k)")
  case True
  then show ?thesis by (auto simp: try_acquire_guarded_def try_acquire_def can_acquire_def)
next
  case False
  let ?k1 = "upd_mutex m (\<lambda>x. x\<lparr>locked := True, owner := Some me\<rparr>) k"
  have a: "try_acquire m me k = (True, ?k1)" using False by (simp add: try_acquire_def)
  show ?thesis
  proof (cases "task_live k me")
    case live: True
    then have g: "get_task me ?k1 = Some (tasks k ! me)" and me: "me < max_ptasks ?k1"
      by (simp_all add: get_task_def task_live_def)
    show ?thesis
    proof (cases "fst (push_held m (tasks k ! me))")
      case True
      then have "mutex_push_held m me ?k1 = (Inr (), acquired m me k)"
        using upd_task_const [OF me, of "\<lambda>t. snd (push_held m t)"]
        by (simp add: mutex_push_held_def g acquired_def split_beta)
      then show ?thesis using False live True a
        by (simp add: try_acquire_guarded_def can_acquire_def can_hold_def)
    next
      case nh: False
      then have "mutex_push_held m me ?k1 = (Inl TooManyHeldMutexes, ?k1)"
        using upd_task_same [OF me, of "\<lambda>_. tasks k ! me"] push_held_fail [OF nh]
        by (simp add: mutex_push_held_def g split_beta)
      then show ?thesis using False live nh a
        by (simp add: try_acquire_guarded_def can_acquire_def can_hold_def rolled_back_def)
    qed
  next
    case dead: False
    then have "mutex_push_held m me ?k1 = (Inl NotInTask, ?k1)"
      by (auto simp: mutex_push_held_def get_task_def task_live_def)
    then show ?thesis using False dead a
      by (simp add: try_acquire_guarded_def can_acquire_def can_hold_def rolled_back_def)
  qed
qed

lemma push_held_inv_view:
  "snd (push_held m t) = t \<or> (\<exists>hs. fill_first m (held t) = Some hs \<and>
     snd (push_held m t) = t\<lparr>held := hs, held_count := held_count t + 1\<rparr>)"
  by (auto simp: push_held_def split: option.splits)

lemma push_held_keeps [simp]:
  "sched_view (snd (push_held m t)) = sched_view t"
  "base_priority (snd (push_held m t)) = base_priority t"
  "effective_priority (snd (push_held m t)) = effective_priority t"
  "used (snd (push_held m t)) = used t" "raw_state (snd (push_held m t)) = raw_state t"
  using push_held_inv_view [of m t] by (auto simp: sched_view_def)

lemma wf_push_held: "wf_tcb k t \<Longrightarrow> m < length (mutexes k) \<Longrightarrow> wf_tcb k (snd (push_held m t))"
proof (cases "snd (push_held m t) = t")
  case False
  assume wf: "wf_tcb k t" and m: "m < length (mutexes k)"
  from False obtain hs where hs: "fill_first m (held t) = Some hs"
    "snd (push_held m t) = t\<lparr>held := hs, held_count := held_count t + 1\<rparr>"
    using push_held_inv_view [of m t] by blast
  then have "Some x \<in> set hs \<Longrightarrow> x < length (mutexes k)" for x
    using fill_first_Some [OF hs(1)] wf m by (auto simp: wf_tcb_def)
  then show ?thesis using wf hs by (simp add: wf_tcb_def)
qed simp

lemma good_acquired:
  assumes "good k" and "m < length (mutexes k)" and "me < max_ptasks k"
  shows "good (acquired m me k)"
  unfolding acquired_def
proof (rule good_upd_task)
  let ?k1 = "upd_mutex m (\<lambda>x. x\<lparr>locked := True, owner := Some me\<rparr>) k"
  show g: "good ?k1"
    by (rule good_upd_mutex) (use assms in \<open>auto simp: wf_mutex_def dest: good_wf(9)\<close>)
  show "me < max_ptasks ?k1 \<Longrightarrow> wf_tcb ?k1 (snd (push_held m (tasks ?k1 ! me)))"
    using good_wf(8) [OF g, of me] assms by (auto intro!: wf_push_held)
qed simp

lemma good_rolled_back: "good k \<Longrightarrow> good (rolled_back m k)"
  unfolding rolled_back_def by (rule good_upd_mutex) (auto simp: wf_mutex_def dest: good_wf(9))

lemma good_try_acquire_guarded:
  "good k \<Longrightarrow> m < length (mutexes k) \<Longrightarrow> me < max_ptasks k \<Longrightarrow>
    good (snd (try_acquire_guarded m me k))"
  by (simp add: try_acquire_guarded_eq good_acquired good_rolled_back)

lemma acquired_simps:
  assumes "m < length (mutexes k)"
  shows "locked (the_mutex m (acquired m me k))" "owner (the_mutex m (acquired m me k)) = Some me"
    "waiters (the_mutex m (acquired m me k)) = waiters (the_mutex m k)"
    "n \<noteq> m \<Longrightarrow> the_mutex n (acquired m me k) = the_mutex n k"
    "poisoned (the_mutex m (acquired m me k)) = poisoned (the_mutex m k)"
  using assms by (simp_all add: acquired_def the_mutex_upd)

section \<open>Inheritance\<close>

definition waiter_prios :: "kernel \<Rightarrow> nat option list \<Rightarrow> nat set" where
  "waiter_prios k ws = {base_priority (tasks k ! w) | w. Some w \<in> set ws \<and> task_live k w}"

lemma finite_waiter_prios [simp]: "finite (waiter_prios k ws)"
proof -
  have "waiter_prios k ws \<subseteq> (\<lambda>w. base_priority (tasks k ! the w)) ` set ws"
    by (force simp: waiter_prios_def)
  then show ?thesis by (rule finite_subset) simp
qed

lemma waiter_prios_Cons:
  "waiter_prios k (None # ws) = waiter_prios k ws"
  "waiter_prios k (Some w # ws) =
    (if task_live k w then insert (base_priority (tasks k ! w)) (waiter_prios k ws)
     else waiter_prios k ws)"
  by (auto simp: waiter_prios_def)

lemma get_task_live: "get_task w k = (if task_live k w then Some (tasks k ! w) else None)"
  by (simp add: get_task_def task_live_def)

lemma Max_insert2: "finite A \<Longrightarrow> Max (insert (max a b) A) = Max (insert a (insert b A))"
  by (cases "A = {}") (auto simp: max.assoc)

lemma hwp_scan_Max: "hwp_scan k ws mx = Max (insert mx (waiter_prios k ws))"
proof (induction k ws mx rule: hwp_scan.induct)
  case (1 k mx)
  then show ?case by (simp add: waiter_prios_def)
next
  case (2 k ws mx)
  then show ?case by (simp add: waiter_prios_Cons)
next
  case (3 k w ws mx)
  have e: "(if base_priority (tasks k ! w) > mx then base_priority (tasks k ! w) else mx) =
      max mx (base_priority (tasks k ! w))" by auto
  show ?case
    using 3 by (auto simp: waiter_prios_Cons get_task_live e Max_insert2 simp del: Max_insert)
qed

lemma highest_waiter_Max:
  "highest_waiter_priority m k = Max (insert 0 (waiter_prios k (waiters (the_mutex m k))))"
  by (simp add: highest_waiter_priority_def hwp_scan_Max del: Max_insert)

lemma highest_waiter_ge: "Some w \<in> set (waiters (the_mutex m k)) \<Longrightarrow> task_live k w \<Longrightarrow>
    base_priority (tasks k ! w) \<le> highest_waiter_priority m k"
  unfolding highest_waiter_Max
  by (rule Max_ge) (simp, unfold waiter_prios_def, blast)

lemma highest_waiter_less: "good k \<Longrightarrow> highest_waiter_priority m k < 32"
  unfolding highest_waiter_Max
  by (subst Max_less_iff) (auto simp: waiter_prios_def task_live_def dest: good_wf(12))

lemma eff_scan_Max:
  "eff_scan k hs eff = Max (insert eff {highest_waiter_priority m k | m. Some m \<in> set hs})"
proof (induction k hs eff rule: eff_scan.induct)
  case (1 k eff)
  then show ?case by simp
next
  case (2 k hs eff)
  then show ?case by simp
next
  case (3 k m hs eff)
  let ?S = "\<lambda>hs. {highest_waiter_priority m k | m. Some m \<in> set hs}"
  have fin: "finite (?S hs)"
  proof (rule finite_subset)
    show "?S hs \<subseteq> (\<lambda>x. highest_waiter_priority (the x) k) ` set hs" by force
  qed simp
  have e: "(if highest_waiter_priority m k > eff then highest_waiter_priority m k else eff) =
      max eff (highest_waiter_priority m k)" by auto
  have s: "?S (Some m # hs) = insert (highest_waiter_priority m k) (?S hs)" by auto
  show ?case unfolding s using 3 fin by (simp add: Let_def e Max_insert2 del: Max_insert)
qed

lemma eff_scan_less: "good k \<Longrightarrow> eff < 32 \<Longrightarrow> eff_scan k hs eff < 32"
  by (induction k hs eff rule: eff_scan.induct) (auto simp: Let_def highest_waiter_less)

text \<open>The boost: the holder's effective priority is at least the waiter's base priority.\<close>

definition boosted :: "nat \<Rightarrow> nat \<Rightarrow> kernel \<Rightarrow> kernel" where
  "boosted m me k =
    (case owner (the_mutex m k) of
       None \<Rightarrow> k
     | Some ow \<Rightarrow>
         (if task_live k me \<and> task_live k ow \<and>
             base_priority (tasks k ! me) > effective_priority (tasks k ! ow)
          then requeue ow (base_priority (tasks k ! me)) k else k))"

lemma boost_holder_eq: "good k \<Longrightarrow> boost_holder m me k = Some (boosted m me k)"
  by (auto simp: boost_holder_def boosted_def get_task_live set_effective_priority_wf goodD
      task_live_def good_wf(12) split: option.splits)

lemma good_boosted: "good k \<Longrightarrow> good (boosted m me k)"
  by (auto simp: boosted_def task_live_def good_wf(12) intro!: good_requeue split: option.splits)

lemma boosted_frame [simp]:
  "mutexes (boosted m me k) = mutexes k" "current_ids (boosted m me k) = current_ids k"
  "ptask_deadlines (boosted m me k) = ptask_deadlines k"
  "max_ptasks (boosted m me k) = max_ptasks k"
  by (auto simp: boosted_def split: option.splits)

lemma boosted_tasks:
  assumes "i < max_ptasks k"
  shows "tasks (boosted m me k) ! i = tasks k ! i \<or>
    tasks (boosted m me k) ! i = (tasks k ! i)\<lparr>effective_priority := base_priority (tasks k ! me)\<rparr>"
  using assms by (auto simp: boosted_def nth_upd_at split: option.splits)

lemma boosted_live [simp]: "task_live (boosted m me k) i = task_live k i"
  using boosted_tasks [of i k m me] by (auto simp: task_live_def)

lemma boosted_raw [simp]: "i < max_ptasks k \<Longrightarrow> raw_state (tasks (boosted m me k) ! i) = raw_state (tasks k ! i)"
  "i < max_ptasks k \<Longrightarrow> base_priority (tasks (boosted m me k) ! i) = base_priority (tasks k ! i)"
  "i < max_ptasks k \<Longrightarrow> held (tasks (boosted m me k) ! i) = held (tasks k ! i)"
  using boosted_tasks [of i k m me] by auto

lemma boosted_effective:
  "owner (the_mutex m k) = Some ow \<Longrightarrow> task_live k ow \<Longrightarrow> task_live k me \<Longrightarrow>
    base_priority (tasks k ! me) \<le> effective_priority (tasks (boosted m me k) ! ow)"
  by (auto simp: boosted_def task_live_def)

section \<open>Waiters\<close>

lemma add_waiter_frame [simp]:
  "tasks (add_waiter m i k) = tasks k" "current_ids (add_waiter m i k) = current_ids k"
  "ready_words (add_waiter m i k) = ready_words k"
  "ptask_deadlines (add_waiter m i k) = ptask_deadlines k"
  "length (mutexes (add_waiter m i k)) = length (mutexes k)"
  "task_live (add_waiter m i k) = task_live k" "task_ready (add_waiter m i k) = task_ready k"
  by (auto simp: add_waiter_def fun_eq_iff task_live_def task_ready_def split: option.splits)

lemma good_add_waiter: "good k \<Longrightarrow> i < max_ptasks k \<Longrightarrow> good (add_waiter m i k)"
proof (cases "fill_first i (waiters (the_mutex m k))")
  case None
  then show "good k \<Longrightarrow> good (add_waiter m i k)" by (simp add: add_waiter_def)
next
  case (Some ws)
  assume g: "good k" and i: "i < max_ptasks k"
  have "good (upd_mutex m (\<lambda>x. x\<lparr>waiters := ws\<rparr>) k)"
  proof (rule good_upd_mutex [OF g])
    assume "m < length (mutexes k)"
    then show "wf_mutex k ((mutexes k ! m)\<lparr>waiters := ws\<rparr>)"
      using good_wf(9) [OF g] fill_first_Some [OF Some] i by (auto simp: wf_mutex_def the_mutex_def)
  qed
  then show ?thesis by (simp add: add_waiter_def Some)
qed

lemma add_waiter_waiters:
  assumes "m < length (mutexes k)" and "None \<in> set (waiters (the_mutex m k))"
  shows "Some x \<in> set (waiters (the_mutex m (add_waiter m i k))) \<longleftrightarrow>
    x = i \<or> Some x \<in> set (waiters (the_mutex m k))"
proof -
  obtain ws where ws: "fill_first i (waiters (the_mutex m k)) = Some ws"
    using assms(2) fill_first_None [of i "waiters (the_mutex m k)"] by auto
  then show ?thesis
    using assms(1) fill_first_Some [OF ws] by (simp add: add_waiter_def the_mutex_upd)
qed

lemma add_waiter_owner: "m < length (mutexes k) \<Longrightarrow>
    owner (the_mutex n (add_waiter m i k)) = owner (the_mutex n k) \<and>
    locked (the_mutex n (add_waiter m i k)) = locked (the_mutex n k) \<and>
    poisoned (the_mutex n (add_waiter m i k)) = poisoned (the_mutex n k)"
  by (auto simp: add_waiter_def the_mutex_upd split: option.splits)

lemma good_remove_waiter: "good k \<Longrightarrow> good (remove_waiter m i k)"
  unfolding remove_waiter_def
  by (rule good_upd_mutex) (auto simp: wf_mutex_def dest!: good_wf(9) split: if_splits)

lemma remove_waiter_waiters: "m < length (mutexes k) \<Longrightarrow>
    Some x \<in> set (waiters (the_mutex m (remove_waiter m i k))) \<longleftrightarrow>
    x \<noteq> i \<and> Some x \<in> set (waiters (the_mutex m k))"
  by (auto simp: remove_waiter_def the_mutex_upd image_iff)

definition waits_on :: "kernel \<Rightarrow> nat \<Rightarrow> nat list \<Rightarrow> nat set" where
  "waits_on k m ss = {i. \<exists>s \<in> set ss. waiters (the_mutex m k) ! s = Some i}"

text \<open>
  Emptying the waiter slots readies exactly the live tasks in them, cancels their deadlines,
  and leaves the rest of every control block and mutex alone.
\<close>

definition woken :: "nat \<Rightarrow> nat list \<Rightarrow> kernel \<Rightarrow> kernel \<Rightarrow> bool" where
  "woken m ss k k' \<longleftrightarrow> good k' \<and> same_tasks k k' \<and> current_ids k' = current_ids k \<and>
     (\<forall>j. task_ready k' j \<longleftrightarrow> task_ready k j \<or> (j \<in> waits_on k m ss \<and> task_live k j)) \<and>
     length (mutexes k') = length (mutexes k) \<and>
     (\<forall>n. n \<noteq> m \<longrightarrow> the_mutex n k' = the_mutex n k) \<and>
     the_mutex m k' = (the_mutex m k)\<lparr>waiters :=
       map (\<lambda>s. if s \<in> set ss then None else waiters (the_mutex m k) ! s)
         [0..<length (waiters (the_mutex m k))]\<rparr>"

lemma good_clear_waiter: "good k \<Longrightarrow> good (upd_mutex m (\<lambda>x. x\<lparr>waiters := (waiters x)[s := None]\<rparr>) k)"
  by (rule good_upd_mutex)
    (auto simp: wf_mutex_def dest!: good_wf(9) dest: set_update_subset_insert [THEN subsetD])

text \<open>One slot of the list: it is cleared and the task in it, if any, woken.\<close>

lemma wake_slot_step:
  fixes m s k
  defines "w \<equiv> waiters (the_mutex m k) ! s"
    and "k1 \<equiv> upd_mutex m (\<lambda>x. x\<lparr>waiters := (waiters x)[s := None]\<rparr>) k"
  assumes g: "good k"
  shows "\<exists>k2. wake_slots (s # ss) h m k = wake_slots ss h m k2 \<and> good k2 \<and> same_tasks k k2 \<and>
    current_ids k2 = current_ids k \<and> mutexes k2 = mutexes k1 \<and>
    (\<forall>j. task_ready k2 j \<longleftrightarrow> task_ready k j \<or> (w = Some j \<and> task_live k j))"
proof -
  have g1: "good k1" unfolding k1_def using g by (rule good_clear_waiter)
  have st1: "same_tasks k k1" "task_ready k1 = task_ready k" "task_live k1 = task_live k" "current_ids k1 = current_ids k"
    by (simp_all add: k1_def same_tasks_def fun_eq_iff task_ready_def task_live_def)
  show ?thesis
  proof (cases w)
    case None
    then show ?thesis using g1 st1 by (intro exI [of _ k1]) (simp add: w_def k1_def)
  next
    case (Some i)
    obtain k' where k': "unblock h i k1 = Some k'" "good k'" using unblock_good [OF g1] by blast
    have "same_tasks k (cancel_ptask_deadline i k')"
      using unblock_same [OF g1 k'(1)] st1(1) by (auto simp: same_tasks_def)
    moreover have "task_ready k' j \<longleftrightarrow> task_ready k j \<or> (j = i \<and> task_live k i)" for j
      using ts.wake_ready [OF g1 k'(1)] st1 by simp
    moreover have "current_ids k' = current_ids k" "mutexes k' = mutexes k1"
      using unblock_frame(4,5) [OF g1 k'(1)] st1(4) by simp_all
    moreover have "wake_slots (s # ss) h m k = wake_slots ss h m (cancel_ptask_deadline i k')"
      using Some k' by (simp add: w_def k1_def Let_def)
    ultimately show ?thesis using Some k' by (intro exI [of _ "cancel_ptask_deadline i k'"]) auto
  qed
qed

lemma wake_slots_spec:
  assumes "distinct ss" and "\<forall>s \<in> set ss. s < length (waiters (the_mutex m k))"
    and "good k" and "m < length (mutexes k)"
  shows "\<exists>k'. wake_slots ss h m k = Some k' \<and> woken m ss k k'"
  using assms
proof (induction ss arbitrary: k)
  case Nil
  have "map (\<lambda>s. waiters (the_mutex m k) ! s) [0..<length (waiters (the_mutex m k))] =
      waiters (the_mutex m k)" by (rule map_nth)
  then show ?case using Nil by (simp add: woken_def waits_on_def)
next
  case (Cons s ss)
  let ?w = "waiters (the_mutex m k) ! s"
  let ?k1 = "upd_mutex m (\<lambda>x. x\<lparr>waiters := (waiters x)[s := None]\<rparr>) k"
  have s: "s < length (waiters (the_mutex m k))" "s \<notin> set ss" "distinct ss"
    using Cons.prems by auto
  have m1: "the_mutex n ?k1 = (if n = m then (the_mutex m k)\<lparr>waiters := (waiters (the_mutex m k))[s := None]\<rparr>
      else the_mutex n k)" for n
    using Cons.prems(4) by (simp add: the_mutex_upd)
  obtain k2 where k2: "wake_slots (s # ss) h m k = wake_slots ss h m k2" "good k2"
    "same_tasks k k2" "current_ids k2 = current_ids k" "mutexes k2 = mutexes ?k1"
    "\<forall>j. task_ready k2 j \<longleftrightarrow> task_ready k j \<or> (?w = Some j \<and> task_live k j)"
    using wake_slot_step [OF Cons.prems(3), where m = m and s = s and ss = ss and h = h] by blast
  have m2: "the_mutex n k2 = the_mutex n ?k1" for n using k2(5) by (simp add: the_mutex_def)
  have pre: "\<forall>s \<in> set ss. s < length (waiters (the_mutex m k2))" "m < length (mutexes k2)"
    using Cons.prems by (auto simp: m2 m1 k2(5))
  obtain k' where k': "wake_slots ss h m k2 = Some k'" "woken m ss k2 k'"
    using Cons.IH [OF s(3) pre(1) k2(2) pre(2)] by blast
  have wo: "waits_on k2 m ss = waits_on k m ss"
    using s(2) by (auto simp: waits_on_def m2 m1 nth_list_update_neq) (metis nth_list_update_neq)+
  have wc: "waits_on k m (s # ss) = {i. ?w = Some i} \<union> waits_on k m ss"
    by (auto simp: waits_on_def)
  have live: "task_live k2 j = task_live k j" for j using same_tasks_live [OF k2(3)] by simp
  have fin: "(the_mutex m k2)\<lparr>waiters :=
       map (\<lambda>s. if s \<in> set ss then None else waiters (the_mutex m k2) ! s)
         [0..<length (waiters (the_mutex m k2))]\<rparr> =
     (the_mutex m k)\<lparr>waiters :=
       map (\<lambda>r. if r \<in> set (s # ss) then None else waiters (the_mutex m k) ! r)
         [0..<length (waiters (the_mutex m k))]\<rparr>"
    using s(1) by (simp add: m2 m1 nth_list_update)
  have "woken m (s # ss) k k'"
    unfolding woken_def
  proof (intro conjI allI impI)
    show "good k'" using k'(2) by (simp add: woken_def)
    show "same_tasks k k'" using k'(2) k2(3) by (auto simp: woken_def intro: same_tasks_trans)
    show "current_ids k' = current_ids k" using k'(2) k2(4) by (simp add: woken_def)
    show "task_ready k' j \<longleftrightarrow> task_ready k j \<or> (j \<in> waits_on k m (s # ss) \<and> task_live k j)" for j
      using k'(2) k2(6) by (auto simp: woken_def wo wc live)
    show "length (mutexes k') = length (mutexes k)" using k'(2) k2(5) by (simp add: woken_def)
    show "the_mutex n k' = the_mutex n k" if "n \<noteq> m" for n
      using k'(2) that by (simp add: woken_def m2 m1)
    show "the_mutex m k' = (the_mutex m k)\<lparr>waiters :=
       map (\<lambda>r. if r \<in> set (s # ss) then None else waiters (the_mutex m k) ! r)
         [0..<length (waiters (the_mutex m k))]\<rparr>"
      using k'(2) fin by (simp add: woken_def)
  qed
  then show ?case using k2(1) k'(1) by auto
qed

definition all_woken :: "nat \<Rightarrow> kernel \<Rightarrow> kernel \<Rightarrow> bool" where
  "all_woken m k k' \<longleftrightarrow> good k' \<and> same_tasks k k' \<and> current_ids k' = current_ids k \<and>
     (\<forall>j. task_ready k' j \<longleftrightarrow> task_ready k j \<or>
        (Some j \<in> set (waiters (the_mutex m k)) \<and> task_live k j)) \<and>
     length (mutexes k') = length (mutexes k) \<and>
     (\<forall>n. n \<noteq> m \<longrightarrow> the_mutex n k' = the_mutex n k) \<and>
     the_mutex m k' = (the_mutex m k)\<lparr>waiters := replicate (length (waiters (the_mutex m k))) None\<rparr>"

lemma wake_all_spec:
  assumes "good k" and "m < length (mutexes k)"
  shows "\<exists>k'. wake_all_waiters h m k = Some k' \<and> all_woken m k k'"
proof -
  let ?ss = "[0..<length (waiters (the_mutex m k))]"
  have pre: "distinct ?ss" "\<forall>s \<in> set ?ss. s < length (waiters (the_mutex m k))" by auto
  obtain k' where k': "wake_slots ?ss h m k = Some k'" "woken m ?ss k k'"
    using wake_slots_spec [OF pre assms] by blast
  have w: "waits_on k m ?ss = {j. Some j \<in> set (waiters (the_mutex m k))}"
    by (auto simp: waits_on_def in_set_conv_nth)
  have r: "map (\<lambda>s. if s \<in> set ?ss then None else waiters (the_mutex m k) ! s) ?ss =
      replicate (length (waiters (the_mutex m k))) None"
    by (rule nth_equalityI) simp_all
  have "all_woken m k k'" using k'(2) unfolding all_woken_def woken_def w r by simp
  then show ?thesis using k'(1) by (auto simp: wake_all_waiters_def)
qed

end
