(* ===== verification/Mutex_Lock.thy ===== *)
theory Mutex_Lock
  imports Mutex_Spec
begin

text \<open>
  The locking loop and the unlock as whole operations: the blocking branch registers the
  caller, blocks it and boosts the holder; a run of the loop against an arbitrary rest of the
  system ends holding the mutex exactly when it reports success; the unlock readies every
  registered waiter.
\<close>

section \<open>The slow path\<close>

definition with_deadline :: "u64 option \<Rightarrow> nat \<Rightarrow> kernel \<Rightarrow> kernel" where
  "with_deadline d me k = (case d of None \<Rightarrow> k | Some t \<Rightarrow> snd (register_ptask_deadline t me k))"

lemma with_deadline_frame [simp]:
  "tasks (with_deadline d me k) = tasks k" "mutexes (with_deadline d me k) = mutexes k"
  "current_ids (with_deadline d me k) = current_ids k"
  "ready_words (with_deadline d me k) = ready_words k"
  "the_mutex m (with_deadline d me k) = the_mutex m k"
  by (auto simp: with_deadline_def the_mutex_def split: option.splits)

lemma good_with_deadline [simp]: "good k \<Longrightarrow> good (with_deadline d me k)"
  by (auto simp: with_deadline_def split: option.splits)

definition after_attempt :: "nat \<Rightarrow> nat \<Rightarrow> kernel \<Rightarrow> kernel" where
  "after_attempt m me k = snd (try_acquire_guarded m me k)"

definition waiting :: "nat \<Rightarrow> nat \<Rightarrow> u64 option \<Rightarrow> kernel \<Rightarrow> kernel" where
  "waiting m me d k = with_deadline d me (add_waiter m me (boosted m me (after_attempt m me k)))"

definition blocked :: "nat \<Rightarrow> kernel \<Rightarrow> kernel" where
  "blocked me k = emit Request_reschedule (dequeue me (set_raw me BLOCKED k))"

lemma after_attempt_fail:
  assumes "\<not> can_acquire k m me"
  shows "after_attempt m me k = k \<or> (\<not> poisoned (the_mutex m k) \<and> \<not> locked (the_mutex m k) \<and>
      after_attempt m me k = rolled_back m k)"
    "tasks (after_attempt m me k) = tasks k"
    "current_ids (after_attempt m me k) = current_ids k"
    "length (mutexes (after_attempt m me k)) = length (mutexes k)"
    "waiters (the_mutex m (after_attempt m me k)) = waiters (the_mutex m k)"
    "good k \<Longrightarrow> good (after_attempt m me k)"
    "ptask_deadlines (after_attempt m me k) = ptask_deadlines k"
  using assms
  by (auto simp: after_attempt_def try_acquire_guarded_eq rolled_back_def good_rolled_back [unfolded rolled_back_def])
    (auto simp: the_mutex_def upd_mutex_def upd_at_def split: if_splits)

lemma after_attempt_locked:
  "locked (the_mutex m k) \<Longrightarrow> after_attempt m me k = k"
  by (simp add: after_attempt_def try_acquire_guarded_eq can_acquire_def)

lemma waiting_frame:
  assumes "\<not> can_acquire k m me" and "good k" and "me < max_ptasks k"
  shows "good (waiting m me d k)" "current_ids (waiting m me d k) = current_ids k"
    "max_ptasks (waiting m me d k) = max_ptasks k"
    "task_live (waiting m me d k) i = task_live k i"
    "length (mutexes (waiting m me d k)) = length (mutexes k)"
    "i < max_ptasks k \<Longrightarrow> base_priority (tasks (waiting m me d k) ! i) = base_priority (tasks k ! i)"
    "i < max_ptasks k \<Longrightarrow> held (tasks (waiting m me d k) ! i) = held (tasks k ! i)"
    "i < max_ptasks k \<Longrightarrow> raw_state (tasks (waiting m me d k) ! i) = raw_state (tasks k ! i)"
proof -
  note f = after_attempt_fail [OF assms(1)]
  have live: "task_live (with_deadline d me k0) = task_live k0" for k0
    by (simp add: fun_eq_iff task_live_def)
  show "good (waiting m me d k)"
    unfolding waiting_def
    by (intro good_with_deadline good_add_waiter good_boosted f(6) assms) (simp add: f assms)
  show "current_ids (waiting m me d k) = current_ids k"
    "max_ptasks (waiting m me d k) = max_ptasks k"
    "length (mutexes (waiting m me d k)) = length (mutexes k)"
    by (simp_all add: waiting_def f)
  show "task_live (waiting m me d k) i = task_live k i"
    by (simp add: waiting_def live) (simp add: task_live_def f)
  show "i < max_ptasks k \<Longrightarrow> base_priority (tasks (waiting m me d k) ! i) = base_priority (tasks k ! i)"
    "i < max_ptasks k \<Longrightarrow> held (tasks (waiting m me d k) ! i) = held (tasks k ! i)"
    "i < max_ptasks k \<Longrightarrow> raw_state (tasks (waiting m me d k) ! i) = raw_state (tasks k ! i)"
    by (simp_all add: waiting_def f)
qed

lemma lock_slow_eq:
  assumes g: "good k" and h: "h < max_harts k" and c: "current h k = Some me"
    and live: "task_live k me"
  shows "lock_slow h m me d k =
    (if can_acquire k m me then Some (True, acquired m me k)
     else Some (False, blocked me (waiting m me d k)))"
proof (cases "can_acquire k m me")
  case True
  then show ?thesis by (simp add: lock_slow_def try_acquire_guarded_eq)
next
  case False
  note f = after_attempt_fail [OF False]
  have me: "me < max_ptasks k" using live by (simp add: task_live_def)
  note w = waiting_frame [OF False g me]
  have att: "try_acquire_guarded m me k = (False, after_attempt m me k)"
    using False by (simp add: after_attempt_def try_acquire_guarded_eq)
  have g1: "good (after_attempt m me k)" using f(6) g by blast
  have "block_current h (waiting m me d k) =
      Some (dequeue me (set_raw me BLOCKED (waiting m me d k)))"
    using block_current_wf [OF goodD(1) [OF w(1)], of h] h c w(4) [of d me] live
    by (simp add: w(2) current_def task_live_def)
  then show ?thesis
    using False
    by (simp add: lock_slow_def att boost_holder_eq [OF g1] blocked_def waiting_def with_deadline_def Let_def)
qed

text \<open>What the blocking branch establishes.\<close>

definition lock_waits :: "nat \<Rightarrow> nat \<Rightarrow> kernel \<Rightarrow> kernel \<Rightarrow> bool" where
  "lock_waits m me k k' \<longleftrightarrow> good k' \<and> raw_state (tasks k' ! me) = BLOCKED \<and> \<not> queued k' me \<and>
     (None \<in> set (waiters (the_mutex m k)) \<longrightarrow> Some me \<in> set (waiters (the_mutex m k'))) \<and>
     (\<forall>ow. locked (the_mutex m k) \<and> owner (the_mutex m k) = Some ow \<and> ow \<noteq> me \<and> task_live k ow \<longrightarrow>
        base_priority (tasks k ! me) \<le> effective_priority (tasks k' ! ow)) \<and>
     last (events k') = Request_reschedule"

lemma not_queued_blocked: "good k \<Longrightarrow> raw_state (tasks k ! i) = BLOCKED \<Longrightarrow> \<not> queued k i"
  using queue_okD(2) [OF goodD(2), of k _ i] by (auto simp: queued_def queueable_def)

lemma lock_slow_waits:
  assumes g: "good k" and h: "h < max_harts k" and c: "current h k = Some me"
    and live: "task_live k me" and m: "m < length (mutexes k)"
    and r: "lock_slow h m me d k = Some (False, k')"
  shows "lock_waits m me k k'"
proof -
  have nc: "\<not> can_acquire k m me" and k': "k' = blocked me (waiting m me d k)"
    using r by (auto simp: lock_slow_eq [OF g h c live] split: if_splits)
  have me: "me < max_ptasks k" using live by (simp add: task_live_def)
  note f = after_attempt_fail [OF nc] and w = waiting_frame [OF nc g me]
  have me': "me < max_ptasks (waiting m me d k)" using me w(3) by simp
  have g': "good k'" unfolding k' blocked_def
    by (rule good_emits) (rule good_make_unready [OF w(1) me'], simp_all)
  have raw: "raw_state (tasks k' ! me) = BLOCKED" using me' by (simp add: k' blocked_def)
  have mx: "the_mutex n k' = the_mutex n (waiting m me d k)" for n
    by (simp add: k' blocked_def the_mutex_def)
  have wt: "Some me \<in> set (waiters (the_mutex m k'))" if "None \<in> set (waiters (the_mutex m k))"
    unfolding mx waiting_def with_deadline_frame
    by (subst add_waiter_waiters) (use that m f in \<open>auto simp: the_mutex_def\<close>)
  have bo: "base_priority (tasks k ! me) \<le> effective_priority (tasks k' ! ow)"
    if "locked (the_mutex m k)" "owner (the_mutex m k) = Some ow" "ow \<noteq> me" "task_live k ow" for ow
    using boosted_effective [OF that(2,4) live] that
    by (simp add: k' blocked_def waiting_def after_attempt_locked)
  show ?thesis
    unfolding lock_waits_def
    using g' raw not_queued_blocked [OF g' raw] wt bo by (simp add: k' blocked_def)
qed

section \<open>Runs of the locking loop\<close>

text \<open>The rest of the system keeps the invariant, the mutexes and the identity of the caller.\<close>

definition env_ok :: "(kernel \<Rightarrow> kernel \<Rightarrow> bool) \<Rightarrow> nat \<Rightarrow> nat \<Rightarrow> bool" where
  "env_ok env h me \<longleftrightarrow> (\<forall>k k'. env k k' \<and> good k \<longrightarrow>
     good k' \<and> length (mutexes k') = length (mutexes k) \<and> max_harts k' = max_harts k \<and>
     (task_live k me \<longrightarrow> task_live k' me) \<and> current h k' = Some me)"

definition run_ok :: "nat \<Rightarrow> nat \<Rightarrow> nat \<Rightarrow> kernel \<Rightarrow> bool" where
  "run_ok h m me k \<longleftrightarrow> good k \<and> h < max_harts k \<and> current h k = Some me \<and> task_live k me \<and>
     m < length (mutexes k)"

definition holds_mutex :: "nat \<Rightarrow> nat \<Rightarrow> kernel \<Rightarrow> bool" where
  "holds_mutex m me k \<longleftrightarrow> locked (the_mutex m k) \<and> owner (the_mutex m k) = Some me \<and>
     m \<in> held_set (tasks k ! me)"

lemma acquired_holds:
  assumes "m < length (mutexes k)" and "can_acquire k m me"
  shows "holds_mutex m me (acquired m me k)"
proof -
  have me: "me < max_ptasks k" and p: "fst (push_held m (tasks k ! me))"
    using assms(2) by (auto simp: can_acquire_def can_hold_def task_live_def)
  obtain hs where hs: "fill_first m (held (tasks k ! me)) = Some hs"
    "held (snd (push_held m (tasks k ! me))) = hs"
    using p by (auto simp: push_held_def split: option.splits if_splits)
  have "m \<in> held_set (tasks (acquired m me k) ! me)"
    using fill_first_Some [OF hs(1)] hs(2) me by (simp add: acquired_def held_set_def)
  then show ?thesis using acquired_simps [OF assms(1)] by (simp add: holds_mutex_def)
qed

lemma task_live_emits [simp]: "task_live (emits es k) = task_live k"
  by (simp add: fun_eq_iff task_live_def)

lemma acquired_frame:
  "current_ids (acquired m me k) = current_ids k" "task_live (acquired m me k) i = task_live k i"
  "length (mutexes (acquired m me k)) = length (mutexes k)"
  by (auto simp: acquired_def task_live_def nth_upd_at split: if_splits)

lemma rolled_back_frame:
  "current_ids (rolled_back m k) = current_ids k" "task_live (rolled_back m k) i = task_live k i"
  "length (mutexes (rolled_back m k)) = length (mutexes k)" "tasks (rolled_back m k) = tasks k"
  by (simp_all add: rolled_back_def task_live_def)

definition fast_end :: "nat \<Rightarrow> nat \<Rightarrow> (lock_error + unit) \<Rightarrow> kernel \<Rightarrow> bool" where
  "fast_end m me r k \<longleftrightarrow> good k \<and> r \<noteq> Inl TooManyHeldMutexes \<and> r \<noteq> Inl NotInTask \<and>
     (r = Inr () \<longrightarrow> holds_mutex m me k) \<and>
     (r = Inl Timeout \<longrightarrow> Some me \<notin> set (waiters (the_mutex m k)) \<and> ptask_deadlines k ! me = 0) \<and>
     (r = Inl Poisoned \<longrightarrow> poisoned (the_mutex m k)) \<and>
     (r = Inl Recursive \<longrightarrow> owner (the_mutex m k) = Some me)"

lemma lock_fast_ok:
  assumes ok: "run_ok h m me k" and f: "lock_fast m me d now k = (r, k1)"
  shows "run_ok h m me k1" "r = Some res \<Longrightarrow> fast_end m me res k1"
proof -
  have g: "good k" and me: "me < max_ptasks k" and m: "m < length (mutexes k)"
    using ok by (auto simp: run_ok_def task_live_def)
  let ?k2 = "after_attempt m me k"
  have cases: "can_acquire k m me \<and> ?k2 = acquired m me k \<or>
      \<not> can_acquire k m me \<and> (?k2 = k \<or> ?k2 = rolled_back m k)"
    by (auto simp: after_attempt_def try_acquire_guarded_eq)
  have g2: "good ?k2"
    using good_try_acquire_guarded [OF g m me] by (simp add: after_attempt_def)
  have ok2: "run_ok h m me ?k2"
    using ok cases g2 by (auto simp: run_ok_def current_def acquired_frame rolled_back_frame)
  have att: "try_acquire_guarded m me k = (can_acquire k m me, ?k2)"
    by (simp add: after_attempt_def try_acquire_guarded_eq)
  have dl: "length (ptask_deadlines ?k2) = max_ptasks ?k2" using good_wf(6) [OF g2] .
  have me2: "me < max_ptasks ?k2" using ok2 by (simp add: run_ok_def task_live_def)
  have gr: "good (cancel_ptask_deadline me (remove_waiter m me ?k2))"
    by (intro good_cancel good_remove_waiter g2)
  have okr: "run_ok h m me (cancel_ptask_deadline me (remove_waiter m me ?k2))"
    using ok2 gr by (auto simp: run_ok_def current_def remove_waiter_def task_live_def)
  have m2: "m < length (mutexes ?k2)" using ok2 by (simp add: run_ok_def)
  show "run_ok h m me k1"
    using f ok ok2 okr
    by (auto simp: lock_fast_def att split: if_splits option.splits)
  have to: "Some me \<notin> set (waiters (the_mutex m (cancel_ptask_deadline me (remove_waiter m me ?k2))))"
    using remove_waiter_waiters [OF m2] by simp
  have z: "ptask_deadlines (cancel_ptask_deadline me (remove_waiter m me ?k2)) ! me = 0"
    using me2 dl by (simp add: cancel_ptask_deadline_def remove_waiter_def)
  have hold: "can_acquire k m me \<Longrightarrow> holds_mutex m me ?k2"
    using cases acquired_holds [OF m] by auto
  show "fast_end m me res k1" if "r = Some res"
    using f that g g2 gr to z hold
    by (auto simp: lock_fast_def att fast_end_def split: if_splits option.splits)
qed

lemma lock_slow_ok:
  assumes ok: "run_ok h m me k" and s: "lock_slow h m me d k = Some (b, k')"
  shows "run_ok h m me k'" "b \<Longrightarrow> fast_end m me (Inr ()) k'"
proof -
  have g: "good k" and h: "h < max_harts k" and c: "current h k = Some me" and l: "task_live k me"
    and m: "m < length (mutexes k)" and me: "me < max_ptasks k"
    using ok by (auto simp: run_ok_def task_live_def)
  note eq = lock_slow_eq [OF g h c l, of m d]
  have "run_ok h m me k' \<and> (b \<longrightarrow> fast_end m me (Inr ()) k')"
  proof (cases "can_acquire k m me")
    case True
    then have k': "k' = acquired m me k" "b" using s eq by auto
    have ga: "good (acquired m me k)" using g m me by (rule good_acquired)
    have "run_ok h m me k'"
      using ok ga by (auto simp: k' run_ok_def current_def acquired_frame)
    moreover have "fast_end m me (Inr ()) k'"
      using ga acquired_holds [OF m True] by (simp add: fast_end_def k')
    ultimately show ?thesis by simp
  next
    case False
    then have k': "k' = blocked me (waiting m me d k)" "\<not> b" using s eq by auto
    note w = waiting_frame [OF False g me]
    have "good k'" using lock_slow_waits [OF g h c l m] s k'(2) by (auto simp: lock_waits_def)
    then have "run_ok h m me k'"
      using ok w(4) [of d me] by (auto simp: k' run_ok_def blocked_def current_def w task_live_def)
    then show ?thesis using k'(2) by simp
  qed
  then show "run_ok h m me k'" "b \<Longrightarrow> fast_end m me (Inr ()) k'" by auto
qed

lemma env_run_ok: "env_ok env h me \<Longrightarrow> env k k' \<Longrightarrow> run_ok h m me k \<Longrightarrow> run_ok h m me k'"
  unfolding env_ok_def run_ok_def by metis

lemma lock_run_ok:
  "lock_run env h m me d k r k' \<Longrightarrow> env_ok env h me \<Longrightarrow> run_ok h m me k \<Longrightarrow> fast_end m me r k'"
proof (induction rule: lock_run.induct)
  case (fast now k r k1)
  then show ?case using lock_fast_ok(2) by blast
next
  case (slow now k k1 k2 k3)
  have "run_ok h m me k2" using slow lock_fast_ok(1) env_run_ok by blast
  then show ?case using slow lock_slow_ok(2) by blast
next
  case (again now k k1 k2 k3 k4 r k5)
  have "run_ok h m me k2" using again lock_fast_ok(1) env_run_ok by blast
  then have "run_ok h m me k3" using again lock_slow_ok(1) by blast
  then have "run_ok h m me k4" using again env_run_ok by blast
  then show ?case using again by blast
qed

section \<open>Unlocking\<close>

definition remaining :: "nat \<Rightarrow> tcb \<Rightarrow> nat option list" where
  "remaining m t = held (remove_held m t)"

text \<open>The priority the holder keeps: its base, or the best waiter of a mutex it still holds.\<close>

definition inherited :: "kernel \<Rightarrow> nat \<Rightarrow> nat \<Rightarrow> nat" where
  "inherited k m ow = Max (insert (base_priority (tasks k ! ow))
     {highest_waiter_priority n k | n. Some n \<in> set (remaining m (tasks k ! ow))})"

definition unlocked :: "nat \<Rightarrow> nat \<Rightarrow> kernel \<Rightarrow> kernel \<Rightarrow> bool" where
  "unlocked m ow k k' \<longleftrightarrow> good k' \<and>
     the_mutex m k' = (the_mutex m k)\<lparr>locked := False, owner := None,
       waiters := replicate (max_ptasks k) None\<rparr> \<and>
     effective_priority (tasks k' ! ow) = inherited k m ow \<and>
     held (tasks k' ! ow) = remaining m (tasks k ! ow) \<and>
     (\<forall>j. Some j \<in> set (waiters (the_mutex m k)) \<and> task_live k j \<longrightarrow> task_ready k' j \<and> queued k' j) \<and>
     (\<forall>n. n \<noteq> m \<longrightarrow> the_mutex n k' = the_mutex n k) \<and>
     last (events k') = Request_reschedule"

lemma remove_held_keeps [simp]:
  "sched_view (remove_held m t) = sched_view t" "base_priority (remove_held m t) = base_priority t"
  "effective_priority (remove_held m t) = effective_priority t" "used (remove_held m t) = used t"
  "raw_state (remove_held m t) = raw_state t"
  by (auto simp: remove_held_def sched_view_def split: option.splits)

lemma wf_remove_held: "wf_tcb k t \<Longrightarrow> wf_tcb k (remove_held m t)"
proof (cases "clear_first m (held t)")
  case (Some hs)
  assume wf: "wf_tcb k t"
  have sub: "Some x \<in> set hs \<Longrightarrow> Some x \<in> set (held t)" for x
    using clear_first_Some [OF Some] clear_first_None [of m "held t"] Some by (cases "x = m") auto
  show ?thesis using wf sub Some by (auto simp: remove_held_def wf_tcb_def)
qed (simp add: remove_held_def)

lemma highest_waiter_cong:
  assumes "waiters (the_mutex n k') = waiters (the_mutex n k)" and "max_ptasks k' = max_ptasks k"
    and "\<And>i. i < max_ptasks k \<Longrightarrow> base_priority (tasks k' ! i) = base_priority (tasks k ! i) \<and>
      used (tasks k' ! i) = used (tasks k ! i)"
  shows "highest_waiter_priority n k' = highest_waiter_priority n k"
proof -
  have "waiter_prios k' ws = waiter_prios k ws" for ws
    using assms(2,3) by (auto simp: waiter_prios_def task_live_def) metis+
  then show ?thesis by (simp only: highest_waiter_Max assms(1))
qed

text \<open>The guard lets go in two steps: the mutex is freed and the owner's priority restored, then the waiters are woken.\<close>

definition let_go :: "nat \<Rightarrow> nat \<Rightarrow> kernel \<Rightarrow> kernel \<Rightarrow> bool" where
  "let_go m ow k k' \<longleftrightarrow> good k' \<and> m < length (mutexes k') \<and> max_ptasks k' = max_ptasks k \<and>
     (\<forall>n. the_mutex n k' = (if n = m then (the_mutex m k)\<lparr>owner := None, locked := False\<rparr> else the_mutex n k)) \<and>
     (\<forall>j. task_live k' j = task_live k j) \<and>
     effective_priority (tasks k' ! ow) = inherited k m ow \<and> held (tasks k' ! ow) = remaining m (tasks k ! ow)"

lemma guard_lets_go:
  assumes g: "good k" and m: "m < length (mutexes k)" and o: "owner (the_mutex m k) = Some ow"
    and live: "task_live k ow"
  shows "\<exists>k'. guard_drop h m k = map_option (emit Request_reschedule) (wake_all_waiters h m k') \<and> let_go m ow k k'"
proof -
  have ow: "ow < max_ptasks k" "used (tasks k ! ow)" using live by (auto simp: task_live_def)
  let ?k1 = "upd_mutex m (\<lambda>x. x\<lparr>owner := None\<rparr>) k"
  let ?t' = "remove_held m (tasks k ! ow)"
  let ?k2 = "upd_task ow (remove_held m) ?k1"
  let ?e = "eff_scan ?k2 (held ?t') (base_priority ?t')"
  let ?k3 = "requeue ow ?e ?k2"
  let ?k4 = "upd_mutex m (\<lambda>x. x\<lparr>locked := False\<rparr>) ?k3"
  have g1: "good ?k1" by (rule good_upd_mutex [OF g]) (auto simp: wf_mutex_def dest: good_wf(9) [OF g])
  have g2: "good ?k2"
    by (rule good_upd_task [OF g1]) (use good_wf(8) [OF g1] ow in \<open>auto intro: wf_remove_held\<close>)
  have e32: "?e < 32" using eff_scan_less [OF g2] good_wf(12) [OF g ow(1)] by simp
  have g3: "good ?k3" by (rule good_requeue [OF g2]) (use ow e32 in auto)
  have g4: "good ?k4"
    by (rule good_upd_mutex [OF g3]) (use good_wf(9) [OF g3, of m] m in \<open>auto simp: wf_mutex_def\<close>)
  have hw: "highest_waiter_priority n ?k2 = highest_waiter_priority n k" for n
    by (rule highest_waiter_cong) (auto simp: the_mutex_def nth_upd_at upd_mutex_def upd_at_def nth_list_update)
  have e: "?e = inherited k m ow" unfolding inherited_def remaining_def eff_scan_Max hw by simp
  have c: "get_task ow ?k1 = Some (tasks k ! ow)" "upd_task ow (\<lambda>_. ?t') ?k1 = ?k2"
    "set_effective_priority ow ?e ?k2 = Some ?k3"
    using ow e32 upd_task_const [of ow ?k1 "remove_held m"] set_effective_priority_wf [OF goodD(1) [OF g2]]
    by (simp_all add: get_task_def)
  have "guard_drop h m k = map_option (emit Request_reschedule) (wake_all_waiters h m ?k4)"
    using c(3) by (simp add: guard_drop_def o c(1,2) Let_def map_option_case split: option.split)
  moreover have "let_go m ow k ?k4"
    unfolding let_go_def
  proof (intro conjI allI)
    show "the_mutex n ?k4 = (if n = m then (the_mutex m k)\<lparr>owner := None, locked := False\<rparr> else the_mutex n k)"
      for n using m by (simp add: the_mutex_def)
    show "task_live ?k4 j = task_live k j" for j by (cases "j = ow") (auto simp: task_live_def)
  qed (use g4 m ow e in \<open>simp_all add: remaining_def\<close>)
  ultimately show ?thesis by blast
qed

lemma guard_drop_spec:
  assumes g: "good k" and m: "m < length (mutexes k)" and o: "owner (the_mutex m k) = Some ow"
    and live: "task_live k ow"
  shows "\<exists>k'. guard_drop h m k = Some k' \<and> unlocked m ow k k'"
proof -
  obtain k4 where run: "guard_drop h m k = map_option (emit Request_reschedule) (wake_all_waiters h m k4)"
    and "let_go m ow k k4" using guard_lets_go [OF assms] by blast
  note lg = \<open>let_go m ow k k4\<close> [unfolded let_go_def]
  obtain k5 where k5: "wake_all_waiters h m k4 = Some k5" "all_woken m k4 k5" using wake_all_spec lg by blast
  note aw = k5(2) [unfolded all_woken_def]
  have g5: "good k5" using aw by blast
  have "ow < max_ptasks k4" using live lg by (auto simp: task_live_def)
  then have qv: "quiet_view (tasks k5 ! ow) = quiet_view (tasks k4 ! ow)" using same_tasksD(2) aw by blast
  have ready: "task_ready k5 j" if "Some j \<in> set (waiters (the_mutex m k))" "task_live k j" for j
    using aw that lg by simp
  have "length (waiters (the_mutex m k)) = max_ptasks k"
    using good_wf(9) [OF g m] by (simp add: wf_mutex_def the_mutex_def)
  then have mm: "the_mutex m k5 = (the_mutex m k)\<lparr>locked := False, owner := None,
      waiters := replicate (max_ptasks k) None\<rparr>" using aw lg by simp
  have same: "task_ready (emit Request_reschedule k5) j = task_ready k5 j"
    "queued (emit Request_reschedule k5) j = queued k5 j" for j by (simp_all add: task_ready_def queued_def)
  have "unlocked m ow k (emit Request_reschedule k5)"
    unfolding unlocked_def same
  proof (intro conjI allI impI)
    show "effective_priority (tasks (emit Request_reschedule k5) ! ow) = inherited k m ow"
      "held (tasks (emit Request_reschedule k5) ! ow) = remaining m (tasks k ! ow)"
      using quiet_view_eqD(2,3) [OF qv] lg by simp_all
    show "task_ready k5 j" "queued k5 j" if "Some j \<in> set (waiters (the_mutex m k)) \<and> task_live k j" for j
      using ready task_ready_queued [OF g5 ready] that by blast+
    show "the_mutex n (emit Request_reschedule k5) = the_mutex n k" if "n \<noteq> m" for n using aw that lg by simp
  qed (use g5 mm in simp_all)
  then show ?thesis using run k5(1) by simp
qed

end
