(* ===== verification/Accounting.thy ===== *)
theory Accounting
  imports Timer
begin

text \<open>
  Execution-time accounting (\<open>rivet/src/exec_time.rs\<close>), periods and CPU budgets
  (\<open>rivet/src/deadlines.rs\<close>), and the blocking sleeps of \<open>rivet/src/preempt/mod.rs\<close> they
  rest on. Readings of the cycle counter and of the clock are arguments, one per read.
\<close>

section \<open>Execution time\<close>

definition sat_mul :: "u64 \<Rightarrow> u64 \<Rightarrow> u64" where
  "sat_mul a b = (if unat a * unat b < 2 ^ 64 then of_nat (unat a * unat b) else - 1)"

definition on_first_dispatch :: "u64 \<Rightarrow> u64 \<Rightarrow> kernel \<Rightarrow> kernel" where
  "on_first_dispatch now now_us k =
     k\<lparr>boot_cycle := now, last_dispatch := now, wallclock_boot_us := now_us, started := True\<rparr>"

definition on_switch :: "nat \<Rightarrow> u64 \<Rightarrow> kernel \<Rightarrow> kernel" where
  "on_switch outgoing now k =
    (if \<not> started k then k
     else let elapsed = now - last_dispatch k; k1 = k\<lparr>last_dispatch := now\<rparr>
          in if outgoing < max_ptasks k
             then k1\<lparr>busy_cycles_of :=
               (busy_cycles_of k)[outgoing := busy_cycles_of k ! outgoing + elapsed]\<rparr>
             else k1)"

definition busy_cycles :: "nat \<Rightarrow> kernel \<Rightarrow> u64" where
  "busy_cycles i k = (if i \<ge> max_ptasks k then 0 else busy_cycles_of k ! i)"

definition busy_cycles_live :: "nat \<Rightarrow> u64 \<Rightarrow> kernel \<Rightarrow> u64" where
  "busy_cycles_live i now k = busy_cycles i k + (now - last_dispatch k)"

definition cycles_since_boot :: "u64 \<Rightarrow> kernel \<Rightarrow> u64" where
  "cycles_since_boot now k = (if \<not> started k then 0 else now - boot_cycle k)"

definition wallclock_us_since_boot :: "u64 \<Rightarrow> kernel \<Rightarrow> u64" where
  "wallclock_us_since_boot now_us k = (if \<not> started k then 0 else now_us - wallclock_boot_us k)"

definition estimate_us_from_cycles :: "u64 \<Rightarrow> u64 \<Rightarrow> u64 \<Rightarrow> kernel \<Rightarrow> u64" where
  "estimate_us_from_cycles cycles now now_us k =
    (let total_cycles = cycles_since_boot now k
     in if total_cycles = 0 then 0
        else sat_mul cycles (wallclock_us_since_boot now_us k) div total_cycles)"

definition busy_percent :: "nat \<Rightarrow> u64 \<Rightarrow> kernel \<Rightarrow> u8" where
  "busy_percent i now k =
    (let total = cycles_since_boot now k
     in if total = 0 then 0 else ucast (min (sat_mul (busy_cycles i k) 100 div total) 100))"

definition exec_time_reset :: "kernel \<Rightarrow> kernel" where
  "exec_time_reset k = k\<lparr>busy_cycles_of := map (\<lambda>_. 0) (busy_cycles_of k), last_dispatch := 0,
     boot_cycle := 0, wallclock_boot_us := 0, started := False\<rparr>"

section \<open>Sleeping\<close>

text \<open>
  \<open>sleep_until\<close> up to the point where the task has given up the processor, and what it does
  when it runs again.
\<close>

definition sleep_until_enter :: "nat \<Rightarrow> u64 \<Rightarrow> kernel \<Rightarrow> kernel option" where
  "sleep_until_enter h deadline_us k =
    (case current h k of
       None \<Rightarrow> Some k
     | Some me \<Rightarrow> do {
         k1 \<leftarrow> block_current h k;
         Some (emit Request_reschedule (snd (register_ptask_deadline deadline_us me k1)))
       })"

definition sleep_until_leave :: "nat \<Rightarrow> kernel \<Rightarrow> kernel" where
  "sleep_until_leave me k = cancel_ptask_deadline me k"

definition sleep_ms_enter :: "nat \<Rightarrow> u64 \<Rightarrow> u64 \<Rightarrow> kernel \<Rightarrow> kernel option" where
  "sleep_ms_enter h ms now_us k = sleep_until_enter h (now_us + sat_mul ms 1000) k"

text \<open>\<open>None\<close> is the panic outside a task context; the loop after it only reschedules.\<close>

definition park_forever_enter :: "nat \<Rightarrow> kernel \<Rightarrow> kernel option" where
  "park_forever_enter h k =
    (case current h k of None \<Rightarrow> None
     | Some _ \<Rightarrow> do { k1 \<leftarrow> block_current h k; Some (emit Request_reschedule k1) })"

section \<open>Periods and budgets\<close>

definition set_period_us :: "nat \<Rightarrow> u32 \<Rightarrow> kernel \<Rightarrow> kernel" where
  "set_period_us i p k = (if i < length (period_us_of k)
     then k\<lparr>period_us_of := (period_us_of k)[i := p]\<rparr> else k)"

definition set_budget_us :: "nat \<Rightarrow> u32 \<Rightarrow> kernel \<Rightarrow> kernel" where
  "set_budget_us i b k = (if i < length (budget_us_of k)
     then k\<lparr>budget_us_of := (budget_us_of k)[i := b]\<rparr> else k)"

definition period_us :: "nat \<Rightarrow> kernel \<Rightarrow> u32" where
  "period_us i k = (if i < length (period_us_of k) then period_us_of k ! i else 0)"

definition budget_us :: "nat \<Rightarrow> kernel \<Rightarrow> u32" where
  "budget_us i k = (if i < length (budget_us_of k) then budget_us_of k ! i else 0)"

definition handle_set_period_us :: "task_handle \<Rightarrow> u32 \<Rightarrow> kernel \<Rightarrow> kernel" where
  "handle_set_period_us th p k = (if is_valid th k then set_period_us (handle_id th) p k else k)"

definition handle_set_budget_us :: "task_handle \<Rightarrow> u32 \<Rightarrow> kernel \<Rightarrow> kernel" where
  "handle_set_budget_us th b k = (if is_valid th k then set_budget_us (handle_id th) b k else k)"

definition next_period :: "u64 \<Rightarrow> u64 \<Rightarrow> u64 \<Rightarrow> u64" where
  "next_period prev period now_us = (if prev = 0 then now_us + period else prev + period)"

definition wait_period_enter :: "nat \<Rightarrow> u64 \<Rightarrow> kernel \<Rightarrow> kernel option" where
  "wait_period_enter h now_us k =
    (case current h k of
       None \<Rightarrow> Some k
     | Some me \<Rightarrow>
         (let period = ucast (period_us me k) :: u64
          in if period = 0 then Some k
             else if me \<ge> length (next_us_of k) then Some k
             else let nxt = next_period (next_us_of k ! me) period now_us;
                      k1 = k\<lparr>next_us_of := (next_us_of k)[me := nxt],
                             budget_start_of := (budget_start_of k)[me := busy_cycles me k]\<rparr>
                  in sleep_until_enter h nxt k1))"

definition check_budget :: "nat \<Rightarrow> u64 \<Rightarrow> u64 \<Rightarrow> u64 \<Rightarrow> kernel \<Rightarrow> bool" where
  "check_budget i live_now total_now now_us k =
    (let budget = budget_us i k
     in if budget = 0 then False
        else if i \<ge> length (budget_start_of k) then False
        else let used_cycles = busy_cycles_live i live_now k - budget_start_of k ! i
             in estimate_us_from_cycles used_cycles total_now now_us k > ucast budget)"

definition deadlines_reset :: "kernel \<Rightarrow> kernel" where
  "deadlines_reset k = k\<lparr>period_us_of := map (\<lambda>_. 0) (period_us_of k),
     budget_us_of := map (\<lambda>_. 0) (budget_us_of k), next_us_of := map (\<lambda>_. 0) (next_us_of k),
     budget_start_of := map (\<lambda>_. 0) (budget_start_of k)\<rparr>"

section \<open>Accounting is conserved\<close>

text \<open>
  Every cycle between the first dispatch and the last is credited to exactly one task, as
  long as the outgoing tasks of the switches are in range.
\<close>

definition cycles_balance :: "kernel \<Rightarrow> bool" where
  "cycles_balance k \<longleftrightarrow> length (busy_cycles_of k) = max_ptasks k \<and>
     sum_list (busy_cycles_of k) = last_dispatch k - boot_cycle k"

lemma sum_list_update_word: "i < length xs \<Longrightarrow>
    sum_list (xs[i := xs ! i + d]) = sum_list xs + (d :: u64)"
proof (induction xs arbitrary: i)
  case Nil
  then show ?case by simp
next
  case (Cons x xs)
  then show ?case by (cases i) (simp_all add: ac_simps)
qed

lemma cycles_balance_on_switch:
  "cycles_balance k \<Longrightarrow> started k \<Longrightarrow> o' < max_ptasks k \<Longrightarrow>
    cycles_balance (on_switch o' now k) \<and> started (on_switch o' now k) \<and>
    boot_cycle (on_switch o' now k) = boot_cycle k \<and> last_dispatch (on_switch o' now k) = now \<and>
    max_ptasks (on_switch o' now k) = max_ptasks k"
  by (simp add: cycles_balance_def on_switch_def Let_def sum_list_update_word)

fun switches :: "(nat \<times> u64) list \<Rightarrow> kernel \<Rightarrow> kernel" where
  "switches [] k = k"
| "switches ((o', now) # sw) k = switches sw (on_switch o' now k)"

lemma switches_balance:
  "cycles_balance k \<Longrightarrow> started k \<Longrightarrow> \<forall>(o', now) \<in> set sw. o' < max_ptasks k \<Longrightarrow>
    cycles_balance (switches sw k) \<and> boot_cycle (switches sw k) = boot_cycle k \<and>
    last_dispatch (switches sw k) = (if sw = [] then last_dispatch k else snd (last sw))"
proof (induction sw k rule: switches.induct)
  case (1 k)
  then show ?case by simp
next
  case (2 o' now sw k)
  have s: "cycles_balance (on_switch o' now k)" "started (on_switch o' now k)"
    "boot_cycle (on_switch o' now k) = boot_cycle k" "last_dispatch (on_switch o' now k) = now"
    "max_ptasks (on_switch o' now k) = max_ptasks k"
    using cycles_balance_on_switch "2.prems" by auto
  then show ?case using "2.IH" "2.prems" by (cases sw) auto
qed

lemma sat_mul_unat: "unat (sat_mul a b) = min (unat a * unat b) (2 ^ 64 - 1)"
proof (cases "unat a * unat b < 2 ^ 64")
  case True
  then show ?thesis using unat_mult_lem [of a b] by (simp add: sat_mul_def)
next
  case False
  then show ?thesis by (simp add: sat_mul_def unsigned_minus_1_eq_mask mask_eq_exp_minus_1)
qed

lemma busy_percent_le: "unat (busy_percent i now k) \<le> 100"
proof -
  have "unat (ucast (min x (100 :: u64)) :: u8) \<le> 100" for x
  proof -
    have m: "unat (min x 100) \<le> 100" by (simp add: min_def word_le_nat_alt)
    have "unat (ucast (min x (100 :: u64)) :: u8) = take_bit 8 (unat (min x 100))"
      by (simp add: unsigned_ucast_eq)
    also have "\<dots> = unat (min x 100)" using m by (intro take_bit_nat_eq_self) simp
    finally show ?thesis using m by simp
  qed
  then show ?thesis by (simp add: busy_percent_def Let_def)
qed

section \<open>Sleeping and waking\<close>

lemma sleep_until_wf:
  assumes g: "good k" and h: "h < max_harts k" and c: "current h k = Some me" and l: "task_live k me"
  shows "sleep_until_enter h d k = Some (emit Request_reschedule
    (dequeue me (set_raw me BLOCKED k)\<lparr>ptask_deadlines := (ptask_deadlines k)[me := d]\<rparr>))"
proof -
  have me: "me < max_ptasks k" "used (tasks k ! me)" using l by (auto simp: task_live_def)
  have dl: "length (ptask_deadlines k) = max_ptasks k" using g by (rule good_wf(6))
  show ?thesis
    using me dl
    by (simp add: sleep_until_enter_def c block_current_wf [OF goodD(1) [OF g] h]
        register_ptask_deadline_def)
qed

lemma sleep_until_spec:
  assumes g: "good k" and h: "h < max_harts k" and c: "current h k = Some me" and l: "task_live k me"
  shows "\<exists>k'. sleep_until_enter h d k = Some k' \<and> good k' \<and> raw_state (tasks k' ! me) = BLOCKED \<and>
    ptask_deadlines k' ! me = d \<and> task_live k' me \<and> \<not> task_ready k' me \<and>
    timer_slots k' = timer_slots k \<and> wk_words k' = wk_words k \<and>
    length (ptask_deadlines k') = max_ptasks k"
proof -
  have me: "me < max_ptasks k" using l by (auto simp: task_live_def)
  have dl: "length (ptask_deadlines k) = max_ptasks k" using g by (rule good_wf(6))
  have gd: "good (dequeue me (set_raw me BLOCKED k))" using g me by (rule good_make_unready) simp_all
  let ?k' = "emit Request_reschedule
    (dequeue me (set_raw me BLOCKED k)\<lparr>ptask_deadlines := (ptask_deadlines k)[me := d]\<rparr>)"
  have "good ?k'" using gd dl by (intro good_emits good_ptask_deadlines) simp_all
  then show ?thesis
    using sleep_until_wf [OF assms] me dl l
    by (auto simp: task_live_def task_ready_def wk_words_def dequeue_def set_ready_words_def upd_task_def)
qed

text \<open>The sleeper is readied by the first poll at or after its deadline, and by no earlier one.\<close>

lemma poll_wakes_sleeper:
  assumes g: "good k" and t: "timers_ok k" and l: "task_live k me" and n: "\<not> task_ready k me"
    and d: "ptask_deadlines k ! me = d" and p: "poll_timers h now k = Some k'"
  shows "task_ready k' me \<longleftrightarrow> d \<noteq> 0 \<and> d \<le> now"
proof -
  have me: "me < length (ptask_deadlines k)"
    using l good_wf(6) [OF g] by (simp add: task_live_def)
  have "polled now k k'" using poll_timers_spec [OF g t, of h now] p by auto
  then show ?thesis using n me d l unfolding polled_def by (auto simp: expired_def)
qed

text \<open>A deadline of 0 is the free-slot mark, so no poll ever wakes such a sleeper.\<close>

fun polls :: "nat \<Rightarrow> u64 list \<Rightarrow> kernel \<Rightarrow> kernel option" where
  "polls h [] k = Some k"
| "polls h (now # ts) k = (case poll_timers h now k of None \<Rightarrow> None | Some k1 \<Rightarrow> polls h ts k1)"

lemma polls_zero_deadline:
  "good k \<Longrightarrow> timers_ok k \<Longrightarrow> me < max_ptasks k \<Longrightarrow> \<not> task_ready k me \<Longrightarrow> ptask_deadlines k ! me = 0 \<Longrightarrow>
    polls h ts k = Some k' \<Longrightarrow> \<not> task_ready k' me"
proof (induction h ts k rule: polls.induct)
  case (1 h k)
  then show ?case by simp
next
  case (2 h now ts k)
  obtain k1 where k1: "poll_timers h now k = Some k1" "polled now k k1"
    using poll_timers_spec [OF "2.prems"(1,2)] by blast
  have dl: "length (ptask_deadlines k) = max_ptasks k" "length (ptask_deadlines k1) = max_ptasks k1"
    using good_wf(6) [OF "2.prems"(1)] k1(2) good_wf(6) [of k1] by (simp_all add: polled_def)
  have m: "ptask_deadlines k1 = map (\<lambda>d. if expired now d then 0 else d) (ptask_deadlines k)"
    using k1(2) by (simp add: polled_def)
  have "max_ptasks k1 = max_ptasks k"
    using dl arg_cong [OF m, of length] by simp
  then have "me < max_ptasks k1" using "2.prems"(3) by simp
  moreover have "ptask_deadlines k1 ! me = 0" using "2.prems"(3,5) dl(1) by (simp add: m)
  moreover have "\<not> task_ready k1 me"
    using k1(2) "2.prems"(4,5) by (auto simp: polled_def expired_def)
  ultimately show ?case
    using "2.IH" [OF k1(1)] "2.prems"(6) k1 by (simp add: polled_def)
qed

section \<open>Drift-free periods\<close>

text \<open>The deadlines of successive periods, whatever the clock reads when each is computed.\<close>

fun period_deadlines :: "u64 \<Rightarrow> u64 \<Rightarrow> u64 list \<Rightarrow> u64 list" where
  "period_deadlines prev period [] = []"
| "period_deadlines prev period (now # ns) =
     (let d = next_period prev period now in d # period_deadlines d period ns)"

lemma period_deadlines_anchor:
  "prev \<noteq> 0 \<Longrightarrow> (\<forall>j \<le> length ns. prev + of_nat j * period \<noteq> 0) \<Longrightarrow>
    period_deadlines prev period ns = map (\<lambda>j. prev + of_nat (Suc j) * period) [0..<length ns]"
proof (induction ns arbitrary: prev)
  case Nil
  then show ?case by simp
next
  case (Cons now ns)
  have d: "next_period prev period now = prev + period"
    using Cons.prems(1) by (simp add: next_period_def)
  have nz: "prev + period \<noteq> 0" using Cons.prems(2) [rule_format, of 1] by simp
  have nz': "\<forall>j \<le> length ns. (prev + period) + of_nat j * period \<noteq> 0"
  proof (intro allI impI)
    fix j assume "j \<le> length ns"
    then show "(prev + period) + of_nat j * period \<noteq> 0"
      using Cons.prems(2) [rule_format, of "Suc j"] by (simp add: algebra_simps)
  qed
  have "period_deadlines (prev + period) period ns =
      map (\<lambda>j. (prev + period) + of_nat (Suc j) * period) [0..<length ns]"
    using Cons.IH [OF nz nz'] .
  then show ?case
    by (simp add: d map_upt_Suc algebra_simps del: upt_Suc)
qed

end
