(* ===== verification/Print.thy ===== *)
theory Print
  imports Rivet_Base
begin

text \<open>
  Number formatting for the console (\<open>print_dec\<close> and \<open>print_hex\<close> of \<open>fault.rs\<close>, the same
  \<open>print_dec\<close> in \<open>watchdog.rs\<close>, and with a 20 byte buffer in \<open>report.rs\<close>), and the stack
  watermark scan of \<open>rivet/src/preempt/mod.rs\<close>.
\<close>

section \<open>Formatting\<close>

definition digit_char :: "nat \<Rightarrow> char" where
  "digit_char d = char_of (48 + d)"

definition hex_char :: "nat \<Rightarrow> char" where
  "hex_char d = (if d < 10 then char_of (48 + d) else char_of (97 + (d - 10)))"

text \<open>
  The digits, lowest first, into a buffer of \<open>cap\<close> bytes; writing past it panics.
\<close>

function dec_loop :: "nat \<Rightarrow> nat \<Rightarrow> string \<Rightarrow> string option" where
  "dec_loop cap n digits =
    (if n = 0 then Some digits
     else if length digits \<ge> cap then None
     else dec_loop cap (n div 10) (digits @ [digit_char (n mod 10)]))"
  by pat_completeness auto
termination by (relation "measure (\<lambda>(cap, n, digits). n)") auto

declare dec_loop.simps [simp del]

definition print_dec :: "nat \<Rightarrow> nat \<Rightarrow> string option" where
  "print_dec cap n = (if n = 0 then Some ''0'' else map_option rev (dec_loop cap n []))"

fun hex_loop :: "nat \<Rightarrow> nat \<Rightarrow> string \<Rightarrow> string" where
  "hex_loop 0 n buf = buf"
| "hex_loop (Suc i) n buf = hex_loop i (n div 16) (hex_char (n mod 16) # buf)"

definition print_hex :: "usize \<Rightarrow> string" where
  "print_hex n = hex_loop 8 (unat n) []"

section \<open>Reading the numbers back\<close>

definition dec_value :: "string \<Rightarrow> nat" where
  "dec_value s = foldl (\<lambda>a c. 10 * a + (of_char c - 48)) 0 s"

definition hex_digit :: "char \<Rightarrow> nat" where
  "hex_digit c = (let v = of_char c in if v < 97 then v - 48 else v - 87)"

definition hex_value :: "string \<Rightarrow> nat" where
  "hex_value s = foldl (\<lambda>a c. 16 * a + hex_digit c) 0 s"

lemma of_digit_char: "d < 10 \<Longrightarrow> of_char (digit_char d) = 48 + d"
  by (simp add: digit_char_def)

lemma hex_digit_char: "d < 16 \<Longrightarrow> hex_digit (hex_char d) = d"
  by (auto simp: hex_digit_def hex_char_def Let_def)

lemma foldl_scale:
  "foldl (\<lambda>a c. b * a + f c) (x :: nat) s = b ^ length s * x + foldl (\<lambda>a c. b * a + f c) 0 s"
proof (induction s arbitrary: x)
  case Nil
  then show ?case by simp
next
  case (Cons c s)
  show ?case using Cons [of "b * x + f c"] Cons [of "f c"] by (simp add: algebra_simps)
qed

lemma dec_value_append: "dec_value (s @ t) = 10 ^ length t * dec_value s + dec_value t"
  unfolding dec_value_def foldl_append by (rule foldl_scale)

lemma dec_loop_value:
  "dec_loop cap n ds = Some ds' \<Longrightarrow>
    dec_value (rev ds') = 10 ^ length ds * n + dec_value (rev ds)"
proof (induction cap n ds arbitrary: ds' rule: dec_loop.induct)
  case (1 cap n ds)
  show ?case
  proof (cases "n = 0")
    case True
    then show ?thesis using "1.prems" by (simp add: dec_loop.simps)
  next
    case False
    then have le: "\<not> length ds \<ge> cap"
      using "1.prems" by (auto simp: dec_loop.simps [of cap n])
    have r: "dec_loop cap (n div 10) (ds @ [digit_char (n mod 10)]) = Some ds'"
      using "1.prems" False le by (simp add: dec_loop.simps [of cap n])
    have one: "dec_value (digit_char (n mod 10) # rev ds) =
        10 ^ length ds * (n mod 10) + dec_value (rev ds)"
      using dec_value_append [of "[digit_char (n mod 10)]" "rev ds"]
      by (simp add: dec_value_def of_digit_char)
    have "dec_value (rev ds') = 10 * 10 ^ length ds * (n div 10) +
        (10 ^ length ds * (n mod 10) + dec_value (rev ds))"
      using "1.IH" [OF False le r] one by simp
    also have "\<dots> = 10 ^ length ds * (10 * (n div 10) + n mod 10) + dec_value (rev ds)"
      by (simp only: distrib_left mult.assoc mult.left_commute)
    finally show ?thesis by simp
  qed
qed

lemma dec_loop_total: "n < 10 ^ (cap - length ds) \<Longrightarrow> length ds \<le> cap \<Longrightarrow>
    \<exists>ds'. dec_loop cap n ds = Some ds'"
proof (induction cap n ds rule: dec_loop.induct)
  case (1 cap n ds)
  show ?case
  proof (cases "n = 0 \<or> length ds \<ge> cap")
    case True
    then show ?thesis using "1.prems" by (cases "n = 0") (auto simp: dec_loop.simps)
  next
    case False
    then have "10 ^ (cap - length ds) = 10 * (10 :: nat) ^ (cap - Suc (length ds))"
      by (metis Suc_diff_Suc not_le power_Suc)
    then have "n div 10 < 10 ^ (cap - length (ds @ [digit_char (n mod 10)]))"
      using "1.prems"(1) by simp
    then show ?thesis using "1.IH" False by (auto simp: dec_loop.simps [of cap n])
  qed
qed

lemma print_dec_ok:
  assumes "n < 10 ^ cap"
  shows "\<exists>s. print_dec cap n = Some s \<and> dec_value s = n"
proof (cases "n = 0")
  case True
  then show ?thesis by (simp add: print_dec_def dec_value_def)
next
  case False
  obtain ds where ds: "dec_loop cap n [] = Some ds" using dec_loop_total [of n cap "[]"] assms by auto
  then show ?thesis using False dec_loop_value [OF ds] by (simp add: print_dec_def dec_value_def)
qed

lemma hex_value_Cons: "hex_value (c # s) = 16 ^ length s * hex_digit c + hex_value s"
  unfolding hex_value_def using foldl_scale [of 16 hex_digit "hex_digit c" s] by simp

lemma hex_loop_value: "n < 16 ^ i \<Longrightarrow>
    hex_value (hex_loop i n buf) = 16 ^ length buf * n + hex_value buf \<and>
    length (hex_loop i n buf) = i + length buf"
proof (induction i arbitrary: n buf)
  case 0
  then show ?case by simp
next
  case (Suc i)
  have lt: "n div 16 < 16 ^ i" using Suc.prems by (simp add: less_mult_imp_div_less)
  let ?b = "hex_char (n mod 16) # buf"
  have "hex_value (hex_loop (Suc i) n buf) = 16 * 16 ^ length buf * (n div 16) + hex_value ?b"
    using Suc.IH [OF lt, of ?b] by simp
  also have "hex_value ?b = 16 ^ length buf * (n mod 16) + hex_value buf"
    by (simp add: hex_value_Cons hex_digit_char)
  also have "16 * 16 ^ length buf * (n div 16) + (16 ^ length buf * (n mod 16) + hex_value buf) =
      16 ^ length buf * (16 * (n div 16) + n mod 16) + hex_value buf"
    by (simp only: distrib_left mult.assoc mult.left_commute)
  finally show ?case using Suc.IH [OF lt, of ?b] by simp
qed

lemma print_hex_value: "hex_value (print_hex n) = unat n \<and> length (print_hex n) = 8"
proof -
  have "unat n < 16 ^ 8" using unsigned_less [of n, where ?'a = nat] by simp
  then show ?thesis using hex_loop_value [of "unat n" 8 "[]"] by (simp add: print_hex_def hex_value_def)
qed

section \<open>Stack watermark\<close>

text \<open>The bytes below the deepest byte that lost its fill pattern are unused.\<close>

definition stack_usage :: "u8 list \<Rightarrow> nat" where
  "stack_usage stack = length stack - length (takeWhile (\<lambda>b. b = 0xAA) stack)"

lemma stack_usage_le: "stack_usage s \<le> length s"
  by (simp add: stack_usage_def)

lemma stack_usage_spec:
  "(\<forall>i < length s - stack_usage s. s ! i = 0xAA) \<and>
   (stack_usage s > 0 \<longrightarrow> s ! (length s - stack_usage s) \<noteq> 0xAA)"
proof -
  let ?P = "\<lambda>b :: u8. b = 0xAA"
  have l: "length (takeWhile ?P s) \<le> length s" by (rule length_takeWhile_le)
  then have e: "length s - stack_usage s = length (takeWhile ?P s)" by (simp add: stack_usage_def)
  have lt: "0 < stack_usage s \<Longrightarrow> length (takeWhile ?P s) < length s" by (simp add: stack_usage_def)
  have "s ! i = 0xAA" if "i < length (takeWhile ?P s)" for i
  proof -
    have "takeWhile ?P s ! i \<in> set (takeWhile ?P s)" using that by (rule nth_mem)
    then have "takeWhile ?P s ! i = 0xAA" by (rule set_takeWhileD [THEN conjunct2])
    then show ?thesis using takeWhile_nth [OF that] by (simp only:)
  qed
  moreover have "s ! length (takeWhile ?P s) \<noteq> 0xAA" if "stack_usage s > 0"
    using lt [OF that] by (rule nth_length_takeWhile)
  ultimately show ?thesis unfolding e by blast
qed

end
