(* ===== verification/Fault.thy ===== *)
theory Fault
  imports Mutex_Lock Accounting Print
begin

text \<open>
  The fault policy (\<open>rivet/src/fault.rs\<close>): the diagnosis dump, the panic policy, and the
  isolation of a faulting task, which poisons its mutexes, blocks it and switches to the next
  ready task. The user's fault hook is the event \<open>Fault_hook\<close>; memory is read through \<open>mem\<close>.
\<close>

datatype outcome = Resume usize | Halted

text \<open>
  Each piece of output is one \<open>console::write_str\<close>; \<open>None\<close> is the index panic of
  \<open>print_dec\<close>'s 10 byte buffer.
\<close>

definition fault_kind_name :: "fault_kind \<Rightarrow> string" where
  "fault_kind_name fk = (case fk of
     InstructionAccess \<Rightarrow> ''instruction-access''
   | LoadAccess \<Rightarrow> ''load-access''
   | StoreAccess \<Rightarrow> ''store-access''
   | MemManage _ \<Rightarrow> ''memmanage''
   | StackOverflow \<Rightarrow> ''stack-overflow''
   | BudgetExceeded \<Rightarrow> ''budget-exceeded'')"

abbreviation newline :: string where
  "newline \<equiv> [CHR 0x0A]"

definition dump_text :: "fault_info \<Rightarrow> string list option" where
  "dump_text info = do {
     let pre = [newline @ ''RIVET FAULT: '', fault_kind_name (fault_kind info), '' addr=0x'',
       print_hex (fault_address info), '' pc=0x'', print_hex (fault_pc info)];
     (case fault_task info of
        None \<Rightarrow> Some (pre @ [newline])
      | Some i \<Rightarrow> do { d \<leftarrow> print_dec 10 i; Some (pre @ ['' task='', d, newline]) })
   }"

definition fault_dump :: "fault_info \<Rightarrow> kernel \<Rightarrow> kernel option" where
  "fault_dump info k = do { ss \<leftarrow> dump_text info; Some (emits (map Console_write ss) k) }"

definition stack_bytes :: "(usize \<Rightarrow> u8) \<Rightarrow> usize \<Rightarrow> usize \<Rightarrow> u8 list" where
  "stack_bytes mem base sz = map (\<lambda>i. mem (base + of_nat i)) [0..<unat sz]"

definition watermark_line :: "(usize \<Rightarrow> u8) \<Rightarrow> nat \<Rightarrow> tcb \<Rightarrow> string list option" where
  "watermark_line mem i t =
    (if used t \<and> stack_base t \<noteq> 0 \<and> stack_size t \<noteq> 0
     then do {
       di \<leftarrow> print_dec 10 i;
       du \<leftarrow> print_dec 10 (stack_usage (stack_bytes mem (stack_base t) (stack_size t)));
       ds \<leftarrow> print_dec 10 (unat (stack_size t));
       Some [''  task '', di, '' stack '', du, ''/'', ds, newline]
     }
     else Some [])"

fun watermark_lines :: "(usize \<Rightarrow> u8) \<Rightarrow> nat \<Rightarrow> tcb list \<Rightarrow> string list option" where
  "watermark_lines mem i [] = Some []"
| "watermark_lines mem i (t # ts) = do {
     l \<leftarrow> watermark_line mem i t;
     ls \<leftarrow> watermark_lines mem (Suc i) ts;
     Some (l @ ls)
   }"

definition panic_policy :: "(usize \<Rightarrow> u8) \<Rightarrow> fault_info \<Rightarrow> kernel \<Rightarrow> (outcome \<times> kernel) option" where
  "panic_policy mem info k = do {
     k1 \<leftarrow> fault_dump info k;
     ls \<leftarrow> watermark_lines mem 0 (tasks k1);
     Some (Halted, emit (Board_exit 0xFA) (emits (map Console_write ls) k1))
   }"

definition set_policy :: "fault_policy \<Rightarrow> kernel \<Rightarrow> kernel" where
  "set_policy p k = k\<lparr>policy := p\<rparr>"

definition set_on_task_fault :: "kernel \<Rightarrow> kernel" where
  "set_on_task_fault k = k\<lparr>hook_set := True\<rparr>"

text \<open>The loop over the held slots of the faulting task.\<close>

fun poison_held :: "nat \<Rightarrow> nat option list \<Rightarrow> kernel \<Rightarrow> kernel option" where
  "poison_held h [] k = Some k"
| "poison_held h (None # hs) k = poison_held h hs k"
| "poison_held h (Some m # hs) k = do { k1 \<leftarrow> poison_mutex h m k; poison_held h hs k1 }"

definition nt_sp :: "nat \<Rightarrow> kernel \<Rightarrow> usize" where
  "nt_sp i k = (case get_task i k of None \<Rightarrow> 0 | Some t \<Rightarrow> sp t)"

definition isolate :: "nat \<Rightarrow> (usize \<Rightarrow> u8) \<Rightarrow> fault_info \<Rightarrow> kernel \<Rightarrow> (outcome \<times> kernel) option" where
  "isolate h mem info k = do {
     k1 \<leftarrow> fault_dump info k;
     (case fault_task info of
        None \<Rightarrow> panic_policy mem info k1
      | Some faulting \<Rightarrow> do {
          k2 \<leftarrow> (case get_task faulting k1 of
                   None \<Rightarrow> Some k1
                 | Some t \<Rightarrow> do {
                     k1' \<leftarrow> poison_held h (held t) k1;
                     set_state h faulting Blocked k1'
                   });
          let k3 = (if hook_set k2 then emit (Fault_hook faulting info) k2 else k2);
          (case schedule k3 of
             (None, k4) \<Rightarrow> panic_policy mem info k4
           | (Some nxt, k4) \<Rightarrow>
               (case get_task nxt k4 of
                  None \<Rightarrow> Some (Resume (nt_sp nxt k4), k4)
                | Some nt \<Rightarrow> do {
                    k5 \<leftarrow> set_state h nxt Running k4;
                    let k6 = emit (Switch_to (stack_base nt) (stack_size nt)) (set_current h nxt k5);
                    Some (Resume (nt_sp nxt k6), k6)
                  }))
        })
   }"

definition on_fault :: "nat \<Rightarrow> (usize \<Rightarrow> u8) \<Rightarrow> fault_info \<Rightarrow> kernel \<Rightarrow> (outcome \<times> kernel) option" where
  "on_fault h mem info k =
    (case policy k of IsolateTask \<Rightarrow> isolate h mem info k | PolicyPanic \<Rightarrow> panic_policy mem info k)"

section \<open>The output never panics\<close>

lemma dump_text_total: "(\<forall>i. fault_task info = Some i \<longrightarrow> i < 10 ^ 10) \<Longrightarrow> \<exists>ss. dump_text info = Some ss"
  using print_dec_ok [of "the (fault_task info)" 10]
  by (cases "fault_task info") (auto simp: dump_text_def)

lemma usize_dec: "unat (w :: usize) < 10 ^ 10"
  using unsigned_less [of w, where ?'a = nat] by simp

lemma stack_usage_bound: "stack_usage (stack_bytes mem b sz) \<le> unat sz"
  using stack_usage_le [of "stack_bytes mem b sz"] by (simp add: stack_bytes_def)

lemma watermark_line_total: "i < 10 ^ 10 \<Longrightarrow> \<exists>l. watermark_line mem i t = Some l"
proof -
  assume i: "i < 10 ^ 10"
  have "stack_usage (stack_bytes mem (stack_base t) (stack_size t)) < 10 ^ 10"
    using stack_usage_bound [of mem "stack_base t" "stack_size t"] usize_dec [of "stack_size t"]
    by linarith
  then obtain du where "print_dec 10 (stack_usage (stack_bytes mem (stack_base t) (stack_size t))) = Some du"
    using print_dec_ok by blast
  moreover obtain di where "print_dec 10 i = Some di" using print_dec_ok [OF i] by blast
  moreover obtain ds where "print_dec 10 (unat (stack_size t)) = Some ds"
    using print_dec_ok [OF usize_dec] by blast
  ultimately show ?thesis by (simp add: watermark_line_def)
qed

lemma watermark_lines_total: "i + length ts \<le> 10 ^ 10 \<Longrightarrow> \<exists>ls. watermark_lines mem i ts = Some ls"
proof (induction mem i ts rule: watermark_lines.induct)
  case (1 mem i)
  then show ?case by simp
next
  case (2 mem i t ts)
  obtain l where l: "watermark_line mem i t = Some l" using watermark_line_total "2.prems" by fastforce
  obtain ls where ls: "watermark_lines mem (Suc i) ts = Some ls"
    using "2.IH" [OF l] "2.prems" by auto
  show ?case using l ls by simp
qed

lemma fault_dump_good:
  assumes "good k" and "\<forall>i. fault_task info = Some i \<longrightarrow> i < max_ptasks k"
  shows "\<exists>es. fault_dump info k = Some (emits es k)"
proof -
  have "\<forall>i. fault_task info = Some i \<longrightarrow> i < 10 ^ 10"
    using assms good_wf(2) [OF assms(1)] by fastforce
  then show ?thesis using dump_text_total [of info] by (auto simp: fault_dump_def)
qed

lemma panic_policy_good:
  assumes g: "good k" and i: "\<forall>i. fault_task info = Some i \<longrightarrow> i < max_ptasks k"
  shows "\<exists>k'. panic_policy mem info k = Some (Halted, k') \<and> good k' \<and> tasks k' = tasks k \<and>
    last (events k') = Board_exit 0xFA"
proof -
  obtain es where es: "fault_dump info k = Some (emits es k)" using fault_dump_good [OF assms] by blast
  have "0 + length (tasks k) \<le> 10 ^ 10" using good_wf(2) [OF g] by simp
  then obtain ls where "watermark_lines mem 0 (tasks k) = Some ls" using watermark_lines_total by blast
  then show ?thesis using es g by (simp add: panic_policy_def)
qed

section \<open>Isolation\<close>

lemma poison_mutex_spec:
  assumes g: "good k" and m: "m < length (mutexes k)"
  shows "\<exists>k'. poison_mutex h m k = Some k' \<and> good k' \<and> same_tasks k k' \<and>
    current_ids k' = current_ids k \<and> length (mutexes k') = length (mutexes k) \<and>
    poisoned (the_mutex m k') \<and> (\<forall>n. poisoned (the_mutex n k) \<longrightarrow> poisoned (the_mutex n k')) \<and>
    (\<forall>j. Some j \<in> set (waiters (the_mutex m k)) \<and> task_live k j \<longrightarrow> task_ready k' j) \<and>
    (\<forall>j. task_ready k j \<longrightarrow> task_ready k' j) \<and>
    (\<forall>n. n \<noteq> m \<longrightarrow> the_mutex n k' = the_mutex n k) \<and> (\<forall>j. Some j \<notin> set (waiters (the_mutex m k')))"
proof -
  let ?k1 = "upd_mutex m (\<lambda>x. x\<lparr>poisoned := True\<rparr>) k"
  have g1: "good ?k1" by (rule good_upd_mutex [OF g]) (use good_wf(9) [OF g, of m] m in \<open>auto simp: wf_mutex_def\<close>)
  have m1: "the_mutex n ?k1 = (if n = m then (the_mutex m k)\<lparr>poisoned := True\<rparr> else the_mutex n k)" for n
    using m by (simp add: the_mutex_upd)
  have l: "task_live ?k1 = task_live k" "task_ready ?k1 = task_ready k" "same_tasks k ?k1"
    by (simp_all add: fun_eq_iff task_live_def task_ready_def same_tasks_def)
  obtain k' where k': "wake_all_waiters h m ?k1 = Some k'" "all_woken m ?k1 k'"
    using wake_all_spec [OF g1, of m h] m by auto
  have mm: "the_mutex n k' = (if n = m then (the_mutex m k)\<lparr>poisoned := True,
      waiters := replicate (length (waiters (the_mutex m k))) None\<rparr> else the_mutex n k)" for n
    using k'(2) by (simp add: all_woken_def m1)
  have "same_tasks k k'" using k'(2) l(3) by (auto simp: all_woken_def intro: same_tasks_trans)
  then show ?thesis
    using k' by (auto simp: poison_mutex_def all_woken_def mm l m1)
qed

lemma poison_held_spec:
  assumes "good k" and "\<forall>m. Some m \<in> set hs \<longrightarrow> m < length (mutexes k)"
  shows "\<exists>k'. poison_held h hs k = Some k' \<and> good k' \<and> same_tasks k k' \<and>
    current_ids k' = current_ids k \<and> length (mutexes k') = length (mutexes k) \<and>
    (\<forall>m. Some m \<in> set hs \<longrightarrow> poisoned (the_mutex m k')) \<and>
    (\<forall>n. poisoned (the_mutex n k) \<longrightarrow> poisoned (the_mutex n k')) \<and>
    (\<forall>m j. Some m \<in> set hs \<and> Some j \<in> set (waiters (the_mutex m k)) \<and> task_live k j \<longrightarrow> task_ready k' j) \<and>
    (\<forall>j. task_ready k j \<longrightarrow> task_ready k' j)"
  using assms
proof (induction h hs k rule: poison_held.induct)
  case (1 h k)
  then show ?case by simp
next
  case (2 h hs k)
  then show ?case by simp
next
  case (3 h m hs k)
  have m: "m < length (mutexes k)" using "3.prems" by simp
  obtain k1 where k1: "poison_mutex h m k = Some k1" "good k1" "same_tasks k k1"
    "current_ids k1 = current_ids k" "length (mutexes k1) = length (mutexes k)"
    "poisoned (the_mutex m k1)" "\<forall>n. poisoned (the_mutex n k) \<longrightarrow> poisoned (the_mutex n k1)"
    "\<forall>j. Some j \<in> set (waiters (the_mutex m k)) \<and> task_live k j \<longrightarrow> task_ready k1 j"
    "\<forall>j. task_ready k j \<longrightarrow> task_ready k1 j" "\<forall>n. n \<noteq> m \<longrightarrow> the_mutex n k1 = the_mutex n k"
    using poison_mutex_spec [OF "3.prems"(1) m, of h] by blast
  have pre: "\<forall>m. Some m \<in> set hs \<longrightarrow> m < length (mutexes k1)" using "3.prems"(2) k1(5) by simp
  obtain k' where k': "poison_held h hs k1 = Some k'" "good k'" "same_tasks k1 k'"
    "current_ids k' = current_ids k1" "length (mutexes k') = length (mutexes k1)"
    "\<forall>m. Some m \<in> set hs \<longrightarrow> poisoned (the_mutex m k')"
    "\<forall>n. poisoned (the_mutex n k1) \<longrightarrow> poisoned (the_mutex n k')"
    "\<forall>m j. Some m \<in> set hs \<and> Some j \<in> set (waiters (the_mutex m k1)) \<and> task_live k1 j \<longrightarrow> task_ready k' j"
    "\<forall>j. task_ready k1 j \<longrightarrow> task_ready k' j"
    using "3.IH" [OF k1(1) k1(2) pre] by blast
  have rdy: "task_ready k' j" if "Some n \<in> set (Some m # hs)" "Some j \<in> set (waiters (the_mutex n k))"
      "task_live k j" for n j
  proof (cases "n = m")
    case True
    then show ?thesis using that k1(8) k'(9) by blast
  next
    case False
    then have "the_mutex n k1 = the_mutex n k" using k1(10) by blast
    then show ?thesis using that False k'(8) [rule_format, of n j] same_tasks_live [OF k1(3), of j] by auto
  qed
  have po: "poisoned (the_mutex n k')" if "Some n \<in> set (Some m # hs)" for n
    using that k'(6,7) k1(6) by auto
  have st: "same_tasks k k'" using k1(3) k'(3) by (rule same_tasks_trans)
  have run: "poison_held h (Some m # hs) k = Some k'" using k1(1) k'(1) by simp
  have eqs: "current_ids k' = current_ids k" "length (mutexes k') = length (mutexes k)"
    using k1(4,5) k'(4,5) by simp_all
  have mono: "\<forall>n. poisoned (the_mutex n k) \<longrightarrow> poisoned (the_mutex n k')"
    "\<forall>j. task_ready k j \<longrightarrow> task_ready k' j" using k1(7,9) k'(7,9) by blast+
  show ?case
    by (intro exI [of _ k'] conjI run k'(2) st eqs mono allI impI) (use po rdy in blast)+
qed

text \<open>What isolation establishes when another task is ready.\<close>

definition isolated :: "nat \<Rightarrow> nat \<Rightarrow> nat \<Rightarrow> kernel \<Rightarrow> kernel \<Rightarrow> bool" where
  "isolated h i nxt k k' \<longleftrightarrow> good k' \<and>
     nxt < max_ptasks k \<and> nxt \<noteq> i \<and> current h k' = Some nxt \<and>
     raw_state (tasks k' ! nxt) = RUNNING \<and>
     raw_state (tasks k' ! i) = BLOCKED \<and> \<not> queued k' i \<and>
     (\<forall>m \<in> held_set (tasks k ! i). poisoned (the_mutex m k')) \<and>
     exited (tasks k' ! i) = exited (tasks k ! i) \<and> joiner (tasks k' ! i) = joiner (tasks k ! i)"

text \<open>The two halves of isolation: the task is taken out, then another one is dispatched.\<close>

definition taken_out :: "nat \<Rightarrow> fault_info \<Rightarrow> kernel \<Rightarrow> kernel" where
  "taken_out i info k = (let k1 = dequeue i (set_raw i BLOCKED k)
     in if hook_set k1 then emit (Fault_hook i info) k1 else k1)"

definition resumed_on :: "nat \<Rightarrow> nat \<Rightarrow> kernel \<Rightarrow> kernel" where
  "resumed_on h nxt k = emit (Switch_to (stack_base (tasks k ! nxt)) (stack_size (tasks k ! nxt)))
     (set_current h nxt (dequeue nxt (set_raw nxt RUNNING k)))"

definition resume_next :: "nat \<Rightarrow> (usize \<Rightarrow> u8) \<Rightarrow> fault_info \<Rightarrow> kernel \<Rightarrow> (outcome \<times> kernel) option" where
  "resume_next h mem info k = (case schedule k of
        (None, k4) \<Rightarrow> panic_policy mem info k4
      | (Some nxt, k4) \<Rightarrow>
          (case get_task nxt k4 of
             None \<Rightarrow> Some (Resume (nt_sp nxt k4), k4)
           | Some nt \<Rightarrow> do {
               k5 \<leftarrow> set_state h nxt Running k4;
               let k6 = emit (Switch_to (stack_base nt) (stack_size nt)) (set_current h nxt k5);
               Some (Resume (nt_sp nxt k6), k6)
             }))"

lemma taken_out_simps [simp]:
  "tasks (taken_out i info k) = upd_at i (\<lambda>t. t\<lparr>raw_state := BLOCKED\<rparr>) (tasks k)"
  "current_ids (taken_out i info k) = current_ids k" "mutexes (taken_out i info k) = mutexes k"
  by (simp_all add: taken_out_def Let_def)

lemma isolate_taken_out:
  assumes g: "good k" and il: "i < max_ptasks k" "used (tasks k ! i)" and f: "fault_task info = Some i"
  shows "\<exists>es k2. poison_held h (held (tasks k ! i)) (emits es k) = Some k2 \<and> good k2 \<and> same_tasks k k2 \<and>
    current_ids k2 = current_ids k \<and> (\<forall>m. Some m \<in> set (held (tasks k ! i)) \<longrightarrow> poisoned (the_mutex m k2)) \<and>
    good (taken_out i info k2) \<and>
    isolate h mem info k = resume_next h mem info (taken_out i info k2)"
proof -
  obtain es where es: "fault_dump info k = Some (emits es k)"
    using fault_dump_good [OF g, of info] f il by auto
  have hm: "\<forall>m. Some m \<in> set (held (tasks k ! i)) \<longrightarrow> m < length (mutexes (emits es k))"
    using good_wf(8) [OF g il(1)] by (simp add: wf_tcb_def)
  obtain k2 where k2: "poison_held h (held (tasks k ! i)) (emits es k) = Some k2" "good k2" "same_tasks (emits es k) k2"
    "current_ids k2 = current_ids k" "\<forall>m. Some m \<in> set (held (tasks k ! i)) \<longrightarrow> poisoned (the_mutex m k2)"
    using poison_held_spec [OF good_emits [OF g] hm, of h] by auto
  have len: "max_ptasks k2 = max_ptasks k" using same_tasksD(1) [OF k2(3)] by simp
  have gt: "get_task i (emits es k) = Some (tasks k ! i)" using il by (simp add: get_task_def)
  have s3: "set_state h i Blocked k2 = Some (dequeue i (set_raw i BLOCKED k2))"
    using il len by (simp add: set_state_Blocked_wf goodD(1) [OF k2(2)])
  have "good (dequeue i (set_raw i BLOCKED k2))"
    using k2(2) by (rule good_make_unready) (use il len in simp_all)
  then have "good (taken_out i info k2)" by (simp add: taken_out_def Let_def)
  moreover have "same_tasks k k2" using k2(3) by (simp add: same_tasks_def)
  ultimately show ?thesis using k2
    by (intro exI [of _ es] exI [of _ k2]) (simp add: isolate_def es f gt s3 taken_out_def resume_next_def Let_def)
qed

lemma dispatch_next:
  assumes g: "good k"
  shows "resume_next h mem info k =
      (case fst (schedule k) of
         None \<Rightarrow> panic_policy mem info k
       | Some nxt \<Rightarrow> Some (Resume (sp (tasks k ! nxt)), resumed_on h nxt k))"
    and "fst (schedule k) = Some nxt \<Longrightarrow> good (resumed_on h nxt k) \<and> best_ready k nxt \<and> nxt < max_ptasks k"
proof -
  have s: "schedule k = (fst (schedule k), k)" using schedule_eq [OF goodD(2) [OF g]] .
  have ready: "best_ready k nxt \<and> nxt < max_ptasks k \<and> used (tasks k ! nxt)" if "fst (schedule k) = Some nxt" for nxt
    using best_readyD [OF goodD(2) [OF g] schedule_ok_Some [OF goodD(2) [OF g] that]]
      schedule_ok_Some [OF goodD(2) [OF g] that] by (auto simp: queueable_def)
  show "resume_next h mem info k =
      (case fst (schedule k) of
         None \<Rightarrow> panic_policy mem info k
       | Some nxt \<Rightarrow> Some (Resume (sp (tasks k ! nxt)), resumed_on h nxt k))"
    using ready unfolding resume_next_def
    by (subst s) (auto simp: get_task_def set_state_Running_wf goodD(1) [OF g] resumed_on_def nt_sp_def Let_def
        split: option.splits)
  show "good (resumed_on h nxt k) \<and> best_ready k nxt \<and> nxt < max_ptasks k" if "fst (schedule k) = Some nxt"
  proof -
    note r = ready [OF that]
    have "good (dequeue nxt (set_raw nxt RUNNING k))" by (rule good_make_unready) (use g r in auto)
    then have "good (resumed_on h nxt k)" unfolding resumed_on_def
      by (intro good_emits) (rule good_set_current, use r in simp_all)
    then show ?thesis using r by simp
  qed
qed

lemma isolate_spec:
  assumes g: "good k" and h: "h < max_harts k" and i: "task_live k i"
    and f: "fault_task info = Some i"
  shows "\<exists>r k'. isolate h mem info k = Some (r, k') \<and> good k' \<and>
    (r = Halted \<or> (\<exists>nxt. isolated h i nxt k k' \<and> r = Resume (sp (tasks k ! nxt))))"
proof -
  have il: "i < max_ptasks k" "used (tasks k ! i)" using i by (auto simp: task_live_def)
  obtain es k2 where k2: "same_tasks k k2" "current_ids k2 = current_ids k"
    "\<forall>m. Some m \<in> set (held (tasks k ! i)) \<longrightarrow> poisoned (the_mutex m k2)" "good (taken_out i info k2)"
    and run: "isolate h mem info k = resume_next h mem info (taken_out i info k2)"
    using isolate_taken_out [OF g il f, of h mem] by blast
  note eq = run [unfolded dispatch_next(1) [OF k2(4)]]
  let ?k4 = "taken_out i info k2"
  have len: "max_ptasks ?k4 = max_ptasks k" using same_tasksD(1) [OF k2(1)] by simp
  have qv: "quiet_view (tasks k2 ! j) = quiet_view (tasks k ! j)" if "j < max_ptasks k" for j
    using same_tasksD(2) [OF k2(1) that] .
  show ?thesis
  proof (cases "fst (schedule ?k4)")
    case None
    have "\<forall>j. fault_task info = Some j \<longrightarrow> j < max_ptasks ?k4" using f il len by simp
    then show ?thesis using panic_policy_good [OF k2(4), of info mem] eq None by auto
  next
    case (Some nxt)
    note d = dispatch_next(2) [OF k2(4) Some]
    let ?k6 = "resumed_on h nxt ?k4"
    have g6: "good ?k6" using d by blast
    have nk: "nxt < max_ptasks k" using d len by simp
    have "raw_state (tasks ?k4 ! i) = BLOCKED" using il len by simp
    moreover have "queueable (tasks ?k4 ! nxt)" using best_readyD(3) [OF goodD(2) [OF k2(4)]] d by blast
    ultimately have ne: "nxt \<noteq> i" by (auto simp: queueable_def)
    have ti: "tasks ?k6 ! i = (tasks k2 ! i)\<lparr>raw_state := BLOCKED\<rparr>" using ne il len by (simp add: resumed_on_def)
    have raw: "raw_state (tasks ?k6 ! i) = BLOCKED" using ti by simp
    have "isolated h i nxt k ?k6"
      unfolding isolated_def
    proof (intro conjI ballI)
      show "current h ?k6 = Some nxt" using h by (simp add: resumed_on_def current_def k2(2))
      show "raw_state (tasks ?k6 ! nxt) = RUNNING" using nk len by (simp add: resumed_on_def)
      show "\<not> queued ?k6 i" by (rule not_queued_blocked [OF g6 raw])
      show "poisoned (the_mutex m ?k6)" if "m \<in> held_set (tasks k ! i)" for m
        using k2(3) that by (simp add: resumed_on_def the_mutex_def held_set_def)
      show "exited (tasks ?k6 ! i) = exited (tasks k ! i)" "joiner (tasks ?k6 ! i) = joiner (tasks k ! i)"
        using quiet_view_eqD(7,8) [OF qv [OF il(1)]] by (simp_all only: ti, simp_all)
    qed (fact g6 nk ne raw)+
    moreover have "sp (tasks ?k4 ! nxt) = sp (tasks k ! nxt)"
      using arg_cong [OF qv [OF nk], of sp] ne by (simp add: quiet_view_def)
    ultimately show ?thesis using eq Some g6 by auto
  qed
qed

lemma on_fault_good:
  assumes "good k" and "h < max_harts k" and "task_live k i" and "fault_task info = Some i"
  shows "\<exists>r k'. on_fault h mem info k = Some (r, k') \<and> good k'"
  using isolate_spec [OF assms, of mem] panic_policy_good [OF assms(1), of info mem] assms(3,4)
  by (cases "policy k") (auto simp: on_fault_def task_live_def)

end
