(* ===== verification/Tick.thy ===== *)
theory Tick
  imports Fault
begin

text \<open>
  The context-switch decision (\<open>on_tick_locked\<close> of \<open>rivet/src/preempt/mod.rs\<close>) and the two
  entry points of the scheduler. One call is one critical section; the readings of the cycle
  counter and the clock it takes, and the memory it reads, are arguments.
\<close>

record readings =
  r_live :: u64
  r_total :: u64
  r_us :: u64
  r_switch :: u64

text \<open>The word at the bottom of a stack; all four bytes are 0xAA when it is untouched.\<close>

definition read_u32 :: "(usize \<Rightarrow> u8) \<Rightarrow> usize \<Rightarrow> u32" where
  "read_u32 mem a = ucast (mem a) OR push_bit 8 (ucast (mem (a + 1))) OR
     push_bit 16 (ucast (mem (a + 2))) OR push_bit 24 (ucast (mem (a + 3)))"

definition watermark_lost :: "(usize \<Rightarrow> u8) \<Rightarrow> tcb \<Rightarrow> bool" where
  "watermark_lost mem t \<longleftrightarrow> stack_base t \<noteq> 0 \<and> stack_size t \<ge> 4 \<and>
     read_u32 mem (stack_base t) \<noteq> 0xAAAAAAAA"

definition store_sp :: "nat \<Rightarrow> usize \<Rightarrow> kernel \<Rightarrow> kernel" where
  "store_sp i v k = (case get_task i k of None \<Rightarrow> k | Some _ \<Rightarrow> upd_task i (\<lambda>t. t\<lparr>sp := v\<rparr>) k)"

text \<open>The commit of a switch from \<open>running\<close> to \<open>candidate\<close>.\<close>

definition switch_to :: "nat \<Rightarrow> nat \<Rightarrow> nat \<Rightarrow> u64 \<Rightarrow> kernel \<Rightarrow> (outcome \<times> kernel) option" where
  "switch_to h running candidate now k = do {
     k1 \<leftarrow> (case get_task running k of
              None \<Rightarrow> Some k
            | Some t \<Rightarrow> (if state_of t = Running then set_state h running Ready k else Some k));
     let k2 = on_switch running now k1;
     to \<leftarrow> get_task candidate k2;
     k3 \<leftarrow> set_state h candidate Running k2;
     let k4 = on_dispatch candidate (set_current h candidate k3);
     Some (Resume (sp to), emit (Switch_to (stack_base to) (stack_size to)) k4)
   }"

definition on_tick_locked :: "nat \<Rightarrow> readings \<Rightarrow> (usize \<Rightarrow> u8) \<Rightarrow> usize \<Rightarrow> kernel
    \<Rightarrow> (outcome \<times> kernel) option" where
  "on_tick_locked h rd mem interrupted_sp k =
    (case current h k of
       None \<Rightarrow> Some (Resume interrupted_sp, k)
     | Some running \<Rightarrow>
         (case schedule (store_sp running interrupted_sp k) of
            (None, k1) \<Rightarrow> Some (Resume interrupted_sp, k1)
          | (Some candidate, k1) \<Rightarrow>
              (let me = get_task running k1
               in if (case me of None \<Rightarrow> False | Some t \<Rightarrow> watermark_lost mem t)
                  then on_fault h mem \<lparr>fault_task = Some running, fault_kind = StackOverflow,
                         fault_address = stack_base (the me), fault_pc = 0\<rparr> k1
                  else if map_option state_of me = Some Running \<and>
                          check_budget running (r_live rd) (r_total rd) (r_us rd) k1
                  then on_fault h mem \<lparr>fault_task = Some running, fault_kind = BudgetExceeded,
                         fault_address = 0, fault_pc = 0\<rparr> k1
                  else let running_blocked =
                             (case me of None \<Rightarrow> True | Some t \<Rightarrow> state_of t = Blocked)
                       in if running_blocked
                          then (if candidate = running then Some (Resume interrupted_sp, k1)
                                else switch_to h running candidate (r_switch rd) k1)
                          else (case should_preempt candidate running k1 of
                                  None \<Rightarrow> None
                                | Some False \<Rightarrow> Some (Resume interrupted_sp, k1)
                                | Some True \<Rightarrow> switch_to h running candidate (r_switch rd) k1))))"

text \<open>
  \<open>start\<close> returns the stack pointer given to \<open>start_first_task\<close>; \<open>None\<close> is the panic when no
  task is ready. \<open>start_secondary\<close> is one attempt of the secondary hart's loop: it dispatches
  or reports that there is nothing to do yet.
\<close>

definition first_dispatch :: "nat \<Rightarrow> kernel \<Rightarrow> (nat option \<times> kernel) option" where
  "first_dispatch h k =
    (case schedule k of
       (None, k1) \<Rightarrow> Some (None, k1)
     | (Some first, k1) \<Rightarrow> do {
         let k2 = set_current h first k1;
         k3 \<leftarrow> (case get_task first k2 of None \<Rightarrow> Some k2 | Some _ \<Rightarrow> set_state h first Running k2);
         Some (Some first, on_dispatch first k3)
       })"

definition arch_dispatch :: "nat \<Rightarrow> kernel \<Rightarrow> (usize \<times> kernel) option" where
  "arch_dispatch first k =
    (case get_task first k of
       None \<Rightarrow> None
     | Some t \<Rightarrow> Some (sp t, emit (Switch_to (stack_base t) (stack_size t)) k))"

definition start :: "nat \<Rightarrow> u64 \<Rightarrow> u64 \<Rightarrow> kernel \<Rightarrow> (usize \<times> kernel) option" where
  "start h now now_us k = do {
     (first, k1) \<leftarrow> first_dispatch h k;
     (case first of
        None \<Rightarrow> None
      | Some i \<Rightarrow> arch_dispatch i (on_first_dispatch now now_us k1))
   }"

definition start_secondary :: "nat \<Rightarrow> kernel \<Rightarrow> (usize option \<times> kernel) option" where
  "start_secondary h k = do {
     (first, k1) \<leftarrow> first_dispatch h k;
     (case first of
        None \<Rightarrow> Some (None, k1)
      | Some i \<Rightarrow> do { (s, k2) \<leftarrow> arch_dispatch i k1; Some (Some s, k2) })
   }"

end
