(* ===== verification/Tick_Spec.thy ===== *)
theory Tick_Spec
  imports Tick
begin

text \<open>
  The tick under the kernel invariant: it never panics and keeps the invariant; it switches
  exactly when its decision function says so; and afterwards no ready task outranks the
  task that runs.
\<close>

section \<open>Switching\<close>

lemma on_switch_frame [simp]:
  "tasks (on_switch i now k) = tasks k" "mutexes (on_switch i now k) = mutexes k"
  "current_ids (on_switch i now k) = current_ids k"
  "ready_words (on_switch i now k) = ready_words k"
  "ready_bitmap (on_switch i now k) = ready_bitmap k" "queues (on_switch i now k) = queues k"
  "dispatch_seq (on_switch i now k) = dispatch_seq k"
  "ptask_deadlines (on_switch i now k) = ptask_deadlines k"
  "dispatch_counter (on_switch i now k) = dispatch_counter k"
  by (simp_all add: on_switch_def ready_words_def Let_def)

lemma good_on_switch [simp]: "good k \<Longrightarrow> good (on_switch i now k)"
  by (erule good_frame) simp_all

definition yielded :: "nat \<Rightarrow> nat \<Rightarrow> kernel \<Rightarrow> kernel" where
  "yielded h i k = (if task_live k i \<and> raw_state (tasks k ! i) = RUNNING
     then enqueue h i (set_raw i READY k) else k)"

definition switched :: "nat \<Rightarrow> nat \<Rightarrow> nat \<Rightarrow> u64 \<Rightarrow> kernel \<Rightarrow> kernel" where
  "switched h i c now k =
     emit (Switch_to (stack_base (tasks k ! c)) (stack_size (tasks k ! c)))
       (on_dispatch c (set_current h c
         (dequeue c (set_raw c RUNNING (on_switch i now (yielded h i k))))))"

lemma state_of_Running: "state_of t = Running \<longleftrightarrow> raw_state t = RUNNING"
  by (auto simp: state_of_def split: raw_state.splits)

lemma state_of_Blocked: "state_of t = Blocked \<longleftrightarrow> raw_state t = BLOCKED"
  by (auto simp: state_of_def split: raw_state.splits)

lemma good_yielded: "good k \<Longrightarrow> good (yielded h i k)"
  by (auto simp: yielded_def task_live_def intro!: good_make_ready)

lemma yielded_tasks: "j < max_ptasks k \<Longrightarrow> tasks (yielded h i k) ! j =
    (if j = i \<and> task_live k i \<and> raw_state (tasks k ! i) = RUNNING
     then (tasks k ! i)\<lparr>raw_state := READY\<rparr> else tasks k ! j)"
  by (auto simp: yielded_def nth_upd_at)

lemma yielded_frame [simp]:
  "max_ptasks (yielded h i k) = max_ptasks k" "current_ids (yielded h i k) = current_ids k"
  "mutexes (yielded h i k) = mutexes k" "task_live (yielded h i k) j = task_live k j"
  by (auto simp: yielded_def task_live_def nth_upd_at split: if_splits)

lemma switch_to_eq:
  assumes g: "good k" and c: "task_live k c"
  shows "switch_to h i c now k = Some (Resume (sp (tasks k ! c)), switched h i c now k)"
proof -
  have cl: "c < max_ptasks k" "used (tasks k ! c)" using c by (auto simp: task_live_def)
  have y: "(case get_task i k of
              None \<Rightarrow> Some k
            | Some t \<Rightarrow> (if state_of t = Running then set_state h i Ready k else Some k)) =
      Some (yielded h i k)"
    by (auto simp: get_task_live yielded_def state_of_Running task_live_def
        set_state_Ready_wf goodD(1) [OF g])
  let ?k2 = "on_switch i now (yielded h i k)"
  have g2: "good ?k2" using good_yielded [OF g] by simp
  have t2: "get_task c ?k2 = Some (tasks (yielded h i k) ! c)"
    using cl c yielded_frame(4) [of h i k c] by (simp add: get_task_def task_live_def)
  have f: "sp (tasks (yielded h i k) ! c) = sp (tasks k ! c)"
    "stack_base (tasks (yielded h i k) ! c) = stack_base (tasks k ! c)"
    "stack_size (tasks (yielded h i k) ! c) = stack_size (tasks k ! c)"
    using cl by (simp_all add: yielded_tasks)
  have s: "set_state h c Running ?k2 = Some (dequeue c (set_raw c RUNNING ?k2))"
    using cl by (intro set_state_Running_wf goodD(1) [OF g2]) simp
  show ?thesis
    by (simp add: switch_to_def y t2 s f switched_def Let_def)
qed

lemma good_switched:
  assumes g: "good k" and c: "c < max_ptasks k"
  shows "good (switched h i c now k)"
proof -
  have "good (dequeue c (set_raw c RUNNING (on_switch i now (yielded h i k))))"
    by (rule good_make_unready [OF good_on_switch [OF good_yielded [OF g]]]) (use c in simp_all)
  then have "good (set_current h c (dequeue c (set_raw c RUNNING (on_switch i now (yielded h i k)))))"
    by (rule good_set_current) (use c in simp)
  then show ?thesis unfolding switched_def by (intro good_emits good_on_dispatch)
qed

lemma switched_tasks: "c < max_ptasks k \<Longrightarrow> j < max_ptasks k \<Longrightarrow> tasks (switched h i c now k) ! j =
    (if j = c then (tasks (yielded h i k) ! c)\<lparr>raw_state := RUNNING\<rparr> else tasks (yielded h i k) ! j)"
  by (simp add: switched_def nth_upd_at)

lemma switched_frame [simp]:
  "max_ptasks (switched h i c now k) = max_ptasks k"
  "current_ids (switched h i c now k) = (current_ids k)[h := Some c]"
  "mutexes (switched h i c now k) = mutexes k"
  by (simp_all add: switched_def)

section \<open>The decision\<close>

definition stored :: "nat \<Rightarrow> usize \<Rightarrow> kernel \<Rightarrow> kernel" where
  "stored h s k = (case current h k of None \<Rightarrow> k | Some i \<Rightarrow> store_sp i s k)"

lemma store_sp_frame [simp]:
  "ready_words (store_sp i s k) = ready_words k" "current_ids (store_sp i s k) = current_ids k"
  "mutexes (store_sp i s k) = mutexes k" "policy (store_sp i s k) = policy k"
  "max_ptasks (store_sp i s k) = max_ptasks k" "dispatch_seq (store_sp i s k) = dispatch_seq k"
  by (auto simp: store_sp_def upd_task_def ready_words_def split: option.splits)

lemma store_sp_tasks: "j < max_ptasks k \<Longrightarrow>
    tasks (store_sp i s k) ! j = (if j = i \<and> task_live k i then (tasks k ! i)\<lparr>sp := s\<rparr> else tasks k ! j)"
  by (auto simp: store_sp_def get_task_live nth_upd_at task_live_def)

lemma store_sp_live [simp]: "task_live (store_sp i s k) j = task_live k j"
  by (auto simp: task_live_def store_sp_tasks split: if_splits)

lemma good_store_sp: "good k \<Longrightarrow> good (store_sp i s k)"
  by (auto simp: store_sp_def inv_view_def sched_view_def intro!: good_upd_view split: option.splits)

definition tick_faults :: "nat \<Rightarrow> readings \<Rightarrow> (usize \<Rightarrow> u8) \<Rightarrow> kernel \<Rightarrow> bool" where
  "tick_faults i rd mem k \<longleftrightarrow> task_live k i \<and> (watermark_lost mem (tasks k ! i) \<or>
     raw_state (tasks k ! i) = RUNNING \<and> check_budget i (r_live rd) (r_total rd) (r_us rd) k)"

definition must_leave :: "kernel \<Rightarrow> nat \<Rightarrow> bool" where
  "must_leave k i \<longleftrightarrow> \<not> task_live k i \<or> raw_state (tasks k ! i) = BLOCKED"

definition switches_to :: "kernel \<Rightarrow> nat \<Rightarrow> nat \<Rightarrow> bool" where
  "switches_to k i c \<longleftrightarrow> c \<noteq> i \<and>
     (must_leave k i \<or> effective_priority (tasks k ! c) \<ge> effective_priority (tasks k ! i))"

lemma tick_eq:
  assumes g: "good k" and cur: "current h k = Some i"
    and c: "fst (schedule (store_sp i s k)) = Some c"
    and nf: "\<not> tick_faults i rd mem (store_sp i s k)"
  shows "on_tick_locked h rd mem s k =
    (if switches_to (store_sp i s k) i c
     then Some (Resume (sp (tasks (store_sp i s k) ! c)), switched h i c (r_switch rd) (store_sp i s k))
     else Some (Resume s, store_sp i s k))"
proof -
  let ?k1 = "store_sp i s k"
  have g1: "good ?k1" using g by (rule good_store_sp)
  have sch: "schedule ?k1 = (Some c, ?k1)" using schedule_eq [OF goodD(2) [OF g1]] c by simp
  note bd = best_readyD [OF goodD(2) [OF g1] schedule_ok_Some [OF goodD(2) [OF g1] c]]
  have cl: "task_live ?k1 c" using bd by (auto simp: task_live_def queueable_def)
  note sw = switch_to_eq [OF g1 cl, of h i "r_switch rd"]
  have me: "get_task i ?k1 = (if task_live k i then Some (tasks ?k1 ! i) else None)"
    by (simp add: get_task_live)
  show ?thesis
  proof (cases "task_live k i")
    case False
    then show ?thesis
      by (simp add: on_tick_locked_def cur sch me switches_to_def must_leave_def sw)
  next
    case True
    then have il: "i < max_ptasks k" by (simp add: task_live_def)
    have cc: "c < max_ptasks k" using bd(2) by simp
    have pre: "should_preempt c i ?k1 = Some (c \<noteq> i \<and>
        effective_priority (tasks ?k1 ! c) \<ge> effective_priority (tasks ?k1 ! i))"
      using il cc by (simp add: should_preempt_def)
    have nw: "\<not> watermark_lost mem (tasks ?k1 ! i)"
      "\<not> (raw_state (tasks ?k1 ! i) = RUNNING \<and>
          check_budget i (r_live rd) (r_total rd) (r_us rd) ?k1)"
      using nf True by (auto simp: tick_faults_def)
    have pre_i: "should_preempt i i ?k1 = Some False" by (simp add: should_preempt_def)
    show ?thesis
      using nw pre
      by (cases "c = i")
        (auto simp: on_tick_locked_def cur sch me True switches_to_def must_leave_def sw pre_i
          state_of_Running state_of_Blocked Let_def)
  qed
qed

lemma tick_idle:
  assumes g: "good k"
  shows "current h k = None \<Longrightarrow> on_tick_locked h rd mem s k = Some (Resume s, k)"
    and "current h k = Some i \<Longrightarrow> fst (schedule (store_sp i s k)) = None \<Longrightarrow>
      on_tick_locked h rd mem s k = Some (Resume s, store_sp i s k)"
proof -
  show "current h k = None \<Longrightarrow> on_tick_locked h rd mem s k = Some (Resume s, k)"
    by (simp add: on_tick_locked_def)
  assume "current h k = Some i" "fst (schedule (store_sp i s k)) = None"
  then show "on_tick_locked h rd mem s k = Some (Resume s, store_sp i s k)"
    using schedule_eq [OF goodD(2) [OF good_store_sp [OF g, of i s]]]
    by (simp add: on_tick_locked_def split_beta)
qed

lemma tick_fault:
  assumes g: "good k" and cur: "current h k = Some i"
    and c: "fst (schedule (store_sp i s k)) = Some c"
    and nf: "tick_faults i rd mem (store_sp i s k)"
  shows "\<exists>info. fault_task info = Some i \<and>
    on_tick_locked h rd mem s k = on_fault h mem info (store_sp i s k)"
proof -
  let ?k1 = "store_sp i s k"
  have sch: "schedule ?k1 = (Some c, ?k1)"
    using schedule_eq [OF goodD(2) [OF good_store_sp [OF g, of i s]]] c by simp
  have me: "get_task i ?k1 = Some (tasks ?k1 ! i)" and l: "task_live k i"
    using nf by (auto simp: get_task_live tick_faults_def)
  show ?thesis
  proof (cases "watermark_lost mem (tasks ?k1 ! i)")
    case True
    then show ?thesis
      by (intro exI [of _ "\<lparr>fault_task = Some i, fault_kind = StackOverflow,
           fault_address = stack_base (tasks ?k1 ! i), fault_pc = 0\<rparr>"])
        (simp add: on_tick_locked_def cur sch me)
  next
    case False
    then show ?thesis using nf
      by (intro exI [of _ "\<lparr>fault_task = Some i, fault_kind = BudgetExceeded,
           fault_address = 0, fault_pc = 0\<rparr>"])
        (simp add: on_tick_locked_def cur sch me tick_faults_def state_of_Running)
  qed
qed

lemma tick_good:
  assumes g: "good k" and h: "h < max_harts k"
  shows "\<exists>r k'. on_tick_locked h rd mem s k = Some (r, k') \<and> good k'"
proof (cases "current h k")
  case None
  then show ?thesis using g tick_idle(1) [OF g] by auto
next
  case (Some i)
  have g1: "good (store_sp i s k)" using g by (rule good_store_sp)
  show ?thesis
  proof (cases "fst (schedule (store_sp i s k))")
    case None
    then show ?thesis using g1 tick_idle(2) [OF g Some] by auto
  next
    case c: (Some c)
    have "c < max_ptasks (store_sp i s k)"
      using best_readyD(2) [OF goodD(2) [OF g1] schedule_ok_Some [OF goodD(2) [OF g1] c]] .
    then have gs: "good (switched h i c (r_switch rd) (store_sp i s k))" using g1 by (intro good_switched)
    show ?thesis
    proof (cases "tick_faults i rd mem (store_sp i s k)")
      case True
      then have "task_live (store_sp i s k) i" by (simp add: tick_faults_def)
      then show ?thesis using tick_fault [OF g Some c True] on_fault_good [OF g1, of h i] h by fastforce
    next
      case False
      then show ?thesis using tick_eq [OF g Some c False] g1 gs by auto
    qed
  qed
qed

section \<open>The highest-priority ready task runs\<close>

definition runs :: "nat \<Rightarrow> kernel \<Rightarrow> nat \<Rightarrow> bool" where
  "runs h k i \<longleftrightarrow> current h k = Some i \<and> task_live k i \<and> raw_state (tasks k ! i) = RUNNING"

definition outranks_ready :: "kernel \<Rightarrow> nat \<Rightarrow> bool" where
  "outranks_ready k c \<longleftrightarrow> (\<forall>j. queued k j \<longrightarrow> effective_priority (tasks k ! j) \<le> effective_priority (tasks k ! c))"

lemma best_ready_prio:
  assumes q: "queue_ok k" and b: "best_ready k c" and j: "queued k j"
  shows "effective_priority (tasks k ! j) \<le> effective_priority (tasks k ! c)"
proof -
  obtain p where p: "rb_mem (ready_words k) p c"
    and mx: "\<And>r l. rb_mem (ready_words k) r l \<Longrightarrow> r < p \<or> (r = p \<and> (l = c \<or> older (dispatch_seq k) c l))"
    using b unfolding best_ready_def by blast
  obtain r where r: "rb_mem (ready_words k) r j" using j by (auto simp: queued_def)
  have "r \<le> p" using mx [OF r] by auto
  then show ?thesis using queue_okD(3) [OF q p] queue_okD(3) [OF q r] by simp
qed

lemma queued_upd [simp]:
  "queued (emits es k) j = queued k j" "queued (on_dispatch c k) j = queued k j"
  "queued (set_current h c k) j = queued k j" "queued (on_switch i now k) j = queued k j"
  "queued (store_sp i s k) j = queued k j" "queued (upd_task i f k) j = queued k j"
  by (simp_all add: queued_def)

lemma queued_dequeue: "good k \<Longrightarrow> i < max_ptasks k \<Longrightarrow> queued (dequeue i k) j \<Longrightarrow> queued k j"
  by (auto simp: queued_def rb_mem_del queue_ok_rb_inv goodD good_wf(11))

lemma queued_enqueue: "good k \<Longrightarrow> i < max_ptasks k \<Longrightarrow> queued (enqueue h i k) j \<longleftrightarrow> queued k j \<or> j = i"
  by (auto simp: queued_def rb_mem_add queue_ok_rb_inv goodD good_wf(7) good_wf(11))

lemma queued_enqueue_raw: "good k \<Longrightarrow> i < max_ptasks k \<Longrightarrow>
    queued (enqueue h i (set_raw i v k)) j \<longleftrightarrow> queued k j \<or> j = i"
  by (auto simp: queued_def rb_mem_add queue_ok_rb_inv goodD good_wf(7) good_wf(11))

lemma queued_dequeue_raw: "good k \<Longrightarrow> i < max_ptasks k \<Longrightarrow>
    queued (dequeue i (set_raw i v k)) j \<Longrightarrow> queued k j"
  by (auto simp: queued_def rb_mem_del queue_ok_rb_inv goodD good_wf(11))

text \<open>Nothing is switched: the running task keeps running where it was interrupted.\<close>

lemma tick_stays:
  assumes r: "runs h k i" and rank: "\<And>j. queued k j \<Longrightarrow> j < max_ptasks k \<and>
      effective_priority (tasks k ! j) \<le> effective_priority (tasks k ! i)"
  shows "runs h (store_sp i s k) i \<and> outranks_ready (store_sp i s k) i"
proof -
  have il: "i < max_ptasks k" "task_live k i" using r by (auto simp: runs_def task_live_def)
  have t1: "tasks (store_sp i s k) ! j = (if j = i then (tasks k ! i)\<lparr>sp := s\<rparr> else tasks k ! j)"
    if "j < max_ptasks k" for j
    using that il by (simp add: store_sp_tasks)
  have "outranks_ready (store_sp i s k) i"
    unfolding outranks_ready_def
  proof (intro allI impI)
    fix j assume "queued (store_sp i s k) j"
    then have "queued k j" by simp
    from rank [OF this]
    show "effective_priority (tasks (store_sp i s k) ! j) \<le> effective_priority (tasks (store_sp i s k) ! i)"
      using il by (simp add: t1)
  qed
  then show ?thesis using r il by (simp add: runs_def current_def t1)
qed

text \<open>The best ready task takes over and the interrupted one is ready again.\<close>

lemma tick_switches:
  fixes now :: u64 and s :: usize
  assumes g: "good k" and h: "h < max_harts k" and r: "runs h k i" and b: "best_ready k c" and ci: "c \<noteq> i"
    and le: "effective_priority (tasks k ! i) \<le> effective_priority (tasks k ! c)"
    and rank: "\<And>j. queued k j \<Longrightarrow> j < max_ptasks k \<and>
      effective_priority (tasks k ! j) \<le> effective_priority (tasks k ! c)"
  defines "k' \<equiv> switched h i c now (store_sp i s k)"
  shows "runs h k' c" "outranks_ready k' c" "task_ready k' i"
proof -
  have il: "i < max_ptasks k" "used (tasks k ! i)" "task_live k i" and run: "raw_state (tasks k ! i) = RUNNING"
    using r by (auto simp: runs_def task_live_def)
  let ?k1 = "store_sp i s k"
  have g1: "good ?k1" using g by (rule good_store_sp)
  have t1: "tasks ?k1 ! j = (if j = i then (tasks k ! i)\<lparr>sp := s\<rparr> else tasks k ! j)" if "j < max_ptasks k" for j
    using that il by (simp add: store_sp_tasks)
  note bd = best_readyD [OF goodD(2) [OF g] b]
  have c1: "c < max_ptasks ?k1" using bd(2) by simp
  have y: "tasks (yielded h i ?k1) ! j = (if j = i then (tasks k ! i)\<lparr>sp := s, raw_state := READY\<rparr> else tasks k ! j)"
    if "j < max_ptasks k" for j
    using that il run by (simp add: yielded_tasks t1)
  have tk: "tasks k' ! j = (if j = c then (tasks k ! c)\<lparr>raw_state := RUNNING\<rparr>
      else if j = i then (tasks k ! i)\<lparr>sp := s, raw_state := READY\<rparr> else tasks k ! j)"
    if "j < max_ptasks k" for j
    using that ci bd(2) y by (simp add: k'_def switched_tasks)
  have qk: "queued k j \<or> j = i" if q: "queued k' j" for j
  proof -
    have gy: "good (on_switch i now (yielded h i ?k1))" using good_yielded [OF g1] by simp
    have "queued (dequeue c (set_raw c RUNNING (on_switch i now (yielded h i ?k1)))) j"
      using q by (simp add: k'_def switched_def)
    then have "queued (yielded h i ?k1) j"
      using queued_dequeue_raw [OF gy, of c] bd(2) by simp
    then show ?thesis
      using queued_enqueue_raw [OF g1, of i h READY j] il run by (auto simp: yielded_def t1 split: if_splits)
  qed
  show "outranks_ready k' c"
    unfolding outranks_ready_def
  proof (intro allI impI)
    fix j assume "queued k' j"
    then have "queued k j \<or> j = i" by (rule qk)
    then show "effective_priority (tasks k' ! j) \<le> effective_priority (tasks k' ! c)"
      using rank [of j] le il bd(2) ci by (auto simp: tk)
  qed
  show "runs h k' c"
    using h bd(2) bd(3) by (simp add: runs_def current_def task_live_def tk queueable_def)
      (simp add: k'_def)
  show "task_ready k' i"
    using il ci tk [OF il(1)] by (simp add: task_ready_def) (simp add: k'_def)
qed

lemma tick_runs_highest:
  assumes g: "good k" and h: "h < max_harts k" and r: "runs h k i"
    and nf: "\<not> tick_faults i rd mem (store_sp i s k)"
    and t: "on_tick_locked h rd mem s k = Some (res, k')"
  shows "\<exists>c. runs h k' c \<and> outranks_ready k' c \<and> (c = i \<longrightarrow> res = Resume s) \<and>
    (c \<noteq> i \<longrightarrow> best_ready k c \<and> res = Resume (sp (tasks k ! c)) \<and> task_ready k' i) \<and>
    (\<forall>j. queued k j \<longrightarrow> effective_priority (tasks k ! j) \<le> effective_priority (tasks k ! c))"
proof -
  have cur: "current h k = Some i" and il: "i < max_ptasks k" "task_live k i"
    and run: "raw_state (tasks k ! i) = RUNNING"
    using r by (auto simp: runs_def task_live_def)
  let ?k1 = "store_sp i s k"
  have g1: "good ?k1" using g by (rule good_store_sp)
  have t1: "tasks ?k1 ! j = (if j = i then (tasks k ! i)\<lparr>sp := s\<rparr> else tasks k ! j)" if "j < max_ptasks k" for j
    using that il by (simp add: store_sp_tasks)
  have nq: "\<not> queued k i"
    using queue_okD(2) [OF goodD(2) [OF g], of _ i] run by (auto simp: queued_def queueable_def)
  have lt: "j < max_ptasks k" if "queued k j" for j
    using queue_okD(1) [OF goodD(2) [OF g]] that by (auto simp: queued_def)
  show ?thesis
  proof (cases "fst (schedule ?k1)")
    case None
    then have res: "res = Resume s" "k' = ?k1" using t tick_idle(2) [OF g cur] by auto
    have "\<not> queued ?k1 j" for j using schedule_ok_None [OF goodD(2) [OF g1] None] .
    then have "\<not> queued k j" for j by simp
    then show ?thesis using tick_stays [OF r, of s] res by blast
  next
    case (Some c)
    have b: "best_ready k c" using schedule_ok_Some [OF goodD(2) [OF g1] Some] by (simp add: best_ready_def)
    note bd = best_readyD [OF goodD(2) [OF g] b]
    have ci: "c \<noteq> i" using bd(1) nq by auto
    have rank: "queued k j \<Longrightarrow> j < max_ptasks k \<and> effective_priority (tasks k ! j) \<le> effective_priority (tasks k ! c)" for j
      using best_ready_prio [OF goodD(2) [OF g] b] lt by blast
    have sw: "switches_to ?k1 i c \<longleftrightarrow> effective_priority (tasks k ! i) \<le> effective_priority (tasks k ! c)"
      using il run ci bd(2) by (simp add: switches_to_def must_leave_def t1)
    show ?thesis
    proof (cases "effective_priority (tasks k ! i) \<le> effective_priority (tasks k ! c)")
      case False
      then have "res = Resume s" "k' = ?k1" using t tick_eq [OF g cur Some nf] sw by auto
      moreover have "queued k j \<Longrightarrow> j < max_ptasks k \<and>
          effective_priority (tasks k ! j) \<le> effective_priority (tasks k ! i)" for j
        using rank [of j] False by linarith
      ultimately show ?thesis using tick_stays [OF r, of s] by blast
    next
      case True
      then have res: "res = Resume (sp (tasks k ! c))" "k' = switched h i c (r_switch rd) ?k1"
        using t tick_eq [OF g cur Some nf] sw ci bd(2) by (auto simp: t1)
      show ?thesis
        using tick_switches [OF g h r b ci True rank, of "r_switch rd" s] res b ci rank by blast
    qed
  qed
qed

section \<open>What a port needs\<close>

text \<open>
  What a tick does to saved stack pointers and to the tasks on the harts, from any task that is
  current: the facts a port's context switch rests on.
\<close>

definition switch_calls :: "event list \<Rightarrow> (usize \<times> usize) list" where
  "switch_calls es = concat (map (\<lambda>e. case e of Switch_to b sz \<Rightarrow> [(b, sz)] | _ \<Rightarrow> []) es)"

lemma switched_events:
  "\<exists>es. events (switched h i c now k) = events k @ es \<and>
    switch_calls es = [(stack_base (tasks k ! c), stack_size (tasks k ! c))]"
proof -
  have w: "\<exists>es. events (wake_other_harts h q) = events q @ es \<and> switch_calls es = []" for q
    by (auto simp: wake_other_harts_def switch_calls_def)
  have "\<exists>es. events (yielded h i k) = events k @ es \<and> switch_calls es = []"
    using w [of "set_ready_words (rb_add (effective_priority (tasks (set_raw i READY k) ! i)) i (ready_words k)) (set_raw i READY k)"]
    by (simp add: yielded_def enqueue_def switch_calls_def)
  then obtain es where es: "events (yielded h i k) = events k @ es" "switch_calls es = []" by blast
  have "events (switched h i c now k) = events (yielded h i k) @ [Switch_to (stack_base (tasks k ! c)) (stack_size (tasks k ! c))]"
    by (simp add: switched_def on_dispatch_def set_current_def dequeue_def on_switch_def Let_def)
  then show ?thesis using es
    by (intro exI [of _ "es @ [Switch_to (stack_base (tasks k ! c)) (stack_size (tasks k ! c))]"]) (simp add: switch_calls_def)
qed

lemma tick_saves:
  assumes g: "good k" and h: "h < max_harts k" and cur: "current h k = Some i" and live: "task_live k i"
    and nf: "\<not> tick_faults i rd mem (store_sp i s k)"
  shows "\<exists>res c k'. on_tick_locked h rd mem s k = Some (res, k') \<and> good k' \<and> task_live k' c \<and>
    current_ids k' = (current_ids k)[h := Some c] \<and> res = Resume (if c = i then s else sp (tasks k ! c)) \<and>
    (c \<noteq> i \<longrightarrow> queued k c) \<and> max_ptasks k' = max_ptasks k \<and>
    (\<forall>j < max_ptasks k. sp (tasks k' ! j) = (if j = i then s else sp (tasks k ! j)) \<and> task_live k' j = task_live k j) \<and>
    (\<forall>j < max_ptasks k. stack_base (tasks k' ! j) = stack_base (tasks k ! j) \<and> stack_size (tasks k' ! j) = stack_size (tasks k ! j)) \<and>
    (\<exists>es. events k' = events k @ es \<and>
      switch_calls es = (if c = i then [] else [(stack_base (tasks k ! c), stack_size (tasks k ! c))]))"
proof -
  let ?k1 = "store_sp i s k"
  have ev: "\<exists>es. events ?k1 = events k @ es \<and> switch_calls es = []"
    by (simp add: store_sp_def switch_calls_def split: option.splits)
  have il: "i < max_ptasks k" using live by (simp add: task_live_def)
  have g1: "good ?k1" using g by (rule good_store_sp)
  have t1: "tasks ?k1 ! j = (if j = i then (tasks k ! i)\<lparr>sp := s\<rparr> else tasks k ! j)" if "j < max_ptasks k" for j
    using that live il by (simp add: store_sp_tasks)
  have m1: "max_ptasks ?k1 = max_ptasks k" "current_ids ?k1 = current_ids k" by simp_all
  have l1: "task_live ?k1 j = task_live k j" if "j < max_ptasks k" for j using that t1 by (simp add: task_live_def)
  have same: "(current_ids k)[h := Some i] = current_ids k"
    using cur h by (auto simp: current_def list_update_same_conv)
  show ?thesis
  proof (cases "fst (schedule ?k1)")
    case None
    have "on_tick_locked h rd mem s k = Some (Resume s, ?k1)" using tick_idle(2) [OF g cur None] .
    then show ?thesis using g1 live il same t1 l1 ev
      by (intro exI [of _ "Resume s"] exI [of _ i] exI [of _ ?k1]) (simp add: m1)
  next
    case (Some c)
    have b: "best_ready ?k1 c" using schedule_ok_Some [OF goodD(2) [OF g1] Some] .
    note bd = best_readyD [OF goodD(2) [OF g1] b]
    have cl: "c < max_ptasks k" "task_live k c" "queued k c"
      using bd l1 by (auto simp: m1 task_live_def queueable_def)
    show ?thesis
    proof (cases "switches_to ?k1 i c")
      case False
      then have "on_tick_locked h rd mem s k = Some (Resume s, ?k1)" using tick_eq [OF g cur Some nf] by simp
      then show ?thesis using g1 live il same t1 l1 ev
        by (intro exI [of _ "Resume s"] exI [of _ i] exI [of _ ?k1]) (simp add: m1)
    next
      case True
      let ?k' = "switched h i c (r_switch rd) ?k1"
      have ci: "c \<noteq> i" using True by (simp add: switches_to_def)
      have o: "on_tick_locked h rd mem s k = Some (Resume (sp (tasks k ! c)), ?k')"
        using tick_eq [OF g cur Some nf] True ci cl by (simp add: t1)
      have y: "sp (tasks (yielded h i ?k1) ! j) = (if j = i then s else sp (tasks k ! j)) \<and>
          used (tasks (yielded h i ?k1) ! j) = used (tasks k ! j) \<and>
          stack_base (tasks (yielded h i ?k1) ! j) = stack_base (tasks k ! j) \<and>
          stack_size (tasks (yielded h i ?k1) ! j) = stack_size (tasks k ! j)" if "j < max_ptasks k" for j
        using that by (auto simp: yielded_tasks t1)
      have t': "sp (tasks ?k' ! j) = (if j = i then s else sp (tasks k ! j)) \<and> task_live ?k' j = task_live k j \<and>
          stack_base (tasks ?k' ! j) = stack_base (tasks k ! j) \<and> stack_size (tasks ?k' ! j) = stack_size (tasks k ! j)"
        if "j < max_ptasks k" for j
        using that cl y [OF that] y [OF cl(1)] ci by (auto simp: switched_tasks m1 task_live_def)
      have "good ?k'" using good_switched [OF g1] cl by (simp add: m1)
      moreover have "\<exists>es. events ?k' = events k @ es \<and> switch_calls es = [(stack_base (tasks k ! c), stack_size (tasks k ! c))]"
        using switched_events [of h i c "r_switch rd" ?k1] cl ci by (simp add: store_sp_def t1 split: option.splits)
      ultimately show ?thesis using o ci cl t' [OF cl(1)] t'
        by (intro exI [of _ "Resume (sp (tasks k ! c))"] exI [of _ c] exI [of _ ?k']) (simp add: m1)
    qed
  qed
qed

end
