(* ===== verification/Lifecycle.thy ===== *)
theory Lifecycle
  imports Tick_Spec
begin

text \<open>
  Task exit and join (\<open>rivet/src/preempt/lifecycle.rs\<close>): the exit path stores the result,
  publishes \<open>exited\<close> and wakes the joiner; \<open>join\<close> registers, waits and recovers the result.
  The join loop is a run against an arbitrary rest of the system, like the locking loop.
\<close>

section \<open>Exit\<close>

definition le_bytes :: "usize \<Rightarrow> u8 list" where
  "le_bytes v = map (\<lambda>i. ucast (drop_bit (8 * i) v)) [0..<4]"

text \<open>The result bytes: from the two return registers, or read back from the task's own stack.\<close>

definition result_bytes :: "(usize \<Rightarrow> u8) \<Rightarrow> nat \<Rightarrow> usize \<Rightarrow> usize \<Rightarrow> u8 list" where
  "result_bytes mem n lo hi =
    (if n \<le> 8 then take n (le_bytes lo @ le_bytes hi)
     else map (\<lambda>i. mem (lo + of_nat i)) [0..<n])"

definition store_result :: "(usize \<Rightarrow> u8) \<Rightarrow> usize \<Rightarrow> usize \<Rightarrow> tcb \<Rightarrow> tcb" where
  "store_result mem lo hi t =
    (let n = unat (result_size t)
     in if n > 0 \<and> n \<le> length (result_buf t)
        then let bs = result_bytes mem n lo hi
             in t\<lparr>result_buf := bs @ drop (length bs) (result_buf t)\<rparr>
        else t)"

definition exit_publish :: "nat \<Rightarrow> nat \<Rightarrow> kernel \<Rightarrow> kernel option" where
  "exit_publish h i k =
    (let jo = joiner (tasks k ! i);
         k1 = upd_task i (\<lambda>t. t\<lparr>exited := True, joiner := None\<rparr>) k
     in case jo of None \<Rightarrow> Some k1 | Some j \<Rightarrow> unblock h j k1)"

definition park :: "nat \<Rightarrow> kernel \<Rightarrow> kernel option" where
  "park h k = map_option (emit Request_reschedule) (block_current h k)"

text \<open>Up to the first pass of the parking loop; the later passes are \<open>park\<close> again.\<close>

definition rivet_task_exit_core :: "nat \<Rightarrow> (usize \<Rightarrow> u8) \<Rightarrow> usize \<Rightarrow> usize \<Rightarrow> kernel \<Rightarrow> kernel option" where
  "rivet_task_exit_core h mem val_lo val_hi k =
    (case current h k of
       None \<Rightarrow> park h k
     | Some i \<Rightarrow>
         (case get_task i k of
            None \<Rightarrow> park h k
          | Some t \<Rightarrow> do {
              k1 \<leftarrow> exit_publish h i (upd_task i (store_result mem val_lo val_hi) k);
              park h k1
            }))"

section \<open>Join\<close>

datatype join_error = Stale | SelfJoin | AlreadyJoined | Faulted

text \<open>The checks and the registration; \<open>me\<close> is the caller, or \<open>None\<close> outside a task.\<close>

definition join_register :: "nat \<Rightarrow> task_handle \<Rightarrow> kernel \<Rightarrow> (join_error + nat option) \<times> kernel" where
  "join_register h th k =
    (let i = handle_id th; me = current h k
     in case get_task i k of
          None \<Rightarrow> (Inl Stale, k)
        | Some t \<Rightarrow>
            (if generation t \<noteq> handle_gen th then (Inl Stale, k)
             else if me = Some i then (Inl SelfJoin, k)
             else if joiner t \<noteq> None then (Inl AlreadyJoined, k)
             else (Inr me, upd_task i (\<lambda>t. t\<lparr>joiner := me\<rparr>) k)))"

definition join_wait :: "nat \<Rightarrow> nat \<Rightarrow> kernel \<Rightarrow> (bool \<times> kernel) option" where
  "join_wait h i k =
    (if exited (tasks k ! i) then Some (False, k)
     else do { k1 \<leftarrow> block_current h k; Some (True, emit Request_reschedule k1) })"

definition join_finish :: "nat option \<Rightarrow> nat \<Rightarrow> nat \<Rightarrow> kernel \<Rightarrow> (join_error + u8 list) \<times> kernel" where
  "join_finish me i type_size k =
    (let k1 = (if joiner (tasks k ! i) = me then upd_task i (\<lambda>t. t\<lparr>joiner := None\<rparr>) k else k)
     in if unat (result_size (tasks k1 ! i)) \<noteq> type_size then (Inl Faulted, k1)
        else (Inr (take type_size (result_buf (tasks k1 ! i))), k1))"

inductive join_loop :: "(kernel \<Rightarrow> kernel \<Rightarrow> bool) \<Rightarrow> nat \<Rightarrow> nat \<Rightarrow> kernel \<Rightarrow> kernel \<Rightarrow> bool"
  for env h i where
  observed: "join_wait h i k = Some (False, k1) \<Longrightarrow> join_loop env h i k k1"
| again: "join_wait h i k = Some (True, k1) \<Longrightarrow> env k1 k2 \<Longrightarrow> join_loop env h i k2 k3 \<Longrightarrow>
    join_loop env h i k k3"

definition join_task :: "(kernel \<Rightarrow> kernel \<Rightarrow> bool) \<Rightarrow> nat \<Rightarrow> task_handle \<Rightarrow> nat \<Rightarrow> kernel
    \<Rightarrow> (join_error + u8 list) \<Rightarrow> kernel \<Rightarrow> bool" where
  "join_task env h th type_size k r k' \<longleftrightarrow>
    (case join_register h th k of
       (Inl e, k1) \<Rightarrow> r = Inl e \<and> k' = k1
     | (Inr me, k1) \<Rightarrow> (\<exists>k2 k3. env k1 k2 \<and> join_loop env h (handle_id th) k2 k3 \<and>
         join_finish me (handle_id th) type_size k3 = (r, k')))"

section \<open>Result round trip\<close>

definition le_value :: "u8 list \<Rightarrow> nat" where
  "le_value bs = foldr (\<lambda>b v. unat b + 256 * v) bs 0"

lemma le_bytes_length [simp]: "length (le_bytes v) = 4"
  by (simp add: le_bytes_def)

lemma unat_byte: "unat (ucast (drop_bit n (v :: usize)) :: u8) = unat v div 2 ^ n mod 256"
proof -
  have "unat (ucast (drop_bit n v) :: u8) = take_bit 8 (unat (drop_bit n v))"
    by (subst unsigned_ucast_eq) simp
  also have "\<dots> = take_bit 8 (drop_bit n (unat v))" by (simp only: unat_drop_bit_eq)
  finally show ?thesis by (simp only: drop_bit_eq_div take_bit_eq_mod) simp
qed

lemma nat_base256:
  assumes "(n :: nat) < 256 * 256 * 256 * 256"
  shows "n mod 256 + 256 * (n div 256 mod 256 + 256 * (n div 65536 mod 256 + 256 * (n div 16777216 mod 256))) = n"
proof -
  define a where "a = n div 256"
  define b where "b = a div 256"
  define c where "c = b div 256"
  have e: "n div 65536 = b" "n div 16777216 = c"
    using div_mult2_eq [of n 256 256] div_mult2_eq [of n 65536 256] by (simp_all add: a_def b_def c_def)
  have "c < 256" using assms by (simp add: a_def b_def c_def)
  moreover have "n = 256 * a + n mod 256" "a = 256 * b + a mod 256" "b = 256 * c + b mod 256"
    by (simp_all add: a_def b_def c_def)
  ultimately show ?thesis unfolding e a_def [symmetric] by simp
qed

lemma le_bytes_value: "le_value (le_bytes v) = unat v"
proof -
  have lt: "unat v < 256 * 256 * 256 * 256" using unsigned_less [of v, where ?'a = nat] by simp
  have "[0..<4] = [0, 1, 2, 3 :: nat]" by (simp add: upt_rec)
  then have "le_value (le_bytes v) = unat v mod 256 + 256 * (unat v div 256 mod 256 +
      256 * (unat v div 65536 mod 256 + 256 * (unat v div 16777216 mod 256)))"
    by (simp only: le_value_def le_bytes_def list.map foldr.simps comp_def id_apply unat_byte) simp
  also have "\<dots> = unat v" using lt by (rule nat_base256)
  finally show ?thesis .
qed

lemma le_value_append: "le_value (xs @ ys) = le_value xs + 256 ^ length xs * le_value ys"
  by (induction xs) (simp_all add: le_value_def algebra_simps)

lemma result_bytes_length: "length (result_bytes mem n lo hi) = n"
  by (auto simp: result_bytes_def)

lemma store_result_buf:
  assumes "unat (result_size t) = n" and "n \<le> 32" and "length (result_buf t) = 32"
  shows "take n (result_buf (store_result mem lo hi t)) = result_bytes mem n lo hi"
    "length (result_buf (store_result mem lo hi t)) = 32"
  using assms by (auto simp: store_result_def Let_def result_bytes_length) (simp add: result_bytes_def)

section \<open>Exit wakes the joiner\<close>

lemma inv_view_store_result: "length (result_buf t) = 32 \<Longrightarrow>
    inv_view (store_result mem lo hi t) = inv_view t"
  by (auto simp: store_result_def inv_view_def sched_view_def Let_def result_bytes_length)

lemma store_result_keeps [simp]:
  "used (store_result mem lo hi t) = used t" "joiner (store_result mem lo hi t) = joiner t"
  "raw_state (store_result mem lo hi t) = raw_state t"
  "result_size (store_result mem lo hi t) = result_size t"
  "effective_priority (store_result mem lo hi t) = effective_priority t"
  "base_priority (store_result mem lo hi t) = base_priority t"
  "held (store_result mem lo hi t) = held t"
  by (simp_all add: store_result_def Let_def)

lemma good_store_result: "good k \<Longrightarrow> good (upd_task i (store_result mem lo hi) k)"
proof (rule good_upd_task)
  assume g: "good k"
  show "i < max_ptasks k \<Longrightarrow> wf_tcb k (store_result mem lo hi (tasks k ! i))"
  proof -
    assume "i < max_ptasks k"
    then have w: "wf_tcb k (tasks k ! i)" using good_wf(8) [OF g] by blast
    then have "length (result_buf (store_result mem lo hi (tasks k ! i))) = 32"
      by (auto simp: wf_tcb_def store_result_def Let_def result_bytes_length)
    then show ?thesis using w by (simp add: wf_tcb_def)
  qed
qed (auto simp: sched_view_def)

lemma good_publish: "good k \<Longrightarrow> good (upd_task i (\<lambda>t. t\<lparr>exited := True, joiner := None\<rparr>) k)"
  by (rule good_upd_task) (auto simp: sched_view_def wf_tcb_def dest: good_wf(8))

definition exit_done :: "nat \<Rightarrow> (usize \<Rightarrow> u8) \<Rightarrow> usize \<Rightarrow> usize \<Rightarrow> kernel \<Rightarrow> kernel \<Rightarrow> bool" where
  "exit_done i mem lo hi k k' \<longleftrightarrow> good k' \<and> exited (tasks k' ! i) \<and> joiner (tasks k' ! i) = None \<and>
     raw_state (tasks k' ! i) = BLOCKED \<and> task_live k' i \<and>
     result_size (tasks k' ! i) = result_size (tasks k ! i) \<and>
     generation (tasks k' ! i) = generation (tasks k ! i) \<and>
     (unat (result_size (tasks k ! i)) \<le> 32 \<longrightarrow>
        take (unat (result_size (tasks k ! i))) (result_buf (tasks k' ! i)) =
        result_bytes mem (unat (result_size (tasks k ! i))) lo hi) \<and>
     (\<forall>j. joiner (tasks k ! i) = Some j \<and> j \<noteq> i \<and> task_live k j \<longrightarrow> task_ready k' j \<and> queued k' j)"

lemma exit_publish_spec:
  assumes g: "good k" and il: "i < max_ptasks k" "used (tasks k ! i)"
  shows "\<exists>k'. exit_publish h i k = Some k' \<and> good k' \<and>
    same_tasks (upd_task i (\<lambda>t. t\<lparr>exited := True, joiner := None\<rparr>) k) k' \<and> current_ids k' = current_ids k \<and>
    (\<forall>j. joiner (tasks k ! i) = Some j \<longrightarrow> task_live k j \<longrightarrow> task_ready k' j)"
proof -
  let ?k = "upd_task i (\<lambda>t. t\<lparr>exited := True, joiner := None\<rparr>) k"
  have g2: "good ?k" using g by (rule good_publish)
  have l2: "task_live ?k j = task_live k j" for j by (cases "j = i") (auto simp: task_live_def)
  show ?thesis
  proof (cases "joiner (tasks k ! i)")
    case None
    then show ?thesis using il g2 by (simp add: exit_publish_def)
  next
    case (Some j)
    obtain k' where k': "unblock h j ?k = Some k'" "good k'" using unblock_good [OF g2] by blast
    have "task_ready k' j" if "task_live k j" using ts.wake_ready [OF g2 k'(1), of j] that l2 by simp
    moreover have "exit_publish h i k = Some k'" using Some il k' by (simp add: exit_publish_def)
    moreover have "current_ids k' = current_ids k" using unblock_frame(4) [OF g2 k'(1)] by simp
    ultimately show ?thesis using k' unblock_same [OF g2 k'(1)] Some by auto
  qed
qed

lemma exit_core_spec:
  assumes g: "good k" and h: "h < max_harts k" and c: "current h k = Some i" and l: "task_live k i"
  shows "\<exists>k'. rivet_task_exit_core h mem lo hi k = Some k' \<and> exit_done i mem lo hi k k'"
proof -
  have il: "i < max_ptasks k" "used (tasks k ! i)" using l by (auto simp: task_live_def)
  let ?k1 = "upd_task i (store_result mem lo hi) k"
  let ?k2 = "upd_task i (\<lambda>t. t\<lparr>exited := True, joiner := None\<rparr>) ?k1"
  let ?jo = "joiner (tasks k ! i)"
  have g1: "good ?k1" using g by (rule good_store_result)
  have l1: "task_live ?k1 j = task_live k j" for j by (cases "j = i") (auto simp: task_live_def)
  have j1: "joiner (tasks ?k1 ! i) = ?jo" using il by (simp add: store_result_def Let_def)
  obtain k3 where k3: "exit_publish h i ?k1 = Some k3" "good k3" "same_tasks ?k2 k3"
    "current_ids k3 = current_ids k" "\<And>j. ?jo = Some j \<Longrightarrow> task_live k j \<Longrightarrow> task_ready k3 j"
    using exit_publish_spec [OF g1, of i h] il by (auto simp: l1 j1)
  have len: "max_ptasks k3 = max_ptasks k" using same_tasksD(1) [OF k3(3)] by simp
  have qv: "quiet_view (tasks k3 ! i) = quiet_view (tasks ?k2 ! i)"
    using same_tasksD(2) [OF k3(3), of i] il by simp
  have u3: "used (tasks k3 ! i)" using quiet_view_eqD(4) [OF qv] il by simp
  let ?k4 = "emit Request_reschedule (dequeue i (set_raw i BLOCKED k3))"
  have p: "park h k3 = Some ?k4"
    using block_current_wf [OF goodD(1) [OF k3(2)], of h] h c u3
    by (simp add: park_def k3(4) current_def)
  have g4: "good ?k4" by (rule good_emits) (rule good_make_unready [OF k3(2)], use il len in simp_all)
  have run: "rivet_task_exit_core h mem lo hi k = Some ?k4"
    using k3(1) p il by (simp add: rivet_task_exit_core_def c get_task_def)
  have t4: "tasks ?k4 ! i = (tasks k3 ! i)\<lparr>raw_state := BLOCKED\<rparr>" using il len by simp
  have qv4: "quiet_view (tasks ?k4 ! i) = quiet_view (tasks ?k2 ! i)"
    using qv by (simp only: t4) (simp add: quiet_view_def)
  have q2: "tasks ?k2 ! i = (store_result mem lo hi (tasks k ! i))\<lparr>exited := True, joiner := None\<rparr>"
    using il by simp
  have fields: "result_size (tasks ?k4 ! i) = result_size (tasks k ! i)"
    "result_buf (tasks ?k4 ! i) = result_buf (store_result mem lo hi (tasks k ! i))"
    "generation (tasks ?k4 ! i) = generation (tasks k ! i)"
    using arg_cong [OF qv4, of result_size] arg_cong [OF qv4, of result_buf]
      arg_cong [OF qv4, of generation]
    unfolding q2 by (simp_all add: quiet_view_def) (simp add: store_result_def Let_def)
  have wl: "length (result_buf (tasks k ! i)) = 32"
    using good_wf(8) [OF g il(1)] by (simp add: wf_tcb_def)
  have jr: "task_ready ?k4 j \<and> queued ?k4 j" if "?jo = Some j" "j \<noteq> i" "task_live k j" for j
  proof -
    have "task_ready k3 j" using k3(5) that by blast
    then have "task_ready ?k4 j" using that(2) len by (simp add: task_ready_def)
    then show ?thesis using task_ready_queued [OF g4] by blast
  qed
  have "exit_done i mem lo hi k ?k4"
    unfolding exit_done_def
  proof (intro conjI allI impI)
    show "good ?k4" by (rule g4)
    show "exited (tasks ?k4 ! i)" "joiner (tasks ?k4 ! i) = None"
      using quiet_view_eqD(7,8) [OF qv4] unfolding q2 by simp_all
    show "raw_state (tasks ?k4 ! i) = BLOCKED" by (simp only: t4) simp
    show "task_live ?k4 i" using il len u3 by (simp add: task_live_def)
    show "result_size (tasks ?k4 ! i) = result_size (tasks k ! i)"
      "generation (tasks ?k4 ! i) = generation (tasks k ! i)" by (fact fields)+
    show "take (unat (result_size (tasks k ! i))) (result_buf (tasks ?k4 ! i)) =
        result_bytes mem (unat (result_size (tasks k ! i))) lo hi"
      if "unat (result_size (tasks k ! i)) \<le> 32"
      unfolding fields using store_result_buf(1) [OF refl that wl] .
    show "task_ready ?k4 j" "queued ?k4 j"
      if "joiner (tasks k ! i) = Some j \<and> j \<noteq> i \<and> task_live k j" for j
      using jr that by blast+
  qed
  then show ?thesis using run by blast
qed

text \<open>A joiner finds the bytes the exiting task returned.\<close>

lemma join_after_exit:
  assumes "exit_done i mem lo hi k k'" and "unat (result_size (tasks k ! i)) = n" and "n \<le> 32"
  shows "join_wait h i k' = Some (False, k')"
    "fst (join_finish me i n k') = Inr (result_bytes mem n lo hi)"
proof -
  have e: "exited (tasks k' ! i)" "i < max_ptasks k'" using assms(1) by (auto simp: exit_done_def task_live_def)
  show "join_wait h i k' = Some (False, k')" using e by (simp add: join_wait_def)
  let ?k1 = "if joiner (tasks k' ! i) = me then upd_task i (\<lambda>t. t\<lparr>joiner := None\<rparr>) k' else k'"
  have "result_size (tasks ?k1 ! i) = result_size (tasks k ! i)"
    "result_buf (tasks ?k1 ! i) = result_buf (tasks k' ! i)"
    using e assms(1) by (auto simp: exit_done_def)
  then show "fst (join_finish me i n k') = Inr (result_bytes mem n lo hi)"
    using assms by (simp add: join_finish_def Let_def exit_done_def)
qed

lemma result_value_8:
  assumes "n = 8"
  shows "le_value (result_bytes mem n lo hi) = unat lo + 2 ^ 32 * unat hi"
  using assms by (simp add: result_bytes_def le_value_append le_bytes_value)

lemma result_value_4: "le_value (result_bytes mem 4 lo hi) = unat lo"
  by (simp add: result_bytes_def le_bytes_value)

section \<open>Waiting\<close>

lemma join_wait_blocks:
  assumes g: "good k" and h: "h < max_harts k" and c: "current h k = Some me" and l: "task_live k me"
    and e: "\<not> exited (tasks k ! i)"
  shows "\<exists>k'. join_wait h i k = Some (True, k') \<and> good k' \<and> raw_state (tasks k' ! me) = BLOCKED \<and>
    last (events k') = Request_reschedule"
proof -
  have me: "me < max_ptasks k" "used (tasks k ! me)" using l by (auto simp: task_live_def)
  have gd: "good (dequeue me (set_raw me BLOCKED k))" using g me by (intro good_make_unready) simp_all
  show ?thesis
    using e me gd by (simp add: join_wait_def block_current_wf [OF goodD(1) [OF g] h] c)
qed

lemma join_loop_exited: "join_loop env h i k k' \<Longrightarrow> exited (tasks k' ! i)"
  by (induction rule: join_loop.induct) (auto simp: join_wait_def bind_eq_Some_conv split: if_splits)

end
