(* ===== verification/Boot.thy ===== *)
theory Boot
  imports Lifecycle
begin

text \<open>
  The state the loader leaves satisfies the kernel invariant for every configuration the
  build script accepts, and a small system (three tasks, two mutexes) on which the properties
  are exercised.
\<close>

section \<open>Build configuration\<close>

definition config_ok :: "config \<Rightarrow> bool" where
  "config_ok c \<longleftrightarrow> 1 \<le> cfg_max_ptasks c \<and> cfg_max_ptasks c \<le> 32 \<and>
     1 \<le> cfg_max_timers c \<and> cfg_max_timers c \<le> 64 \<and> 1 \<le> cfg_max_coop c \<and> cfg_max_coop c \<le> 32 \<and>
     1 \<le> cfg_priorities c \<and> cfg_priorities c \<le> 32 \<and> 1 \<le> cfg_tick_hz c \<and> cfg_tick_hz c \<le> 1000000 \<and>
     1 \<le> cfg_max_held c \<and> cfg_max_held c \<le> 16 \<and> 1 \<le> cfg_max_irqs c \<and> cfg_max_irqs c \<le> 240 \<and>
     1 \<le> cfg_max_harts c \<and> cfg_max_harts c \<le> 8"

lemma cfg_usize_bounds: "cfg_usize raw d mn mx = Some v \<Longrightarrow> mn \<le> v \<and> v \<le> mx"
  by (auto simp: cfg_usize_def split: env_var.splits if_splits)

lemma cfg_usize_cases: "cfg_usize raw d mn mx = Some v \<longleftrightarrow>
    (raw = Unset \<and> v = d \<or> raw = Parsed v) \<and> mn \<le> v \<and> v \<le> mx"
  by (auto simp: cfg_usize_def split: env_var.splits if_splits)

lemma build_config_bounds: "build_config env = Some c \<Longrightarrow> config_ok c"
  by (auto simp: build_config_def config_ok_def bind_eq_Some_conv dest!: cfg_usize_bounds)

section \<open>The boot state\<close>

lemma wf_boot: "config_ok c \<Longrightarrow> wf (boot_kernel c n)"
  by (auto simp: wf_def boot_kernel_def config_ok_def wf_tcb_def wf_mutex_def new_tcb_def new_mutex_def)

lemma boot_words: "ready_words (boot_kernel c n) = (0, replicate 32 0)"
  "wk_words (boot_kernel c n) = (0, replicate 32 0)"
  by (simp_all add: ready_words_def wk_words_def boot_kernel_def)

lemma rb_mem_empty: "\<not> rb_mem (0, replicate 32 0) p i"
  by (simp add: rb_mem_def)

lemma queue_ok_boot: "queue_ok (boot_kernel c n)"
  by (simp add: queue_ok_def boot_words rb_inv_empty rb_mem_empty must_queue_def)
    (simp add: boot_kernel_def new_tcb_def)

lemma good_boot: "config_ok c \<Longrightarrow> good (boot_kernel c n)"
  by (simp add: good_def wf_boot queue_ok_boot)

lemma timers_ok_boot: "timers_ok (boot_kernel c n)"
  by (auto simp: timers_ok_def wk_ok_def boot_words rb_inv_empty) (simp add: boot_kernel_def)

lemma boot_claimable: "i < cfg_max_ptasks c \<Longrightarrow> claimable (tasks (boot_kernel c n) ! i)"
  by (simp add: boot_kernel_def claimable_def new_tcb_def)

section \<open>A small system\<close>

definition demo_config :: config where
  "demo_config = \<lparr>cfg_max_ptasks = 4, cfg_max_timers = 4, cfg_max_coop = 16, cfg_priorities = 32,
     cfg_tick_hz = 1000, cfg_max_held = 2, cfg_max_irqs = 32, cfg_max_harts = 2\<rparr>"

lemma demo_config_ok: "config_ok demo_config"
  by (simp add: config_ok_def demo_config_def)

definition demo_boot :: kernel where
  "demo_boot = boot_kernel demo_config 2"

text \<open>Spawning task \<open>i\<close> at priority \<open>p\<close> on a 1 KiB stack.\<close>

definition demo_spawn :: "nat \<Rightarrow> kernel \<Rightarrow> kernel" where
  "demo_spawn p k = snd (the (spawn 0 256 (\<lambda>b s. b + s) (0x1000 * (of_nat p + 1)) 1024 p 4 0 k))"

lemma good_demo_boot: "good demo_boot"
  by (simp add: demo_boot_def good_boot demo_config_ok)

lemma demo_spawn_good:
  assumes "good k" and "p < 32"
  shows "good (demo_spawn p k)"
proof -
  have m: "(256 :: usize) \<le> 1024" by simp
  obtain r k' where "spawn 0 256 (\<lambda>b s. b + s) (0x1000 * (of_nat p + 1)) 1024 p 4 0 k = Some (r, k')"
    "spawn_ok k p (0x1000 * (of_nat p + 1)) 1024 r k'"
    using spawn_spec [OF assms m] by blast
  then show ?thesis by (simp add: demo_spawn_def spawn_ok_def)
qed

text \<open>Task 0 at priority 1, task 1 at priority 5, task 2 at priority 3, all ready.\<close>

definition demo_ready :: kernel where
  "demo_ready = demo_spawn 3 (demo_spawn 5 (demo_spawn 1 demo_boot))"

lemma good_demo_ready: "good demo_ready"
  by (simp add: demo_ready_def demo_spawn_good good_demo_boot)

end
