(* ===== verification/System.thy ===== *)
theory System
  imports Boot
begin

text \<open>
  The preemptive kernel as a transition system: every operation of the previous theories is
  one step, on any hart, in any order. The kernel invariant, the timer invariant and the
  attribution of running tasks to harts hold in every reachable state.
\<close>

section \<open>What an operation leaves alone\<close>

definition running_set :: "kernel \<Rightarrow> nat set" where
  "running_set k = {i. task_live k i \<and> raw_state (tasks k ! i) = RUNNING}"

definition coop_view :: "kernel \<Rightarrow> ready_words \<times> timer_slot list" where
  "coop_view k = (wk_words k, timer_slots k)"

definition quiet :: "kernel \<Rightarrow> kernel \<Rightarrow> bool" where
  "quiet k k' \<longleftrightarrow> coop_view k' = coop_view k \<and> current_ids k' = current_ids k \<and>
     running_set k' \<subseteq> running_set k \<and> length (mutexes k') = length (mutexes k)"

lemma quiet_refl [simp]: "quiet k k"
  by (simp add: quiet_def)

lemma quiet_trans: "quiet k k1 \<Longrightarrow> quiet k1 k2 \<Longrightarrow> quiet k k2"
  by (auto simp: quiet_def)

lemma quiet_upd_task:
  "(\<And>t. used (f t) \<Longrightarrow> raw_state (f t) = RUNNING \<Longrightarrow> used t \<and> raw_state t = RUNNING) \<Longrightarrow>
    quiet k (upd_task i f k)"
  by (auto simp: quiet_def coop_view_def wk_words_def upd_task_def running_set_def task_live_def
      nth_upd_at split: if_splits)

lemma quiet_same:
  assumes "tasks k' = tasks k" and "current_ids k' = current_ids k"
    and "coop_view k' = coop_view k" and "length (mutexes k') = length (mutexes k)"
  shows "quiet k k'"
  using assms by (auto simp: quiet_def running_set_def task_live_def)

lemma quiet_simps [simp]:
  "quiet k (set_ready_words s k)" "quiet k (wake_other_harts h k)" "quiet k (emits es k)"
  "quiet k (upd_mutex m g k)" "quiet k (enqueue h i k)" "quiet k (dequeue i k)"
  "quiet k (cancel_ptask_deadline i k)" "quiet k (snd (register_ptask_deadline d i k))"
  "quiet k (on_switch i now k)" "quiet k (on_first_dispatch now us k)" "quiet k (on_dispatch i k)"
  "quiet k (k\<lparr>policy := p\<rparr>)" "quiet k (k\<lparr>hook_set := b\<rparr>)"
  "quiet k (k\<lparr>next_us_of := xs, budget_start_of := ys\<rparr>)"
  "quiet k (set_period_us i pu k)" "quiet k (set_budget_us i pu k)"
  by (rule quiet_same;
      simp add: coop_view_def wk_words_def set_ready_words_def wake_other_harts_def upd_mutex_def
        enqueue_def dequeue_def cancel_ptask_deadline_def register_ptask_deadline_def on_switch_def
        on_first_dispatch_def on_dispatch_def set_period_us_def set_budget_us_def Let_def)+

lemmas quiet_after = quiet_simps [THEN [2] quiet_trans]

lemma quiet_upd_after: "quiet k k1 \<Longrightarrow>
    (\<And>t. used (f t) \<Longrightarrow> raw_state (f t) = RUNNING \<Longrightarrow> used t \<and> raw_state t = RUNNING) \<Longrightarrow>
    quiet k (upd_task i f k1)"
  using quiet_trans quiet_upd_task by blast

lemma quiet_ready_add: "ready_add h i k = Some k' \<Longrightarrow> quiet k k'"
  by (auto simp: ready_add_def Let_def split: if_splits intro: quiet_trans quiet_simps)

lemma quiet_ready_remove: "ready_remove i k = Some k' \<Longrightarrow> quiet k k'"
  by (auto simp: ready_remove_def Let_def split: if_splits)

lemma quiet_set_raw: "v \<noteq> RUNNING \<Longrightarrow> quiet k (set_raw i v k)"
  by (rule quiet_upd_task) simp

lemma quiet_set_state: "set_state h i s k = Some k' \<Longrightarrow> s \<noteq> Running \<Longrightarrow> quiet k k'"
  using quiet_ready_add [of h i "set_raw i READY k" k'] quiet_ready_remove [of i "set_raw i BLOCKED k" k']
    quiet_trans [OF quiet_set_raw]
  by (cases s) (auto simp: set_state_def)

lemma quiet_unblock: "unblock h i k = Some k' \<Longrightarrow> quiet k k'"
  by (auto simp: unblock_def split: option.splits dest: quiet_set_state)

lemma quiet_block_current: "block_current h k = Some k' \<Longrightarrow> quiet k k'"
  by (auto simp: block_current_def split: option.splits dest: quiet_set_state)

lemma quiet_set_effective: "set_effective_priority i p k = Some k' \<Longrightarrow> quiet k k'"
  by (auto simp: set_effective_priority_def on_effective_priority_change_def Let_def
      split: if_splits intro!: quiet_after quiet_upd_after)

lemma quiet_try_acquire_guarded: "quiet k (snd (try_acquire_guarded m me k))"
proof -
  have "quiet k (acquired m me k)" unfolding acquired_def
    by (rule quiet_trans [OF quiet_simps(4)]) (rule quiet_upd_task, simp)
  then show ?thesis by (simp add: try_acquire_guarded_eq rolled_back_def)
qed

lemma quiet_add_waiter: "quiet k (add_waiter m i k)"
  by (auto simp: add_waiter_def split: option.splits)

lemma quiet_boost: "boost_holder m me k = Some k' \<Longrightarrow> quiet k k'"
  by (auto simp: boost_holder_def split: option.splits if_splits dest: quiet_set_effective)

lemma quiet_wake_slots: "wake_slots ss h m k = Some k' \<Longrightarrow> quiet k k'"
proof (induction ss h m k rule: wake_slots.induct)
  case (1 h m k)
  then show ?case by simp
next
  case (2 s ss h m k)
  let ?k1 = "upd_mutex m (\<lambda>x. x\<lparr>waiters := (waiters x)[s := None]\<rparr>) k"
  show ?case
  proof (cases "waiters (the_mutex m k) ! s")
    case None
    then have "quiet ?k1 k'" using 2 by (simp add: Let_def)
    then show ?thesis using quiet_trans quiet_simps(4) by blast
  next
    case (Some i)
    then obtain k2 where k2: "unblock h i ?k1 = Some k2"
      "wake_slots ss h m (cancel_ptask_deadline i k2) = Some k'"
      using "2.prems" by (auto simp: Let_def bind_eq_Some_conv)
    have "quiet (cancel_ptask_deadline i k2) k'" using "2.IH"(2) [OF refl refl Some k2] .
    then show ?thesis using quiet_unblock [OF k2(1)] quiet_simps(4,7) quiet_trans by meson
  qed
qed

lemma quiet_wake_all: "wake_all_waiters h m k = Some k' \<Longrightarrow> quiet k k'"
  by (simp add: wake_all_waiters_def quiet_wake_slots)

lemma quiet_lock_fast: "lock_fast m me d now k = (r, k') \<Longrightarrow> quiet k k'"
  using quiet_try_acquire_guarded [of k m me]
  by (auto simp: lock_fast_def remove_waiter_def split_beta split: if_splits option.splits
      intro!: quiet_after)

lemma quiet_lock_slow:
  assumes "lock_slow h m me d k = Some (b, k')"
  shows "quiet k k'"
proof (cases "fst (try_acquire_guarded m me k)")
  case True
  then show ?thesis using assms quiet_try_acquire_guarded [of k m me]
    by (simp add: lock_slow_def split_beta)
next
  case False
  let ?k1 = "snd (try_acquire_guarded m me k)"
  obtain k2 k5 where k2: "boost_holder m me ?k1 = Some k2"
    and k5: "block_current h (with_deadline d me (add_waiter m me k2)) = Some k5"
    and k': "k' = emit Request_reschedule k5"
    using assms False by (auto simp: lock_slow_def split_beta bind_eq_Some_conv with_deadline_def Let_def)
  have "quiet k ?k1" by (rule quiet_try_acquire_guarded)
  also note quiet_trans [OF _ quiet_boost [OF k2]]
  moreover have "quiet k2 (with_deadline d me (add_waiter m me k2))"
    by (auto simp: with_deadline_def split: option.splits intro!: quiet_after quiet_add_waiter)
  ultimately show ?thesis
    using quiet_boost [OF k2] quiet_block_current [OF k5] quiet_simps(3) k' quiet_trans by meson
qed

lemma quiet_guard_drop: "guard_drop h m k = Some k' \<Longrightarrow> quiet k k'"
proof -
  assume a: "guard_drop h m k = Some k'"
  let ?k1 = "upd_mutex m (\<lambda>x. x\<lparr>owner := None\<rparr>) k"
  obtain k2 k4 where k2: "(case owner (the_mutex m k) of
              None \<Rightarrow> Some ?k1
            | Some o' \<Rightarrow>
                (case get_task o' ?k1 of
                   None \<Rightarrow> Some ?k1
                 | Some t \<Rightarrow>
                     (let t' = remove_held m t; k1' = upd_task o' (\<lambda>_. t') ?k1
                      in set_effective_priority o' (eff_scan k1' (held t') (base_priority t')) k1'))) = Some k2"
    and k4: "wake_all_waiters h m (upd_mutex m (\<lambda>x. x\<lparr>locked := False\<rparr>) k2) = Some k4"
    and k': "k' = emit Request_reschedule k4"
    using a by (auto simp: guard_drop_def bind_eq_Some_conv Let_def)
  have c: "quiet ?k1 (upd_task o' (\<lambda>_. remove_held m (tasks ?k1 ! o')) ?k1)" if "o' < max_ptasks ?k1" for o'
    unfolding upd_task_const [OF that, of "remove_held m"] by (rule quiet_upd_task) simp
  have "quiet ?k1 k2"
    using k2
    by (auto simp: Let_def get_task_Some_iff split: option.splits
        intro: quiet_trans [OF c] dest!: quiet_set_effective)
  then show ?thesis
    using quiet_wake_all [OF k4] quiet_simps(3,4) k' quiet_trans by meson
qed

lemma quiet_poison_held: "poison_held h hs k = Some k' \<Longrightarrow> quiet k k'"
proof (induction h hs k rule: poison_held.induct)
  case (3 h m hs k)
  then obtain k1 where k1: "poison_mutex h m k = Some k1" "poison_held h hs k1 = Some k'"
    by (auto simp: bind_eq_Some_conv)
  have "quiet k k1" using k1(1) quiet_wake_all quiet_simps(4) quiet_trans
    unfolding poison_mutex_def by meson
  then show ?case using "3.IH" [OF k1] quiet_trans by blast
qed simp_all

lemma quiet_register_from: "register_from is h sp0 p b s k = Some (r, k') \<Longrightarrow> quiet k k'"
proof (induction "is")
  case (Cons i "is")
  let ?k1 = "if result_drop (tasks k ! i) \<noteq> 0 then emit (Drop_result i) k else k"
  have u: "quiet k (upd_task i (claim_slot sp0 p b s) ?k1)"
    by (rule quiet_upd_after) (auto simp: claim_slot_def)
  show ?case
  proof (cases "used (tasks k ! i) \<or> raw_state (tasks k ! i) \<noteq> READY")
    case True
    then have "register_from is h sp0 p b s k = Some (r, k')" using Cons.prems by (auto split: if_splits)
    then show ?thesis by (rule Cons.IH)
  next
    case False
    then have "ready_add h i (upd_task i (claim_slot sp0 p b s) ?k1) = Some k'"
      using Cons.prems by (auto simp: bind_eq_Some_conv Let_def)
    then show ?thesis using quiet_ready_add quiet_trans [OF u] by blast
  qed
qed simp

lemma quiet_spawn: "spawn h ms init b s p rs df k = Some (r, k') \<Longrightarrow> quiet k k'"
proof -
  assume a: "spawn h ms init b s p rs df k = Some (r, k')"
  then obtain o' k1 where k1: "register_full h (init b s) p b s k = Some (o', k1)"
    and r: "(case o' of None \<Rightarrow> Some (Inl RegistryFull, k1)
        | Some i \<Rightarrow> (case get_task i k1 of None \<Rightarrow> None
            | Some t \<Rightarrow> Some (Inr \<lparr>handle_id = i, handle_gen = generation t\<rparr>,
                upd_task i (\<lambda>t. t\<lparr>result_size := rs, result_drop := df\<rparr>) k1))) = Some (r, k')"
    by (auto simp: spawn_def bind_eq_Some_conv split: if_splits)
  have "quiet k k1" using k1 unfolding register_full_def by (rule quiet_register_from)
  then show ?thesis using r by (auto split: option.splits intro!: quiet_upd_after)
qed

section \<open>Steps\<close>

text \<open>The task \<open>me\<close> is executing on hart \<open>h\<close> and calls into the kernel.\<close>

definition calls :: "nat \<Rightarrow> nat \<Rightarrow> kernel \<Rightarrow> bool" where
  "calls h me k \<longleftrightarrow> h < max_harts k \<and> current h k = Some me \<and> task_live k me"

inductive kstep :: "kernel \<Rightarrow> kernel \<Rightarrow> bool" where
  k_spawn: "h < max_harts k \<Longrightarrow> spawn h ms init b s p rs df k = Some (r, k') \<Longrightarrow> kstep k k'"
| k_despawn: "h < max_harts k \<Longrightarrow> despawn h th k = Some (r, k') \<Longrightarrow> kstep k k'"
| k_pause: "pause th k = Some (r, k') \<Longrightarrow> kstep k k'"
| k_resume: "h < max_harts k \<Longrightarrow> resume h th k = Some (r, k') \<Longrightarrow> kstep k k'"
| k_stop: "kstep k (snd (request_stop th k))"
| k_period: "kstep k (handle_set_period_us th pu k)"
| k_budget: "kstep k (handle_set_budget_us th bu k)"
| k_start: "h < max_harts k \<Longrightarrow> current h k = None \<Longrightarrow> start h now us k = Some (s, k') \<Longrightarrow> kstep k k'"
| k_secondary: "h < max_harts k \<Longrightarrow> current h k = None \<Longrightarrow> start_secondary h k = Some (s, k') \<Longrightarrow> kstep k k'"
| k_tick: "h < max_harts k \<Longrightarrow> on_tick_locked h rd mem s k = Some (r, k') \<Longrightarrow> kstep k k'"
| k_poll: "h < max_harts k \<Longrightarrow> poll_timers h now k = Some k' \<Longrightarrow> kstep k k'"
| k_fault: "calls h me k \<Longrightarrow> fault_task info = Some me \<Longrightarrow>
    on_fault h mem info k = Some (r, k') \<Longrightarrow> kstep k k'"
| k_policy: "kstep k (set_policy p k)"
| k_hook: "kstep k (set_on_task_fault k)"
| k_sleep: "calls h me k \<Longrightarrow> sleep_until_enter h d k = Some k' \<Longrightarrow> kstep k k'"
| k_wake: "calls h me k \<Longrightarrow> kstep k (sleep_until_leave me k)"
| k_wait_period: "calls h me k \<Longrightarrow> wait_period_enter h us k = Some k' \<Longrightarrow> kstep k k'"
| k_park: "calls h me k \<Longrightarrow> park h k = Some k' \<Longrightarrow> kstep k k'"
| k_try_lock: "calls h me k \<Longrightarrow> m < length (mutexes k) \<Longrightarrow> kstep k (snd (try_lock h m k))"
| k_lock_fast: "calls h me k \<Longrightarrow> m < length (mutexes k) \<Longrightarrow>
    kstep k (snd (lock_fast m me d now k))"
| k_lock_slow: "calls h me k \<Longrightarrow> m < length (mutexes k) \<Longrightarrow>
    lock_slow h m me d k = Some (b, k') \<Longrightarrow> kstep k k'"
| k_unlock: "calls h me k \<Longrightarrow> m < length (mutexes k) \<Longrightarrow> owner (the_mutex m k) = Some me \<Longrightarrow>
    guard_drop h m k = Some k' \<Longrightarrow> kstep k k'"
| k_exit: "calls h me k \<Longrightarrow> rivet_task_exit_core h mem lo hi k = Some k' \<Longrightarrow> kstep k k'"
| k_join: "calls h me k \<Longrightarrow> kstep k (snd (join_register h th k))"
| k_join_wait: "calls h me k \<Longrightarrow> i < max_ptasks k \<Longrightarrow> join_wait h i k = Some (b, k') \<Longrightarrow> kstep k k'"
| k_join_finish: "calls h me k \<Longrightarrow> i < max_ptasks k \<Longrightarrow> kstep k (snd (join_finish (Some me) i n k))"

inductive reachable :: "config \<Rightarrow> nat \<Rightarrow> kernel \<Rightarrow> bool" for c n where
  boot: "reachable c n (boot_kernel c n)"
| step: "reachable c n k \<Longrightarrow> kstep k k' \<Longrightarrow> reachable c n k'"

section \<open>The invariant\<close>

definition running_ok :: "kernel \<Rightarrow> bool" where
  "running_ok k \<longleftrightarrow> (\<forall>i \<in> running_set k. Some i \<in> set (current_ids k))"

definition sys_inv :: "kernel \<Rightarrow> bool" where
  "sys_inv k \<longleftrightarrow> good k \<and> timers_ok k \<and> running_ok k"

lemma sys_inv_quiet: "sys_inv k \<Longrightarrow> good k' \<Longrightarrow> quiet k k' \<Longrightarrow> sys_inv k'"
  by (auto simp: sys_inv_def quiet_def coop_view_def timers_ok_def wk_ok_def running_ok_def)

lemma spawn_good:
  assumes g: "good k" and s: "spawn h ms init b sz p rs df k = Some (r, k')"
  shows "good k'"
proof -
  have sz: "ms \<le> sz" using s by (auto simp: spawn_def not_less split: if_splits)
  show ?thesis
  proof (cases "p < 32")
    case True
    show ?thesis using spawn_spec [OF g True sz, of h init b rs df] s by (auto simp: spawn_ok_def)
  next
    case False
    then have "\<forall>i < max_ptasks k. \<not> claimable (tasks k ! i)"
      using spawn_priority_panics [of _ k p h ms init b sz rs df] s by fastforce
    then have "register_from is h sp0 p b sz k = Some (None, k)" if "set is \<subseteq> {..<max_ptasks k}" for "is" sp0
      using that by (induction "is") (auto simp: claimable_def)
    then have "register_full h sp0 p b sz k = Some (None, k)" for sp0
      unfolding register_full_def by (rule) auto
    then show ?thesis using s g by (simp add: spawn_def split: if_splits)
  qed
qed

lemma calls_run_ok: "good k \<Longrightarrow> calls h me k \<Longrightarrow> m < length (mutexes k) \<Longrightarrow> run_ok h m me k"
  by (simp add: calls_def run_ok_def)

lemma quiet_panic_policy: "panic_policy mem info k = Some (r, k') \<Longrightarrow> quiet k k'"
  unfolding panic_policy_def fault_dump_def
  by (auto simp: bind_eq_Some_conv intro!: quiet_after)

text \<open>Making a task run on a hart whose previous task no longer runs.\<close>

lemma dispatched_inv:
  assumes inv: "sys_inv k" and h: "h < max_harts k"
    and old: "\<And>i. current h k = Some i \<Longrightarrow> i \<notin> running_set k"
    and c: "c < max_ptasks k" and g: "good k'" and cv: "coop_view k' = coop_view k"
    and t: "\<And>j. j < max_ptasks k \<Longrightarrow> j \<noteq> c \<Longrightarrow> tasks k' ! j = tasks k ! j"
    and len: "max_ptasks k' = max_ptasks k"
    and cur: "current_ids k' = (current_ids k)[h := Some c]"
  shows "sys_inv k'"
proof -
  have "running_ok k'"
    unfolding running_ok_def
  proof
    fix i assume i: "i \<in> running_set k'"
    show "Some i \<in> set (current_ids k')"
    proof (cases "i = c")
      case True
      then show ?thesis using h by (simp add: cur set_update_memI)
    next
      case False
      then have ir: "i \<in> running_set k" using i t len by (auto simp: running_set_def task_live_def)
      then obtain l where l: "l < max_harts k" "current_ids k ! l = Some i"
        using inv by (metis in_set_conv_nth running_ok_def sys_inv_def)
      have "l \<noteq> h" using old ir l by (auto simp: current_def)
      then have "current_ids k' ! l = Some i" using l by (simp add: cur)
      then show ?thesis using l by (metis cur length_list_update nth_mem)
    qed
  qed
  moreover have "timers_ok k'"
    using inv cv by (auto simp: sys_inv_def timers_ok_def wk_ok_def coop_view_def)
  ultimately show ?thesis using g by (simp add: sys_inv_def)
qed

lemma coop_view_simps [simp]:
  "coop_view (emits es k) = coop_view k" "coop_view (set_current h c k) = coop_view k"
  "coop_view (dequeue i k) = coop_view k" "coop_view (upd_task i f k) = coop_view k"
  "coop_view (on_switch i now k) = coop_view k" "coop_view (on_dispatch i k) = coop_view k"
  "coop_view (on_first_dispatch now us k) = coop_view k"
  by (simp_all add: coop_view_def wk_words_def on_dispatch_def set_current_def dequeue_def
      set_ready_words_def upd_task_def on_switch_def on_first_dispatch_def Let_def)

lemma switched_inv:
  assumes inv: "sys_inv k" and h: "h < max_harts k" and cur: "current h k = Some i"
    and c: "c < max_ptasks k"
  shows "sys_inv (switched h i c now k)"
proof (rule dispatched_inv [where k = "yielded h i k" and h = h and c = c])
  have g: "good k" using inv by (simp add: sys_inv_def)
  have q: "quiet k (yielded h i k)"
    by (auto simp: yielded_def intro!: quiet_after quiet_set_raw)
  show "sys_inv (yielded h i k)" using inv good_yielded [OF g] q by (rule sys_inv_quiet)
  show "h < max_harts (yielded h i k)" "c < max_ptasks (yielded h i k)" using h c by simp_all
  show "good (switched h i c now k)" using g c by (rule good_switched)
  show "j \<notin> running_set (yielded h i k)" if "current h (yielded h i k) = Some j" for j
    using that cur by (auto simp: running_set_def yielded_tasks current_def task_live_def)
qed (use c in \<open>simp_all add: switched_tasks\<close>, simp add: switched_def)

lemma on_fault_inv:
  assumes inv: "sys_inv k" and c: "calls h me k" and f: "fault_task info = Some me"
    and r: "on_fault h mem info k = Some (r, k')"
  shows "sys_inv k'"
proof (cases "policy k")
  case PolicyPanic
  have g: "good k" using inv by (simp add: sys_inv_def)
  have p: "panic_policy mem info k = Some (r, k')" using r PolicyPanic by (simp add: on_fault_def)
  have "good k'"
    using panic_policy_good [OF g, of info mem] p f c by (auto simp: calls_def task_live_def)
  then show ?thesis using sys_inv_quiet [OF inv] quiet_panic_policy [OF p] by blast
next
  case IsolateTask
  have g: "good k" and h: "h < max_harts k" and l: "task_live k me" and cm: "current h k = Some me"
    using inv c by (auto simp: sys_inv_def calls_def)
  have me: "me < max_ptasks k" "used (tasks k ! me)" using l by (auto simp: task_live_def)
  have p: "isolate h mem info k = Some (r, k')" using r IsolateTask by (simp add: on_fault_def)
  obtain es k2 where k2: "poison_held h (held (tasks k ! me)) (emits es k) = Some k2" "same_tasks k k2"
    "current_ids k2 = current_ids k" "good (taken_out me info k2)"
    and run: "isolate h mem info k = resume_next h mem info (taken_out me info k2)"
    using isolate_taken_out [OF g me f, of h mem] by blast
  let ?k4 = "taken_out me info k2"
  note eq = run [unfolded dispatch_next(1) [OF k2(4)]]
  have len: "max_ptasks ?k4 = max_ptasks k" using same_tasksD(1) [OF k2(2)] by simp
  have "quiet k k2" using quiet_poison_held [OF k2(1)] quiet_simps(3) quiet_trans by blast
  moreover have "quiet k2 (dequeue me (set_raw me BLOCKED k2))"
    by (rule quiet_trans [OF quiet_upd_task quiet_simps(6)]) simp
  ultimately have q4: "quiet k ?k4" by (auto simp: taken_out_def Let_def intro: quiet_trans quiet_simps)
  have inv4: "sys_inv ?k4" using inv k2(4) q4 by (rule sys_inv_quiet)
  show ?thesis
  proof (cases "fst (schedule ?k4)")
    case None
    then have pp: "panic_policy mem info ?k4 = Some (r, k')" using p eq by simp
    have "good k'" using panic_policy_good [OF k2(4), of info mem] pp f me len by auto
    then show ?thesis using sys_inv_quiet [OF inv4] quiet_panic_policy [OF pp] by blast
  next
    case (Some nxt)
    note d = dispatch_next(2) [OF k2(4) Some]
    have k': "k' = resumed_on h nxt ?k4" using p eq Some by simp
    show ?thesis
      unfolding k'
    proof (rule dispatched_inv [OF inv4])
      show "h < max_harts ?k4" using h by (simp add: k2(3))
      show "j \<notin> running_set ?k4" if "current h ?k4 = Some j" for j
        using that cm me len by (auto simp: current_def running_set_def k2(3))
      show "good (resumed_on h nxt ?k4)" "nxt < max_ptasks ?k4" using d by blast+
    qed (simp_all add: resumed_on_def nth_upd_at)
  qed
qed

lemma tick_inv:
  assumes inv: "sys_inv k" and h: "h < max_harts k"
    and t: "on_tick_locked h rd mem s k = Some (r, k')"
  shows "sys_inv k'"
proof (cases "current h k")
  case None
  have g: "good k" using inv by (simp add: sys_inv_def)
  show ?thesis using tick_idle(1) [OF g None] t inv by simp
next
  case (Some i)
  have g: "good k" using inv by (simp add: sys_inv_def)
  let ?k1 = "store_sp i s k"
  have g1: "good ?k1" using g by (rule good_store_sp)
  have q1: "quiet k ?k1" by (auto simp: store_sp_def split: option.splits intro!: quiet_upd_task)
  have inv1: "sys_inv ?k1" using inv g1 q1 by (rule sys_inv_quiet)
  show ?thesis
  proof (cases "fst (schedule ?k1)")
    case None
    then show ?thesis using tick_idle(2) [OF g Some] t inv1 by auto
  next
    case c: (Some c)
    note bd = best_readyD [OF goodD(2) [OF g1] schedule_ok_Some [OF goodD(2) [OF g1] c]]
    show ?thesis
    proof (cases "tick_faults i rd mem ?k1")
      case True
      obtain info where info: "fault_task info = Some i"
        "on_fault h mem info ?k1 = Some (r, k')"
        using tick_fault [OF g Some c True] t by auto
      have "calls h i ?k1" using True Some h by (simp add: calls_def tick_faults_def current_def)
      then show ?thesis using on_fault_inv [OF inv1 _ info] by blast
    next
      case False
      have "sys_inv (switched h i c (r_switch rd) ?k1)"
        by (rule switched_inv [OF inv1]) (use h Some bd in \<open>simp_all add: current_def\<close>)
      then show ?thesis using tick_eq [OF g Some c False] t inv1 by (auto split: if_splits)
    qed
  qed
qed

section \<open>Every step keeps the invariant\<close>

lemma first_dispatch_inv:
  assumes inv: "sys_inv k" and h: "h < max_harts k" and n: "current h k = None"
    and f: "first_dispatch h k = Some (r, k')"
  shows "sys_inv k' \<and> (\<forall>i. r = Some i \<longrightarrow> runs h k' i)"
proof -
  have g: "good k" using inv by (simp add: sys_inv_def)
  have sch: "schedule k = (fst (schedule k), k)" using schedule_eq [OF goodD(2) [OF g]] .
  show ?thesis
  proof (cases "fst (schedule k)")
    case None
    then have "first_dispatch h k = Some (None, k)"
      using sch by (simp add: first_dispatch_def split: prod.splits)
    then show ?thesis using f inv by auto
  next
    case (Some c)
    note bd = best_readyD [OF goodD(2) [OF g] schedule_ok_Some [OF goodD(2) [OF g] Some]]
    let ?k2 = "set_current h c k"
    have g2: "good ?k2" using g bd(2) by (rule good_set_current)
    let ?k3 = "dequeue c (set_raw c RUNNING ?k2)"
    have g3: "good ?k3" by (rule good_make_unready [OF g2]) (use bd in simp_all)
    have "get_task c ?k2 = Some (tasks k ! c)" using bd by (auto simp: get_task_def queueable_def)
    moreover have "set_state h c Running ?k2 = Some ?k3"
      using bd(2) by (intro set_state_Running_wf goodD(1) [OF g2]) simp
    ultimately have eq: "first_dispatch h k = Some (Some c, on_dispatch c ?k3)"
      using Some by (subst first_dispatch_def, subst sch) simp
    have "sys_inv (on_dispatch c ?k3)"
    proof (rule dispatched_inv [OF inv h _ bd(2)])
      show "good (on_dispatch c ?k3)" using g3 by simp
      show "coop_view (on_dispatch c ?k3) = coop_view k" by simp
    qed (use n in simp_all)
    moreover have "runs h (on_dispatch c ?k3) c"
      using bd h by (auto simp: runs_def current_def task_live_def queueable_def)
    ultimately show ?thesis using eq f by auto
  qed
qed

lemma arch_dispatch_quiet: "arch_dispatch i k = Some (s, k') \<Longrightarrow> quiet k k' \<and> (good k \<longrightarrow> good k')"
  by (auto simp: arch_dispatch_def split: option.splits)

lemma good_on_first_dispatch [simp]: "good k \<Longrightarrow> good (on_first_dispatch now us k)"
  by (erule good_frame) (simp_all add: on_first_dispatch_def ready_words_def)

lemma sys_inv_arch: "sys_inv k \<Longrightarrow> arch_dispatch i k = Some (s, k') \<Longrightarrow> sys_inv k'"
  using arch_dispatch_quiet [of i k s k'] sys_inv_quiet [of k k'] by (simp add: sys_inv_def)

lemma start_inv:
  assumes inv: "sys_inv k" and h: "h < max_harts k" and n: "current h k = None"
  shows "start h now us k = Some (s, k') \<Longrightarrow> sys_inv k'"
    and "start_secondary h k = Some (s', k') \<Longrightarrow> sys_inv k'"
proof -
  assume "start h now us k = Some (s, k')"
  then obtain i k1 where f: "first_dispatch h k = Some (Some i, k1)"
    and a: "arch_dispatch i (on_first_dispatch now us k1) = Some (s, k')"
    by (auto simp: start_def bind_eq_Some_conv split: option.splits)
  have i1: "sys_inv k1" using first_dispatch_inv [OF inv h n f] by blast
  then have "sys_inv (on_first_dispatch now us k1)"
    using sys_inv_quiet [OF i1 _ quiet_simps(10)] by (simp add: sys_inv_def)
  then show "sys_inv k'" using a by (rule sys_inv_arch)
next
  assume "start_secondary h k = Some (s', k')"
  then obtain r k1 where f: "first_dispatch h k = Some (r, k1)"
    and a: "(case r of None \<Rightarrow> Some (None, k1)
      | Some i \<Rightarrow> do { (s, k2) \<leftarrow> arch_dispatch i k1; Some (Some s, k2) }) = Some (s', k')"
    by (auto simp: start_secondary_def bind_eq_Some_conv)
  have i1: "sys_inv k1" using first_dispatch_inv [OF inv h n f] by blast
  then show "sys_inv k'" using a sys_inv_arch by (auto simp: bind_eq_Some_conv split: option.splits)
qed

lemma poll_inv:
  assumes inv: "sys_inv k" and p: "poll_timers h now k = Some k'"
  shows "sys_inv k'"
proof -
  have g: "good k" and t: "timers_ok k" using inv by (simp_all add: sys_inv_def)
  obtain w k1 where s1: "scan_timers [0..<length (timer_slots k)] now False k = Some (w, k1)"
    and p1: "poll_ptask_deadlines h now (if w then broadcast_reschedule h k1 else k1) = Some k'"
    using p by (auto simp: poll_timers_def bind_eq_Some_conv)
  have fr1: "tasks k1 = tasks k" "current_ids k1 = current_ids k"
    using scan_timers_spec [of "[0..<length (timer_slots k)]" k now False] t g s1 by auto
  have fr2: "quiet k2 k3" if "scan_ptasks is h now b k2 = Some (w', k3)" for "is" b k2 w' k3
    using that
  proof (induction "is" arbitrary: b k2)
    case (Cons i "is")
    show ?case
    proof (cases "expired now (ptask_deadlines k2 ! i)")
      case True
      then obtain k4 where k4: "unblock h i (k2\<lparr>ptask_deadlines := (ptask_deadlines k2)[i := 0]\<rparr>) = Some k4"
        "scan_ptasks is h now True k4 = Some (w', k3)"
        using Cons.prems by (auto simp: bind_eq_Some_conv)
      have "quiet k2 (k2\<lparr>ptask_deadlines := (ptask_deadlines k2)[i := 0]\<rparr>)"
        by (rule quiet_same) (simp_all add: coop_view_def wk_words_def)
      then show ?thesis using quiet_unblock [OF k4(1)] Cons.IH [OF k4(2)] quiet_trans by blast
    qed (use Cons in simp)
  qed simp
  have "running_set k' \<subseteq> running_set k1 \<and> current_ids k' = current_ids k1"
  proof -
    have b: "quiet k0 (broadcast_reschedule h k0)" for k0 by (simp add: broadcast_reschedule_def)
    let ?k2 = "if w then broadcast_reschedule h k1 else k1"
    obtain w' k3 where s3: "scan_ptasks [0..<length (ptask_deadlines ?k2)] h now False ?k2 = Some (w', k3)"
      and k': "k' = (if w' then broadcast_reschedule h k3 else k3)"
      using p1 by (auto simp: poll_ptask_deadlines_def bind_eq_Some_conv)
    have "quiet k1 ?k2" "quiet k3 k'" using b by (simp_all add: k')
    then show ?thesis using fr2 [OF s3] by (fastforce simp: quiet_def)
  qed
  moreover have "running_set k1 = running_set k" using fr1 by (simp add: running_set_def task_live_def)
  moreover have "polled now k k'" using poll_timers_spec [OF g t, of h now] p by auto
  ultimately show ?thesis
    using inv fr1 by (auto simp: sys_inv_def running_ok_def polled_def)
qed

lemma sleep_inv:
  assumes inv: "sys_inv k" and c: "calls h me k" and s: "sleep_until_enter h d k = Some k'"
  shows "sys_inv k'"
proof -
  have g: "good k" using inv by (simp add: sys_inv_def)
  have "good k'" using sleep_until_spec [OF g, of h me d] c s by (auto simp: calls_def)
  moreover have "quiet k k'"
    using s c by (auto simp: sleep_until_enter_def calls_def bind_eq_Some_conv
        intro!: quiet_after dest: quiet_block_current)
  ultimately show ?thesis using sys_inv_quiet [OF inv] by blast
qed

lemma good_park: "good k \<Longrightarrow> h < max_harts k \<Longrightarrow> park h k = Some k' \<Longrightarrow> good k'"
  using block_current_good [of k h] by (auto simp: park_def)

lemma quiet_park: "park h k = Some k' \<Longrightarrow> quiet k k'"
  by (auto simp: park_def intro!: quiet_after dest: quiet_block_current)

lemma quiet_exit: "rivet_task_exit_core h mem lo hi k = Some k' \<Longrightarrow> quiet k k'"
proof -
  have p: "exit_publish h i k1 = Some k2 \<Longrightarrow> quiet k1 k2" for i k1 k2
  proof -
    have "quiet k1 (upd_task i (\<lambda>t. t\<lparr>exited := True, joiner := None\<rparr>) k1)" by (rule quiet_upd_task) simp
    then show "exit_publish h i k1 = Some k2 \<Longrightarrow> quiet k1 k2"
      using quiet_unblock quiet_trans by (auto simp: exit_publish_def Let_def split: option.splits)
  qed
  have u: "quiet k (upd_task i (store_result mem lo hi) k)" for i by (rule quiet_upd_task) simp
  assume "rivet_task_exit_core h mem lo hi k = Some k'"
  then show ?thesis
    using p u quiet_park quiet_trans
    by (auto simp: rivet_task_exit_core_def bind_eq_Some_conv split: option.splits) meson+
qed

lemma good_join_register:
  assumes g: "good k" and c: "calls h me k"
  shows "good (snd (join_register h th k))"
proof -
  have me: "me < max_ptasks k" using c by (simp add: calls_def task_live_def)
  have "good (upd_task i (\<lambda>t. t\<lparr>joiner := Some me\<rparr>) k)" for i
    by (rule good_upd_task [OF g]) (use me good_wf(8) [OF g, of i] in \<open>auto simp: wf_tcb_def sched_view_def\<close>)
  then show ?thesis using g c by (auto simp: join_register_def Let_def calls_def split: option.splits)
qed

lemma quiet_join_register: "quiet k (snd (join_register h th k))"
  by (auto simp: join_register_def Let_def split: option.splits intro!: quiet_upd_task)

lemma good_join_finish: "good k \<Longrightarrow> good (snd (join_finish me i n k))"
proof -
  assume g: "good k"
  have "good (upd_task i (\<lambda>t. t\<lparr>joiner := None\<rparr>) k)"
    by (rule good_upd_task [OF g]) (use good_wf(8) [OF g, of i] in \<open>auto simp: wf_tcb_def sched_view_def\<close>)
  then show ?thesis using g by (simp add: join_finish_def Let_def)
qed

lemma quiet_join_finish: "quiet k (snd (join_finish me i n k))"
  by (auto simp: join_finish_def Let_def intro!: quiet_upd_task)

lemma good_quiet_config:
  "good k \<Longrightarrow> good (handle_set_period_us th pu k)" "good k \<Longrightarrow> good (handle_set_budget_us th bu k)"
  "good k \<Longrightarrow> good (set_policy pol k)" "good k \<Longrightarrow> good (set_on_task_fault k)"
  "quiet k (handle_set_period_us th pu k)" "quiet k (handle_set_budget_us th bu k)"
  "quiet k (set_policy pol k)" "quiet k (set_on_task_fault k)"
  by (auto simp: handle_set_period_us_def handle_set_budget_us_def set_policy_def set_on_task_fault_def
      set_period_us_def set_budget_us_def ready_words_def elim!: good_frame)
    (simp_all add: quiet_same coop_view_def wk_words_def)

lemma wait_period_inv:
  assumes inv: "sys_inv k" and c: "calls h me k" and s: "wait_period_enter h us k = Some k'"
  shows "sys_inv k'"
proof -
  have "sys_inv (k\<lparr>next_us_of := xs, budget_start_of := ys\<rparr>)" for xs ys
  proof (rule sys_inv_quiet [OF inv _ quiet_simps(14)])
    have "good k" using inv by (simp add: sys_inv_def)
    then show "good (k\<lparr>next_us_of := xs, budget_start_of := ys\<rparr>)"
      by (rule good_frame) (simp_all add: ready_words_def)
  qed
  moreover have "calls h me (k\<lparr>next_us_of := xs, budget_start_of := ys\<rparr>)" for xs ys
    using c by (simp add: calls_def current_def task_live_def)
  moreover have "k' = k \<or> (\<exists>xs ys d.
    sleep_until_enter h d (k\<lparr>next_us_of := xs, budget_start_of := ys\<rparr>) = Some k')"
  proof (cases "(ucast (period_us me k) :: u64) = 0 \<or> me \<ge> length (next_us_of k)")
    case True
    then show ?thesis using s c unfolding wait_period_enter_def calls_def Let_def
      by (auto split: if_splits)
  next
    case False
    then show ?thesis using s c unfolding wait_period_enter_def calls_def Let_def
      by (simp only: option.case if_False simp_thms de_Morgan_disj) blast
  qed
  ultimately show ?thesis using inv sleep_inv by blast
qed

lemma good_request_stop: "good k \<Longrightarrow> good (snd (request_stop th k))"
  "quiet k (snd (request_stop th k))"
  by (auto simp: request_stop_eq inv_view_def sched_view_def intro!: good_upd_view quiet_upd_task)

lemma quiet_despawned: "quiet k (despawned i k)"
  unfolding despawned_def by (intro quiet_upd_after quiet_after quiet_refl) (simp add: freed_def)

lemma good_pause_resume:
  assumes g: "good k"
  shows "pause th k = Some (r, k') \<Longrightarrow> good k' \<and> quiet k k'"
    and "resume h th k = Some (r, k') \<Longrightarrow> good k' \<and> quiet k k'"
    and "despawn h th k = Some (r, k') \<Longrightarrow> good k' \<and> quiet k k'"
proof -
  show "pause th k = Some (r, k') \<Longrightarrow> good k' \<and> quiet k k'"
    using g by (auto simp: pause_eq goodD is_valid_iff split: if_splits
        intro!: good_make_unready quiet_after quiet_set_raw)
  show "resume h th k = Some (r, k') \<Longrightarrow> good k' \<and> quiet k k'"
    using g by (auto simp: resume_eq goodD is_valid_iff split: if_splits
        intro!: good_make_ready quiet_after quiet_set_raw)
  show "despawn h th k = Some (r, k') \<Longrightarrow> good k' \<and> quiet k k'"
    using g quiet_despawned
    by (auto simp: despawn_eq goodD is_valid_iff split: if_splits intro: good_despawned)
qed

lemma kstep_inv: "kstep k k' \<Longrightarrow> sys_inv k \<Longrightarrow> sys_inv k'"
proof (induction rule: kstep.induct)
  case (k_spawn h k ms init b s p rs df r k')
  then show ?case using spawn_good quiet_spawn sys_inv_quiet by (metis sys_inv_def)
next
  case (k_despawn h k th r k')
  then show ?case using good_pause_resume(3) sys_inv_quiet by (metis sys_inv_def)
next
  case (k_pause th k r k')
  then show ?case using good_pause_resume(1) sys_inv_quiet by (metis sys_inv_def)
next
  case (k_resume h k th r k')
  then show ?case using good_pause_resume(2) sys_inv_quiet by (metis sys_inv_def)
next
  case (k_stop k th)
  then show ?case using good_request_stop sys_inv_quiet by (metis sys_inv_def)
next
  case (k_period k th pu)
  then show ?case using good_quiet_config(1,5) sys_inv_quiet by (metis sys_inv_def)
next
  case (k_budget k th bu)
  then show ?case using good_quiet_config(2,6) sys_inv_quiet by (metis sys_inv_def)
next
  case (k_start h k now us s k')
  then show ?case using start_inv(1) by blast
next
  case (k_secondary h k s k')
  then show ?case using start_inv(2) by blast
next
  case (k_tick h k rd mem s r k')
  then show ?case using tick_inv by blast
next
  case (k_poll h k now k')
  then show ?case using poll_inv by blast
next
  case (k_fault h me k info mem r k')
  then show ?case using on_fault_inv by blast
next
  case (k_policy k p)
  then show ?case using good_quiet_config(3,7) sys_inv_quiet by (metis sys_inv_def)
next
  case (k_hook k)
  then show ?case using good_quiet_config(4,8) sys_inv_quiet by (metis sys_inv_def)
next
  case (k_sleep h me k d k')
  then show ?case using sleep_inv by blast
next
  case (k_wake h me k)
  then show ?case
    using sys_inv_quiet [OF _ _ quiet_simps(7)] by (simp add: sleep_until_leave_def sys_inv_def)
next
  case (k_wait_period h me k us k')
  then show ?case using wait_period_inv by blast
next
  case (k_park h me k k')
  then show ?case using good_park quiet_park sys_inv_quiet by (metis calls_def sys_inv_def)
next
  case (k_try_lock h me k m)
  have g: "good k" using k_try_lock by (simp add: sys_inv_def)
  have "try_lock h m k = try_acquire_guarded m me k"
    using k_try_lock by (simp add: try_lock_def calls_def)
  moreover have "good (snd (try_acquire_guarded m me k))"
    using g k_try_lock by (intro good_try_acquire_guarded) (auto simp: calls_def task_live_def)
  ultimately show ?case using sys_inv_quiet k_try_lock quiet_try_acquire_guarded by metis
next
  case (k_lock_fast h me k m d now)
  obtain r k1 where f: "lock_fast m me d now k = (r, k1)" by fastforce
  have r: "run_ok h m me k" using calls_run_ok k_lock_fast by (simp add: sys_inv_def)
  have "good k1" using lock_fast_ok(1) [OF r f] by (simp add: run_ok_def)
  then show ?case using sys_inv_quiet k_lock_fast quiet_lock_fast f by (metis snd_conv)
next
  case (k_lock_slow h me k m d b k')
  have r: "run_ok h m me k" using calls_run_ok k_lock_slow by (simp add: sys_inv_def)
  have "good k'" using lock_slow_ok(1) [OF r k_lock_slow(3)] by (simp add: run_ok_def)
  then show ?case using sys_inv_quiet k_lock_slow quiet_lock_slow by metis
next
  case (k_unlock h me k m k')
  have "good k'"
    using guard_drop_spec [of k m me h] k_unlock by (auto simp: sys_inv_def calls_def unlocked_def)
  then show ?case using sys_inv_quiet k_unlock quiet_guard_drop by metis
next
  case (k_exit h me k mem lo hi k')
  have "good k'"
    using exit_core_spec [of k h me mem lo hi] k_exit by (auto simp: sys_inv_def calls_def exit_done_def)
  then show ?case using sys_inv_quiet k_exit quiet_exit by metis
next
  case (k_join h me k th)
  then show ?case using good_join_register quiet_join_register sys_inv_quiet by (metis sys_inv_def)
next
  case (k_join_wait h me k i b k')
  have "good k' \<and> quiet k k'"
    using k_join_wait block_current_good [of k h]
    by (auto simp: join_wait_def sys_inv_def calls_def bind_eq_Some_conv split: if_splits
        intro!: quiet_after dest: quiet_block_current)
  then show ?case using sys_inv_quiet k_join_wait by metis
next
  case (k_join_finish h me k i n)
  then show ?case using good_join_finish quiet_join_finish sys_inv_quiet by (metis sys_inv_def)
qed

lemma sys_inv_boot: "config_ok c \<Longrightarrow> sys_inv (boot_kernel c n)"
  by (simp add: sys_inv_def good_boot timers_ok_boot running_ok_def running_set_def task_live_def)
    (simp add: boot_kernel_def new_tcb_def)

lemma reachable_inv: "reachable c n k \<Longrightarrow> config_ok c \<Longrightarrow> sys_inv k"
  by (induction rule: reachable.induct) (auto simp: sys_inv_boot kstep_inv)

end
