(* ===== verification/Demo.thy ===== *)
theory Demo
  imports System
begin

text \<open>
  Concrete kernels reached by the steps of \<open>System\<close>, on which the properties are applied: a
  dispatched system, a low-priority task that holds a mutex a high-priority task waits for,
  and a two-hart system in which one task is current on both harts.
\<close>

section \<open>Steps by evaluation\<close>

lemma reach_sys: "reachable demo_config n k \<Longrightarrow> sys_inv k"
  using reachable_inv demo_config_ok by blast

lemma reach_good: "reachable demo_config n k \<Longrightarrow> good k"
  using reach_sys by (simp add: sys_inv_def)

lemma reach_timers: "reachable demo_config n k \<Longrightarrow> timers_ok k"
  using reach_sys by (simp add: sys_inv_def)

text \<open>A step taken when the operation does not panic.\<close>

lemma reach_via:
  assumes "reachable c n k" and "f k \<noteq> None" and "\<And>r k'. f k = Some (r, k') \<Longrightarrow> kstep k k'"
  shows "reachable c n (snd (the (f k)))"
  using assms by (cases "f k") (auto intro: reachable.step)

lemma reach_via1:
  assumes "reachable c n k" and "f k \<noteq> None" and "\<And>k'. f k = Some k' \<Longrightarrow> kstep k k'"
  shows "reachable c n (the (f k))"
  using assms by (cases "f k") (auto intro: reachable.step)

lemma reach_spawn:
  "reachable demo_config n k \<Longrightarrow> p < 32 \<Longrightarrow> reachable demo_config n (demo_spawn p k)"
proof -
  assume r: "reachable demo_config n k" and p: "p < 32"
  have m: "(256 :: usize) \<le> 1024" by simp
  obtain x k' where s: "spawn 0 256 (\<lambda>b s. b + s) (0x1000 * (of_nat p + 1)) 1024 p 4 0 k = Some (x, k')"
    using spawn_spec [OF reach_good [OF r] p m] by blast
  have "0 < max_harts k" using goodD(1) [OF reach_good [OF r]] by (simp add: wf_def)
  then have "kstep k k'" using s by (rule k_spawn)
  then show ?thesis using r s by (simp add: demo_spawn_def) (rule reachable.step)
qed

section \<open>A dispatched system\<close>

text \<open>Memory whose every byte is the stack fill, and a tick's clock readings.\<close>

definition demo_mem :: "usize \<Rightarrow> u8" where
  "demo_mem a = 0xAA"

definition demo_rd :: readings where
  "demo_rd = \<lparr>r_live = 0, r_total = 0, r_us = 0, r_switch = 500\<rparr>"

definition demo_tick :: "nat \<Rightarrow> kernel \<Rightarrow> kernel" where
  "demo_tick h k = snd (the (on_tick_locked h demo_rd demo_mem 0x2000 k))"

lemma reach_tick:
  assumes r: "reachable demo_config n k" and h: "h < max_harts k"
  shows "reachable demo_config n (demo_tick h k)"
proof -
  obtain x k' where t: "on_tick_locked h demo_rd demo_mem 0x2000 k = Some (x, k')"
    using tick_good [OF reach_good [OF r] h] by blast
  have "kstep k k'" using h t by (rule k_tick)
  then show ?thesis using r t by (simp add: demo_tick_def) (rule reachable.step)
qed

text \<open>\<open>demo_ready\<close> after \<open>start\<close> on hart 0: task 1, of priority 5, runs.\<close>

definition demo_run :: kernel where
  "demo_run = snd (the (start 0 100 100 demo_ready))"

lemma reach_ready: "reachable demo_config 2 demo_ready"
  unfolding demo_ready_def demo_boot_def by (intro reach_spawn reachable.boot) simp_all

lemma demo_start: "start 0 100 100 demo_ready \<noteq> None" "current 0 demo_ready = None"
  "max_harts demo_ready = 2"
  by code_simp+

lemma reach_run: "reachable demo_config 2 demo_run"
  unfolding demo_run_def
  by (rule reach_via [where f = "start 0 100 100", OF reach_ready demo_start(1)])
    (rule k_start [OF _ demo_start(2)], use demo_start(3) in \<open>simp_all\<close>)

lemma demo_run_facts: "calls 0 1 demo_run" "runs 0 demo_run 1" "max_harts demo_run = 2"
  "max_ptasks demo_run = 4" "length (mutexes demo_run) = 2"
  by code_simp+

section \<open>A contended mutex\<close>

text \<open>
  Task 0, of priority 1, starts and takes mutex 0; task 1, of priority 5, is spawned,
  preempts it at a tick and blocks on the mutex, which boosts task 0; a tick brings task 0
  back.
\<close>

definition demo_owner :: kernel where
  "demo_owner = snd (try_lock 0 0 (snd (the (start 0 100 100 (demo_spawn 1 demo_boot)))))"

definition demo_contend :: kernel where
  "demo_contend = demo_tick 0 (demo_spawn 5 demo_owner)"

definition demo_blocked :: kernel where
  "demo_blocked = snd (the (lock_slow 0 0 1 None demo_contend))"

definition demo_boosted :: kernel where
  "demo_boosted = demo_tick 0 demo_blocked"

lemma demo_owner_start: "start 0 100 100 (demo_spawn 1 demo_boot) \<noteq> None"
  "max_harts (demo_spawn 1 demo_boot) = 2" "current 0 (demo_spawn 1 demo_boot) = None"
  "calls 0 0 (snd (the (start 0 100 100 (demo_spawn 1 demo_boot))))"
  "length (mutexes (snd (the (start 0 100 100 (demo_spawn 1 demo_boot))))) = 2"
  by code_simp+

lemma reach_owner: "reachable demo_config 2 demo_owner"
proof -
  have "reachable demo_config 2 (demo_spawn 1 demo_boot)"
    unfolding demo_boot_def by (intro reach_spawn reachable.boot) simp
  then have "reachable demo_config 2 (snd (the (start 0 100 100 (demo_spawn 1 demo_boot))))"
    by (rule reach_via [where f = "start 0 100 100", OF _ demo_owner_start(1)])
      (rule k_start [OF _ demo_owner_start(3)], use demo_owner_start(2) in \<open>simp_all\<close>)
  then show ?thesis unfolding demo_owner_def
    by (rule reachable.step) (rule k_try_lock [OF demo_owner_start(4)], use demo_owner_start(5) in \<open>simp_all\<close>)
qed

lemma demo_contend_facts: "max_harts (demo_spawn 5 demo_owner) = 2" "calls 0 1 demo_contend"
  "length (mutexes demo_contend) = 2" "lock_slow 0 0 1 None demo_contend \<noteq> None"
  "max_harts demo_blocked = 2"
  by code_simp+

lemma reach_contend: "reachable demo_config 2 demo_contend"
  unfolding demo_contend_def
  by (rule reach_tick [OF reach_spawn [OF reach_owner]]) (simp_all add: demo_contend_facts)

lemma reach_blocked: "reachable demo_config 2 demo_blocked"
  unfolding demo_blocked_def
  by (rule reach_via [where f = "lock_slow 0 0 1 None", OF reach_contend demo_contend_facts(4)])
    (rule k_lock_slow [OF demo_contend_facts(2)], use demo_contend_facts(3) in \<open>simp_all\<close>)

lemma reach_boosted: "reachable demo_config 2 demo_boosted"
  unfolding demo_boosted_def by (rule reach_tick [OF reach_blocked]) (simp add: demo_contend_facts)

lemma demo_boosted_facts: "calls 0 0 demo_boosted" "length (mutexes demo_boosted) = 2"
  "owner (the_mutex 0 demo_boosted) = Some 0"
  "effective_priority (tasks demo_boosted ! 0) = 5" "base_priority (tasks demo_boosted ! 0) = 1"
  by code_simp+

section \<open>One task on two harts\<close>

text \<open>
  Task 0 of priority 5 runs on hart 0, task 1 of priority 0 on hart 1. Task 0 sleeps; the
  tick of hart 0 finds no candidate and returns to it; its deadline passes and makes it
  ready; the tick of hart 1 dispatches it there.
\<close>

definition smp_both :: kernel where
  "smp_both = snd (the (start_secondary 1 (snd (the (start 0 100 100
     (demo_spawn 0 (demo_spawn 5 demo_boot)))))))"

definition smp_asleep :: kernel where
  "smp_asleep = demo_tick 0 (the (sleep_until_enter 0 1000 smp_both))"

definition smp_twice :: kernel where
  "smp_twice = demo_tick 1 (the (poll_timers 0 2000 smp_asleep))"

lemma smp_facts:
  "start 0 100 100 (demo_spawn 0 (demo_spawn 5 demo_boot)) \<noteq> None"
  "max_harts (demo_spawn 0 (demo_spawn 5 demo_boot)) = 2"
  "current 0 (demo_spawn 0 (demo_spawn 5 demo_boot)) = None"
  "start_secondary 1 (snd (the (start 0 100 100 (demo_spawn 0 (demo_spawn 5 demo_boot))))) \<noteq> None"
  "max_harts (snd (the (start 0 100 100 (demo_spawn 0 (demo_spawn 5 demo_boot))))) = 2"
  "current 1 (snd (the (start 0 100 100 (demo_spawn 0 (demo_spawn 5 demo_boot))))) = None"
  "calls 0 0 smp_both" "sleep_until_enter 0 1000 smp_both \<noteq> None"
  "max_harts (the (sleep_until_enter 0 1000 smp_both)) = 2"
  "max_harts smp_asleep = 2" "poll_timers 0 2000 smp_asleep \<noteq> None"
  "max_harts (the (poll_timers 0 2000 smp_asleep)) = 2"
  by code_simp+

lemma reach_asleep: "reachable demo_config 2 smp_asleep"
proof -
  have "reachable demo_config 2 (demo_spawn 0 (demo_spawn 5 demo_boot))"
    unfolding demo_boot_def by (intro reach_spawn reachable.boot) simp_all
  then have "reachable demo_config 2 (snd (the (start 0 100 100 (demo_spawn 0 (demo_spawn 5 demo_boot)))))"
    by (rule reach_via [where f = "start 0 100 100", OF _ smp_facts(1)])
      (rule k_start [OF _ smp_facts(3)], use smp_facts(2) in \<open>simp_all\<close>)
  then have both: "reachable demo_config 2 smp_both" unfolding smp_both_def
    by (rule reach_via [where f = "start_secondary 1", OF _ smp_facts(4)])
      (rule k_secondary [OF _ smp_facts(6)], use smp_facts(5) in \<open>simp_all\<close>)
  then have "reachable demo_config 2 (the (sleep_until_enter 0 1000 smp_both))"
    by (rule reach_via1 [where f = "sleep_until_enter 0 1000", OF _ smp_facts(8)])
      (rule k_sleep [OF smp_facts(7)])
  then show ?thesis
    unfolding smp_asleep_def by (rule reach_tick) (simp add: smp_facts)
qed

lemma reach_smp: "reachable demo_config 2 smp_twice"
proof -
  have "reachable demo_config 2 (the (poll_timers 0 2000 smp_asleep))"
    by (rule reach_via1 [where f = "poll_timers 0 2000", OF reach_asleep smp_facts(11)])
      (rule k_poll [of 0], use smp_facts(10) in \<open>simp_all\<close>)
  then show ?thesis unfolding smp_twice_def by (rule reach_tick) (simp add: smp_facts)
qed

lemma smp_both_harts: "current 0 smp_twice = Some 0" "current 1 smp_twice = Some 0"
  "current 1 smp_both = Some 1" "raw_state (tasks smp_twice ! 0) = RUNNING" "task_live smp_twice 0"
  by code_simp+

end
