(* ===== verification/Sched_Fairness.thy ===== *)
theory Sched_Fairness
  imports Sched_Spec
begin

text \<open>
  Round-robin fairness within a priority level: least-recently-dispatched selection bounds
  the wait of a ready task by the number of slots until the 32-bit dispatch counter wraps,
  and can keep a task waiting for a whole counter period after it has wrapped.
\<close>

section \<open>Fairness\<close>

text \<open>
  Task \<open>i\<close> is ready at the highest ready priority.
\<close>

definition contends :: "kernel \<Rightarrow> nat \<Rightarrow> bool" where
  "contends k i \<longleftrightarrow> bitmap_covers k \<and>
     (\<exists>p. rb_mem (ready_words k) p i \<and> (\<forall>q j. rb_mem (ready_words k) q j \<longrightarrow> q \<le> p))"

definition same_stamps :: "kernel \<Rightarrow> kernel \<Rightarrow> bool" where
  "same_stamps k k' \<longleftrightarrow> dispatch_seq k' = dispatch_seq k \<and>
     dispatch_counter k' = dispatch_counter k \<and> max_ptasks k' = max_ptasks k"

text \<open>
  A sequence of dispatches during which task \<open>i\<close> keeps contending. Between two dispatches
  anything may happen to the queues (tasks block, wake, change priority, on any hart); only
  the stamps are left alone, which is true of everything but \<open>on_dispatch\<close>.
\<close>

inductive waits_through :: "nat \<Rightarrow> kernel \<Rightarrow> nat list \<Rightarrow> bool" for i where
  stop: "waits_through i k []"
| dispatch: "contends k i \<Longrightarrow> fst (schedule k) = Some j \<Longrightarrow> same_stamps (on_dispatch j k) k' \<Longrightarrow>
    waits_through i k' js \<Longrightarrow> waits_through i k (j # js)"

inductive_cases waits_through_ConsE: "waits_through i k (j # js)"

definition stamps_ok :: "kernel \<Rightarrow> bool" where
  "stamps_ok k \<longleftrightarrow> length (dispatch_seq k) = max_ptasks k \<and>
     (\<forall>j < max_ptasks k. dispatch_seq k ! j \<le> dispatch_counter k)"

text \<open>The tasks that would be chosen before \<open>i\<close> on stamps alone.\<close>

definition rivals :: "kernel \<Rightarrow> nat \<Rightarrow> nat set" where
  "rivals k i = {j. j < max_ptasks k \<and> older (dispatch_seq k) j i}"

lemma finite_rivals [simp]: "finite (rivals k i)"
  by (simp add: rivals_def)

lemma rivals_same: "same_stamps k k' \<Longrightarrow> rivals k' i = rivals k i"
  by (simp add: rivals_def same_stamps_def)

lemma stamps_ok_same: "same_stamps k k' \<Longrightarrow> stamps_ok k' = stamps_ok k"
  by (simp add: stamps_ok_def same_stamps_def)

lemma card_rivals: "i < max_ptasks k \<Longrightarrow> card (rivals k i) < max_ptasks k"
proof -
  assume i: "i < max_ptasks k"
  have "rivals k i \<subseteq> {0..<max_ptasks k} - {i}" by (auto simp: rivals_def)
  then have "card (rivals k i) \<le> card ({0..<max_ptasks k} - {i})"
    by (intro card_mono) auto
  then show ?thesis using i by simp
qed

lemma contends_choice:
  assumes c: "contends k i" and s: "fst (schedule k) = Some j" and ne: "j \<noteq> i"
  shows "i < max_ptasks k" "j \<in> rivals k i"
proof -
  from c have cov: "bitmap_covers k" by (simp add: contends_def)
  from c obtain p where p: "rb_mem (ready_words k) p i"
    and mx: "\<And>q l. rb_mem (ready_words k) q l \<Longrightarrow> q \<le> p" by (auto simp: contends_def)
  have lt: "rb_mem (ready_words k) q l \<Longrightarrow> l < max_ptasks k" for q l
    using cov by (auto simp: bitmap_covers_def rb_mem_def ready_words_def)
  from lt [OF p] show "i < max_ptasks k" .
  have "best_ready k j"
    using schedule_spec [OF cov] s by (simp add: schedule_result_def)
  then obtain r where r: "rb_mem (ready_words k) r j"
    and best: "\<And>q l. rb_mem (ready_words k) q l \<Longrightarrow>
      q < r \<or> q = r \<and> (l = j \<or> older (dispatch_seq k) j l)"
    unfolding best_ready_def by blast
  have "r \<le> p" using mx r by blast
  then have "older (dispatch_seq k) j i" using best [OF p] ne by auto
  then show "j \<in> rivals k i" using lt [OF r] by (simp add: rivals_def)
qed

lemma u32_unat_succ: "(c :: u32) \<noteq> - 1 \<Longrightarrow> unat (c + 1) = Suc (unat c)"
  using unatSuc [of c] by (simp add: add.commute add_eq_0_iff)

lemma u32_succ_greater: "(c :: u32) \<noteq> - 1 \<Longrightarrow> c < c + 1"
  by (simp add: word_less_nat_alt u32_unat_succ)

lemma u32_not_max: "unat (c :: u32) < 2 ^ 32 - 1 \<Longrightarrow> c \<noteq> - 1"
  by (auto simp: unsigned_minus_1_eq_mask mask_eq_exp_minus_1)

lemma rivals_on_dispatch:
  assumes ok: "stamps_ok k" and c: "dispatch_counter k \<noteq> - 1"
    and j: "j < max_ptasks k" "j \<noteq> i" and i: "i < max_ptasks k"
  shows "rivals (on_dispatch j k) i = rivals k i - {j}" and "stamps_ok (on_dispatch j k)"
proof -
  have lt: "dispatch_counter k < dispatch_counter k + 1" using c by (rule u32_succ_greater)
  have le: "l < max_ptasks k \<Longrightarrow> dispatch_seq k ! l < dispatch_counter k + 1" for l
    using ok lt by (meson order_le_less_trans stamps_ok_def)
  have len: "length (dispatch_seq k) = max_ptasks k" using ok by (simp add: stamps_ok_def)
  show "rivals (on_dispatch j k) i = rivals k i - {j}"
  proof (rule set_eqI)
    fix l
    show "l \<in> rivals (on_dispatch j k) i \<longleftrightarrow> l \<in> rivals k i - {j}"
      using j i le [OF i] len
      by (cases "l = j") (auto simp: rivals_def on_dispatch_def older_def)
  qed
  show "stamps_ok (on_dispatch j k)"
    using j le len by (simp add: stamps_ok_def on_dispatch_def nth_list_update less_imp_le)
qed

text \<open>
  Each dispatch of somebody else removes one rival, so a contending task is dispatched
  after fewer dispatches than there are slots, as long as the stamp counter does not wrap.
\<close>

lemma waits_through_bound:
  "waits_through i k js \<Longrightarrow> stamps_ok k \<Longrightarrow> i \<notin> set js \<Longrightarrow>
    unat (dispatch_counter k) + length js < 2 ^ 32 \<Longrightarrow> length js \<le> card (rivals k i)"
proof (induction rule: waits_through.induct)
  case (stop k)
  then show ?case by simp
next
  case (dispatch k j k' js)
  have ne: "j \<noteq> i" using dispatch.prems by auto
  note ij = contends_choice [OF dispatch.hyps(1,2) ne]
  have jn: "j < max_ptasks k" using ij(2) by (simp add: rivals_def)
  have c: "dispatch_counter k \<noteq> - 1"
    using dispatch.prems(3) by (intro u32_not_max) simp
  note od = rivals_on_dispatch [OF dispatch.prems(1) c jn ne ij(1)]
  have "unat (dispatch_counter k') = Suc (unat (dispatch_counter k))"
    using dispatch.hyps(3) jn dispatch.prems(3)
    by (simp add: same_stamps_def on_dispatch_def u32_unat_succ c)
  then have "length js \<le> card (rivals k' i)"
    using dispatch.IH dispatch.prems stamps_ok_same [OF dispatch.hyps(3)] od(2) by simp
  also have "rivals k' i = rivals k i - {j}"
    using rivals_same [OF dispatch.hyps(3)] od(1) by simp
  finally have "length js < card (rivals k i)"
    using card_Diff1_less [OF finite_rivals ij(2)] by linarith
  then show ?case by simp
qed

text \<open>
  The wrap of the 32-bit counter. Three tasks share priority 1; task 2 has just been
  dispatched with the largest stamp, and the other two take turns.
\<close>

definition wrap_kernel :: "u32 \<Rightarrow> u32 \<Rightarrow> u32 \<Rightarrow> nat \<Rightarrow> kernel" where
  "wrap_kernel c s0 s1 next_id =
    (boot_kernel \<lparr>cfg_max_ptasks = 3, cfg_max_timers = 16, cfg_max_coop = 16,
       cfg_priorities = 32, cfg_tick_hz = 1000, cfg_max_held = 4, cfg_max_irqs = 32,
       cfg_max_harts = 1\<rparr> 0)
    \<lparr>ready_bitmap := shl1 1, queues := (replicate 32 0)[1 := shl1 next_id OR shl1 2],
     dispatch_counter := c, dispatch_seq := [s0, s1, -1]\<rparr>"

lemma rb_mem_wrap: "a < 2 \<Longrightarrow>
    rb_mem (ready_words (wrap_kernel c s0 s1 a)) p i \<longleftrightarrow> p = 1 \<and> (i = a \<or> i = 2)"
  by (auto simp: rb_mem_def ready_words_def wrap_kernel_def nth_list_update bit_or_iff)

lemma wrap_covers: "a < 2 \<Longrightarrow> bitmap_covers (wrap_kernel c s0 s1 a)"
  by (auto simp: bitmap_covers_def wrap_kernel_def boot_kernel_def nth_list_update bit_or_iff
      split: if_splits)

lemma wrap_contends: "a < 2 \<Longrightarrow> contends (wrap_kernel c s0 s1 a) 2"
  unfolding contends_def by (auto simp: wrap_covers rb_mem_wrap)

lemma wrap_schedule:
  assumes "a < 2" and "[s0, s1] ! a < - 1"
  shows "fst (schedule (wrap_kernel c s0 s1 a)) = Some a"
proof -
  let ?k = "wrap_kernel c s0 s1 a"
  have seq: "dispatch_seq ?k ! a < - 1" "dispatch_seq ?k ! 2 = - 1"
    using assms by (auto simp: wrap_kernel_def less_2_cases_iff)
  have res: "schedule_result ?k (fst (schedule ?k))"
    using schedule_spec [OF wrap_covers [OF assms(1)]] by blast
  show ?thesis
  proof (cases "fst (schedule ?k)")
    case None
    then show ?thesis using res assms by (auto simp: schedule_result_def rb_mem_wrap)
  next
    case (Some i)
    then have "best_ready ?k i" using res by (simp add: schedule_result_def)
    then have "(i = a \<or> i = 2) \<and> (a = i \<or> older (dispatch_seq ?k) i a)"
      using assms(1) by (auto simp: best_ready_def rb_mem_wrap)
    then show ?thesis using Some seq by (auto simp: older_def)
  qed
qed

lemma wrap_step: "a < 2 \<Longrightarrow> same_stamps (on_dispatch a (wrap_kernel c s0 s1 a))
    (wrap_kernel (c + 1) (if a = 0 then c + 1 else s0) (if a = 1 then c + 1 else s1) (1 - a))"
  by (auto simp: same_stamps_def on_dispatch_def wrap_kernel_def boot_kernel_def less_2_cases_iff)

lemma wrap_starves:
  "a < 2 \<Longrightarrow> s0 < - 1 \<Longrightarrow> s1 < - 1 \<Longrightarrow> unat c + m < 2 ^ 32 - 1 \<Longrightarrow>
    \<exists>js. waits_through 2 (wrap_kernel c s0 s1 a) js \<and> length js = m \<and> 2 \<notin> set js"
proof (induction m arbitrary: a c s0 s1)
  case 0
  then show ?case by (auto intro: waits_through.stop)
next
  case (Suc m)
  have c: "c \<noteq> - 1" using Suc.prems(4) by (intro u32_not_max) simp
  have uc: "unat (c + 1) = Suc (unat c)" using c by (rule u32_unat_succ)
  have c1: "c + 1 < - 1"
  proof -
    have "c + 1 \<noteq> - 1" by (rule u32_not_max) (use uc Suc.prems(4) in simp)
    then show ?thesis using u32_max [of "c + 1"] by (simp add: order_le_less)
  qed
  let ?k' = "wrap_kernel (c + 1) (if a = 0 then c + 1 else s0) (if a = 1 then c + 1 else s1) (1 - a)"
  have "\<exists>js. waits_through 2 ?k' js \<and> length js = m \<and> 2 \<notin> set js"
    by (rule Suc.IH) (use Suc.prems c1 uc in auto)
  then obtain js where js: "waits_through 2 ?k' js" "length js = m" "2 \<notin> set js"
    by blast
  have "fst (schedule (wrap_kernel c s0 s1 a)) = Some a"
    using Suc.prems by (intro wrap_schedule) (auto simp: less_2_cases_iff)
  then have "waits_through 2 (wrap_kernel c s0 s1 a) (a # js)"
    using Suc.prems wrap_contends wrap_step js by (blast intro: waits_through.dispatch)
  then show ?case using js Suc.prems by (intro exI [of _ "a # js"]) auto
qed

end
