(* ===== verification/Props_Kernel.thy ===== *)
theory Props_Kernel
  imports Demo Sched_Fairness
begin

text \<open>
  The properties of the preemptive kernel: the invariant of every reachable state, the
  scheduler and its fairness, the tick, and the life of a task slot. Each is applied to a
  kernel of \<open>Demo\<close> by its witness.
\<close>

section \<open>The kernel as a whole\<close>





section \<open>The scheduler\<close>

text \<open>
  C3: from a bitmap that misses no occupied level, \<open>schedule\<close> returns the task of the highest
  ready priority that was dispatched longest ago, or nothing when no task is queued; on the
  way it only clears bits of the bitmap that stand for empty levels.
\<close>
theorem schedule_picks_best:
  assumes "bitmap_covers k"
  shows "(case fst (schedule k) of
      None \<Rightarrow> \<forall>p i. \<not> rb_mem (ready_words k) p i
    | Some i \<Rightarrow> best_ready k i) \<and>
    (\<exists>b. snd (schedule k) = k\<lparr>ready_bitmap := b\<rparr> \<and> bitmap_covers (k\<lparr>ready_bitmap := b\<rparr>) \<and>
         (\<forall>p < 32. bit b p \<longrightarrow> bit (ready_bitmap k) p))"
  using schedule_spec [OF assms] unfolding schedule_result_def by metis

text \<open>The queues of \<open>demo_ready\<close> behind a bitmap with every bit set.\<close>

theorem schedule_picks_best_witness:
  "fst (schedule (demo_ready\<lparr>ready_bitmap := - 1\<rparr>)) = Some 1 \<and>
    best_ready (demo_ready\<lparr>ready_bitmap := - 1\<rparr>) 1"
proof -
  have b: "bitmap_covers (demo_ready\<lparr>ready_bitmap := - 1\<rparr>)"
    using queue_ok_bits [OF goodD(2) [OF good_demo_ready]] goodD(1) [OF good_demo_ready]
    by (simp add: bitmap_covers_def wf_def)
  have "fst (schedule (demo_ready\<lparr>ready_bitmap := - 1\<rparr>)) = Some 1" by code_simp
  then show ?thesis using schedule_picks_best [OF b] by simp
qed

text \<open>
  C4: a task that stays ready at the highest priority is dispatched before as many dispatches
  have passed as there are task slots, whatever else happens in between, as long as the
  32-bit dispatch counter does not wrap.
\<close>
theorem round_robin_bound:
  assumes "waits_through i k js" and "stamps_ok k" and "i < max_ptasks k"
    and "unat (dispatch_counter k) + length js < 2 ^ 32" and "max_ptasks k \<le> length js"
  shows "i \<in> set js"
proof (rule ccontr)
  assume "i \<notin> set js"
  then have "length js \<le> card (rivals k i)" using waits_through_bound assms by blast
  then show False using card_rivals [OF assms(3)] assms(5) by simp
qed

text \<open>Three equal tasks, none dispatched yet: task 2 is reached in the third dispatch.\<close>

definition rr_kernel :: "u32 \<Rightarrow> u32 list \<Rightarrow> kernel" where
  "rr_kernel c s =
    (boot_kernel \<lparr>cfg_max_ptasks = 3, cfg_max_timers = 1, cfg_max_coop = 1, cfg_priorities = 32,
       cfg_tick_hz = 1000, cfg_max_held = 1, cfg_max_irqs = 1, cfg_max_harts = 1\<rparr> 0)
    \<lparr>ready_bitmap := shl1 1, queues := (replicate 32 0)[1 := shl1 0 OR shl1 1 OR shl1 2],
     dispatch_counter := c, dispatch_seq := s\<rparr>"

lemma rr_mem: "rb_mem (ready_words (rr_kernel c s)) p i \<longleftrightarrow> p = 1 \<and> i < 3"
  by (auto simp: rb_mem_def ready_words_def rr_kernel_def nth_list_update bit_or_iff)

lemma rr_contends: "contends (rr_kernel c s) 2"
  unfolding contends_def
proof
  show "bitmap_covers (rr_kernel c s)"
    by (auto simp: bitmap_covers_def rr_kernel_def boot_kernel_def nth_list_update bit_or_iff
        split: if_splits)
  show "\<exists>p. rb_mem (ready_words (rr_kernel c s)) p 2 \<and>
      (\<forall>q j. rb_mem (ready_words (rr_kernel c s)) q j \<longrightarrow> q \<le> p)"
    by (simp add: rr_mem)
qed

theorem round_robin_bound_witness:
  "\<exists>js. waits_through 2 (rr_kernel 0 [0, 0, 0]) js \<and> 2 \<in> set js"
proof -
  have st: "same_stamps (on_dispatch 0 (rr_kernel 0 [0, 0, 0])) (rr_kernel 1 [1, 0, 0])"
    "same_stamps (on_dispatch 1 (rr_kernel 1 [1, 0, 0])) (rr_kernel 2 [1, 2, 0])"
    "same_stamps (on_dispatch 2 (rr_kernel 2 [1, 2, 0])) (rr_kernel 3 [1, 2, 3])"
    by (simp_all add: same_stamps_def on_dispatch_def rr_kernel_def boot_kernel_def)
  have s: "fst (schedule (rr_kernel 0 [0, 0, 0])) = Some 0"
    "fst (schedule (rr_kernel 1 [1, 0, 0])) = Some 1" "fst (schedule (rr_kernel 2 [1, 2, 0])) = Some 2"
    by code_simp+
  have w: "waits_through 2 (rr_kernel 0 [0, 0, 0]) [0, 1, 2]"
    by (rule waits_through.dispatch [OF rr_contends s(1) st(1)],
        rule waits_through.dispatch [OF rr_contends s(2) st(2)],
        rule waits_through.dispatch [OF rr_contends s(3) st(3)], rule waits_through.stop)
  have "2 \<in> set [0, 1, 2 :: nat]"
  proof (rule round_robin_bound [OF w])
    show "stamps_ok (rr_kernel 0 [0, 0, 0])"
      by (auto simp: stamps_ok_def rr_kernel_def boot_kernel_def numeral_3_eq_3 less_Suc_eq)
  qed (simp_all add: rr_kernel_def boot_kernel_def)
  then show ?thesis using w by blast
qed

text \<open>
  After the dispatch counter has wrapped the bound is gone: a task that was stamped with
  the largest value just before the wrap stays ready at the highest priority and is passed
  over for \<open>m\<close> dispatches, for every \<open>m\<close> up to almost a whole counter period.
\<close>
theorem counter_wrap_starves:
  "m < 2 ^ 32 - 1 \<Longrightarrow>
    \<exists>js. waits_through 2 (wrap_kernel 0 0 0 0) js \<and> length js = m \<and> 2 \<notin> set js"
proof -
  assume m: "m < 2 ^ 32 - 1"
  have "(0 :: u32) < - 1" by code_simp
  then show ?thesis using wrap_starves [of 0 0 0 0 m] m by simp
qed

theorem counter_wrap_starves_witness:
  "\<exists>js. waits_through 2 (wrap_kernel 0 0 0 0) js \<and> length js = 4294967294 \<and> 2 \<notin> set js"
  by (rule counter_wrap_starves) simp

section \<open>The tick\<close>

text \<open>
  A tick never panics, on any hart, whatever the clocks read, whatever the stacks hold
  and whatever fault it detects, and it keeps the kernel invariant.
\<close>
theorem tick_total:
  assumes "good k" and "h < max_harts k"
  shows "\<exists>r k'. on_tick_locked h rd mem s k = Some (r, k') \<and> good k'"
  using tick_good [OF assms] .

theorem tick_total_witness: "\<exists>r k'. on_tick_locked 0 demo_rd (\<lambda>_. 0) 7 demo_run = Some (r, k') \<and> good k'"
  by (rule tick_total [OF reach_good [OF reach_run]]) (simp add: demo_run_facts)



text \<open>
  The decision of a tick that detects no fault and has a candidate: it switches exactly
  when the candidate is another task and the running one is blocked, gone, or of no higher
  effective priority; otherwise it only records the stack pointer.
\<close>
theorem tick_decides:
  assumes "good k" and "current h k = Some i" and "fst (schedule (store_sp i s k)) = Some c"
    and "\<not> tick_faults i rd mem (store_sp i s k)"
  shows "on_tick_locked h rd mem s k =
    (let k1 = store_sp i s k
     in if c \<noteq> i \<and> (\<not> task_live k1 i \<or> raw_state (tasks k1 ! i) = BLOCKED \<or>
                     effective_priority (tasks k1 ! i) \<le> effective_priority (tasks k1 ! c))
        then Some (Resume (sp (tasks k1 ! c)), switched h i c (r_switch rd) k1)
        else Some (Resume s, k1))"
  using tick_eq [OF assms] by (simp add: switches_to_def must_leave_def Let_def disj_assoc)

theorem tick_decides_witness:
  "on_tick_locked 0 demo_rd demo_mem 7 demo_run = Some (Resume 7, store_sp 1 7 demo_run)"
proof -
  have f: "current 0 demo_run = Some 1" "fst (schedule (store_sp 1 7 demo_run)) = Some 2"
    "\<not> tick_faults 1 demo_rd demo_mem (store_sp 1 7 demo_run)"
    "task_live (store_sp 1 7 demo_run) 1" "raw_state (tasks (store_sp 1 7 demo_run) ! 1) = RUNNING"
    "effective_priority (tasks (store_sp 1 7 demo_run) ! 1) = 5"
    "effective_priority (tasks (store_sp 1 7 demo_run) ! 2) = 3"
    by code_simp+
  show ?thesis
    using tick_decides [OF reach_good [OF reach_run] f(1-3)] f(4-7) by (simp add: Let_def)
qed

end
