(* ===== verification/Props_Tasks.thy ===== *)
theory Props_Tasks
  imports Demo
begin

text \<open>
  The properties of task slots and handles, of the priority mutex, of exit and join, and of
  fault isolation. Each is applied to a kernel of \<open>Demo\<close> by its witness.
\<close>

section \<open>Slots and handles\<close>



text \<open>
  Spawning at a priority above 31 is not refused: with a free slot it panics, on the
  index into the 32 ready queues.
\<close>
theorem spawn_high_priority_panics:
  assumes "i < max_ptasks k" and "claimable (tasks k ! i)" and "32 \<le> priority"
  shows "spawn h min_stack init base sz priority rs df k = None"
  using spawn_priority_panics [OF assms] .

theorem spawn_high_priority_panics_witness:
  "spawn 0 256 (\<lambda>b s. b + s) 0x4000 1024 32 4 0 demo_run = None"
proof (rule spawn_high_priority_panics)
  show "3 < max_ptasks demo_run" "claimable (tasks demo_run ! 3)" by code_simp+
qed simp



lemma queued_dequeue_iff: "good k \<Longrightarrow> i < max_ptasks k \<Longrightarrow>
    queued (dequeue i (set_raw i v k)) j \<longleftrightarrow> queued k j \<and> j \<noteq> i"
  by (auto simp: queued_def rb_mem_del queue_ok_rb_inv goodD good_wf(11) dest: queue_okD(3) [OF goodD(2)])

text \<open>
  C8: pausing a ready task takes it off the ready queues and keeps the invariant, and
  resuming it gives back the same slots and the same set of queued tasks.
\<close>
theorem pause_resume_round_trip:
  assumes "good k" and "is_valid th k" and "raw_state (tasks k ! handle_id th) = READY"
  shows "\<exists>k1 k2. pause th k = Some (True, k1) \<and> good k1 \<and> \<not> queued k1 (handle_id th) \<and>
    resume h th k1 = Some (True, k2) \<and> good k2 \<and> tasks k2 = tasks k \<and>
    (\<forall>j. queued k2 j = queued k j)"
proof -
  let ?i = "handle_id th"
  let ?k1 = "dequeue ?i (set_raw ?i SUSPENDED k)"
  let ?k2 = "enqueue h ?i (set_raw ?i READY ?k1)"
  have i: "?i < max_ptasks k" "used (tasks k ! ?i)" using assms(2) by (auto simp: is_valid_iff)
  have g1: "good ?k1" using assms(1) i by (intro good_make_unready) simp_all
  have v1: "is_valid th ?k1" using assms(2) by (simp add: is_valid_iff)
  have r1: "raw_state (tasks ?k1 ! ?i) = SUSPENDED" using i by simp
  have g2: "good ?k2" using g1 i by (intro good_make_ready) simp_all
  have t: "tasks ?k2 = tasks k"
    using i assms(3) by (intro nth_equalityI) (auto simp: nth_upd_at)
  have q1: "queued ?k1 j = (queued k j \<and> j \<noteq> ?i)" for j
    using queued_dequeue_iff [OF assms(1) i(1)] .
  have "queued k ?i" using task_ready_queued [OF assms(1), of ?i] i assms(3) by (simp add: task_ready_def)
  have q2: "queued ?k2 j = queued k j" for j
    using queued_enqueue_raw [OF g1, of ?i h READY j] i q1 \<open>queued k ?i\<close> by auto
  show ?thesis
    using g1 g2 t q1 q2 assms v1 r1
    by (simp add: pause_eq goodD resume_eq [OF goodD(1) [OF g1]])
qed

theorem pause_resume_round_trip_witness:
  "\<exists>k1 k2. pause \<lparr>handle_id = 2, handle_gen = 1\<rparr> demo_run = Some (True, k1) \<and> \<not> queued k1 2 \<and>
    resume 0 \<lparr>handle_id = 2, handle_gen = 1\<rparr> k1 = Some (True, k2) \<and> queued k2 2 = queued demo_run 2"
proof -
  let ?th = "\<lparr>handle_id = 2, handle_gen = 1\<rparr>"
  have f: "is_valid ?th demo_run" "raw_state (tasks demo_run ! handle_id ?th) = READY" by code_simp+
  show ?thesis using pause_resume_round_trip [OF reach_good [OF reach_run] f, of 0] by auto
qed

text \<open>
  A paused task reads as Ready where an effective priority changes, so raising its
  priority puts it back on the ready queues while its state still says suspended.
\<close>
theorem boost_requeues_paused:
  assumes "good k" and "i < max_ptasks k" and "used (tasks k ! i)"
    and "raw_state (tasks k ! i) = SUSPENDED" and "effective_priority (tasks k ! i) \<noteq> new" and "new < 32"
  shows "\<exists>k'. set_effective_priority i new k = Some k' \<and> queued k' i \<and>
    raw_state (tasks k' ! i) = SUSPENDED"
proof -
  let ?ws = "rb_add new i (rb_del (effective_priority (tasks k ! i)) i (ready_words k))"
  have "rb_mem ?ws new i"
    using assms good_wf(7) [OF assms(1)] good_wf(11) [OF assms(1,2)]
    by (simp add: rb_mem_add rb_mem_del rb_inv_del queue_ok_rb_inv goodD)
  then have "queued (requeue i new k) i"
    using assms(4,5) by (auto simp: requeue_def queued_def state_of_def Let_def)
  then show ?thesis
    using assms by (simp add: set_effective_priority_wf goodD)
qed

definition demo_paused :: kernel where
  "demo_paused = snd (the (pause \<lparr>handle_id = 2, handle_gen = 1\<rparr> demo_run))"

lemma demo_paused_facts: "pause \<lparr>handle_id = 2, handle_gen = 1\<rparr> demo_run \<noteq> None"
  "2 < max_ptasks demo_paused" "used (tasks demo_paused ! 2)"
  "raw_state (tasks demo_paused ! 2) = SUSPENDED" "effective_priority (tasks demo_paused ! 2) = 3"
  by code_simp+

lemma reach_paused: "reachable demo_config 2 demo_paused"
  unfolding demo_paused_def
  by (rule reach_via [where f = "pause \<lparr>handle_id = 2, handle_gen = 1\<rparr>",
      OF reach_run demo_paused_facts(1) k_pause])

theorem boost_requeues_paused_witness:
  "\<exists>k'. set_effective_priority 2 9 demo_paused = Some k' \<and> queued k' 2 \<and>
    raw_state (tasks k' ! 2) = SUSPENDED"
  by (rule boost_requeues_paused [OF reach_good [OF reach_paused] demo_paused_facts(2-4)])
    (simp_all add: demo_paused_facts(5))

section \<open>The mutex\<close>





text \<open>
  A task that already holds as many mutexes as its table takes never gets the error
  documented for that: against a free mutex, the critical section rolls its acquisition back
  and blocks the task although nobody holds the mutex.
\<close>
theorem full_held_list_blocks:
  assumes "good k" and "calls h me k" and "m < length (mutexes k)"
    and "\<not> poisoned (the_mutex m k)" and "\<not> locked (the_mutex m k)" and "owner (the_mutex m k) \<noteq> Some me"
    and "\<not> fst (push_held m (tasks k ! me))"
  shows "fst (lock_fast m me None now k) = None \<and>
    (\<exists>k'. lock_slow h m me None k = Some (False, k') \<and> raw_state (tasks k' ! me) = BLOCKED \<and>
      \<not> locked (the_mutex m k') \<and> owner (the_mutex m k') = None)"
proof -
  have c: "h < max_harts k" "current h k = Some me" "task_live k me" using assms(2) by (auto simp: calls_def)
  have nc: "\<not> can_acquire k m me" using assms(7) by (simp add: can_acquire_def can_hold_def)
  have att: "try_acquire_guarded m me k = (False, rolled_back m k)"
    using nc assms(4,5) by (simp add: try_acquire_guarded_eq)
  let ?k' = "blocked me (waiting m me None k)"
  have s: "lock_slow h m me None k = Some (False, ?k')" using nc by (simp add: lock_slow_eq [OF assms(1) c])
  have w: "lock_waits m me k ?k'" using lock_slow_waits [OF assms(1) c assms(3) s] .
  have o: "owner (the_mutex m (rolled_back m k)) = None" "\<not> locked (the_mutex m (rolled_back m k))"
    "m < length (mutexes (rolled_back m k))"
    using assms(3) by (simp_all add: rolled_back_def the_mutex_def)
  have b: "boosted m me (rolled_back m k) = rolled_back m k" using o(1) by (simp add: boosted_def)
  have "the_mutex m ?k' = the_mutex m (add_waiter m me (rolled_back m k))"
    using nc assms(4,5)
    by (simp add: blocked_def waiting_def after_attempt_def att b) (simp add: the_mutex_def)
  moreover have "owner (the_mutex m (add_waiter m me (rolled_back m k))) = None"
    "\<not> locked (the_mutex m (add_waiter m me (rolled_back m k)))"
    using o by (auto simp: add_waiter_def the_mutex_def split: option.splits)
  moreover have "fst (lock_fast m me None now k) = None"
    using assms(4) o(1) by (simp add: lock_fast_def att)
  ultimately show ?thesis using s w by (auto simp: lock_waits_def)
qed

text \<open>Task 1 of \<open>demo_run\<close> takes two mutexes and asks for a third; \<open>demo_config\<close> allows two.\<close>

definition demo_full :: kernel where
  "demo_full = snd (try_lock 0 1 (snd (try_lock 0 0 (snd (the (start 0 100 100
     (demo_spawn 5 (boot_kernel demo_config 3))))))))"

lemma demo_full_facts: "start 0 100 100 (demo_spawn 5 (boot_kernel demo_config 3)) \<noteq> None"
  "max_harts (demo_spawn 5 (boot_kernel demo_config 3)) = 2"
  "current 0 (demo_spawn 5 (boot_kernel demo_config 3)) = None"
  "calls 0 0 (snd (the (start 0 100 100 (demo_spawn 5 (boot_kernel demo_config 3)))))"
  "length (mutexes (snd (the (start 0 100 100 (demo_spawn 5 (boot_kernel demo_config 3)))))) = 3"
  "calls 0 0 (snd (try_lock 0 0 (snd (the (start 0 100 100 (demo_spawn 5 (boot_kernel demo_config 3)))))))"
  "length (mutexes (snd (try_lock 0 0 (snd (the (start 0 100 100
     (demo_spawn 5 (boot_kernel demo_config 3)))))))) = 3"
  "calls 0 0 demo_full" "length (mutexes demo_full) = 3" "\<not> poisoned (the_mutex 2 demo_full)"
  "\<not> locked (the_mutex 2 demo_full)" "owner (the_mutex 2 demo_full) = None"
  "\<not> fst (push_held 2 (tasks demo_full ! 0))"
  by code_simp+

lemma reach_full: "reachable demo_config 3 demo_full"
proof -
  have "reachable demo_config 3 (demo_spawn 5 (boot_kernel demo_config 3))"
    by (intro reach_spawn reachable.boot) simp
  then have "reachable demo_config 3 (snd (the (start 0 100 100 (demo_spawn 5 (boot_kernel demo_config 3)))))"
    by (rule reach_via [where f = "start 0 100 100", OF _ demo_full_facts(1)])
      (rule k_start [OF _ demo_full_facts(3)], use demo_full_facts(2) in \<open>simp_all\<close>)
  then have "reachable demo_config 3
      (snd (try_lock 0 0 (snd (the (start 0 100 100 (demo_spawn 5 (boot_kernel demo_config 3)))))))"
    by (rule reachable.step) (rule k_try_lock [OF demo_full_facts(4)], use demo_full_facts(5) in \<open>simp_all\<close>)
  then show ?thesis unfolding demo_full_def
    by (rule reachable.step) (rule k_try_lock [OF demo_full_facts(6)], use demo_full_facts(7) in \<open>simp_all\<close>)
qed

theorem full_held_list_blocks_witness:
  "\<exists>k'. lock_slow 0 2 0 None demo_full = Some (False, k') \<and> raw_state (tasks k' ! 0) = BLOCKED \<and>
    owner (the_mutex 2 k') = None"
  using full_held_list_blocks [OF reach_good [OF reach_full] demo_full_facts(8), of 2]
    demo_full_facts(9-) by auto

text \<open>
  C11: dropping the guard of a mutex held by a live task never panics; it frees the mutex,
  empties its waiter list and readies every live waiter, takes the mutex off the holder's
  list and gives the holder the highest of its base priority and the waiters of the mutexes
  it still holds, leaves every other mutex alone and requests a reschedule.
\<close>
theorem unlock_restores_and_wakes:
  assumes "good k" and "m < length (mutexes k)" and "owner (the_mutex m k) = Some ow"
    and "task_live k ow"
  shows "\<exists>k'. guard_drop h m k = Some k' \<and> unlocked m ow k k'"
  using guard_drop_spec [OF assms] .

theorem unlock_restores_and_wakes_witness:
  "\<exists>k'. guard_drop 0 0 demo_boosted = Some k' \<and> task_ready k' 1 \<and>
    effective_priority (tasks k' ! 0) = inherited demo_boosted 0 0"
proof -
  have f: "task_live demo_boosted 0" "Some 1 \<in> set (waiters (the_mutex 0 demo_boosted))"
    "task_live demo_boosted 1"
    by code_simp+
  have "\<exists>k'. guard_drop 0 0 demo_boosted = Some k' \<and> unlocked 0 0 demo_boosted k'"
    by (rule unlock_restores_and_wakes [OF reach_good [OF reach_boosted] _ demo_boosted_facts(3) f(1)])
      (simp add: demo_boosted_facts(2))
  then show ?thesis using f by (auto simp: unlocked_def)
qed

section \<open>Exit, join and faults\<close>

text \<open>
  C12: the exit of a task whose result has at most 32 bytes publishes it, blocks the task and
  readies its joiner; a join that looks after that does not wait and returns exactly the
  bytes of the result, whoever joins.
\<close>
theorem exit_then_join:
  assumes "good k" and "calls h i k" and "unat (result_size (tasks k ! i)) = n" and "n \<le> 32"
  shows "\<exists>k'. rivet_task_exit_core h mem lo hi k = Some k' \<and> exit_done i mem lo hi k k' \<and>
    join_wait h2 i k' = Some (False, k') \<and>
    fst (join_finish me i n k') = Inr (result_bytes mem n lo hi)"
proof -
  obtain k' where "rivet_task_exit_core h mem lo hi k = Some k'" "exit_done i mem lo hi k k'"
    using exit_core_spec [OF assms(1), of h i mem lo hi] assms(2) by (auto simp: calls_def)
  then show ?thesis using join_after_exit [OF _ assms(3,4)] by blast
qed

theorem exit_then_join_witness:
  "\<exists>k'. rivet_task_exit_core 0 demo_mem 0x04030201 0 demo_run = Some k' \<and>
    fst (join_finish (Some 0) 1 4 k') = Inr [1, 2, 3, 4]"
proof -
  have r: "unat (result_size (tasks demo_run ! 1)) = 4" "result_bytes demo_mem 4 0x04030201 0 = [1, 2, 3, 4]"
    by code_simp+
  have "\<exists>k'. rivet_task_exit_core 0 demo_mem 0x04030201 0 demo_run = Some k' \<and>
      exit_done 1 demo_mem 0x04030201 0 demo_run k' \<and> join_wait 0 1 k' = Some (False, k') \<and>
      fst (join_finish (Some 0) 1 4 k') = Inr (result_bytes demo_mem 4 0x04030201 0)"
    by (rule exit_then_join [OF reach_good [OF reach_run] demo_run_facts(1) r(1)]) simp
  then show ?thesis using r(2) by auto
qed

lemma le_value_take: "n \<le> length bs \<Longrightarrow> le_value (take n bs) = le_value bs mod 256 ^ n"
proof (induction n arbitrary: bs)
  case (Suc n)
  then obtain b bs' where bs: "bs = b # bs'" "n \<le> length bs'" by (cases bs) auto
  have "unat b < 256" using unsigned_less [of b, where ?'a = nat] by simp
  then show ?case
    using Suc.IH [OF bs(2)] by (simp add: bs le_value_def mod_mult2_eq)
qed (simp add: le_value_def)

text \<open>
  A result of up to eight bytes survives the two return registers: read back in little
  endian, the bytes a join returns are the value of the registers, cut to the result's size.
\<close>
theorem result_survives_registers:
  "n \<le> 8 \<Longrightarrow> le_value (result_bytes mem n lo hi) = (unat lo + 2 ^ 32 * unat hi) mod 256 ^ n"
  by (simp add: result_bytes_def le_value_take le_value_append le_bytes_value del: take_append)

theorem result_survives_registers_witness:
  "le_value (result_bytes demo_mem 2 0x01020304 7) = 0x0304"
  by (subst result_survives_registers) simp_all

text \<open>
  C13: a fault of a live task under the isolation policy never panics: the system either
  halts, or the faulting task is blocked and off the queues, each mutex it held is poisoned,
  and the hart runs another task from its saved stack pointer.
\<close>
theorem isolate_contains_fault:
  assumes "good k" and "calls h i k" and "fault_task info = Some i"
  shows "\<exists>r k'. isolate h mem info k = Some (r, k') \<and> good k' \<and>
    (r = Halted \<or> (\<exists>nxt. isolated h i nxt k k' \<and> r = Resume (sp (tasks k ! nxt))))"
  using isolate_spec [OF assms(1) _ _ assms(3)] assms(2) by (simp add: calls_def)

definition demo_fault :: fault_info where
  "demo_fault = \<lparr>fault_task = Some 1, fault_kind = LoadAccess, fault_address = 16, fault_pc = 32\<rparr>"

theorem isolate_contains_fault_witness:
  "\<exists>nxt k'. isolate 0 demo_mem demo_fault demo_run = Some (Resume (sp (tasks demo_run ! nxt)), k') \<and>
    isolated 0 1 nxt demo_run k'"
proof -
  have f: "fst (the (isolate 0 demo_mem demo_fault demo_run)) \<noteq> Halted" "fault_task demo_fault = Some 1"
    by code_simp+
  then show ?thesis
    using isolate_contains_fault [OF reach_good [OF reach_run] demo_run_facts(1) f(2), of demo_mem] by auto
qed

lemma block_current_exited: "block_current h k = Some k' \<Longrightarrow>
    exited (tasks k' ! i) = exited (tasks k ! i)"
  by (cases "current h k = Some i")
    (auto simp: block_current_def set_state_def ready_remove_def get_task_def Let_def
      split: option.splits if_splits)

lemma join_loop_needs_exit:
  assumes "join_loop env h i k k'"
    and "\<And>a b. env a b \<Longrightarrow> \<not> exited (tasks a ! i) \<Longrightarrow> \<not> exited (tasks b ! i)"
  shows "exited (tasks k ! i)"
  using assms
proof (induction rule: join_loop.induct)
  case (again k k1 k2 k3)
  then have "exited (tasks k1 ! i)" by blast
  then show ?case
    using again(1) block_current_exited [of h k _ i] by (auto simp: join_wait_def bind_eq_Some_conv split: if_splits)
qed (auto simp: join_wait_def bind_eq_Some_conv split: if_splits)

text \<open>
  A join on a task that was isolated before it exited never returns, as long as nobody
  else marks the task as exited: the error the documentation promises for a faulted task is
  not delivered.
\<close>
theorem join_of_isolated_never_returns:
  assumes "good k" and "calls h i k" and "fault_task info = Some i" and "\<not> exited (tasks k ! i)"
    and "isolate h mem info k = Some (Resume s, k1)"
    and env: "\<And>a b. env a b \<Longrightarrow> \<not> exited (tasks a ! i) \<Longrightarrow> \<not> exited (tasks b ! i)"
  shows "\<not> exited (tasks k1 ! i) \<and> \<not> (\<exists>k2. join_loop env h2 i k1 k2)"
proof -
  obtain nxt where "isolated h i nxt k k1"
    using isolate_spec [OF assms(1) _ _ assms(3), of h mem] assms(2,5) by (auto simp: calls_def)
  then have "\<not> exited (tasks k1 ! i)" using assms(4) by (simp add: isolated_def)
  then show ?thesis using join_loop_needs_exit [of env h2 i k1] env by blast
qed

theorem join_of_isolated_never_returns_witness:
  "\<not> (\<exists>k2. join_loop (=) 0 1 (snd (the (isolate 0 demo_mem demo_fault demo_run))) k2)"
proof -
  let ?r = "isolate 0 demo_mem demo_fault demo_run"
  have f: "fst (the ?r) = Resume (sp (tasks demo_run ! 2))" "?r \<noteq> None"
    "fault_task demo_fault = Some 1" "\<not> exited (tasks demo_run ! 1)"
    by code_simp+
  then have "?r = Some (Resume (sp (tasks demo_run ! 2)), snd (the ?r))" by auto
  from join_of_isolated_never_returns [OF reach_good [OF reach_run] demo_run_facts(1) f(3,4) this, of "(=)" 0]
  show ?thesis by blast
qed

text \<open>
  Join copies the result out and leaves its drop function registered, so despawning the
  joined task runs it on the same bytes again; and despawning a task that never exited runs
  it on a buffer that never held a result. Whether the drop runs depends on the registration
  alone.
\<close>
theorem despawn_drops_regardless:
  assumes "good k" and "is_valid th k" and "current h k \<noteq> Some (handle_id th)"
    and "result_drop (tasks k ! handle_id th) \<noteq> 0"
  shows "(\<exists>k2 es. despawn h th k = Some (True, k2) \<and>
      events k2 = events k @ Drop_result (handle_id th) # es) \<and>
    (\<exists>k2 es. despawn h th (snd (join_finish me (handle_id th) n k)) = Some (True, k2) \<and>
      events k2 = events k @ Drop_result (handle_id th) # es)"
proof -
  let ?i = "handle_id th" and ?k1 = "snd (join_finish me (handle_id th) n k)"
  have drops: "\<exists>k2 es. despawn h th k0 = Some (True, k2) \<and> events k2 = events k0 @ Drop_result ?i # es"
    if "wf k0" "is_valid th k0" "current h k0 \<noteq> Some ?i" "result_drop (tasks k0 ! ?i) \<noteq> 0" for k0
    using that by (auto simp: despawn_eq despawned_def dequeue_def set_ready_words_def upd_task_def)
  have i: "?i < max_ptasks k" using assms(2) by (simp add: is_valid_iff)
  have k1: "is_valid th ?k1" "current h ?k1 = current h k"
    "result_drop (tasks ?k1 ! ?i) = result_drop (tasks k ! ?i)" "events ?k1 = events k"
    using i assms(2) by (auto simp: join_finish_def Let_def is_valid_iff current_def upd_task_def)
  have "wf ?k1" using good_join_finish [OF assms(1)] by (simp add: goodD)
  from drops [OF this] drops [OF goodD(1) [OF assms(1)]] show ?thesis
    using assms k1 by auto
qed

definition demo_result :: kernel where
  "demo_result = snd (the (spawn 0 256 (\<lambda>b s. b + s) 0x4000 1024 2 4 7 demo_run))"

theorem despawn_drops_regardless_witness:
  "\<exists>k2. despawn 0 \<lparr>handle_id = 3, handle_gen = 1\<rparr> (snd (join_finish (Some 1) 3 4 demo_result)) =
    Some (True, k2) \<and> Drop_result 3 \<in> set (events k2)"
proof -
  let ?th = "\<lparr>handle_id = 3, handle_gen = 1\<rparr>"
  have f: "spawn 0 256 (\<lambda>b s. b + s) 0x4000 1024 2 4 7 demo_run \<noteq> None" "is_valid ?th demo_result"
    "current 0 demo_result \<noteq> Some (handle_id ?th)" "result_drop (tasks demo_result ! handle_id ?th) \<noteq> 0"
    by code_simp+
  have "good demo_result"
    using spawn_good [OF reach_good [OF reach_run]] f(1) by (auto simp: demo_result_def)
  from despawn_drops_regardless [OF this f(2-4), of "Some 1" 4] show ?thesis by auto
qed

end
