(* ===== verification/Props_Time.thy ===== *)
theory Props_Time
  imports Demo
begin

text \<open>
  The properties of the timers, of sleeping and periods, of the cycle accounting, and of the
  number and stack-watermark routines the fault report prints with.
\<close>

section \<open>Timers and sleeping\<close>

text \<open>
  C14: polling the timers never panics and keeps the invariants; it marks exactly the
  executor tasks with a deadline that is not in the future, readies exactly the sleeping live
  tasks with such a deadline, and frees exactly those entries in both tables.
\<close>
theorem poll_expires_exactly:
  assumes "good k" and "timers_ok k"
  shows "\<exists>k'. poll_timers h now k = Some k' \<and> good k' \<and> timers_ok k' \<and>
    wk_ready k' = wk_ready k \<union> {tid_pair t | i d t. (i, d, t) \<in> pending (timer_slots k) \<and> d \<le> now} \<and>
    (\<forall>j. task_ready k' j \<longleftrightarrow> task_ready k j \<or> (j < length (ptask_deadlines k) \<and>
       ptask_deadlines k ! j \<noteq> 0 \<and> ptask_deadlines k ! j \<le> now \<and> task_live k j)) \<and>
    timer_slots k' = map (\<lambda>(d, t). (if d \<noteq> 0 \<and> d \<le> now then 0 else d, t)) (timer_slots k) \<and>
    ptask_deadlines k' = map (\<lambda>d. if d \<noteq> 0 \<and> d \<le> now then 0 else d) (ptask_deadlines k)"
  using poll_timers_spec [OF assms, of h now] unfolding polled_def coop_due_def expired_def by blast

theorem poll_expires_exactly_witness:
  "\<exists>k'. poll_timers 0 2000 smp_asleep = Some k' \<and> good k' \<and> task_ready k' 0"
proof -
  have r: "reachable demo_config 2 smp_asleep" by (rule reach_asleep)
  have f: "0 < length (ptask_deadlines smp_asleep)" "ptask_deadlines smp_asleep ! 0 = 1000"
    "task_live smp_asleep 0"
    by code_simp+
  from poll_expires_exactly [OF reach_good [OF r] reach_timers [OF r], of 0 2000] f
  show ?thesis by auto
qed

text \<open>
  C15: a task that sleeps until a deadline is blocked at once, and any later poll makes it
  ready exactly when the deadline is not zero and not in the future.
\<close>
theorem sleeper_wakes_on_time:
  assumes "good k" and "timers_ok k" and "calls h me k" and "sleep_until_enter h d k = Some k1"
    and "poll_timers h2 now k1 = Some k2"
  shows "raw_state (tasks k1 ! me) = BLOCKED \<and> \<not> queued k1 me \<and>
    (task_ready k2 me \<longleftrightarrow> d \<noteq> 0 \<and> d \<le> now)"
proof -
  have c: "h < max_harts k" "current h k = Some me" "task_live k me" using assms(3) by (auto simp: calls_def)
  have s: "good k1" "raw_state (tasks k1 ! me) = BLOCKED" "ptask_deadlines k1 ! me = d"
    "task_live k1 me" "\<not> task_ready k1 me" "timer_slots k1 = timer_slots k" "wk_words k1 = wk_words k"
    using sleep_until_spec [OF assms(1) c, of d] assms(4) by auto
  have "timers_ok k1" using assms(2) s(6,7) by (simp add: timers_ok_def wk_ok_def)
  then show ?thesis
    using poll_wakes_sleeper [OF s(1) _ s(4,5,3) assms(5)] s(2) not_queued_blocked [OF s(1,2)] by simp
qed

theorem sleeper_wakes_on_time_witness:
  "\<exists>k1 k2. sleep_until_enter 0 900 demo_run = Some k1 \<and> poll_timers 0 899 k1 = Some k2 \<and>
    \<not> task_ready k2 1"
proof -
  have f: "sleep_until_enter 0 900 demo_run \<noteq> None"
    "poll_timers 0 899 (the (sleep_until_enter 0 900 demo_run)) \<noteq> None"
    by code_simp+
  then obtain k1 k2 where k: "sleep_until_enter 0 900 demo_run = Some k1" "poll_timers 0 899 k1 = Some k2"
    by auto
  have "\<not> (900 :: u64) \<le> 899" by simp
  then show ?thesis
    using sleeper_wakes_on_time [OF reach_good [OF reach_run] reach_timers [OF reach_run] demo_run_facts(1) k] k
    by blast
qed

text \<open>
  The deadline 0 marks a free entry, so a task that sleeps until time 0, which has long
  passed, is never woken by any sequence of polls.
\<close>
theorem sleep_until_zero_never_wakes:
  assumes "good k" and "timers_ok k" and "calls h me k" and "sleep_until_enter h 0 k = Some k1"
    and "polls h2 ts k1 = Some k2"
  shows "\<not> task_ready k2 me"
proof -
  have c: "h < max_harts k" "current h k = Some me" "task_live k me" using assms(3) by (auto simp: calls_def)
  have s: "good k1" "ptask_deadlines k1 ! me = 0" "task_live k1 me" "\<not> task_ready k1 me"
    "timer_slots k1 = timer_slots k" "wk_words k1 = wk_words k"
    using sleep_until_spec [OF assms(1) c, of 0] assms(4) by auto
  have "timers_ok k1" using assms(2) s(5,6) by (simp add: timers_ok_def wk_ok_def)
  then show ?thesis using polls_zero_deadline [OF s(1) _ _ s(4,2) assms(5)] s(3) by (simp add: task_live_def)
qed

theorem sleep_until_zero_never_wakes_witness:
  "\<exists>k1 k2. sleep_until_enter 0 0 demo_run = Some k1 \<and> polls 0 [5, 100000] k1 = Some k2 \<and>
    \<not> task_ready k2 1"
proof -
  have f: "sleep_until_enter 0 0 demo_run \<noteq> None"
    "polls 0 [5, 100000] (the (sleep_until_enter 0 0 demo_run)) \<noteq> None"
    by code_simp+
  then obtain k1 k2 where k: "sleep_until_enter 0 0 demo_run = Some k1" "polls 0 [5, 100000] k1 = Some k2"
    by auto
  show ?thesis
    using sleep_until_zero_never_wakes [OF reach_good [OF reach_run] reach_timers [OF reach_run]
        demo_run_facts(1) k] k by blast
qed

text \<open>
  A task with a period whose first deadline has been set blocks until exactly one period
  after the previous deadline, whatever the clock reads when it asks: periods do not drift.
\<close>
theorem periods_do_not_drift:
  assumes "good k" and "calls h me k" and "me < length (next_us_of k)"
    and "period_us me k \<noteq> 0" and "next_us_of k ! me \<noteq> 0"
  shows "\<exists>k'. wait_period_enter h now k = Some k' \<and> good k' \<and> raw_state (tasks k' ! me) = BLOCKED \<and>
    next_us_of k' ! me = next_us_of k ! me + ucast (period_us me k) \<and>
    ptask_deadlines k' ! me = next_us_of k' ! me"
proof -
  have c: "h < max_harts k" "current h k = Some me" "task_live k me" using assms(2) by (auto simp: calls_def)
  have "unat (ucast (period_us me k) :: u64) = take_bit 64 (unat (period_us me k))"
    by (simp add: unsigned_ucast_eq)
  also have "\<dots> = unat (period_us me k)"
    using unsigned_less [of "period_us me k", where ?'a = nat] by (intro take_bit_nat_eq_self) simp
  finally have nz: "(ucast (period_us me k) :: u64) \<noteq> 0" using assms(4) by (metis unsigned_0 unat_eq_0)
  let ?n = "next_us_of k ! me + ucast (period_us me k)"
  let ?k1 = "k\<lparr>next_us_of := (next_us_of k)[me := ?n],
    budget_start_of := (budget_start_of k)[me := busy_cycles me k]\<rparr>"
  have g: "good ?k1" by (rule good_frame [OF assms(1)]) (simp_all add: ready_words_def)
  have l: "h < max_harts ?k1" "current h ?k1 = Some me" "task_live ?k1 me"
    using c by (simp_all add: current_def task_live_def)
  have e: "wait_period_enter h now k = sleep_until_enter h ?n ?k1"
    using c nz assms(3,5) by (simp add: wait_period_enter_def next_period_def Let_def)
  obtain k' where k': "sleep_until_enter h ?n ?k1 = Some k'" "good k'" "raw_state (tasks k' ! me) = BLOCKED"
    "ptask_deadlines k' ! me = ?n" using sleep_until_spec [OF g l, of ?n] by blast
  have "next_us_of k' = next_us_of ?k1"
    using k'(1) sleep_until_wf [OF g l, of ?n] by (auto simp: dequeue_def set_ready_words_def upd_task_def)
  then show ?thesis using e k' assms(3) by simp
qed

text \<open>Task 1 of \<open>demo_run\<close> with a period of 500 microseconds, whose first deadline was 1000.\<close>

definition demo_period :: kernel where
  "demo_period = the (poll_timers 0 1000 (the (wait_period_enter 0 500
     (handle_set_period_us \<lparr>handle_id = 1, handle_gen = 1\<rparr> 500 demo_run))))"

lemma demo_period_facts:
  "calls 0 1 (handle_set_period_us \<lparr>handle_id = 1, handle_gen = 1\<rparr> 500 demo_run)"
  "wait_period_enter 0 500 (handle_set_period_us \<lparr>handle_id = 1, handle_gen = 1\<rparr> 500 demo_run) \<noteq> None"
  "max_harts (the (wait_period_enter 0 500
     (handle_set_period_us \<lparr>handle_id = 1, handle_gen = 1\<rparr> 500 demo_run))) = 2"
  "poll_timers 0 1000 (the (wait_period_enter 0 500
     (handle_set_period_us \<lparr>handle_id = 1, handle_gen = 1\<rparr> 500 demo_run))) \<noteq> None"
  "calls 0 1 demo_period" "1 < length (next_us_of demo_period)" "period_us 1 demo_period = 500"
  "next_us_of demo_period ! 1 = 1000"
  by code_simp+

lemma reach_period: "reachable demo_config 2 demo_period"
proof -
  let ?p = "handle_set_period_us \<lparr>handle_id = 1, handle_gen = 1\<rparr> 500 demo_run"
  have "reachable demo_config 2 ?p" by (rule reachable.step [OF reach_run k_period])
  then have "reachable demo_config 2 (the (wait_period_enter 0 500 ?p))"
    by (rule reach_via1 [where f = "wait_period_enter 0 500", OF _ demo_period_facts(2)])
      (rule k_wait_period [OF demo_period_facts(1)])
  then show ?thesis unfolding demo_period_def
    by (rule reach_via1 [where f = "poll_timers 0 1000", OF _ demo_period_facts(4)])
      (rule k_poll [of 0], use demo_period_facts(3) in \<open>simp_all\<close>)
qed

theorem periods_do_not_drift_witness:
  "\<exists>k'. wait_period_enter 0 1370 demo_period = Some k' \<and> ptask_deadlines k' ! 1 = 1500"
proof -
  have nz: "period_us 1 demo_period \<noteq> 0" "next_us_of demo_period ! 1 \<noteq> 0"
    by code_simp+
  have "next_us_of demo_period ! 1 + ucast (period_us 1 demo_period) = 1500"
    by code_simp
  then show ?thesis
    using periods_do_not_drift [OF reach_good [OF reach_period] demo_period_facts(5,6) nz, of 1370] by auto
qed

text \<open>
  C16: every cycle between the first dispatch and the last switch is credited to exactly one
  task: after any sequence of switches away from tasks in range the credits add up to the
  time that has passed.
\<close>
theorem cycles_are_conserved:
  assumes "cycles_balance k" and "started k" and "\<forall>(o', now) \<in> set sw. o' < max_ptasks k" and "sw \<noteq> []"
  shows "sum_list (busy_cycles_of (switches sw k)) = snd (last sw) - boot_cycle k"
  using switches_balance [OF assms(1-3)] assms(4) by (simp add: cycles_balance_def)

theorem cycles_are_conserved_witness:
  "sum_list (busy_cycles_of (switches [(1, 150), (2, 175), (1, 260)] demo_run)) = 160"
proof -
  have f: "cycles_balance demo_run" "started demo_run" "max_ptasks demo_run = 4" "boot_cycle demo_run = 100"
    by code_simp+
  show ?thesis using cycles_are_conserved [OF f(1,2), of "[(1, 150), (2, 175), (1, 260)]"] f by simp
qed

section \<open>Numbers in the report\<close>

text \<open>
  Every machine word prints in the ten-byte decimal buffer and in eight hexadecimal
  digits, and both read back as the number.
\<close>
theorem numbers_print_and_read_back:
  "(\<exists>s. print_dec 10 (unat n) = Some s \<and> dec_value s = unat n) \<and>
    hex_value (print_hex n) = unat n \<and> length (print_hex n) = 8"
proof -
  have "unat n < 10 ^ 10" using unsigned_less [of n, where ?'a = nat] by simp
  then show ?thesis using print_dec_ok print_hex_value by blast
qed

end
