(* ===== verification/Channel.thy ===== *)
theory Channel
  imports Waker
begin

text \<open>
  The single-producer single-consumer channel (\<open>rivet/src/sync/channel.rs\<close>): a ring buffer of
  \<open>N\<close> cells with one cell always free, split once into a sender and a receiver, and the two
  futures that register a waiter. A cell that holds no initialised value is \<open>None\<close>, so a read
  the unsafe code must not make would be \<open>None\<close> as well; a panic is \<open>None\<close> too. The contract is
  a bounded queue, stated as a locale and interpreted on the channel's own operations.
\<close>

section \<open>State\<close>

record 'a channel =
  buffer :: "'a option list"
  head :: nat
  tail :: nat
  taken :: bool
  recv_waiter :: "task_id option"
  send_waiter :: "task_id option"

definition new_channel :: "nat \<Rightarrow> 'a channel" where
  "new_channel n = \<lparr>buffer = replicate n None, head = 0, tail = 0, taken = False,
     recv_waiter = None, send_waiter = None\<rparr>"

abbreviation slots :: "'a channel \<Rightarrow> nat" where
  "slots c \<equiv> length (buffer c)"

definition split_channel :: "'a channel \<Rightarrow> bool \<times> 'a channel" where
  "split_channel c = (if taken c then (False, c) else (True, c\<lparr>taken := True\<rparr>))"

text \<open>Waking swaps the waiter word with the sentinel first.\<close>

definition wake_waiter :: "nat \<Rightarrow> task_id option \<Rightarrow> kernel \<Rightarrow> kernel option" where
  "wake_waiter h w k = (case w of None \<Rightarrow> Some k | Some t \<Rightarrow> wake_task h t k)"

section \<open>The operations\<close>

type_synonym 'a chan_state = "'a channel \<times> kernel"

text \<open>\<open>Inl v\<close> gives the value back.\<close>

definition try_send :: "nat \<Rightarrow> 'a \<Rightarrow> 'a chan_state \<Rightarrow> (('a + unit) \<times> 'a chan_state) option" where
  "try_send h v s =
    (let (c, k) = s; n = slots c
     in if n = 0 then None
        else let next_tail = (tail c + 1) mod n
             in if next_tail = head c then Some (Inl v, (c, k))
                else if n \<le> tail c then None
                else let c1 = c\<lparr>buffer := (buffer c)[tail c := Some v], tail := next_tail\<rparr>
                     in do {
                          k1 \<leftarrow> wake_waiter h (recv_waiter c1) k;
                          Some (Inr (), (c1\<lparr>recv_waiter := None\<rparr>, k1))
                        })"

definition try_recv :: "nat \<Rightarrow> 'a chan_state \<Rightarrow> ('a option \<times> 'a chan_state) option" where
  "try_recv h s =
    (let (c, k) = s
     in if head c = tail c then Some (None, (c, k))
        else if slots c \<le> head c then None
        else do {
          v \<leftarrow> buffer c ! head c;
          let c1 = c\<lparr>buffer := (buffer c)[head c := None], head := (head c + 1) mod slots c\<rparr>;
          k1 \<leftarrow> wake_waiter h (send_waiter c1) k;
          Some (Some v, (c1\<lparr>send_waiter := None\<rparr>, k1))
        })"

section \<open>The futures\<close>

datatype 'r poll = Pending | Done 'r

record 'a send_fut =
  fut_val :: "'a option"
  send_registered :: bool

definition send_clear :: "bool \<Rightarrow> 'a channel \<Rightarrow> 'a channel" where
  "send_clear reg c = (if reg then c\<lparr>send_waiter := None\<rparr> else c)"

definition recv_clear :: "bool \<Rightarrow> 'a channel \<Rightarrow> 'a channel" where
  "recv_clear reg c = (if reg then c\<lparr>recv_waiter := None\<rparr> else c)"

definition send_poll ::
    "nat \<Rightarrow> task_id option \<Rightarrow> 'a send_fut \<Rightarrow> 'a chan_state \<Rightarrow>
     (unit poll \<times> 'a send_fut \<times> 'a chan_state) option" where
  "send_poll h me f s =
    do {
      v \<leftarrow> fut_val f;
      (r, c, k) \<leftarrow> try_send h v s;
      (case r of
         Inr _ \<Rightarrow> Some (Done (), f\<lparr>fut_val := None\<rparr>, (send_clear (send_registered f) c, k))
       | Inl v \<Rightarrow> do {
           t \<leftarrow> me;
           (r2, c2, k2) \<leftarrow> try_send h v (c\<lparr>send_waiter := Some t\<rparr>, k);
           (case r2 of
              Inr _ \<Rightarrow> Some (Done (), f\<lparr>fut_val := None, send_registered := True\<rparr>,
                (send_clear True c2, k2))
            | Inl v \<Rightarrow> Some (Pending, f\<lparr>fut_val := Some v, send_registered := True\<rparr>, (c2, k2)))
         })
    }"

definition recv_poll ::
    "nat \<Rightarrow> task_id option \<Rightarrow> bool \<Rightarrow> 'a chan_state \<Rightarrow> ('a poll \<times> bool \<times> 'a chan_state) option" where
  "recv_poll h me reg s =
    do {
      (r, c, k) \<leftarrow> try_recv h s;
      (case r of
         Some v \<Rightarrow> Some (Done v, reg, (recv_clear reg c, k))
       | None \<Rightarrow> do {
           t \<leftarrow> me;
           (r2, c2, k2) \<leftarrow> try_recv h (c\<lparr>recv_waiter := Some t\<rparr>, k);
           (case r2 of
              Some v \<Rightarrow> Some (Done v, True, (recv_clear True c2, k2))
            | None \<Rightarrow> Some (Pending, True, (c2, k2)))
         })
    }"

text \<open>Dropping either future.\<close>

definition send_drop :: "'a send_fut \<Rightarrow> 'a chan_state \<Rightarrow> 'a chan_state" where
  "send_drop f s = (send_clear (send_registered f) (fst s), snd s)"

definition recv_drop :: "bool \<Rightarrow> 'a chan_state \<Rightarrow> 'a chan_state" where
  "recv_drop reg s = (recv_clear reg (fst s), snd s)"

section \<open>A bounded queue\<close>

text \<open>
  What the sender and receiver rely on. A script of puts and gets on any provider delivers
  a prefix of what was accepted, in order, and keeps the rest.
\<close>

datatype 'a qop = Put 'a | Get

fun qrun :: "('a \<Rightarrow> 's \<Rightarrow> 's option) \<Rightarrow> ('s \<Rightarrow> ('a \<times> 's) option) \<Rightarrow> 'a qop list \<Rightarrow> 's \<Rightarrow>
    'a list \<times> 'a list \<times> 's" where
  "qrun put get [] s = ([], [], s)"
| "qrun put get (Put v # os) s =
    (case put v s of
       None \<Rightarrow> qrun put get os s
     | Some s1 \<Rightarrow> (let (sent, got, s2) = qrun put get os s1 in (v # sent, got, s2)))"
| "qrun put get (Get # os) s =
    (case get s of
       None \<Rightarrow> qrun put get os s
     | Some (v, s1) \<Rightarrow> (let (sent, got, s2) = qrun put get os s1 in (sent, v # got, s2)))"

locale bounded_queue =
  fixes ok :: "'s \<Rightarrow> bool"
    and contents :: "'s \<Rightarrow> 'a list"
    and room :: "'s \<Rightarrow> nat"
    and put :: "'a \<Rightarrow> 's \<Rightarrow> 's option"
    and get :: "'s \<Rightarrow> ('a \<times> 's) option"
  assumes put_some: "ok s \<Longrightarrow> put v s = Some s' \<Longrightarrow>
      ok s' \<and> room s' = room s \<and> length (contents s) < room s \<and> contents s' = contents s @ [v]"
    and put_none: "ok s \<Longrightarrow> put v s = None \<Longrightarrow> length (contents s) = room s"
    and get_some: "ok s \<Longrightarrow> get s = Some (v, s') \<Longrightarrow>
      ok s' \<and> room s' = room s \<and> contents s = v # contents s'"
    and get_none: "ok s \<Longrightarrow> get s = None \<Longrightarrow> contents s = []"
begin

lemma put_iff: "ok s \<Longrightarrow> length (contents s) \<le> room s \<Longrightarrow>
    put v s \<noteq> None \<longleftrightarrow> length (contents s) < room s"
  using put_some put_none by fastforce

lemma get_iff: "ok s \<Longrightarrow> get s \<noteq> None \<longleftrightarrow> contents s \<noteq> []"
  using get_some get_none by fastforce

lemma run_fifo:
  "ok s \<Longrightarrow> qrun put get os s = (sent, got, s') \<Longrightarrow>
    ok s' \<and> room s' = room s \<and> contents s @ sent = got @ contents s'"
proof (induction os arbitrary: s sent got s')
  case Nil
  then show ?case by simp
next
  case (Cons x os)
  show ?case
  proof (cases x)
    case (Put v)
    show ?thesis
    proof (cases "put v s")
      case (Some s1)
      obtain a b s2 where r: "qrun put get os s1 = (a, b, s2)" by (cases "qrun put get os s1")
      then show ?thesis
        using Cons Put Some put_some [OF Cons.prems(1) Some] Cons.IH [OF _ r] by auto
    qed (use Cons Put in auto)
  next
    case Get
    show ?thesis
    proof (cases "get s")
      case (Some p)
      obtain v s1 where p: "p = (v, s1)" by fastforce
      obtain a b s2 where r: "qrun put get os s1 = (a, b, s2)" by (cases "qrun put get os s1")
      then show ?thesis
        using Cons Get Some p get_some [of s v s1] Cons.IH [OF _ r] by auto
    qed (use Cons Get in auto)
  qed
qed

end

section \<open>The channel is a bounded queue\<close>

text \<open>Positions on the ring: the cell \<open>j\<close> steps after \<open>a\<close>, and the distance from \<open>a\<close> to \<open>b\<close>.\<close>

definition ring_at :: "nat \<Rightarrow> nat \<Rightarrow> nat \<Rightarrow> nat" where
  "ring_at n a j = (a + j) mod n"

definition ring_dist :: "nat \<Rightarrow> nat \<Rightarrow> nat \<Rightarrow> nat" where
  "ring_dist n a b = (if a \<le> b then b - a else b + n - a)"

lemma ring_at_less: "0 < n \<Longrightarrow> ring_at n a j < n"
  by (simp add: ring_at_def)

lemma ring_at_eq: "a < n \<Longrightarrow> j \<le> n \<Longrightarrow> ring_at n a j = (if a + j < n then a + j else a + j - n)"
  by (simp add: ring_at_def mod_if)

lemma ring_at_inj: "a < n \<Longrightarrow> i < n \<Longrightarrow> j < n \<Longrightarrow> ring_at n a i = ring_at n a j \<longleftrightarrow> i = j"
  by (auto simp: ring_at_eq)

lemma ring_at_dist: "a < n \<Longrightarrow> b < n \<Longrightarrow> ring_at n a (ring_dist n a b) = b"
  by (simp add: ring_at_eq ring_dist_def)

lemma ring_dist_less: "a < n \<Longrightarrow> b < n \<Longrightarrow> ring_dist n a b < n"
  by (auto simp: ring_dist_def)

lemma ring_dist_0: "a < n \<Longrightarrow> b < n \<Longrightarrow> ring_dist n a b = 0 \<longleftrightarrow> a = b"
  by (auto simp: ring_dist_def)

lemma ring_dist_push: "a < n \<Longrightarrow> b < n \<Longrightarrow> (b + 1) mod n \<noteq> a \<Longrightarrow>
    ring_dist n a ((b + 1) mod n) = Suc (ring_dist n a b)"
  by (auto simp: ring_dist_def mod_if split: if_splits)

lemma ring_dist_full: "a < n \<Longrightarrow> b < n \<Longrightarrow> (b + 1) mod n = a \<Longrightarrow> ring_dist n a b = n - 1"
  by (auto simp: ring_dist_def mod_if split: if_splits)

lemma ring_dist_pop: "a < n \<Longrightarrow> b < n \<Longrightarrow> a \<noteq> b \<Longrightarrow>
    ring_dist n a b = Suc (ring_dist n ((a + 1) mod n) b)"
  by (auto simp: ring_dist_def mod_if split: if_splits)

lemma ring_at_Suc: "ring_at n a (Suc j) = ring_at n ((a + 1) mod n) j"
  by (simp add: ring_at_def mod_simps)

definition chan_len :: "'a channel \<Rightarrow> nat" where
  "chan_len c = ring_dist (slots c) (head c) (tail c)"

definition chan_contents :: "'a channel \<Rightarrow> 'a list" where
  "chan_contents c = map (\<lambda>j. the (buffer c ! ring_at (slots c) (head c) j)) [0..<chan_len c]"

definition waiter_ok :: "task_id option \<Rightarrow> bool" where
  "waiter_ok w \<longleftrightarrow> (\<forall>t. w = Some t \<longrightarrow> coop_id t)"

text \<open>Exactly the cells from head to tail hold a value.\<close>

definition chan_ok :: "'a channel \<Rightarrow> bool" where
  "chan_ok c \<longleftrightarrow> head c < slots c \<and> tail c < slots c \<and>
     (\<forall>j < slots c. buffer c ! ring_at (slots c) (head c) j \<noteq> None \<longleftrightarrow> j < chan_len c) \<and>
     waiter_ok (recv_waiter c) \<and> waiter_ok (send_waiter c)"

lemma chan_len_less: "chan_ok c \<Longrightarrow> chan_len c < slots c"
  by (simp add: chan_ok_def chan_len_def ring_dist_less)

lemma chan_ok_new: "0 < n \<Longrightarrow> chan_ok (new_channel n) \<and> chan_contents (new_channel n) = []"
  by (simp add: chan_ok_def new_channel_def chan_len_def ring_dist_def chan_contents_def waiter_ok_def
      ring_at_def)

definition pushed :: "'a \<Rightarrow> 'a channel \<Rightarrow> 'a channel" where
  "pushed v c = c\<lparr>buffer := (buffer c)[tail c := Some v], tail := (tail c + 1) mod slots c\<rparr>"

definition popped :: "'a channel \<Rightarrow> 'a channel" where
  "popped c = c\<lparr>buffer := (buffer c)[head c := None], head := (head c + 1) mod slots c\<rparr>"

lemma pushed_ok:
  assumes ok: "chan_ok c" and free: "(tail c + 1) mod slots c \<noteq> head c"
  shows "chan_ok (pushed v c)" and "chan_contents (pushed v c) = chan_contents c @ [v]"
proof -
  let ?n = "slots c"
  have h: "head c < ?n" and t: "tail c < ?n" using ok by (simp_all add: chan_ok_def)
  have len: "chan_len (pushed v c) = Suc (chan_len c)"
    using ring_dist_push [OF h t free] by (simp add: chan_len_def pushed_def)
  have at_tail: "ring_at ?n (head c) (chan_len c) = tail c"
    unfolding chan_len_def by (rule ring_at_dist [OF h t])
  have cell: "buffer (pushed v c) ! ring_at ?n (head c) j =
      (if j = chan_len c then Some v else buffer c ! ring_at ?n (head c) j)" if "j < ?n" for j
  proof (cases "j = chan_len c")
    case True
    then show ?thesis using at_tail t by (simp add: pushed_def)
  next
    case False
    then have "ring_at ?n (head c) j \<noteq> tail c"
      using ring_at_inj [OF h that chan_len_less [OF ok]] at_tail by simp
    then show ?thesis using False by (simp add: pushed_def)
  qed
  have full: "chan_len (pushed v c) \<le> ?n"
    using chan_len_less [OF ok] len by simp
  have "Suc (tail c) mod ?n < ?n" using h by (intro mod_less_divisor) linarith
  then show "chan_ok (pushed v c)"
    using ok h cell len unfolding chan_ok_def by (auto simp: pushed_def less_Suc_eq)
  have "map (\<lambda>j. the (buffer (pushed v c) ! ring_at ?n (head c) j)) [0..<chan_len c] =
      chan_contents c"
    using chan_len_less [OF ok] cell by (simp add: chan_contents_def)
  then show "chan_contents (pushed v c) = chan_contents c @ [v]"
    using cell [OF chan_len_less [OF ok]] len
    by (simp add: chan_contents_def [of "pushed v c"]) (simp add: pushed_def)
qed

lemma popped_ok:
  assumes ok: "chan_ok c" and ne: "head c \<noteq> tail c"
  shows "\<exists>v. buffer c ! head c = Some v \<and> chan_contents c = v # chan_contents (popped c)"
    and "chan_ok (popped c)"
proof -
  let ?n = "slots c"
  have h: "head c < ?n" and t: "tail c < ?n" using ok by (simp_all add: chan_ok_def)
  have len: "chan_len c = Suc (chan_len (popped c))"
    using ring_dist_pop [OF h t ne] by (simp add: chan_len_def popped_def)
  have h0: "ring_at ?n (head c) 0 = head c" using h by (simp add: ring_at_def)
  have full: "buffer c ! ring_at ?n (head c) j \<noteq> None \<longleftrightarrow> j < chan_len c" if "j < ?n" for j
    using ok that unfolding chan_ok_def by blast
  have n0: "0 < ?n" using h by linarith
  obtain v where v: "buffer c ! head c = Some v"
    using full [OF n0] h0 len by (cases "buffer c ! head c") simp_all
  have cell: "buffer (popped c) ! ring_at ?n (head (popped c)) j =
      (if Suc j < ?n then buffer c ! ring_at ?n (head c) (Suc j) else None)" if "j < ?n" for j
  proof (cases "Suc j < ?n")
    case True
    have "ring_at ?n (head c) (Suc j) \<noteq> head c"
      using ring_at_inj [OF h True n0] h0 by auto
    then show ?thesis using True by (simp add: popped_def ring_at_Suc)
  next
    case False
    then have "Suc j = ?n" using that by simp
    then have "ring_at ?n (head c) (Suc j) = head c" using h by (simp add: ring_at_def)
    then show ?thesis using False h by (simp add: popped_def ring_at_Suc)
  qed
  have "chan_contents c = v # map (\<lambda>j. the (buffer c ! ring_at ?n (head c) (Suc j)))
      [0..<chan_len (popped c)]"
    using v h0 by (simp add: chan_contents_def len upt_conv_Cons map_Suc_upt [symmetric] del: upt_Suc)
  also have "\<dots> = v # chan_contents (popped c)"
    using cell len chan_len_less [OF ok]
    by (simp add: chan_contents_def [of "popped c"]) (simp add: popped_def)
  finally show "\<exists>v. buffer c ! head c = Some v \<and> chan_contents c = v # chan_contents (popped c)"
    using v by blast
  have "buffer (popped c) ! ring_at ?n (head (popped c)) j \<noteq> None \<longleftrightarrow> j < chan_len (popped c)"
    if "j < ?n" for j
    using that cell [OF that] full [of "Suc j"] len chan_len_less [OF ok] by auto
  then show "chan_ok (popped c)"
    using ok n0 unfolding chan_ok_def by (auto simp: popped_def)
qed

section \<open>The operations keep the contract\<close>

definition room :: "'a channel \<Rightarrow> nat" where
  "room c = slots c - 1"

definition link_ok :: "'a chan_state \<Rightarrow> bool" where
  "link_ok s \<longleftrightarrow> chan_ok (fst s) \<and> wk_ok (snd s)"

definition coop_pair :: "task_id \<Rightarrow> nat \<times> nat" where
  "coop_pair t = (unat (tid_priority t), unat (tid_index t))"

definition woken_ids :: "task_id option \<Rightarrow> (nat \<times> nat) set" where
  "woken_ids w = (case w of None \<Rightarrow> {} | Some t \<Rightarrow> {coop_pair t})"

lemma woken_ids_simps [simp]: "woken_ids None = {}" "woken_ids (Some t) = {coop_pair t}"
  by (simp_all add: woken_ids_def)

lemma wake_task_spec:
  assumes "wk_ok k" and "coop_id t"
  shows "\<exists>k'. wake_task h t k = Some k' \<and> wk_ok k' \<and> wk_ready k' = insert (coop_pair t) (wk_ready k)"
proof -
  obtain k1 where k1: "mark_ready t k = Some k1" "wk_ok k1"
    "wk_ready k1 = insert (coop_pair t) (wk_ready k)"
    using mark_ready_spec [OF assms] by (auto simp: coop_pair_def)
  have "wk_words (broadcast_reschedule h k1) = wk_words k1"
    by (simp add: broadcast_reschedule_def wk_words_def)
  then show ?thesis using k1 by (simp add: wake_task_def wk_ok_def wk_ready_def)
qed

lemma wake_waiter_spec:
  assumes "wk_ok k" and "waiter_ok w"
  shows "\<exists>k'. wake_waiter h w k = Some k' \<and> wk_ok k' \<and> wk_ready k' = woken_ids w \<union> wk_ready k"
  using assms wake_task_spec by (cases w) (auto simp: wake_waiter_def waiter_ok_def)

text \<open>A send either finds the queue full and changes nothing, or appends and wakes the receiver.\<close>

lemma try_send_spec:
  assumes ok: "link_ok (c, k)"
  shows "if length (chan_contents c) = room c then try_send h v (c, k) = Some (Inl v, (c, k))
    else \<exists>k'. try_send h v (c, k) = Some (Inr (), ((pushed v c)\<lparr>recv_waiter := None\<rparr>, k')) \<and>
      wk_ok k' \<and> wk_ready k' = woken_ids (recv_waiter c) \<union> wk_ready k"
proof -
  have c: "chan_ok c" and k: "wk_ok k" using ok by (simp_all add: link_ok_def)
  have h: "head c < slots c" "tail c < slots c" using c by (simp_all add: chan_ok_def)
  have len: "length (chan_contents c) = ring_dist (slots c) (head c) (tail c)"
    by (simp add: chan_contents_def chan_len_def)
  have full: "length (chan_contents c) = room c \<longleftrightarrow> (tail c + 1) mod slots c = head c"
  proof
    assume l: "length (chan_contents c) = room c"
    show "(tail c + 1) mod slots c = head c"
    proof (rule ccontr)
      assume f: "(tail c + 1) mod slots c \<noteq> head c"
      have "chan_len (pushed v c) < slots c" for v
        using chan_len_less [OF pushed_ok(1) [OF c f]] by (simp add: pushed_def)
      moreover have "chan_len (pushed v c) = Suc (length (chan_contents c))" for v
        using ring_dist_push [OF h f] by (simp add: chan_len_def pushed_def len)
      ultimately show False using l h by (simp add: room_def)
    qed
  qed (simp add: len room_def ring_dist_full [OF h])
  have w: "waiter_ok (recv_waiter c)" using c by (simp add: chan_ok_def)
  obtain k' where k': "wake_waiter h (recv_waiter c) k = Some k'" "wk_ok k'"
    "wk_ready k' = woken_ids (recv_waiter c) \<union> wk_ready k" using wake_waiter_spec [OF k w] by blast
  show ?thesis using full h k' by (auto simp: try_send_def Let_def pushed_def)
qed

lemma try_recv_spec:
  assumes ok: "link_ok (c, k)"
  shows "if chan_contents c = [] then try_recv h (c, k) = Some (None, (c, k))
    else \<exists>k'. try_recv h (c, k) = Some (Some (List.hd (chan_contents c)),
        ((popped c)\<lparr>send_waiter := None\<rparr>, k')) \<and>
      wk_ok k' \<and> wk_ready k' = woken_ids (send_waiter c) \<union> wk_ready k"
proof -
  have c: "chan_ok c" and k: "wk_ok k" using ok by (simp_all add: link_ok_def)
  have h: "head c < slots c" "tail c < slots c" using c by (simp_all add: chan_ok_def)
  have empty: "chan_contents c = [] \<longleftrightarrow> head c = tail c"
    using ring_dist_0 [OF h] by (simp add: chan_contents_def chan_len_def)
  have w: "waiter_ok (send_waiter c)" using c by (simp add: chan_ok_def)
  obtain k' where k': "wake_waiter h (send_waiter c) k = Some k'" "wk_ok k'"
    "wk_ready k' = woken_ids (send_waiter c) \<union> wk_ready k" using wake_waiter_spec [OF k w] by blast
  show ?thesis
  proof (cases "head c = tail c")
    case False
    obtain v where v: "buffer c ! head c = Some v" "chan_contents c = v # chan_contents (popped c)"
      using popped_ok(1) [OF c False] by blast
    show ?thesis using empty False h k' v by (simp add: try_recv_def popped_def)
  qed (simp add: empty try_recv_def)
qed

lemma chan_contents_frame [simp]:
  "chan_contents (c\<lparr>recv_waiter := w\<rparr>) = chan_contents c"
  "chan_contents (c\<lparr>send_waiter := w\<rparr>) = chan_contents c"
  by (simp_all add: chan_contents_def chan_len_def)

lemma chan_ok_waiters:
  "chan_ok c \<Longrightarrow> waiter_ok w \<Longrightarrow> chan_ok (c\<lparr>recv_waiter := w\<rparr>)"
  "chan_ok c \<Longrightarrow> waiter_ok w \<Longrightarrow> chan_ok (c\<lparr>send_waiter := w\<rparr>)"
  by (auto simp: chan_ok_def chan_len_def)

lemma waiter_ok_simps [simp]: "waiter_ok None" "waiter_ok (Some t) \<longleftrightarrow> coop_id t"
  by (simp_all add: waiter_ok_def)

definition put_op :: "nat \<Rightarrow> 'a \<Rightarrow> 'a chan_state \<Rightarrow> 'a chan_state option" where
  "put_op h v s = (case try_send h v s of Some (Inr _, s') \<Rightarrow> Some s' | _ \<Rightarrow> None)"

definition get_op :: "nat \<Rightarrow> 'a chan_state \<Rightarrow> ('a \<times> 'a chan_state) option" where
  "get_op h s = (case try_recv h s of Some (Some v, s') \<Rightarrow> Some (v, s') | _ \<Rightarrow> None)"

interpretation cq: bounded_queue link_ok "\<lambda>s. chan_contents (fst s)" "\<lambda>s. room (fst s)"
    "put_op h" "get_op h" for h
proof
  fix s s' :: "'a chan_state" and v :: 'a
  obtain c k where s: "s = (c, k)" by fastforce
  assume ok: "link_ok s"
  have c: "chan_ok c" using ok by (simp add: s link_ok_def)
  have le: "length (chan_contents c) \<le> room c"
    using chan_len_less [OF c] by (simp add: chan_contents_def room_def)
  note sp = try_send_spec [of c k h v] and rp = try_recv_spec [of c k h]
  {
    assume "put_op h v s = Some s'"
    then have n: "length (chan_contents c) \<noteq> room c"
      using sp ok by (cases "length (chan_contents c) = room c") (simp_all add: put_op_def s)
    then obtain k' where "try_send h v (c, k) = Some (Inr (), ((pushed v c)\<lparr>recv_waiter := None\<rparr>, k'))"
      and k': "wk_ok k'" using sp ok s by (simp only: if_False) blast
    then have s': "s' = ((pushed v c)\<lparr>recv_waiter := None\<rparr>, k')" "wk_ok k'"
      using \<open>put_op h v s = Some s'\<close> by (simp_all add: put_op_def s)
    have f: "(tail c + 1) mod slots c \<noteq> head c"
      using n ring_dist_full [of "head c" "slots c" "tail c"] c
      by (auto simp: chan_ok_def chan_contents_def chan_len_def room_def)
    show "link_ok s' \<and> room (fst s') = room (fst s) \<and>
        length (chan_contents (fst s)) < room (fst s) \<and>
        chan_contents (fst s') = chan_contents (fst s) @ [v]"
      using n le pushed_ok [OF c f, of v] s'
      by (simp add: s link_ok_def chan_ok_waiters) (simp add: room_def pushed_def)
  next
    assume "put_op h v s = None"
    then show "length (chan_contents (fst s)) = room (fst s)"
      using ok sp by (cases "length (chan_contents c) = room c") (auto simp: put_op_def s)
  next
    assume "get_op h s = Some (v, s')"
    then have e: "chan_contents c \<noteq> []"
      using rp ok by (cases "chan_contents c = []") (simp_all add: get_op_def s)
    then obtain k' where "try_recv h (c, k) = Some (Some (List.hd (chan_contents c)),
        ((popped c)\<lparr>send_waiter := None\<rparr>, k'))" and k': "wk_ok k'"
      using rp ok s by (simp only: if_False) blast
    then have s': "s' = ((popped c)\<lparr>send_waiter := None\<rparr>, k')" "wk_ok k'"
      and n: "chan_contents c \<noteq> []" "v = List.hd (chan_contents c)"
      using \<open>get_op h s = Some (v, s')\<close> e by (simp_all add: get_op_def s)
    have ne: "head c \<noteq> tail c"
      using n c ring_dist_0 [of "head c" "slots c" "tail c"]
      by (auto simp: chan_ok_def chan_contents_def chan_len_def)
    show "link_ok s' \<and> room (fst s') = room (fst s) \<and>
        chan_contents (fst s) = v # chan_contents (fst s')"
      using n popped_ok [OF c ne] s'
      by (auto simp: s link_ok_def chan_ok_waiters) (simp add: room_def popped_def)
  next
    assume "get_op h s = None"
    then show "chan_contents (fst s) = []"
      using ok rp by (cases "chan_contents c = []") (auto simp: get_op_def s)
  }
qed

section \<open>The futures\<close>

definition recv_parked :: "task_id \<Rightarrow> 'a chan_state \<Rightarrow> bool" where
  "recv_parked t s \<longleftrightarrow> link_ok s \<and> chan_contents (fst s) = [] \<and> recv_waiter (fst s) = Some t"

definition send_parked :: "task_id \<Rightarrow> 'a chan_state \<Rightarrow> bool" where
  "send_parked t s \<longleftrightarrow> link_ok s \<and> length (chan_contents (fst s)) = room (fst s) \<and>
     send_waiter (fst s) = Some t"

lemma recv_poll_empty:
  assumes ok: "link_ok (c, k)" and e: "chan_contents c = []"
  shows "recv_poll h me reg (c, k) =
    (case me of None \<Rightarrow> None | Some t \<Rightarrow> Some (Pending, True, (c\<lparr>recv_waiter := Some t\<rparr>, k)))"
proof -
  have r: "try_recv h (c, k) = Some (None, (c, k))" using try_recv_spec [OF ok] e by simp
  have "head c = tail c" using ok e ring_dist_0 [of "head c" "slots c" "tail c"]
    by (auto simp: link_ok_def chan_ok_def chan_contents_def chan_len_def)
  then have "try_recv h (c\<lparr>recv_waiter := Some t\<rparr>, k) = Some (None, (c\<lparr>recv_waiter := Some t\<rparr>, k))" for t
    by (simp add: try_recv_def)
  then show ?thesis using r by (auto simp: recv_poll_def split: option.splits)
qed

lemma recv_poll_some:
  assumes ok: "link_ok (c, k)" and e: "chan_contents c \<noteq> []"
  shows "\<exists>c' k'. recv_poll h me reg (c, k) = Some (Done (List.hd (chan_contents c)), reg, (c', k')) \<and>
    chan_contents c' = tl (chan_contents c) \<and> link_ok (c', k') \<and>
    wk_ready k' = woken_ids (send_waiter c) \<union> wk_ready k"
proof -
  obtain k' where r: "try_recv h (c, k) = Some (Some (List.hd (chan_contents c)),
        ((popped c)\<lparr>send_waiter := None\<rparr>, k'))" "wk_ok k'"
      "wk_ready k' = woken_ids (send_waiter c) \<union> wk_ready k" using try_recv_spec [OF ok] e by auto
  have c: "chan_ok c" using ok by (simp add: link_ok_def)
  have ne: "head c \<noteq> tail c"
    using e c ring_dist_0 [of "head c" "slots c" "tail c"]
    by (auto simp: chan_ok_def chan_contents_def chan_len_def)
  obtain v where v: "chan_contents c = v # chan_contents (popped c)" using popped_ok(1) [OF c ne] by blast
  show ?thesis
    by (rule exI [of _ "recv_clear reg ((popped c)\<lparr>send_waiter := None\<rparr>)"], rule exI [of _ k'])
      (use r v popped_ok(2) [OF c ne] in \<open>simp add: recv_poll_def recv_clear_def link_ok_def chan_ok_waiters\<close>)
qed

lemma recv_poll_cases:
  assumes "link_ok (c, k)" and "recv_poll h (Some t) reg (c, k) = Some (r, reg', s')" and "coop_id t"
  shows "case r of Pending \<Rightarrow> recv_parked t s' \<and> reg'
    | Done v \<Rightarrow> link_ok s' \<and> chan_contents c = v # chan_contents (fst s')"
proof (cases "chan_contents c = []")
  case True
  then show ?thesis
    using assms recv_poll_empty [OF assms(1) True, of h "Some t" reg]
    by (auto simp: recv_parked_def link_ok_def chan_ok_waiters)
next
  case False
  then show ?thesis using assms(2) recv_poll_some [OF assms(1) False, of h "Some t" reg] by auto
qed

lemma send_wakes_parked:
  assumes "recv_parked t (c, k)" and "0 < room c"
  shows "\<exists>c' k'. try_send h v (c, k) = Some (Inr (), (c', k')) \<and> coop_pair t \<in> wk_ready k' \<and>
    link_ok (c', k') \<and> chan_contents c' = [v]"
proof -
  have ok: "link_ok (c, k)" and e: "chan_contents c = []" "recv_waiter c = Some t"
    using assms by (simp_all add: recv_parked_def)
  have n: "length (chan_contents c) \<noteq> room c" using e assms by simp
  obtain s' where p: "put_op h v (c, k) = Some s'"
    using cq.put_none [OF ok, of h v] n by (cases "put_op h v (c, k)") auto
  obtain k' where s: "try_send h v (c, k) = Some (Inr (), ((pushed v c)\<lparr>recv_waiter := None\<rparr>, k'))"
    and k': "wk_ready k' = woken_ids (recv_waiter c) \<union> wk_ready k" "wk_ok k'"
    using try_send_spec [OF ok, of h v] n by auto
  have "link_ok s' \<and> chan_contents (fst s') = chan_contents c @ [v]"
    using cq.put_some [OF ok p] by simp
  then show ?thesis using p s k' e by (auto simp: put_op_def)
qed

lemma send_poll_full:
  assumes ok: "link_ok (c, k)" and f: "length (chan_contents c) = room c" and v: "fut_val f = Some v"
  shows "send_poll h me f (c, k) =
    (case me of None \<Rightarrow> None
     | Some t \<Rightarrow> Some (Pending, f\<lparr>fut_val := Some v, send_registered := True\<rparr>,
         (c\<lparr>send_waiter := Some t\<rparr>, k)))"
proof -
  have s: "try_send h v (c, k) = Some (Inl v, (c, k))" using try_send_spec [OF ok, of h v] f by simp
  have "try_send h v (c\<lparr>send_waiter := Some t\<rparr>, k) = Some (Inl v, (c\<lparr>send_waiter := Some t\<rparr>, k))" for t
    using s by (auto simp: try_send_def Let_def bind_eq_Some_conv split: if_splits)
  then show ?thesis using s v by (auto simp: send_poll_def split: option.splits)
qed

lemma send_poll_space:
  assumes ok: "link_ok (c, k)" and f: "length (chan_contents c) \<noteq> room c" and v: "fut_val f = Some v"
  shows "\<exists>c' k'. send_poll h me f (c, k) = Some (Done (), f\<lparr>fut_val := None\<rparr>, (c', k')) \<and>
    chan_contents c' = chan_contents c @ [v] \<and> link_ok (c', k') \<and>
    wk_ready k' = woken_ids (recv_waiter c) \<union> wk_ready k"
proof -
  obtain k' where s: "try_send h v (c, k) = Some (Inr (), ((pushed v c)\<lparr>recv_waiter := None\<rparr>, k'))"
    and k': "wk_ready k' = woken_ids (recv_waiter c) \<union> wk_ready k"
    using try_send_spec [OF ok, of h v] f by auto
  have p: "put_op h v (c, k) = Some ((pushed v c)\<lparr>recv_waiter := None\<rparr>, k')"
    by (simp add: put_op_def s)
  note c' = cq.put_some [OF ok p]
  show ?thesis
    by (rule exI [of _ "send_clear (send_registered f) ((pushed v c)\<lparr>recv_waiter := None\<rparr>)"],
        rule exI [of _ k'])
      (use s k' c' v in \<open>simp add: send_poll_def send_clear_def link_ok_def chan_ok_waiters\<close>)
qed

lemma recv_wakes_parked:
  assumes "send_parked t (c, k)" and "0 < room c"
  shows "\<exists>v c' k'. try_recv h (c, k) = Some (Some v, (c', k')) \<and> coop_pair t \<in> wk_ready k' \<and>
    link_ok (c', k') \<and> length (chan_contents c') < room c'"
proof -
  have ok: "link_ok (c, k)" and e: "length (chan_contents c) = room c" "send_waiter c = Some t"
    using assms by (simp_all add: send_parked_def)
  have n: "chan_contents c \<noteq> []" using e assms by auto
  obtain k' where s: "try_recv h (c, k) = Some (Some (List.hd (chan_contents c)),
        ((popped c)\<lparr>send_waiter := None\<rparr>, k'))"
    and k': "wk_ready k' = woken_ids (send_waiter c) \<union> wk_ready k"
    using try_recv_spec [OF ok, of h] n by auto
  have g: "get_op h (c, k) = Some (List.hd (chan_contents c), ((popped c)\<lparr>send_waiter := None\<rparr>, k'))"
    by (simp add: get_op_def s)
  note gs = cq.get_some [OF ok g]
  have "length (chan_contents c) = Suc (length (chan_contents (popped c)))"
    using gs by (metis chan_contents_frame(2) fst_conv length_Cons)
  then show ?thesis using s k' gs e by auto
qed

text \<open>
  The waiter word has one cell and a drop clears it whoever is registered: with two receive
  futures of the same task alive, dropping the first unregisters the second, and the next
  send wakes nobody.
\<close>

lemma recv_drop_unregisters:
  assumes "recv_parked t (c, k)" and "0 < room c"
  shows "\<exists>c' k'. try_send h v (recv_drop True (c, k)) = Some (Inr (), (c', k')) \<and>
    wk_ready k' = wk_ready k \<and> chan_contents c' = [v]"
proof -
  let ?c = "c\<lparr>recv_waiter := None\<rparr>"
  have "recv_drop True (c, k) = (?c, k)" by (simp add: recv_drop_def recv_clear_def)
  moreover have ok: "link_ok (?c, k)" using assms by (simp add: recv_parked_def link_ok_def chan_ok_waiters)
  moreover have n: "length (chan_contents ?c) \<noteq> room ?c"
    using assms by (simp add: recv_parked_def) (simp add: room_def)
  ultimately obtain k' where s: "try_send h v (recv_drop True (c, k)) =
      Some (Inr (), ((pushed v ?c)\<lparr>recv_waiter := None\<rparr>, k'))" "wk_ready k' = wk_ready k"
    using try_send_spec [OF ok, of h v] by auto
  have "put_op h v (?c, k) = Some ((pushed v ?c)\<lparr>recv_waiter := None\<rparr>, k')"
    using s \<open>recv_drop True (c, k) = (?c, k)\<close> by (simp add: put_op_def)
  from cq.put_some [OF ok this] show ?thesis using s assms by (auto simp: recv_parked_def)
qed

end
