(* ===== verification/Executor.thy ===== *)
theory Executor
  imports Channel Boot
begin

text \<open>
  The cooperative executor (\<open>rivet/src/executor.rs\<close>) and the task cells it polls
  (\<open>rivet/src/task.rs\<close>). Task \<open>j\<close> is the entry at position \<open>j\<close> of the linker section. The
  future of a task is the application's: its initial state \<open>fut0 j\<close> and its poll function
  \<open>step\<close> are arguments; a poll may change the kernel as it likes. \<open>None\<close> is a panic, or a use
  of a future that does not exist.
\<close>

section \<open>Task cells\<close>

definition TASK_CELL_ALIGN :: nat where "TASK_CELL_ALIGN = 16"

record 'f task_cell =
  cell_future :: "'f option"
  initialized :: bool
  completed :: bool

definition new_cell :: "'f task_cell" where
  "new_cell = \<lparr>cell_future = None, initialized = False, completed = False\<rparr>"

text \<open>\<open>cap\<close> is the size of the cell, \<open>size\<close> and \<open>align\<close> those of the future.\<close>

definition cell_poll :: "nat \<Rightarrow> nat \<Rightarrow> nat \<Rightarrow> 'f \<Rightarrow> ('f \<Rightarrow> 'w \<Rightarrow> unit poll \<times> 'f \<times> 'w) \<Rightarrow>
    'f task_cell \<times> 'w \<Rightarrow> (unit poll \<times> 'f task_cell \<times> 'w) option" where
  "cell_poll cap fsize align init step cw =
    (let (c, w) = cw
     in if fsize > cap then None
        else if align > TASK_CELL_ALIGN then None
        else let c1 = (if initialized c then c else c\<lparr>cell_future := Some init, initialized := True\<rparr>)
             in if completed c1 then Some (Done (), c1, w)
                else case cell_future c1 of
                       None \<Rightarrow> None
                     | Some f \<Rightarrow>
                         (let (r, f', w') = step f w
                          in Some (r, (if r = Done () then c1\<lparr>cell_future := None, completed := True\<rparr>
                                       else c1\<lparr>cell_future := Some f'\<rparr>), w')))"

section \<open>The registry\<close>

record task_reg =
  reg_priority :: nat
  reg_cap :: nat
  reg_size :: nat
  reg_align :: nat

record 'f executor =
  registry :: "nat option list list"
  count_per_priority :: "u8 list"
  total :: u8
  live_tasks :: usize
  current_task :: "task_id option"
  cells :: "'f task_cell list"

definition max_priority :: "config \<Rightarrow> nat" where
  "max_priority c = cfg_priorities c - 1"

definition exec_new :: "config \<Rightarrow> nat \<Rightarrow> 'f executor" where
  "exec_new c n = \<lparr>registry = replicate (max_priority c + 1) (replicate (cfg_max_coop c) None),
     count_per_priority = replicate (max_priority c + 1) 0, total = 0, live_tasks = 0,
     current_task = None, cells = replicate n new_cell\<rparr>"

text \<open>
  The loop of \<open>init\<close> over the section, from position \<open>j\<close>. With overflow checks compiled in
  (\<open>ovf\<close>), incrementing \<open>total\<close> past 255 panics.
\<close>

fun register_tasks :: "bool \<Rightarrow> config \<Rightarrow> nat \<Rightarrow> task_reg list \<Rightarrow> u8 list \<times> 'f executor \<Rightarrow>
    (u8 list \<times> 'f executor) option" where
  "register_tasks ovf c j [] ce = Some ce"
| "register_tasks ovf c j (r # rs) ce =
     (let (counts, e) = ce; p = reg_priority r; idx = unat (counts ! p)
      in if p > max_priority c then None
         else if idx \<ge> cfg_max_coop c then None
         else if ovf \<and> total e = - 1 then None
         else register_tasks ovf c (Suc j) rs
                (counts[p := counts ! p + 1],
                 e\<lparr>registry := (registry e)[p := (registry e ! p)[idx := Some j]],
                   total := total e + 1, live_tasks := live_tasks e + 1\<rparr>))"

fun mark_each :: "task_id list \<Rightarrow> kernel \<Rightarrow> kernel option" where
  "mark_each [] k = Some k"
| "mark_each (t # ts) k = do { k1 \<leftarrow> mark_ready t k; mark_each ts k1 }"

definition initial_ids :: "config \<Rightarrow> u8 list \<Rightarrow> task_id list" where
  "initial_ids c counts = concat (map (\<lambda>p. map (\<lambda>i. tid_new (of_nat p) (of_nat i))
     [0..<unat (counts ! p)]) [0..<max_priority c + 1])"

definition exec_init :: "bool \<Rightarrow> config \<Rightarrow> task_reg list \<Rightarrow> 'f executor \<times> kernel \<Rightarrow>
    ('f executor \<times> kernel) option" where
  "exec_init ovf c regs ek = do {
     (counts, e) \<leftarrow> register_tasks ovf c 0 regs (replicate 32 0, fst ek);
     k \<leftarrow> mark_each (initial_ids c counts) (snd ek);
     Some (e\<lparr>count_per_priority := take (max_priority c + 1) counts\<rparr>, k)
   }"

definition lookup_task :: "config \<Rightarrow> nat \<Rightarrow> nat \<Rightarrow> 'f executor \<Rightarrow> nat option" where
  "lookup_task c p i e =
    (if p > max_priority c \<or> i \<ge> cfg_max_coop c then None else registry e ! p ! i)"

section \<open>The loop\<close>

text \<open>One turn of the inner loop of \<open>run\<close>; the answer is whether a task was dequeued.\<close>

definition run_one :: "config \<Rightarrow> task_reg list \<Rightarrow> (nat \<Rightarrow> 'f) \<Rightarrow>
    (nat \<Rightarrow> task_id \<Rightarrow> 'f \<Rightarrow> kernel \<Rightarrow> unit poll \<times> 'f \<times> kernel) \<Rightarrow>
    'f executor \<times> kernel \<Rightarrow> (bool \<times> 'f executor \<times> kernel) option" where
  "run_one c regs fut0 step ek =
    (let (e, k) = ek
     in case next_ready k of
          (None, k1) \<Rightarrow> Some (False, e, k1)
        | (Some t, k1) \<Rightarrow>
            (case lookup_task c (unat (tid_priority t)) (unat (tid_index t)) e of
               None \<Rightarrow> Some (True, e, k1)
             | Some j \<Rightarrow>
                 (if completed (cells e ! j) then Some (True, e, k1)
                  else do {
                    _ \<leftarrow> encode_waker_data t;
                    let e1 = e\<lparr>current_task := Some t\<rparr>;
                    (r, cell, k2) \<leftarrow> cell_poll (reg_cap (regs ! j)) (reg_size (regs ! j))
                      (reg_align (regs ! j)) (fut0 j) (step j t) (cells e1 ! j, k1);
                    let e2 = e1\<lparr>cells := (cells e1)[j := cell], current_task := None\<rparr>;
                    Some (True, (if r = Done () then e2\<lparr>live_tasks := live_tasks e2 - 1\<rparr> else e2), k2)
                  })))"

text \<open>The inner loop; it does not end when tasks keep waking each other.\<close>

partial_function (option) run_ready :: "('s \<Rightarrow> (bool \<times> 's) option) \<Rightarrow> 's \<Rightarrow> 's option" where
  "run_ready turn s = Option.bind (turn s) (\<lambda>(go, s'). if go then run_ready turn s' else Some s')"

text \<open>One turn of the outer loop; the answer is whether the processor idles after it.\<close>

definition run_pass :: "config \<Rightarrow> task_reg list \<Rightarrow> (nat \<Rightarrow> 'f) \<Rightarrow>
    (nat \<Rightarrow> task_id \<Rightarrow> 'f \<Rightarrow> kernel \<Rightarrow> unit poll \<times> 'f \<times> kernel) \<Rightarrow>
    'f executor \<times> kernel \<Rightarrow> (bool \<times> 'f executor \<times> kernel) option" where
  "run_pass c regs fut0 step ek = do {
     (e, k) \<leftarrow> run_ready (run_one c regs fut0 step) (fst ek, clear_pend (snd ek));
     Some (\<not> has_pending k, e, k)
   }"

section \<open>Cells\<close>

definition cell_ok :: "'f task_cell \<Rightarrow> bool" where
  "cell_ok c \<longleftrightarrow> (cell_future c \<noteq> None \<longleftrightarrow> initialized c \<and> \<not> completed c) \<and> (completed c \<longrightarrow> initialized c)"

lemma cell_ok_new: "cell_ok new_cell" "\<not> completed new_cell"
  by (simp_all add: cell_ok_def new_cell_def)

text \<open>A poll never uses a future that was not created or was dropped.\<close>

lemma cell_poll_spec:
  assumes "cell_ok c" and "fsize \<le> cap" and "align \<le> TASK_CELL_ALIGN"
  shows "\<exists>r c' w'. cell_poll cap fsize align init step (c, w) = Some (r, c', w') \<and> cell_ok c' \<and>
    initialized c' \<and> (r = Done () \<longleftrightarrow> completed c') \<and> (completed c \<longrightarrow> c' = c \<and> w' = w) \<and>
    (\<not> completed c \<longrightarrow> (\<exists>f. cell_future (if initialized c then c else c\<lparr>cell_future := Some init\<rparr>) = Some f \<and>
       r = fst (step f w) \<and> w' = snd (snd (step f w)) \<and>
       cell_future c' = (if r = Done () then None else Some (fst (snd (step f w))))))"
  using assms by (auto simp: cell_poll_def cell_ok_def Let_def split: prod.splits)

section \<open>Registration\<close>

text \<open>The number of earlier entries of the section with priority \<open>p\<close>.\<close>

definition rank :: "task_reg list \<Rightarrow> nat \<Rightarrow> nat \<Rightarrow> nat" where
  "rank regs j p = length (filter (\<lambda>r. reg_priority r = p) (take j regs))"

lemma rank_0 [simp]: "rank regs 0 p = 0"
  by (simp add: rank_def)

lemma rank_Suc: "j < length regs \<Longrightarrow>
    rank regs (Suc j) p = rank regs j p + (if reg_priority (regs ! j) = p then 1 else 0)"
  by (simp add: rank_def take_Suc_conv_app_nth)

lemma rank_mono: "i \<le> j \<Longrightarrow> rank regs i p \<le> rank regs j p"
proof -
  assume "i \<le> j"
  then obtain n where "j = i + n" using le_Suc_ex by blast
  then show ?thesis by (simp add: rank_def take_add)
qed

text \<open>Entry \<open>j\<close> finds room at its priority.\<close>

definition entry_fits :: "bool \<Rightarrow> config \<Rightarrow> task_reg list \<Rightarrow> nat \<Rightarrow> bool" where
  "entry_fits ovf c regs j \<longleftrightarrow> reg_priority (regs ! j) \<le> max_priority c \<and>
     rank regs j (reg_priority (regs ! j)) < cfg_max_coop c \<and> (ovf \<longrightarrow> j < 255)"

definition reg_inv :: "config \<Rightarrow> task_reg list \<Rightarrow> nat \<Rightarrow> u8 list \<times> 'f executor \<Rightarrow> bool" where
  "reg_inv c regs j ce \<longleftrightarrow> length (fst ce) = 32 \<and> (\<forall>p < 32. unat (fst ce ! p) = rank regs j p) \<and>
     length (registry (snd ce)) = Suc (max_priority c) \<and>
     (\<forall>p \<le> max_priority c. length (registry (snd ce) ! p) = cfg_max_coop c \<and>
        (\<forall>i < cfg_max_coop c. \<forall>x. registry (snd ce) ! p ! i = Some x \<longleftrightarrow>
           x < j \<and> reg_priority (regs ! x) = p \<and> rank regs x p = i)) \<and>
     total (snd ce) = of_nat j \<and> live_tasks (snd ce) = of_nat j"

lemma reg_inv_new: "config_ok c \<Longrightarrow> reg_inv c regs 0 (replicate 32 0, exec_new c n)"
  by (auto simp: reg_inv_def exec_new_def config_ok_def max_priority_def)

lemma reg_inv_step:
  assumes c: "config_ok c" and inv: "reg_inv c regs j (counts, e)" and j: "j < length regs"
    and fit: "entry_fits ovf c regs j"
  defines "p \<equiv> reg_priority (regs ! j)"
  shows "reg_inv c regs (Suc j) (counts[p := counts ! p + 1],
    e\<lparr>registry := (registry e)[p := (registry e ! p)[unat (counts ! p) := Some j]],
      total := total e + 1, live_tasks := live_tasks e + 1\<rparr>)"
proof -
  have p: "p \<le> max_priority c" "p < 32" "rank regs j p < cfg_max_coop c" "cfg_max_coop c \<le> 32"
    using fit c by (auto simp: entry_fits_def p_def config_ok_def max_priority_def)
  have cp: "unat (counts ! p) = rank regs j p" using inv p by (simp add: reg_inv_def)
  have cp1: "unat (counts ! p + 1) = Suc (rank regs j p)" using cp p by (simp add: unat_word_ariths)
  have old: "x < j \<Longrightarrow> reg_priority (regs ! x) = p \<Longrightarrow> rank regs x p < rank regs j p" for x
    using rank_mono [of "Suc x" j regs p] j by (simp add: rank_Suc)
  let ?R = "(registry e)[p := (registry e ! p)[unat (counts ! p) := Some j]]"
  have len: "length (registry e) = Suc (max_priority c)"
    "q \<le> max_priority c \<Longrightarrow> length (registry e ! q) = cfg_max_coop c" for q
    using inv by (auto simp: reg_inv_def)
  have row: "?R ! q = (if q = p then (registry e ! p)[rank regs j p := Some j] else registry e ! q)"
    if "q \<le> max_priority c" for q using len(1) p(1) by (simp add: nth_list_update cp)
  have cell: "?R ! q ! i = Some x \<longleftrightarrow> x < Suc j \<and> reg_priority (regs ! x) = q \<and> rank regs x q = i"
    if q: "q \<le> max_priority c" and i: "i < cfg_max_coop c" for q i x
  proof -
    have o: "registry e ! q ! i = Some x \<longleftrightarrow> x < j \<and> reg_priority (regs ! x) = q \<and> rank regs x q = i"
      using inv q i by (simp add: reg_inv_def)
    show ?thesis
    proof (cases "q = p")
      case True
      then have "?R ! q ! i = Some x \<longleftrightarrow>
          (if i = rank regs j p then x = j else registry e ! q ! i = Some x)"
        using i len(2) [OF q] unfolding row [OF q] by (auto simp: nth_list_update)
      then show ?thesis using True o old [of x] by (auto simp: less_Suc_eq p_def [symmetric])
    next
      case False
      then show ?thesis using o by (auto simp: row [OF q] less_Suc_eq p_def [symmetric])
    qed
  qed
  have cnt: "\<forall>q < 32. unat (counts[p := counts ! p + 1] ! q) = rank regs (Suc j) q"
    using inv j cp1 by (auto simp: reg_inv_def nth_list_update rank_Suc p_def [symmetric])
  have rl: "q \<le> max_priority c \<Longrightarrow> length (?R ! q) = cfg_max_coop c" for q
    using len(2) p(1) by (simp add: row)
  show ?thesis
    unfolding reg_inv_def fst_conv snd_conv executor.simps
    using inv cnt rl cell by (simp add: reg_inv_def)
qed

lemma register_tasks_spec:
  assumes "config_ok c" and "reg_inv c regs j ce" and "j \<le> length regs" and "ovf \<longrightarrow> j \<le> 255"
  shows "case register_tasks ovf c j (drop j regs) ce of
      None \<Rightarrow> \<exists>x. j \<le> x \<and> x < length regs \<and> \<not> entry_fits ovf c regs x
    | Some ce' \<Rightarrow> reg_inv c regs (length regs) ce' \<and> cells (snd ce') = cells (snd ce) \<and>
        current_task (snd ce') = current_task (snd ce) \<and>
        (\<forall>x. j \<le> x \<and> x < length regs \<longrightarrow> entry_fits ovf c regs x)"
  using assms
proof (induction "length regs - j" arbitrary: j ce)
  case 0
  then have "j = length regs" by simp
  then show ?case using "0.prems" by (auto dest: leD)
next
  case (Suc n)
  obtain counts e where ce: "ce = (counts, e)" by fastforce
  have j: "j < length regs" using Suc.hyps(2) by simp
  let ?p = "reg_priority (regs ! j)"
  have d: "drop j regs = regs ! j # drop (Suc j) regs" using j by (simp add: Cons_nth_drop_Suc)
  have cnt: "unat (counts ! ?p) = rank regs j ?p" if "?p \<le> max_priority c"
    using Suc.prems(1,2) that by (auto simp: reg_inv_def ce config_ok_def max_priority_def)
  have tot: "total e = - 1 \<longleftrightarrow> j = 255" if "ovf"
  proof -
    have "j < 256" using Suc.prems(4) that by simp
    then have "unat (total e) = j" using Suc.prems(2) by (simp add: reg_inv_def ce unat_of_nat take_bit_nat_eq_self)
    then show ?thesis
      by (auto simp: word_unat_eq_iff unsigned_minus_1_eq_mask mask_eq_exp_minus_1)
  qed
  show ?case
  proof (cases "entry_fits ovf c regs j")
    case False
    then have "register_tasks ovf c j (drop j regs) ce = None"
      using cnt tot Suc.prems(4) by (auto simp: d ce entry_fits_def Let_def)
    then show ?thesis using False j by auto
  next
    case True
    let ?ce' = "(counts[?p := counts ! ?p + 1],
      e\<lparr>registry := (registry e)[?p := (registry e ! ?p)[unat (counts ! ?p) := Some j]],
        total := total e + 1, live_tasks := live_tasks e + 1\<rparr>)"
    have r: "register_tasks ovf c j (drop j regs) ce = register_tasks ovf c (Suc j) (drop (Suc j) regs) ?ce'"
      using True cnt tot by (auto simp: d ce entry_fits_def Let_def)
    have inv: "reg_inv c regs (Suc j) ?ce'"
      using reg_inv_step [OF Suc.prems(1) _ j True] Suc.prems(2) by (simp add: ce)
    have pre: "n = length regs - Suc j" "Suc j \<le> length regs" "ovf \<longrightarrow> Suc j \<le> 255"
      using Suc.hyps(2) j True by (auto simp: entry_fits_def)
    have all: "(\<forall>x. j \<le> x \<and> x < length regs \<longrightarrow> entry_fits ovf c regs x) \<longleftrightarrow>
        (\<forall>x. Suc j \<le> x \<and> x < length regs \<longrightarrow> entry_fits ovf c regs x)"
      using True by (metis Suc_leD Suc_leI le_neq_implies_less)
    show ?thesis
      using Suc.hyps(1) [OF pre(1) Suc.prems(1) inv pre(2,3)]
      unfolding r by (auto simp: ce all split: option.splits dest: Suc_leD)
  qed
qed

section \<open>Initialisation\<close>

lemma rank_hit: "n \<le> length regs \<Longrightarrow> i < rank regs n p \<Longrightarrow>
    \<exists>j < n. reg_priority (regs ! j) = p \<and> rank regs j p = i"
proof (induction n)
  case (Suc n)
  then show ?case
    by (cases "i < rank regs n p") (auto simp: rank_Suc less_Suc_eq split: if_splits)
qed simp

lemma rank_less: "j < n \<Longrightarrow> n \<le> length regs \<Longrightarrow> reg_priority (regs ! j) = p \<Longrightarrow> rank regs j p < rank regs n p"
  using rank_mono [of "Suc j" n regs p] by (simp add: rank_Suc)

lemma mark_each_spec:
  "wk_ok k \<Longrightarrow> \<forall>t \<in> set ts. coop_id t \<Longrightarrow>
    \<exists>k'. mark_each ts k = Some k' \<and> wk_ok k' \<and> wk_ready k' = tid_pair ` set ts \<union> wk_ready k"
proof (induction ts arbitrary: k)
  case (Cons t ts)
  obtain k1 where k1: "mark_ready t k = Some k1" "wk_ok k1" "wk_ready k1 = insert (tid_pair t) (wk_ready k)"
    using mark_ready_spec [OF Cons.prems(1), of t] Cons.prems(2) by (auto simp: tid_pair_def)
  then show ?case using Cons.IH [OF k1(2)] Cons.prems(2) by auto
qed simp

text \<open>The identity the executor gives to entry \<open>j\<close> of the section.\<close>

definition entry_id :: "task_reg list \<Rightarrow> nat \<Rightarrow> nat \<times> nat" where
  "entry_id regs j = (reg_priority (regs ! j), rank regs j (reg_priority (regs ! j)))"

definition lookup_ok :: "config \<Rightarrow> task_reg list \<Rightarrow> 'f executor \<Rightarrow> bool" where
  "lookup_ok c regs e \<longleftrightarrow> (\<forall>p i j. lookup_task c p i e = Some j \<longleftrightarrow> j < length regs \<and> entry_id regs j = (p, i))"

lemma lookup_ok_cong: "registry e' = registry e \<Longrightarrow> lookup_ok c regs e' = lookup_ok c regs e"
  by (simp add: lookup_ok_def lookup_task_def)

definition live_count :: "'f executor \<Rightarrow> nat" where
  "live_count e = card {j. j < length (cells e) \<and> \<not> completed (cells e ! j)}"

definition exec_ok :: "config \<Rightarrow> task_reg list \<Rightarrow> 'f executor \<Rightarrow> bool" where
  "exec_ok c regs e \<longleftrightarrow> lookup_ok c regs e \<and> length (cells e) = length regs \<and>
     (\<forall>cl \<in> set (cells e). cell_ok cl) \<and> live_tasks e = of_nat (live_count e) \<and> current_task e = None"

lemma initial_ids_spec:
  assumes mp: "max_priority c < 32" and cnt: "\<And>p. p \<le> max_priority c \<Longrightarrow> unat (counts ! p) = rank regs (length regs) p"
    and le: "\<And>p. rank regs (length regs) p \<le> 32"
    and pr: "\<forall>j < length regs. reg_priority (regs ! j) \<le> max_priority c"
  shows "tid_pair ` set (initial_ids c counts) = entry_id regs ` {..<length regs} \<and>
    (\<forall>t \<in> set (initial_ids c counts). coop_id t)"
proof -
  let ?P = "{(p, i). p \<le> max_priority c \<and> i < rank regs (length regs) p}"
  have s: "set (initial_ids c counts) = (\<lambda>(p, i). tid_new (of_nat p) (of_nat i)) ` ?P"
    using cnt by (force simp: initial_ids_def less_Suc_eq_le)
  have b: "p < 32 \<and> i < 32" if "(p, i) \<in> ?P" for p i using that mp le [of p] by auto
  have t: "tid_pair (tid_new (of_nat p) (of_nat i)) = (p, i)" "coop_id (tid_new (of_nat p) (of_nat i))"
    if "(p, i) \<in> ?P" for p i
    using b [OF that] by (simp_all add: tid_pair_def coop_id_def tid_priority_new tid_index_new unat_u8_small)
  have a: "tid_pair ` set (initial_ids c counts) = ?P" unfolding s image_image using t(1) by (force simp: image_iff)
  have e: "?P = entry_id regs ` {..<length regs}"
  proof (intro set_eqI iffI)
    fix x assume "x \<in> ?P"
    then obtain j where "j < length regs" "entry_id regs j = x"
      using rank_hit [of "length regs" regs "snd x" "fst x"] by (auto simp: entry_id_def)
    then show "x \<in> entry_id regs ` {..<length regs}" by blast
  next
    fix x assume "x \<in> entry_id regs ` {..<length regs}"
    then show "x \<in> ?P" using pr rank_less [OF _ le_refl refl, of _ regs] by (auto simp: entry_id_def)
  qed
  have "coop_id x" if x: "x \<in> set (initial_ids c counts)" for x
  proof -
    obtain p i where pi: "(p, i) \<in> ?P" "x = tid_new (of_nat p) (of_nat i)" using x unfolding s by auto
    show ?thesis unfolding pi(2) by (rule t(2) [OF pi(1)])
  qed
  then have "\<forall>x \<in> set (initial_ids c counts). coop_id x" by blast
  then show ?thesis by (rule conjI [OF trans [OF a e]])
qed

lemma exec_init_spec:
  assumes c: "config_ok c" and k: "wk_ok k"
  shows "if \<forall>j < length regs. entry_fits ovf c regs j
    then \<exists>(e :: 'f executor) k'. exec_init ovf c regs (exec_new c (length regs), k) = Some (e, k') \<and> exec_ok c regs e \<and>
      wk_ok k' \<and> wk_ready k' = entry_id regs ` {..<length regs} \<union> wk_ready k \<and> live_count e = length regs
    else exec_init ovf c regs (exec_new c (length regs), k :: kernel) = (None :: ('f executor \<times> kernel) option)"
proof -
  let ?n = "length regs" and ?s = "(replicate 32 0, exec_new c (length regs) :: 'f executor)"
  note sp = register_tasks_spec [OF c reg_inv_new [OF c, of regs ?n, where 'a = 'f], of ovf, simplified]
  show ?thesis
  proof (cases "register_tasks ovf c 0 regs ?s")
    case None
    then show ?thesis using sp by (auto simp: exec_init_def)
  next
    case (Some ce)
    obtain counts e where ce: "ce = (counts, e)" by fastforce
    have r: "reg_inv c regs ?n (counts, e)" "cells e = replicate ?n new_cell" "current_task e = None"
      and fit: "\<forall>j < ?n. entry_fits ovf c regs j"
      using sp Some by (auto simp: ce exec_new_def)
    have mp: "max_priority c < 32" using c by (auto simp: max_priority_def config_ok_def)
    have cnt: "p \<le> max_priority c \<Longrightarrow> unat (counts ! p) = rank regs ?n p" for p
      using r(1) mp by (simp add: reg_inv_def)
    have le: "rank regs ?n p \<le> 32" for p
    proof (rule ccontr)
      assume "\<not> ?thesis"
      then obtain j where "j < ?n" "reg_priority (regs ! j) = p" "rank regs j p = 32"
        using rank_hit [of ?n regs 32 p] by auto
      then show False using fit c by (auto simp: entry_fits_def config_ok_def)
    qed
    have ids: "tid_pair ` set (initial_ids c counts) = entry_id regs ` {..<?n}"
      "\<forall>t \<in> set (initial_ids c counts). coop_id t"
      using initial_ids_spec [OF mp cnt le] fit by (auto simp: entry_fits_def)
    obtain k' where k': "mark_each (initial_ids c counts) k = Some k'" "wk_ok k'"
      "wk_ready k' = entry_id regs ` {..<?n} \<union> wk_ready k"
      using mark_each_spec [OF k ids(2)] ids(1) by auto
    let ?e = "e\<lparr>count_per_priority := take (max_priority c + 1) counts\<rparr>"
    have lc: "live_count ?e = ?n" using r(2) by (simp add: live_count_def new_cell_def cong: conj_cong)
    have "lookup_ok c regs ?e"
      using r(1) fit by (auto simp: lookup_ok_def lookup_task_def entry_id_def reg_inv_def entry_fits_def)
    then have "exec_ok c regs ?e"
      using r lc by (auto simp: exec_ok_def reg_inv_def cell_ok_new)
    then show ?thesis using Some k' fit lc by (auto simp: exec_init_def ce)
  qed
qed

section \<open>The executor keeps its books\<close>

text \<open>
  Every future fits its cell, and a poll leaves the ready words of the waker well formed.
\<close>

definition sizes_ok :: "task_reg list \<Rightarrow> bool" where
  "sizes_ok regs \<longleftrightarrow> (\<forall>r \<in> set regs. reg_size r \<le> reg_cap r \<and> reg_align r \<le> TASK_CELL_ALIGN)"

definition steps_ok :: "(nat \<Rightarrow> task_id \<Rightarrow> 'f \<Rightarrow> kernel \<Rightarrow> unit poll \<times> 'f \<times> kernel) \<Rightarrow> bool" where
  "steps_ok step \<longleftrightarrow> (\<forall>j t f k. wk_ok k \<longrightarrow> wk_ok (snd (snd (step j t f k))))"

lemma live_count_update:
  assumes "j < length (cells e)" and "\<not> completed (cells e ! j)"
  shows "live_count (e\<lparr>cells := (cells e)[j := cl], current_task := u\<rparr>) =
    (if completed cl then live_count e - 1 else live_count e)" "0 < live_count e"
proof -
  let ?L = "{i. i < length (cells e) \<and> \<not> completed (cells e ! i)}"
  have fin: "finite ?L" by simp
  have j: "j \<in> ?L" using assms by simp
  have "{i. i < length (cells e) \<and> \<not> completed ((cells e)[j := cl] ! i)} =
      (if completed cl then ?L - {j} else ?L)"
    using assms by (auto simp: nth_list_update split: if_splits)
  then show "live_count (e\<lparr>cells := (cells e)[j := cl], current_task := u\<rparr>) =
      (if completed cl then live_count e - 1 else live_count e)"
    using fin j by (simp add: live_count_def)
  show "0 < live_count e" using fin j by (auto simp: live_count_def card_gt_0_iff)
qed

text \<open>What a turn does to task \<open>j\<close>: nothing once it completed, or one poll of its future.\<close>

definition polled_once :: "(nat \<Rightarrow> 'f) \<Rightarrow> nat \<Rightarrow> ('f \<Rightarrow> kernel \<Rightarrow> unit poll \<times> 'f \<times> kernel) \<Rightarrow>
    'f executor \<Rightarrow> kernel \<Rightarrow> 'f executor \<Rightarrow> kernel \<Rightarrow> bool" where
  "polled_once fut0 j step e k e' k' \<longleftrightarrow>
    (\<exists>f. f = (if initialized (cells e ! j) then the (cell_future (cells e ! j)) else fut0 j) \<and>
      k' = snd (snd (step f k)) \<and>
      cells e' = (cells e)[j := (if fst (step f k) = Done ()
        then \<lparr>cell_future = None, initialized = True, completed = True\<rparr>
        else \<lparr>cell_future = Some (fst (snd (step f k))), initialized = True, completed = False\<rparr>)])"

definition turn_ok :: "config \<Rightarrow> task_reg list \<Rightarrow> (nat \<Rightarrow> 'f) \<Rightarrow>
    (nat \<Rightarrow> task_id \<Rightarrow> 'f \<Rightarrow> kernel \<Rightarrow> unit poll \<times> 'f \<times> kernel) \<Rightarrow>
    'f executor \<Rightarrow> kernel \<Rightarrow> bool \<Rightarrow> 'f executor \<Rightarrow> kernel \<Rightarrow> bool" where
  "turn_ok c regs fut0 step e k go e' k' \<longleftrightarrow>
    (case next_ready k of
       (None, _) \<Rightarrow> \<not> go \<and> e' = e \<and> k' = k
     | (Some t, k1) \<Rightarrow> go \<and>
         (if \<exists>j < length regs. entry_id regs j = tid_pair t \<and> \<not> completed (cells e ! j)
          then \<exists>j < length regs. entry_id regs j = tid_pair t \<and> \<not> completed (cells e ! j) \<and>
            polled_once fut0 j (step j t) e k1 e' k'
          else e' = e \<and> k' = k1))"

text \<open>One poll of the task in cell \<open>j\<close>, whose future is created first if need be.\<close>

lemma poll_once:
  assumes ok: "exec_ok c regs e" and sz: "sizes_ok regs" and st: "steps_ok step" and k: "wk_ok k"
    and j: "j < length regs" "\<not> completed (cells e ! j)"
  shows "\<exists>r cl k2. cell_poll (reg_cap (regs ! j)) (reg_size (regs ! j)) (reg_align (regs ! j))
      (fut0 j) (step j t) (cells e ! j, k) = Some (r, cl, k2) \<and> wk_ok k2 \<and>
    (let e2 = e\<lparr>cells := (cells e)[j := cl], current_task := None\<rparr>;
         e3 = (if r = Done () then e2\<lparr>live_tasks := live_tasks e - 1\<rparr> else e2)
     in exec_ok c regs e3 \<and> polled_once fut0 j (step j t) e k e3 k2)"
proof -
  have jc: "j < length (cells e)" "cell_ok (cells e ! j)" using ok j(1) by (auto simp: exec_ok_def)
  have jsz: "reg_size (regs ! j) \<le> reg_cap (regs ! j)" "reg_align (regs ! j) \<le> TASK_CELL_ALIGN"
    using sz j(1) by (auto simp: sizes_ok_def)
  let ?f = "if initialized (cells e ! j) then the (cell_future (cells e ! j)) else fut0 j"
  obtain r cl k2 where p: "cell_poll (reg_cap (regs ! j)) (reg_size (regs ! j)) (reg_align (regs ! j))
      (fut0 j) (step j t) (cells e ! j, k) = Some (r, cl, k2)"
    and cl: "cell_ok cl" "initialized cl" "r = Done () \<longleftrightarrow> completed cl" "r = fst (step j t ?f k)"
      "k2 = snd (snd (step j t ?f k))" "cell_future cl = (if r = Done () then None else Some (fst (snd (step j t ?f k))))"
    using cell_poll_spec [OF jc(2) jsz, of "fut0 j" "step j t" k] j(2) by (auto split: if_splits)
  let ?e2 = "e\<lparr>cells := (cells e)[j := cl], current_task := None\<rparr>"
  let ?e3 = "if r = Done () then ?e2\<lparr>live_tasks := live_tasks e - 1\<rparr> else ?e2"
  have "lookup_ok c regs ?e3" "length (cells ?e3) = length regs" "current_task ?e3 = None"
    using ok lookup_ok_cong [of ?e3 e c regs] by (simp_all add: exec_ok_def)
  moreover have "\<forall>x \<in> set (cells ?e3). cell_ok x"
    using ok cl(1) by (auto simp: exec_ok_def dest!: set_update_subset_insert [THEN subsetD])
  moreover have "live_tasks ?e3 = of_nat (live_count ?e3)"
  proof -
    have n: "live_tasks e = of_nat (live_count e)" using ok by (simp add: exec_ok_def)
    have "live_count (?e2\<lparr>live_tasks := v\<rparr>) = live_count ?e2" for v by (simp add: live_count_def)
    then show ?thesis
      using live_count_update(1) [OF jc(1) j(2), of None cl] live_count_update(2) [OF jc(1) j(2)] cl(3) n
      by (auto simp: of_nat_diff Suc_leI)
  qed
  ultimately have "exec_ok c regs ?e3" by (simp add: exec_ok_def)
  moreover have "cl = \<lparr>cell_future = cell_future cl, initialized = True, completed = (r = Done ())\<rparr>"
    by (rule task_cell.equality) (use cl in simp_all)
  then have "polled_once fut0 j (step j t) e k ?e3 k2"
    unfolding polled_once_def using cl(4-6) by (intro exI [of _ ?f]) (auto split: if_splits)
  moreover have "wk_ok k2" using cl(5) st k by (auto simp: steps_ok_def)
  ultimately show ?thesis using p by (auto simp: Let_def)
qed

lemma run_one_spec:
  assumes ok: "exec_ok c regs e" and k: "wk_ok k" and sz: "sizes_ok regs" and st: "steps_ok step"
  shows "\<exists>go e' k'. run_one c regs fut0 step (e, k) = Some (go, e', k') \<and> exec_ok c regs e' \<and>
    wk_ok k' \<and> turn_ok c regs fut0 step e k go e' k'"
proof (cases "fst (next_ready k)")
  case None
  then show ?thesis using next_ready_spec [OF k] ok k
    by (cases "next_ready k") (auto simp: run_one_def turn_ok_def)
next
  case (Some t)
  then obtain k1 where Pair: "next_ready k = (Some t, k1)" by (cases "next_ready k") auto
  have k1: "wk_ok k1" "coop_id t" using next_ready_spec [OF k] Pair by auto
  have lk: "lookup_task c (unat (tid_priority t)) (unat (tid_index t)) e = Some j \<longleftrightarrow>
      j < length regs \<and> entry_id regs j = tid_pair t" for j
    using ok by (simp add: exec_ok_def lookup_ok_def tid_pair_def)
  show ?thesis
  proof (cases "\<exists>j < length regs. entry_id regs j = tid_pair t \<and> \<not> completed (cells e ! j)")
    case False
    have "run_one c regs fut0 step (e, k) = Some (True, e, k1)"
      using False lk by (auto simp: run_one_def Pair split: option.splits)
    then show ?thesis using False ok k1 by (auto simp: turn_ok_def Pair)
  next
    case True
    then obtain j where j: "j < length regs" "entry_id regs j = tid_pair t" "\<not> completed (cells e ! j)"
      by blast
    obtain d where d: "encode_waker_data t = Some d"
      using k1(2) encode_total [of t] by (auto simp: coop_id_def)
    obtain r cl k2 where p: "cell_poll (reg_cap (regs ! j)) (reg_size (regs ! j)) (reg_align (regs ! j))
        (fut0 j) (step j t) (cells e ! j, k1) = Some (r, cl, k2)" "wk_ok k2"
      and e3: "let e2 = e\<lparr>cells := (cells e)[j := cl], current_task := None\<rparr>;
           e3 = (if r = Done () then e2\<lparr>live_tasks := live_tasks e - 1\<rparr> else e2)
         in exec_ok c regs e3 \<and> polled_once fut0 j (step j t) e k1 e3 k2"
      using poll_once [OF ok sz st k1(1) j(1,3)] by blast
    let ?e2 = "e\<lparr>cells := (cells e)[j := cl], current_task := None\<rparr>"
    let ?e3 = "if r = Done () then ?e2\<lparr>live_tasks := live_tasks e - 1\<rparr> else ?e2"
    have "run_one c regs fut0 step (e, k) = Some (True, ?e3, k2)"
      using lk [of j] j p(1) d by (simp add: run_one_def Pair Let_def)
    then show ?thesis using e3 p(2) j by (auto simp: turn_ok_def Pair Let_def)
  qed
qed

text \<open>
  The executor started on a section, and any number of turns of its loop, with any change of
  the kernel by interrupts and preemptive tasks in between that keeps the waker words formed.
\<close>

inductive exec_reach :: "config \<Rightarrow> task_reg list \<Rightarrow> (nat \<Rightarrow> 'f) \<Rightarrow>
    (nat \<Rightarrow> task_id \<Rightarrow> 'f \<Rightarrow> kernel \<Rightarrow> unit poll \<times> 'f \<times> kernel) \<Rightarrow> 'f executor \<Rightarrow> kernel \<Rightarrow> bool"
  for c regs fut0 step where
  init: "wk_ok k \<Longrightarrow> exec_init ovf c regs (exec_new c (length regs), k) = Some (e, k') \<Longrightarrow>
    exec_reach c regs fut0 step e k'"
| turn: "exec_reach c regs fut0 step e k \<Longrightarrow> wk_ok k1 \<Longrightarrow>
    run_one c regs fut0 step (e, k1) = Some (b, e', k') \<Longrightarrow> exec_reach c regs fut0 step e' k'"

lemma exec_reach_ok:
  assumes "exec_reach c regs fut0 step e k" and "config_ok c" and "sizes_ok regs" and "steps_ok step"
  shows "exec_ok c regs e \<and> wk_ok k"
  using assms(1)
proof (induction rule: exec_reach.induct)
  case (init k ovf e k')
  then show ?case using exec_init_spec [OF assms(2) init(1), of regs ovf, where 'f = 'a]
    by (auto split: if_splits)
next
  case (turn e k k1 b e' k')
  then show ?case using run_one_spec [OF _ turn(2) assms(3,4), of c e fut0] by auto
qed

section \<open>A pass over quiet tasks ends\<close>

text \<open>
  When polling marks no task, a pass polls until no task is marked and then idles. The turns
  are as many as there are marked tasks.
\<close>

definition quiet_steps :: "(nat \<Rightarrow> task_id \<Rightarrow> 'f \<Rightarrow> kernel \<Rightarrow> unit poll \<times> 'f \<times> kernel) \<Rightarrow> bool" where
  "quiet_steps step \<longleftrightarrow> (\<forall>j t f k. wk_words (snd (snd (step j t f k))) = wk_words k \<and>
     wk_pend (snd (snd (step j t f k))) = wk_pend k)"

lemma quiet_steps_ok: "quiet_steps step \<Longrightarrow> steps_ok step"
  by (simp add: quiet_steps_def steps_ok_def wk_ok_def)

lemma next_ready_pend: "wk_pend (snd (next_ready k)) = wk_pend k"
  by (simp add: next_ready_def Let_def)

lemma run_ready_ends:
  assumes "quiet_steps step" and "sizes_ok regs"
  shows "exec_ok c regs e \<Longrightarrow> wk_ok k \<Longrightarrow> wk_pend k = 0 \<Longrightarrow>
    \<exists>e' k'. run_ready (run_one c regs fut0 step) (e, k) = Some (e', k') \<and> exec_ok c regs e' \<and>
      wk_ok k' \<and> wk_ready k' = {} \<and> wk_pend k' = 0"
proof (induction "card (wk_ready k)" arbitrary: e k rule: less_induct)
  case less
  obtain go e1 k1 where r: "run_one c regs fut0 step (e, k) = Some (go, e1, k1)" "exec_ok c regs e1"
    "wk_ok k1" "turn_ok c regs fut0 step e k go e1 k1"
    using run_one_spec [OF less.prems(1,2) assms(2) quiet_steps_ok [OF assms(1)], of fut0] by blast
  note nr = next_ready_spec [OF less.prems(2)] and np = next_ready_pend [of k]
  show ?case
  proof (cases "next_ready k")
    case (Pair t k0)
    show ?thesis
    proof (cases t)
      case None
      then have "\<not> go" "e1 = e" "k1 = k" "wk_ready k = {}" using r(4) nr Pair by (auto simp: turn_ok_def)
      then show ?thesis using r less.prems by (subst run_ready.simps) auto
    next
      case (Some id)
      have g: "go" using r(4) Pair Some by (simp add: turn_ok_def)
      have w: "wk_words k1 = wk_words k0" "wk_pend k1 = wk_pend k0"
        using r(4) assms(1) by (auto simp: turn_ok_def Pair Some quiet_steps_def polled_once_def split: if_splits)
      have "tid_pair id \<in> wk_ready k" "wk_ready k0 = wk_ready k - {tid_pair id}"
        using nr Pair Some by (auto simp: tid_pair_def)
      moreover have "wk_ready k1 = wk_ready k0" by (simp add: wk_ready_def w(1))
      ultimately have "card (wk_ready k1) < card (wk_ready k)"
        using card_Diff1_less [OF wk_ready_finite [OF less.prems(2)], of "tid_pair id"] by simp
      moreover have "wk_pend k1 = 0" using w(2) np less.prems(3) by (simp add: Pair)
      ultimately obtain e' k' where "run_ready (run_one c regs fut0 step) (e1, k1) = Some (e', k')"
        "exec_ok c regs e'" "wk_ok k'" "wk_ready k' = {}" "wk_pend k' = 0"
        using less.hyps [OF _ r(2,3)] by blast
      then show ?thesis using r(1) g by (subst run_ready.simps) simp
    qed
  qed
qed

lemma run_pass_idles:
  assumes "quiet_steps step" and "sizes_ok regs" and "exec_ok c regs e" and "wk_ok k"
  shows "\<exists>e' k'. run_pass c regs fut0 step (e, k) = Some (True, e', k') \<and> exec_ok c regs e' \<and>
    wk_ready k' = {}"
proof -
  have "wk_ok (clear_pend k)" "wk_pend (clear_pend k) = 0"
    using assms(4) by (simp_all add: clear_pend_def wk_ok_def wk_words_def)
  then obtain e' k' where r: "run_ready (run_one c regs fut0 step) (e, clear_pend k) = Some (e', k')"
    "exec_ok c regs e'" "wk_ok k'" "wk_ready k' = {}" "wk_pend k' = 0"
    using run_ready_ends [OF assms(1,2,3)] by blast
  have "wk_bitmap k' = 0"
    using rb_top_None [of "wk_words k'"] r(3,4)
    by (auto simp: wk_ok_def wk_ready_def rb.members_def rb_top_def wk_words_def split: if_splits)
  then show ?thesis using r by (simp add: run_pass_def has_pending_def)
qed

end
