(* ===== verification/Props_Coop.thy ===== *)
theory Props_Coop
  imports Demo Executor
begin

text \<open>
  The properties of the cooperative executor, applied to a section of three tasks, two of
  them at the same priority, whose futures count down to completion.
\<close>

section \<open>A small section\<close>

definition demo_regs :: "task_reg list" where
  "demo_regs = [\<lparr>reg_priority = 3, reg_cap = 512, reg_size = 40, reg_align = 8\<rparr>,
     \<lparr>reg_priority = 0, reg_cap = 256, reg_size = 256, reg_align = 16\<rparr>,
     \<lparr>reg_priority = 3, reg_cap = 512, reg_size = 16, reg_align = 4\<rparr>]"

definition demo_fut :: "nat \<Rightarrow> nat" where
  "demo_fut j = j"

definition demo_step :: "nat \<Rightarrow> task_id \<Rightarrow> nat \<Rightarrow> kernel \<Rightarrow> unit poll \<times> nat \<times> kernel" where
  "demo_step j t f k = (if f = 0 then Done () else Pending, f - 1, k)"

lemma demo_regs_sizes: "sizes_ok demo_regs"
  by (simp add: sizes_ok_def demo_regs_def TASK_CELL_ALIGN_def)

lemma demo_step_quiet: "quiet_steps demo_step"
  by (simp add: quiet_steps_def demo_step_def)

lemma demo_regs_fit: "\<forall>j < length demo_regs. entry_fits True demo_config demo_regs j"
  by (simp add: demo_regs_def entry_fits_def rank_def less_Suc_eq max_priority_def demo_config_def)

lemma wk_ok_boot: "wk_ok (boot_kernel c n)" "wk_ready (boot_kernel c n) = {}"
  using timers_ok_boot [of c n]
  by (simp_all add: timers_ok_def wk_ready_def boot_words rb.members_def rb_mem_def)

lemma demo_executor:
  obtains e :: "nat executor" and k where
    "exec_init True demo_config demo_regs (exec_new demo_config (length demo_regs), demo_boot) = Some (e, k)"
    "exec_reach demo_config demo_regs demo_fut demo_step e k"
    "wk_ready k = {(3, 0), (0, 0), (3, 1)}"
proof -
  have b: "wk_ok demo_boot" "wk_ready demo_boot = {}"
    by (simp_all add: demo_boot_def wk_ok_boot)
  obtain e :: "nat executor" and k where i:
    "exec_init True demo_config demo_regs (exec_new demo_config (length demo_regs), demo_boot) = Some (e, k)"
    "wk_ready k = entry_id demo_regs ` {..<length demo_regs} \<union> wk_ready demo_boot"
    using exec_init_spec [OF demo_config_ok b(1), of demo_regs True] demo_regs_fit by auto
  have "entry_id demo_regs ` {..<length demo_regs} = {(3, 0), (0, 0), (3, 1)}"
    by (simp add: demo_regs_def entry_id_def rank_def lessThan_Suc insert_commute)
  then show ?thesis using that i b exec_reach.init [OF b(1) i(1)] by simp
qed

section \<open>Properties\<close>

text \<open>
  Starting the executor on the tasks of the linker section succeeds exactly when every
  task's priority is configured, no priority has more than \<open>MAX_TASKS\<close> tasks, and (with
  overflow checks) there are at most 255 tasks. Then each task is found under its priority
  and its rank among the tasks of that priority, each is marked to be polled once, none has
  completed, and the live count is the number of tasks.
\<close>
theorem executor_registers_every_task:
  fixes k :: kernel
  assumes "config_ok c" and "wk_ok k"
  shows "if \<forall>j < length regs. reg_priority (regs ! j) \<le> max_priority c \<and>
      rank regs j (reg_priority (regs ! j)) < cfg_max_coop c \<and> (ovf \<longrightarrow> j < 255)
    then \<exists>e k'. exec_init ovf c regs (exec_new c (length regs) :: 'f executor, k) = Some (e, k') \<and>
      (\<forall>p i j. lookup_task c p i e = Some j \<longleftrightarrow>
         j < length regs \<and> reg_priority (regs ! j) = p \<and> rank regs j p = i) \<and>
      wk_ready k' = (\<lambda>j. (reg_priority (regs ! j), rank regs j (reg_priority (regs ! j)))) ` {..<length regs} \<union> wk_ready k \<and>
      live_tasks e = of_nat (length regs) \<and> live_count e = length regs
    else exec_init ovf c regs (exec_new c (length regs) :: 'f executor, k) = None"
  using exec_init_spec [OF assms(1,2), of regs ovf, where 'f = 'f]
  by (auto simp: entry_fits_def entry_id_def exec_ok_def lookup_ok_def split: if_splits)

theorem executor_registers_every_task_witness:
  "\<exists>e k'. exec_init True demo_config demo_regs
      (exec_new demo_config (length demo_regs) :: nat executor, demo_boot) = Some (e, k') \<and>
    lookup_task demo_config 3 1 e = Some 2 \<and> live_tasks e = 3"
proof -
  have "\<forall>j < length demo_regs. reg_priority (demo_regs ! j) \<le> max_priority demo_config \<and>
      rank demo_regs j (reg_priority (demo_regs ! j)) < cfg_max_coop demo_config \<and> (True \<longrightarrow> j < 255)"
    using demo_regs_fit by (simp add: entry_fits_def)
  moreover have "reg_priority (demo_regs ! 2) = 3" "rank demo_regs 2 3 = 1" "length demo_regs = 3"
    by (simp_all add: demo_regs_def rank_def)
  moreover have "wk_ok demo_boot" by (simp add: demo_boot_def wk_ok_boot)
  ultimately show ?thesis
    using executor_registers_every_task [OF demo_config_ok, of demo_boot demo_regs True, where 'f = nat]
    by auto
qed

text \<open>
  C17: whatever interrupts and preemptive tasks do to the kernel between the turns of the
  executor's loop, no turn panics or polls a future that does not exist: a turn takes the
  most urgent marked task and polls its future once, creating it on the first poll and
  dropping it on completion, or does nothing to a task that has completed; the live count is
  always the number of tasks that have not completed.
\<close>
theorem executor_polls_live_futures_only:
  assumes "exec_reach c regs fut0 step e k" and "config_ok c" and "sizes_ok regs" and "steps_ok step"
  shows "live_tasks e = of_nat (card {j. j < length regs \<and> \<not> completed (cells e ! j)}) \<and>
    (\<forall>k1. wk_ok k1 \<longrightarrow> (\<exists>go e' k'. run_one c regs fut0 step (e, k1) = Some (go, e', k') \<and>
       turn_ok c regs fut0 step e k1 go e' k'))"
proof -
  have ok: "exec_ok c regs e" using exec_reach_ok [OF assms] by blast
  then show ?thesis
    using run_one_spec [OF ok _ assms(3,4), of _ fut0]
    by (fastforce simp: exec_ok_def live_count_def)
qed

theorem executor_polls_live_futures_only_witness:
  "\<exists>(e :: nat executor) k. exec_reach demo_config demo_regs demo_fut demo_step e k \<and>
    (\<exists>go e' k'. run_one demo_config demo_regs demo_fut demo_step (e, k) = Some (go, e', k') \<and>
      turn_ok demo_config demo_regs demo_fut demo_step e k go e' k')"
proof -
  obtain e :: "nat executor" and k where r: "exec_reach demo_config demo_regs demo_fut demo_step e k"
    using demo_executor by metis
  have "wk_ok k" using exec_reach_ok [OF r demo_config_ok demo_regs_sizes quiet_steps_ok [OF demo_step_quiet]] by blast
  then show ?thesis
    using executor_polls_live_futures_only [OF r demo_config_ok demo_regs_sizes quiet_steps_ok [OF demo_step_quiet]] r
    by blast
qed

text \<open>
  C18: when polling marks no further task, a pass of the executor's loop ends: it leaves no
  task marked and lets the processor idle.
\<close>
theorem executor_goes_idle:
  assumes "exec_reach c regs fut0 step e k" and "config_ok c" and "sizes_ok regs" and "quiet_steps step"
    and "wk_ok k1"
  shows "\<exists>e' k'. run_pass c regs fut0 step (e, k1) = Some (True, e', k') \<and> wk_ready k' = {}"
proof -
  have "exec_ok c regs e" using exec_reach_ok [OF assms(1-3) quiet_steps_ok [OF assms(4)]] by blast
  then show ?thesis using run_pass_idles [OF assms(4,3) _ assms(5)] by blast
qed

theorem executor_goes_idle_witness:
  "\<exists>(e :: nat executor) k e' k'. exec_reach demo_config demo_regs demo_fut demo_step e k \<and>
    wk_ready k = {(3, 0), (0, 0), (3, 1)} \<and>
    run_pass demo_config demo_regs demo_fut demo_step (e, k) = Some (True, e', k') \<and> wk_ready k' = {}"
proof -
  obtain e :: "nat executor" and k where r: "exec_reach demo_config demo_regs demo_fut demo_step e k"
    "wk_ready k = {(3, 0), (0, 0), (3, 1)}"
    using demo_executor by metis
  have "wk_ok k" using exec_reach_ok [OF r(1) demo_config_ok demo_regs_sizes quiet_steps_ok [OF demo_step_quiet]] by blast
  then obtain e' k' where "run_pass demo_config demo_regs demo_fut demo_step (e, k) = Some (True, e', k')"
    "wk_ready k' = {}"
    using executor_goes_idle [OF r(1) demo_config_ok demo_regs_sizes demo_step_quiet] by blast
  with r show ?thesis by (intro exI conjI)
qed

end
