(* ===== verification/Semaphore.thy ===== *)
theory Semaphore
  imports Channel
begin

text \<open>
  The counting semaphore (\<open>rivet/src/sync/semaphore.rs\<close>): an 8-bit count and one waiter word
  per priority. A compare-exchange loop is its successful iteration, the only one that
  writes. \<open>release\<close> is composed of its two writes, the claim of a waiter bit and the store
  of the count, because they are separate atomics.
\<close>

section \<open>The operations\<close>

record semaphore =
  count :: u8
  sem_waiters :: "u32 list"

definition new_semaphore :: "u8 \<Rightarrow> semaphore" where
  "new_semaphore initial = \<lparr>count = initial, sem_waiters = replicate 32 0\<rparr>"

definition sem_try_acquire :: "semaphore \<Rightarrow> bool \<times> semaphore" where
  "sem_try_acquire s = (if count s = 0 then (False, s) else (True, s\<lparr>count := count s - 1\<rparr>))"

text \<open>Indexing by a priority above 31 panics, and so does the shift by an index above 31.\<close>

definition sem_register :: "task_id \<Rightarrow> semaphore \<Rightarrow> semaphore option" where
  "sem_register t s =
    (let p = unat (tid_priority t); i = unat (tid_index t)
     in if p < 32 \<and> i < 32
        then Some (s\<lparr>sem_waiters := upd_at p (\<lambda>q. q OR shl1 i) (sem_waiters s)\<rparr>) else None)"

definition sem_remove :: "task_id \<Rightarrow> semaphore \<Rightarrow> semaphore option" where
  "sem_remove t s =
    (let p = unat (tid_priority t); i = unat (tid_index t)
     in if p < 32 \<and> i < 32
        then Some (s\<lparr>sem_waiters := upd_at p (\<lambda>q. q AND NOT (shl1 i)) (sem_waiters s)\<rparr>) else None)"

fun claim_scan :: "nat list \<Rightarrow> semaphore \<Rightarrow> task_id option \<times> semaphore" where
  "claim_scan [] s = (None, s)"
| "claim_scan (p # ps) s =
    (let q = sem_waiters s ! p
     in if q = 0 then claim_scan ps s
        else let b = lowest_bit q
             in (Some (tid_new (of_nat p) (of_nat (trailing_zeros b))),
                 s\<lparr>sem_waiters := (sem_waiters s)[p := q AND NOT b]\<rparr>))"

definition release_claim :: "semaphore \<Rightarrow> task_id option \<times> semaphore" where
  "release_claim s = claim_scan (rev [0..<32]) s"

definition release_store :: "semaphore \<Rightarrow> semaphore" where
  "release_store s = s\<lparr>count := 1\<rparr>"

definition release_count :: "u8 \<Rightarrow> semaphore \<Rightarrow> semaphore" where
  "release_count mx s = (if mx \<le> count s then s else s\<lparr>count := count s + 1\<rparr>)"

definition release :: "nat \<Rightarrow> u8 \<Rightarrow> semaphore \<Rightarrow> kernel \<Rightarrow> (semaphore \<times> kernel) option" where
  "release h mx s k =
    (case release_claim s of
       (None, s1) \<Rightarrow> Some (release_count mx s1, k)
     | (Some t, s1) \<Rightarrow> map_option (\<lambda>k1. (release_store s1, k1)) (wake_task h t k))"

text \<open>The future keeps the identity it registered.\<close>

definition acquire_poll ::
    "task_id option \<Rightarrow> task_id option \<Rightarrow> semaphore \<Rightarrow> (unit poll \<times> task_id option \<times> semaphore) option" where
  "acquire_poll me reg s =
    (case sem_try_acquire s of
       (True, s1) \<Rightarrow> Some (Done (), reg, s1)
     | (False, s1) \<Rightarrow> do {
         t \<leftarrow> me;
         s2 \<leftarrow> sem_register t s1;
         (case sem_try_acquire s2 of
            (True, s3) \<Rightarrow> map_option (\<lambda>s4. (Done (), None, s4)) (sem_remove t s3)
          | (False, s3) \<Rightarrow> Some (Pending, Some t, s3))
       })"

definition acquire_drop :: "task_id option \<Rightarrow> semaphore \<Rightarrow> semaphore option" where
  "acquire_drop reg s = (case reg of None \<Rightarrow> Some s | Some t \<Rightarrow> sem_remove t s)"

section \<open>The waiting set\<close>

definition sem_ok :: "semaphore \<Rightarrow> bool" where
  "sem_ok s \<longleftrightarrow> length (sem_waiters s) = 32"

definition sem_waiting :: "semaphore \<Rightarrow> (nat \<times> nat) set" where
  "sem_waiting s = {(p, i). p < 32 \<and> bit (sem_waiters s ! p) i}"

lemma waiting_cong [simp]: "sem_waiting (s\<lparr>count := c\<rparr>) = sem_waiting s"
  by (simp add: sem_waiting_def)

lemma sem_ok_cong [simp]: "sem_ok (s\<lparr>count := c\<rparr>) = sem_ok s"
  by (simp add: sem_ok_def)

lemma sem_register_spec:
  "sem_ok s \<Longrightarrow> coop_id t \<Longrightarrow> \<exists>s'. sem_register t s = Some s' \<and> sem_ok s' \<and> count s' = count s \<and>
    sem_waiting s' = insert (coop_pair t) (sem_waiting s)"
  by (auto simp: sem_register_def coop_id_def sem_ok_def sem_waiting_def coop_pair_def nth_upd_at
      bit_set_bit split: if_splits)

lemma sem_remove_spec:
  "sem_ok s \<Longrightarrow> coop_id t \<Longrightarrow> \<exists>s'. sem_remove t s = Some s' \<and> sem_ok s' \<and> count s' = count s \<and>
    sem_waiting s' = sem_waiting s - {coop_pair t}"
  by (auto simp: sem_remove_def coop_id_def sem_ok_def sem_waiting_def coop_pair_def nth_upd_at
      bit_clear_bit' split: if_splits)

text \<open>The claim takes the lowest index of the highest priority that has a waiter.\<close>

definition first_waiter :: "(nat \<times> nat) set \<Rightarrow> nat \<times> nat \<Rightarrow> bool" where
  "first_waiter W w \<longleftrightarrow> w \<in> W \<and>
     (\<forall>(p, i) \<in> W. p < fst w \<or> (p = fst w \<and> snd w \<le> i))"

lemma first_waiter_unique: "first_waiter W a \<Longrightarrow> first_waiter W b \<Longrightarrow> a = b"
  by (cases a; cases b) (force simp: first_waiter_def)

lemma claim_scan_spec:
  assumes "sem_ok s" and "\<forall>p \<in> set ps. p < 32" and "sorted_wrt (>) ps"
    and "\<forall>(p, i) \<in> sem_waiting s. p \<in> set ps"
  shows "case claim_scan ps s of
      (None, s') \<Rightarrow> s' = s \<and> sem_waiting s = {}
    | (Some t, s') \<Rightarrow> first_waiter (sem_waiting s) (coop_pair t) \<and> coop_id t \<and> sem_ok s' \<and>
        count s' = count s \<and> sem_waiting s' = sem_waiting s - {coop_pair t}"
  using assms
proof (induction ps s rule: claim_scan.induct)
  case (1 s)
  then show ?case by auto
next
  case (2 p ps s)
  let ?q = "sem_waiters s ! p"
  show ?case
  proof (cases "?q = 0")
    case True
    then have "\<forall>(r, i) \<in> sem_waiting s. r \<in> set ps" using 2(5) by (auto simp: sem_waiting_def)
    then show ?thesis using 2 True by simp
  next
    case False
    define i where "i = trailing_zeros ?q"
    have i: "i < 32" "bit ?q i" using trailing_zeros_less [OF False] trailing_zeros_set [OF False]
      by (auto simp: i_def)
    have p: "p < 32" using 2(3) by simp
    have lb: "lowest_bit ?q = shl1 i" using lowest_bit_eq [OF False] by (simp add: i_def)
    let ?t = "tid_new (of_nat p) (of_nat i)"
    have t: "coop_pair ?t = (p, i)" using p i by (simp add: coop_pair_def unat_u8_small)
    have first: "r < p \<or> (r = p \<and> i \<le> j)" if "(r, j) \<in> sem_waiting s" for r j
      using that 2(4,5) trailing_zeros_min [of ?q j] by (fastforce simp: sem_waiting_def i_def)
    have eq: "claim_scan (p # ps) s = (Some ?t, s\<lparr>sem_waiters := (sem_waiters s)[p := ?q AND NOT (shl1 i)]\<rparr>)"
      using False lb trailing_zeros_shl1 [OF i(1)] by (simp add: Let_def)
    have "(p, i) \<in> sem_waiting s" using p i by (simp add: sem_waiting_def)
    moreover have "sem_waiting (s\<lparr>sem_waiters := (sem_waiters s)[p := ?q AND NOT (shl1 i)]\<rparr>) =
        sem_waiting s - {(p, i)}"
      using p 2(2) by (auto simp: sem_waiting_def nth_list_update bit_clear_bit' sem_ok_def split: if_splits)
    ultimately show ?thesis
      unfolding eq using first t p i 2(2)
      by (auto simp: first_waiter_def coop_id_def unat_u8_small sem_ok_def)
  qed
qed

lemma release_claim_spec:
  assumes "sem_ok s"
  shows "case release_claim s of
      (None, s') \<Rightarrow> s' = s \<and> sem_waiting s = {}
    | (Some t, s') \<Rightarrow> first_waiter (sem_waiting s) (coop_pair t) \<and> coop_id t \<and> sem_ok s' \<and>
        count s' = count s \<and> sem_waiting s' = sem_waiting s - {coop_pair t}"
proof -
  have "sorted_wrt (>) (rev [0..<32])" by (simp add: sorted_wrt_rev)
  moreover have "\<forall>(p, i) \<in> sem_waiting s. p \<in> set (rev [0..<32])" by (auto simp: sem_waiting_def)
  ultimately show ?thesis unfolding release_claim_def by (intro claim_scan_spec [OF assms]) auto
qed

definition sem_released :: "u8 \<Rightarrow> semaphore \<Rightarrow> kernel \<Rightarrow> semaphore \<Rightarrow> kernel \<Rightarrow> bool" where
  "sem_released mx s k s' k' \<longleftrightarrow> sem_ok s' \<and> wk_ok k' \<and>
     (if sem_waiting s = {}
      then s' = s\<lparr>count := (if mx \<le> count s then count s else count s + 1)\<rparr> \<and> k' = k
      else \<exists>w. first_waiter (sem_waiting s) w \<and> sem_waiting s' = sem_waiting s - {w} \<and> count s' = 1 \<and>
        wk_ready k' = insert w (wk_ready k))"

lemma release_spec:
  assumes s: "sem_ok s" and k: "wk_ok k"
  shows "\<exists>s' k'. release h mx s k = Some (s', k') \<and> sem_released mx s k s' k'"
proof -
  obtain r s1 where c: "release_claim s = (r, s1)" by fastforce
  note sp = release_claim_spec [OF s]
  show ?thesis
  proof (cases r)
    case None
    then have "s1 = s" "sem_waiting s = {}" using sp c by auto
    then show ?thesis using None c s k
      by (auto simp: release_def release_count_def sem_released_def)
  next
    case (Some t)
    have f: "first_waiter (sem_waiting s) (coop_pair t)" "coop_id t" "sem_ok s1"
      "sem_waiting s1 = sem_waiting s - {coop_pair t}" using sp c Some by auto
    obtain k1 where k1: "wake_task h t k = Some k1" "wk_ok k1"
      "wk_ready k1 = insert (coop_pair t) (wk_ready k)" using wake_task_spec [OF k f(2)] by blast
    have ne: "sem_waiting s \<noteq> {}" using f(1) by (auto simp: first_waiter_def)
    have "sem_released mx s k (release_store s1) k1"
      unfolding sem_released_def if_not_P [OF ne]
      by (intro conjI exI [of _ "coop_pair t"]) (simp_all add: f k1 release_store_def)
    then show ?thesis using Some c k1 by (auto simp: release_def)
  qed
qed

section \<open>Tokens\<close>

text \<open>A script of calls; \<open>sem_run\<close> counts the acquisitions and the releases.\<close>

datatype sem_call = Call_try | Call_poll task_id | Call_drop task_id | Call_release

definition sem_call :: "nat \<Rightarrow> u8 \<Rightarrow> sem_call \<Rightarrow> semaphore \<times> kernel \<Rightarrow> (bool \<times> semaphore \<times> kernel) option" where
  "sem_call h mx c sk =
    (let (s, k) = sk
     in case c of
          Call_try \<Rightarrow> Some (fst (sem_try_acquire s), snd (sem_try_acquire s), k)
        | Call_poll t \<Rightarrow> map_option (\<lambda>(r, _, s'). (r = Done (), s', k)) (acquire_poll (Some t) None s)
        | Call_drop t \<Rightarrow> map_option (\<lambda>s'. (False, s', k)) (acquire_drop (Some t) s)
        | Call_release \<Rightarrow> map_option (\<lambda>(s', k'). (False, s', k')) (release h mx s k))"

fun sem_run :: "nat \<Rightarrow> u8 \<Rightarrow> sem_call list \<Rightarrow> semaphore \<times> kernel \<Rightarrow>
    (nat \<times> nat \<times> semaphore \<times> kernel) option" where
  "sem_run h mx [] (s, k) = Some (0, 0, s, k)"
| "sem_run h mx (c # cs) sk = do {
     (got, sk1) \<leftarrow> sem_call h mx c sk;
     (a, r, sk2) \<leftarrow> sem_run h mx cs sk1;
     Some (a + (if got then 1 else 0), r + (if c = Call_release then 1 else 0), sk2)
   }"

fun call_ok :: "sem_call \<Rightarrow> bool" where
  "call_ok (Call_poll t) = coop_id t"
| "call_ok (Call_drop t) = coop_id t"
| "call_ok Call_try = True"
| "call_ok Call_release = True"

lemma unat_pred: "(c :: u8) \<noteq> 0 \<Longrightarrow> unat (c - 1) = unat c - 1 \<and> 0 < unat c"
  by (simp add: unat_sub word_le_nat_alt unat_gt_0 Suc_leI) 

lemma unat_succ: "(c :: u8) < mx \<Longrightarrow> unat (c + 1) = unat c + 1 \<and> unat c < unat mx"
proof -
  assume l: "c < mx"
  have "unat mx < 256" using unsigned_less [of mx, where ?'a = nat] by simp
  then have "unat c + 1 < 256" using l by (simp add: word_less_nat_alt)
  then show ?thesis using l by (simp add: unat_word_ariths word_less_nat_alt)
qed

lemma acquire_poll_spec:
  assumes "sem_ok s" and "coop_id t"
  shows "\<exists>s'. acquire_poll (Some t) reg s =
      Some (if count s = 0 then (Pending, Some t, s') else (Done (), reg, s')) \<and> sem_ok s' \<and>
    (if count s = 0 then count s' = 0 \<and> sem_waiting s' = insert (coop_pair t) (sem_waiting s)
     else count s' = count s - 1 \<and> sem_waiting s' = sem_waiting s)"
proof (cases "count s = 0")
  case True
  obtain s1 where "sem_register t s = Some s1" "sem_ok s1" "count s1 = count s"
    "sem_waiting s1 = insert (coop_pair t) (sem_waiting s)" using sem_register_spec [OF assms] by blast
  then show ?thesis using True by (simp add: acquire_poll_def sem_try_acquire_def)
qed (use assms in \<open>simp add: acquire_poll_def sem_try_acquire_def\<close>)

lemma sem_call_spec:
  assumes "sem_ok s" and "wk_ok k" and "call_ok c"
  shows "\<exists>got s' k'. sem_call h mx c (s, k) = Some (got, s', k') \<and> sem_ok s' \<and> wk_ok k' \<and>
    unat (count s') + (if got then 1 else 0) \<le> unat (count s) + (if c = Call_release then 1 else 0) \<and>
    unat (count s') \<le> max (unat (count s)) (max 1 (unat mx))"
proof (cases c)
  case Call_try
  then show ?thesis using assms unat_pred [of "count s"]
    by (auto simp: sem_call_def sem_try_acquire_def)
next
  case (Call_poll t)
  then obtain s' where a: "acquire_poll (Some t) None s =
      Some (if count s = 0 then (Pending, Some t, s') else (Done (), None, s'))" "sem_ok s'"
    "if count s = 0 then count s' = 0 \<and> sem_waiting s' = insert (coop_pair t) (sem_waiting s)
     else count s' = count s - 1 \<and> sem_waiting s' = sem_waiting s"
    using acquire_poll_spec [OF assms(1), of t None] assms(3) by auto
  show ?thesis
  proof (cases "count s = 0")
    case False
    then show ?thesis using a Call_poll assms(2) unat_pred [OF False]
      by (simp add: sem_call_def) (rule exI [of _ True], simp)
  qed (use a Call_poll assms(2) in \<open>auto simp: sem_call_def\<close>)
next
  case (Call_drop t)
  then obtain s' where "sem_remove t s = Some s'" "sem_ok s'" "count s' = count s"
    using sem_remove_spec [OF assms(1), of t] assms(3) by auto
  then show ?thesis using Call_drop assms(2) by (auto simp: sem_call_def acquire_drop_def)
next
  case Call_release
  obtain s' k' where r: "release h mx s k = Some (s', k')" "sem_released mx s k s' k'"
    using release_spec [OF assms(1,2)] by blast
  have "unat (count s') \<le> unat (count s) + 1 \<and> unat (count s') \<le> max (unat (count s)) (max 1 (unat mx))"
    using r(2) unat_succ [of "count s" mx]
    by (auto simp: sem_released_def not_le split: if_splits)
  then show ?thesis using Call_release r by (auto simp: sem_call_def sem_released_def)
qed

lemma sem_run_spec:
  assumes "sem_ok s" and "wk_ok k" and "\<forall>c \<in> set cs. call_ok c"
  shows "\<exists>a r s' k'. sem_run h mx cs (s, k) = Some (a, r, s', k') \<and> sem_ok s' \<and> wk_ok k' \<and>
    r = count_list cs Call_release \<and>
    a + unat (count s') \<le> unat (count s) + r \<and>
    unat (count s') \<le> max (unat (count s)) (max 1 (unat mx))"
  using assms
proof (induction cs arbitrary: s k)
  case (Cons c cs)
  obtain got s1 k1 where c1: "sem_call h mx c (s, k) = Some (got, s1, k1)" "sem_ok s1" "wk_ok k1"
    "unat (count s1) + (if got then 1 else 0) \<le> unat (count s) + (if c = Call_release then 1 else 0)"
    "unat (count s1) \<le> max (unat (count s)) (max 1 (unat mx))"
    using sem_call_spec [OF Cons.prems(1,2), of c h mx] Cons.prems(3) by auto
  obtain a r s' k' where r: "sem_run h mx cs (s1, k1) = Some (a, r, s', k')" "sem_ok s'" "wk_ok k'"
    "r = count_list cs Call_release" "a + unat (count s') \<le> unat (count s1) + r"
    "unat (count s') \<le> max (unat (count s1)) (max 1 (unat mx))"
    using Cons.IH [OF c1(2,3)] Cons.prems(3) by auto
  show ?case using c1 r by (auto split: if_splits)
qed simp

section \<open>What the hand-off does not guarantee\<close>

text \<open>
  The store of 1 overwrites the count: a second release that finds a second waiter before the
  first woken task ran leaves one token for two releases. And a registered future that is
  dropped after it was woken leaves its token in the count while another task stays
  registered and is not woken.
\<close>

lemma two_releases_one_token:
  assumes s: "sem_ok s" "count s = 0" and k: "wk_ok k"
    and w: "w1 \<in> sem_waiting s" "w2 \<in> sem_waiting s" "w1 \<noteq> w2"
  shows "\<exists>s1 k1 s2 k2. release h mx s k = Some (s1, k1) \<and> release h mx s1 k1 = Some (s2, k2) \<and>
    count s2 = 1 \<and> card (sem_waiting s - sem_waiting s2) = 2 \<and> wk_ready k \<union> (sem_waiting s - sem_waiting s2) = wk_ready k2"
proof -
  obtain s1 k1 where r1: "release h mx s k = Some (s1, k1)" "sem_released mx s k s1 k1"
    using release_spec [OF s(1) k] by blast
  have ne: "sem_waiting s \<noteq> {}" using w by auto
  obtain a where a: "first_waiter (sem_waiting s) a" "sem_waiting s1 = sem_waiting s - {a}" "count s1 = 1"
    "wk_ready k1 = insert a (wk_ready k)" "sem_ok s1" "wk_ok k1"
    using r1(2) ne unfolding sem_released_def if_not_P [OF ne] by blast
  have ne1: "sem_waiting s1 \<noteq> {}" using w a(2) by auto
  obtain s2 k2 where r2: "release h mx s1 k1 = Some (s2, k2)" "sem_released mx s1 k1 s2 k2"
    using release_spec [OF a(5,6)] by blast
  obtain b where b: "first_waiter (sem_waiting s1) b" "sem_waiting s2 = sem_waiting s1 - {b}" "count s2 = 1"
    "wk_ready k2 = insert b (wk_ready k1)"
    using r2(2) ne1 unfolding sem_released_def if_not_P [OF ne1] by blast
  have "a \<in> sem_waiting s" "b \<in> sem_waiting s1" using a(1) b(1) by (auto simp: first_waiter_def)
  then have d: "sem_waiting s - sem_waiting s2 = {a, b}" "a \<noteq> b" using a(2) b(2) by auto
  then show ?thesis using r1 r2 a b by auto
qed

lemma drop_after_wake_strands:
  assumes s: "sem_ok s" "count s = 0" and k: "wk_ok k" and t: "coop_id t"
    and f: "first_waiter (sem_waiting s) (coop_pair t)"
    and w: "w \<in> sem_waiting s" "w \<noteq> coop_pair t"
  shows "\<exists>s1 k1 s2. release h mx s k = Some (s1, k1) \<and> acquire_drop (Some t) s1 = Some s2 \<and>
    count s2 = 1 \<and> w \<in> sem_waiting s2 \<and> (w \<in> wk_ready k1 \<longleftrightarrow> w \<in> wk_ready k)"
proof -
  obtain s1 k1 where r1: "release h mx s k = Some (s1, k1)" "sem_released mx s k s1 k1"
    using release_spec [OF s(1) k] by blast
  have ne: "sem_waiting s \<noteq> {}" using w by auto
  obtain a where a: "first_waiter (sem_waiting s) a" "sem_waiting s1 = sem_waiting s - {a}" "count s1 = 1"
    "wk_ready k1 = insert a (wk_ready k)" "sem_ok s1"
    using r1(2) unfolding sem_released_def if_not_P [OF ne] by blast
  have at: "a = coop_pair t" using a(1) f by (rule first_waiter_unique)
  obtain s2 where "sem_remove t s1 = Some s2" "count s2 = 1" "sem_waiting s2 = sem_waiting s1 - {coop_pair t}"
    using sem_remove_spec [OF a(5) t] a(3) by auto
  then show ?thesis using r1 a at w by (auto simp: acquire_drop_def)
qed

end
