(* ===== verification/Signal.thy ===== *)
theory Signal
  imports Channel
begin

text \<open>
  The one-shot latch between an interrupt and one waiting task
  (\<open>rivet/src/sync/signal.rs\<close>). Each atomic access is a definition; \<open>signal\<close> and \<open>wait_poll\<close>
  compose them in program order, and the last section lets any number of signallers run
  between the accesses of the waiting task.
\<close>

section \<open>Atomic accesses\<close>

record signal_latch =
  fired :: bool
  waiter :: "task_id option"

definition new_signal :: signal_latch where
  "new_signal = \<lparr>fired = False, waiter = None\<rparr>"

definition sig_fire :: "signal_latch \<Rightarrow> signal_latch" where
  "sig_fire s = s\<lparr>fired := True\<rparr>"

definition sig_swap :: "task_id option \<Rightarrow> signal_latch \<Rightarrow> task_id option \<times> signal_latch" where
  "sig_swap w s = (waiter s, s\<lparr>waiter := w\<rparr>)"

definition try_take :: "signal_latch \<Rightarrow> bool \<times> signal_latch" where
  "try_take s = (if fired s then (True, s\<lparr>fired := False\<rparr>) else (False, s))"

definition sig_reset :: "signal_latch \<Rightarrow> signal_latch" where
  "sig_reset s = s\<lparr>fired := False\<rparr>"

section \<open>The operations\<close>

definition signal :: "nat \<Rightarrow> signal_latch \<Rightarrow> kernel \<Rightarrow> (signal_latch \<times> kernel) option" where
  "signal h s k =
    (let (w, s1) = sig_swap None (sig_fire s)
     in map_option (\<lambda>k1. (s1, k1)) (wake_waiter h w k))"

text \<open>
  The poll of the future, whose registration flag is \<open>reg\<close>. In a build with debug
  assertions (\<open>dbg\<close>) a registration that finds the slot occupied panics.
\<close>

definition wait_poll ::
    "bool \<Rightarrow> task_id option \<Rightarrow> task_id option \<Rightarrow> signal_latch \<Rightarrow>
     (unit poll \<times> task_id option \<times> signal_latch) option" where
  "wait_poll dbg me reg s =
    (case try_take s of
       (True, s1) \<Rightarrow> Some (Done (), reg, s1)
     | (False, s1) \<Rightarrow>
         (case me of
            None \<Rightarrow> None
          | Some t \<Rightarrow>
              (let (prev, s2) = sig_swap (Some t) s1
               in if dbg \<and> prev \<noteq> None then None
                  else (case try_take s2 of
                          (True, s3) \<Rightarrow> Some (Done (), None, snd (sig_swap None s3))
                        | (False, s3) \<Rightarrow> Some (Pending, Some t, s3)))))"

definition wait_drop :: "task_id option \<Rightarrow> signal_latch \<Rightarrow> signal_latch" where
  "wait_drop reg s = (if reg = None then s else snd (sig_swap None s))"

section \<open>Sequential behaviour\<close>

lemma signal_spec:
  assumes "wk_ok k" and "waiter_ok (waiter s)"
  shows "\<exists>k'. signal h s k = Some (\<lparr>fired = True, waiter = None\<rparr>, k') \<and> wk_ok k' \<and>
    wk_ready k' = woken_ids (waiter s) \<union> wk_ready k"
  using wake_waiter_spec [OF assms, of h]
  by (auto simp: signal_def sig_swap_def sig_fire_def Let_def)

lemma wait_poll_eq:
  "wait_poll dbg (Some t) reg s =
    (if fired s then Some (Done (), reg, s\<lparr>fired := False\<rparr>)
     else if dbg \<and> waiter s \<noteq> None then None
     else Some (Pending, Some t, s\<lparr>waiter := Some t\<rparr>))"
  by (auto simp: wait_poll_def try_take_def sig_swap_def Let_def)

text \<open>A signal before the wait, during it or after it lets the next poll finish, once.\<close>

lemma signal_then_poll:
  assumes "signal h s k = Some (s1, k1)"
  shows "\<exists>s2. wait_poll dbg me reg s1 = Some (Done (), reg, s2) \<and>
    (\<forall>reg'. wait_poll False (Some t) reg' s2 = Some (Pending, Some t, s2\<lparr>waiter := Some t\<rparr>))"
  using assms
  by (auto simp: signal_def sig_swap_def sig_fire_def Let_def wait_poll_def try_take_def)

text \<open>Cancelling the wait keeps the latch, and a later signal wakes nobody.\<close>

lemma wait_drop_eq: "wait_drop reg s = (if reg = None then s else s\<lparr>waiter := None\<rparr>)"
  by (simp add: wait_drop_def sig_swap_def)

text \<open>
  Polling the same future twice without a signal in between, which any combinator that
  polls its branches together does, trips the debug assertion: the slot still holds the
  task's own registration.
\<close>

lemma second_poll_asserts:
  assumes "wait_poll dbg (Some t) reg s = Some (Pending, reg', s')"
  shows "wait_poll True (Some t) reg' s' = None"
    and "wait_poll False (Some t) reg' s' = Some (Pending, Some t, s')"
  using assms by (auto simp: wait_poll_eq split: if_splits)

section \<open>Signallers between the accesses\<close>

text \<open>
  The waiting task \<open>t\<close> is idle, has seen an unset latch (\<open>Missed\<close>), has registered
  (\<open>Registered\<close>), has taken the latch after registering (\<open>Took\<close>), or has returned
  \<open>Pending\<close> (\<open>Parked\<close>). \<open>mid\<close> counts the signal calls between their two accesses, and
  \<open>ready\<close> is the waker's mark on the task. A parked task may be polled again with or
  without having been woken.
\<close>

datatype wait_pc = Idle | Missed | Registered | Took | Parked

record sig_sys =
  latch :: signal_latch
  pc :: wait_pc
  mid :: nat
  woke :: bool

definition sig_init :: sig_sys where
  "sig_init = \<lparr>latch = new_signal, pc = Idle, mid = 0, woke = False\<rparr>"

inductive sig_step :: "task_id \<Rightarrow> sig_sys \<Rightarrow> sig_sys \<Rightarrow> bool" for t where
  fire: "sig_step t s (s\<lparr>latch := sig_fire (latch s), mid := mid s + 1\<rparr>)"
| swap: "0 < mid s \<Longrightarrow> sig_swap None (latch s) = (w, l) \<Longrightarrow>
    sig_step t s (s\<lparr>latch := l, mid := mid s - 1, woke := (woke s \<or> w = Some t)\<rparr>)"
| take: "pc s = Idle \<Longrightarrow> try_take (latch s) = (r, l) \<Longrightarrow>
    sig_step t s (s\<lparr>latch := l, pc := (if r then Idle else Missed)\<rparr>)"
| register: "pc s = Missed \<Longrightarrow>
    sig_step t s (s\<lparr>latch := snd (sig_swap (Some t) (latch s)), pc := Registered\<rparr>)"
| retake: "pc s = Registered \<Longrightarrow> try_take (latch s) = (r, l) \<Longrightarrow>
    sig_step t s (s\<lparr>latch := l, pc := (if r then Took else Parked)\<rparr>)"
| unregister: "pc s = Took \<Longrightarrow>
    sig_step t s (s\<lparr>latch := snd (sig_swap None (latch s)), pc := Idle\<rparr>)"
| poll_woken: "pc s = Parked \<Longrightarrow> woke s \<Longrightarrow> sig_step t s (s\<lparr>pc := Idle, woke := False\<rparr>)"
| poll_spurious: "pc s = Parked \<Longrightarrow> sig_step t s (s\<lparr>pc := Idle\<rparr>)"
| cancel: "pc s = Parked \<Longrightarrow>
    sig_step t s (s\<lparr>latch := snd (sig_swap None (latch s)), pc := Idle\<rparr>)"
| reset: "pc s = Idle \<Longrightarrow> sig_step t s (s\<lparr>latch := sig_reset (latch s)\<rparr>)"

inductive sig_reach :: "task_id \<Rightarrow> sig_sys \<Rightarrow> bool" for t where
  start: "sig_reach t sig_init"
| step: "sig_reach t s \<Longrightarrow> sig_step t s s' \<Longrightarrow> sig_reach t s'"

definition sig_inv :: "task_id \<Rightarrow> sig_sys \<Rightarrow> bool" where
  "sig_inv t s \<longleftrightarrow> (waiter (latch s) = None \<or> waiter (latch s) = Some t) \<and>
     (pc s \<in> {Registered, Parked} \<longrightarrow> waiter (latch s) = Some t \<or> woke s) \<and>
     (pc s = Parked \<longrightarrow> fired (latch s) \<longrightarrow> woke s \<or> 0 < mid s)"

lemma sig_step_inv: "sig_step t s s' \<Longrightarrow> sig_inv t s \<Longrightarrow> sig_inv t s'"
  by (induction rule: sig_step.induct)
    (auto simp: sig_inv_def sig_fire_def sig_swap_def try_take_def sig_reset_def split: if_splits)

lemma sig_reach_inv: "sig_reach t s \<Longrightarrow> sig_inv t s"
  by (induction rule: sig_reach.induct)
    (simp add: sig_inv_def sig_init_def new_signal_def, rule sig_step_inv)

text \<open>No lost wake-up: a task parked on a latch that fired is marked once the signallers are through.\<close>

lemma no_lost_signal: "sig_reach t s \<Longrightarrow> pc s = Parked \<Longrightarrow> fired (latch s) \<Longrightarrow> mid s = 0 \<Longrightarrow> woke s"
  using sig_reach_inv [of t s] by (simp add: sig_inv_def)

end
