(* ===== verification/Console.thy ===== *)
theory Console
  imports Channel
begin

text \<open>
  The write-once cell (\<open>rivet/src/sync/once.rs\<close>) and the console
  (\<open>rivet/src/console.rs\<close>): two channels of bytes whose halves are stored in cells, an
  interrupt-driven write that never blocks, and a polling write behind a lock it gives up on.
  The bytes handed to the board are collected in \<open>wire\<close>. \<open>None\<close> is a panic, or a loop that
  does not end.
\<close>

section \<open>Write-once cells\<close>

definition once_set :: "'a \<Rightarrow> 'a option \<Rightarrow> ('a + unit) \<times> 'a option" where
  "once_set v c = (case c of Some _ \<Rightarrow> (Inl v, c) | None \<Rightarrow> (Inr (), Some v))"

definition once_get :: "'a option \<Rightarrow> 'a option" where
  "once_get c = c"

lemma once_first_wins:
  "once_get (snd (once_set v c)) = Some (case c of None \<Rightarrow> v | Some w \<Rightarrow> w)"
  by (cases c) (simp_all add: once_set_def once_get_def)

section \<open>State\<close>

definition RX_CAPACITY :: nat where "RX_CAPACITY = 64"
definition TX_CAPACITY :: nat where "TX_CAPACITY = 256"
definition LOCK_SPIN_LIMIT :: nat where "LOCK_SPIN_LIMIT = 100000"

text \<open>A half of a channel is its presence: a cell holds \<open>()\<close> once \<open>init\<close> has split the channel.\<close>

record console =
  rx_chan :: "u8 channel"
  tx_chan :: "u8 channel"
  rx_halves :: "unit option"
  tx_halves :: "unit option"
  irq_tx_active :: bool
  wire :: "u8 list"
  kicks :: nat

definition console_boot :: console where
  "console_boot = \<lparr>rx_chan = new_channel RX_CAPACITY, tx_chan = new_channel TX_CAPACITY,
     rx_halves = None, tx_halves = None, irq_tx_active = False, wire = [], kicks = 0\<rparr>"

definition console_init :: "console \<Rightarrow> console" where
  "console_init s =
    (let (r, rc) = split_channel (rx_chan s); (t, tc) = split_channel (tx_chan s);
         rh = (if r then snd (once_set () (rx_halves s)) else rx_halves s);
         th = (if t then snd (once_set () (tx_halves s)) else tx_halves s)
     in s\<lparr>rx_chan := rc, tx_chan := tc, rx_halves := rh, tx_halves := th\<rparr>)"

definition enable_irq_tx :: "console \<Rightarrow> console" where
  "enable_irq_tx s = s\<lparr>irq_tx_active := True\<rparr>"

definition board_write :: "u8 list \<Rightarrow> console \<Rightarrow> console" where
  "board_write bs s = s\<lparr>wire := wire s @ bs\<rparr>"

type_synonym con_state = "console \<times> kernel"

section \<open>Operations\<close>

definition tx_irq_next_byte :: "nat \<Rightarrow> con_state \<Rightarrow> (u8 option \<times> con_state) option" where
  "tx_irq_next_byte h x =
    (let (s, k) = x
     in case once_get (tx_halves s) of
          None \<Rightarrow> Some (None, (s, k))
        | Some _ \<Rightarrow> map_option (\<lambda>(b, c, k1). (b, (s\<lparr>tx_chan := c\<rparr>, k1))) (try_recv h (tx_chan s, k)))"

definition on_rx_byte :: "nat \<Rightarrow> u8 \<Rightarrow> con_state \<Rightarrow> con_state option" where
  "on_rx_byte h b x =
    (let (s, k) = x
     in case once_get (rx_halves s) of
          None \<Rightarrow> Some (s, k)
        | Some _ \<Rightarrow> map_option (\<lambda>(_, c, k1). (s\<lparr>rx_chan := c\<rparr>, k1)) (try_send h b (rx_chan s, k)))"

definition try_read_byte :: "nat \<Rightarrow> con_state \<Rightarrow> (u8 option \<times> con_state) option" where
  "try_read_byte h x =
    (let (s, k) = x
     in case once_get (rx_halves s) of
          None \<Rightarrow> Some (None, (s, k))
        | Some _ \<Rightarrow> map_option (\<lambda>(b, c, k1). (b, (s\<lparr>rx_chan := c\<rparr>, k1))) (try_recv h (rx_chan s, k)))"

text \<open>
  Queueing one byte: while the ring refuses it, the oldest byte goes out by polling. The
  loop breaks if the ring is empty then.
\<close>

partial_function (option) push_byte :: "nat \<Rightarrow> u8 \<Rightarrow> con_state \<Rightarrow> con_state option" where
  "push_byte h b x =
    Option.bind (try_send h b (tx_chan (fst x), snd x)) (\<lambda>(r, c, k).
      case r of
        Inr _ \<Rightarrow> Some ((fst x)\<lparr>tx_chan := c\<rparr>, k)
      | Inl _ \<Rightarrow> Option.bind (tx_irq_next_byte h ((fst x)\<lparr>tx_chan := c\<rparr>, k)) (\<lambda>(old, s1, k1).
          case old of
            None \<Rightarrow> Some (s1, k1)
          | Some v \<Rightarrow> push_byte h b (board_write [v] s1, k1)))"

fun push_bytes :: "nat \<Rightarrow> u8 list \<Rightarrow> con_state \<Rightarrow> con_state option" where
  "push_bytes h [] x = Some x"
| "push_bytes h (b # bs) x = Option.bind (push_byte h b x) (push_bytes h bs)"

definition write_bytes_irq :: "nat \<Rightarrow> u8 list \<Rightarrow> con_state \<Rightarrow> (bool \<times> con_state) option" where
  "write_bytes_irq h bs x =
    (case once_get (tx_halves (fst x)) of
       None \<Rightarrow> Some (False, x)
     | Some _ \<Rightarrow> do {
         x1 \<leftarrow> push_bytes h bs x;
         (b, s2, k2) \<leftarrow> tx_irq_next_byte h x1;
         let s3 = (case b of None \<Rightarrow> s2 | Some v \<Rightarrow> board_write [v] s2);
         Some (True, (s3\<lparr>kicks := kicks s3 + 1\<rparr>, k2))
       })"

text \<open>
  \<open>cas\<close> gives the outcome of the successive compare-exchanges on the write lock; the result
  tells whether the lock was taken.
\<close>

fun spin_lock :: "nat \<Rightarrow> nat \<Rightarrow> (nat \<Rightarrow> bool) \<Rightarrow> bool" where
  "spin_lock 0 spins cas = False"
| "spin_lock (Suc n) spins cas = (if cas spins then True else spin_lock n (spins + 1) cas)"

definition write_polling :: "(nat \<Rightarrow> bool) \<Rightarrow> u8 list \<Rightarrow> console \<Rightarrow> bool \<times> console" where
  "write_polling cas bs s = (spin_lock LOCK_SPIN_LIMIT 0 cas, board_write bs s)"

text \<open>\<open>None\<close> as the first result: the bytes went through the ring.\<close>

definition write_bytes ::
    "nat \<Rightarrow> (nat \<Rightarrow> bool) \<Rightarrow> u8 list \<Rightarrow> con_state \<Rightarrow> (bool option \<times> con_state) option" where
  "write_bytes h cas bs x =
    (let (took, s1) = write_polling cas bs (fst x)
     in if irq_tx_active (fst x)
        then do {
          (sent, x1) \<leftarrow> write_bytes_irq h bs x;
          Some (if sent then (None, x1) else (Some took, (s1, snd x)))
        }
        else Some (Some took, (s1, snd x)))"

partial_function (option) flush_sync :: "nat \<Rightarrow> con_state \<Rightarrow> con_state option" where
  "flush_sync h x =
    Option.bind (tx_irq_next_byte h x) (\<lambda>(b, s, k).
      case b of None \<Rightarrow> Some (s, k) | Some v \<Rightarrow> flush_sync h (board_write [v] s, k))"

section \<open>No byte is lost or reordered\<close>

definition con_ok :: "con_state \<Rightarrow> bool" where
  "con_ok x \<longleftrightarrow> link_ok (tx_chan (fst x), snd x) \<and> link_ok (rx_chan (fst x), snd x) \<and>
     0 < room (tx_chan (fst x))"

definition halves_ok :: "console \<Rightarrow> bool" where
  "halves_ok s \<longleftrightarrow> tx_halves s = Some () \<and> rx_halves s = Some ()"

text \<open>What has been written and what is still queued, in order.\<close>

definition stream :: "con_state \<Rightarrow> u8 list" where
  "stream x = wire (fst x) @ chan_contents (tx_chan (fst x))"

lemma con_ok_boot: "wk_ok k \<Longrightarrow> con_ok (console_init console_boot, k) \<and>
    halves_ok (console_init console_boot) \<and> stream (console_init console_boot, k) = []"
proof -
  assume k: "wk_ok k"
  have c: "chan_ok (c\<lparr>taken := b\<rparr>) = chan_ok c" "chan_contents (c\<lparr>taken := b\<rparr>) = chan_contents c"
    "room (c\<lparr>taken := b\<rparr>) = room c" for c :: "u8 channel" and b
    by (simp_all add: chan_ok_def chan_len_def chan_contents_def room_def)
  have r: "room (new_channel TX_CAPACITY :: u8 channel) = 255" by (simp add: room_def new_channel_def TX_CAPACITY_def)
  have n: "0 < TX_CAPACITY" "0 < RX_CAPACITY" by (simp_all add: TX_CAPACITY_def RX_CAPACITY_def)
  have new: "0 < m \<Longrightarrow> chan_ok (new_channel m :: u8 channel) \<and> chan_contents (new_channel m :: u8 channel) = []"
    for m by (rule chan_ok_new)
  have t: "\<not> taken (new_channel m :: u8 channel)" for m by (simp add: new_channel_def)
  show ?thesis
    using k new [OF n(1)] new [OF n(2)]
    by (simp add: con_ok_def halves_ok_def stream_def console_init_def console_boot_def
        split_channel_def t once_set_def link_ok_def c r)
qed

lemma link_other: "link_ok (c, k) \<Longrightarrow> wk_ok k' \<Longrightarrow> link_ok (c, k')"
  by (simp add: link_ok_def)

lemma tx_next_some:
  assumes ok: "con_ok (s, k)" "tx_halves s = Some ()" and c: "chan_contents (tx_chan s) = b # bs"
  shows "\<exists>s' k'. tx_irq_next_byte h (s, k) = Some (Some b, (s', k')) \<and> con_ok (s', k') \<and>
    wire s' = wire s \<and> chan_contents (tx_chan s') = bs \<and> tx_halves s' = tx_halves s \<and>
    room (tx_chan s') = room (tx_chan s) \<and> kicks s' = kicks s \<and> rx_halves s' = rx_halves s"
proof -
  have l: "link_ok (tx_chan s, k)" and r: "link_ok (rx_chan s, k)" using ok by (simp_all add: con_ok_def)
  obtain p where p: "get_op h (tx_chan s, k) = Some p"
    using cq.get_none [OF l, of h] c by (cases "get_op h (tx_chan s, k)") auto
  obtain v c' k' where p': "p = (v, c', k')" by (cases p)
  have g: "link_ok (c', k')" "room c' = room (tx_chan s)" "v = b" "chan_contents c' = bs"
    using cq.get_some [OF l p [unfolded p']] c by auto
  have "try_recv h (tx_chan s, k) = Some (Some v, c', k')"
    using p p' by (auto simp: get_op_def split: option.splits)
  then show ?thesis
    using g ok link_other [OF r, of k']
    by (simp add: tx_irq_next_byte_def once_get_def con_ok_def) (simp add: link_ok_def)
qed

lemma tx_next_none:
  assumes "con_ok (s, k)" and "tx_halves s = Some ()" and "chan_contents (tx_chan s) = []"
  shows "tx_irq_next_byte h (s, k) = Some (None, (s, k))"
  using assms try_recv_spec [of "tx_chan s" k h]
  by (simp add: tx_irq_next_byte_def once_get_def con_ok_def)

lemma try_send_tx:
  assumes ok: "con_ok (s, k)" and c: "length (chan_contents (tx_chan s)) < room (tx_chan s)"
  shows "\<exists>c' k'. try_send h b (tx_chan s, k) = Some (Inr (), (c', k')) \<and> con_ok (s\<lparr>tx_chan := c'\<rparr>, k') \<and>
    chan_contents c' = chan_contents (tx_chan s) @ [b] \<and> room c' = room (tx_chan s)"
proof -
  have l: "link_ok (tx_chan s, k)" and r: "link_ok (rx_chan s, k)" using ok by (simp_all add: con_ok_def)
  obtain p where p: "put_op h b (tx_chan s, k) = Some p"
    using cq.put_none [OF l, of h b] c by (cases "put_op h b (tx_chan s, k)") auto
  obtain c' k' where p': "p = (c', k')" by fastforce
  have g: "link_ok (c', k')" "room c' = room (tx_chan s)" "chan_contents c' = chan_contents (tx_chan s) @ [b]"
    using cq.put_some [OF l p [unfolded p']] by auto
  have "try_send h b (tx_chan s, k) = Some (Inr (), c', k')"
    using p p' by (auto simp: put_op_def split: option.splits sum.splits)
  then show ?thesis
    using g ok link_other [OF r, of k'] by (simp add: con_ok_def) (simp add: link_ok_def)
qed

lemma push_byte_spec:
  assumes ok: "con_ok (s, k)" "tx_halves s = Some ()"
  shows "\<exists>s' k'. push_byte h b (s, k) = Some (s', k') \<and> con_ok (s', k') \<and> tx_halves s' = Some () \<and>
    rx_halves s' = rx_halves s \<and> stream (s', k') = stream (s, k) @ [b]"
proof (cases "length (chan_contents (tx_chan s)) < room (tx_chan s)")
  case True
  obtain c' k' where "try_send h b (tx_chan s, k) = Some (Inr (), (c', k'))"
    "con_ok (s\<lparr>tx_chan := c'\<rparr>, k')" "chan_contents c' = chan_contents (tx_chan s) @ [b]"
    using try_send_tx [OF ok(1) True] by blast
  then show ?thesis using ok by (subst push_byte.simps) (simp add: stream_def)
next
  case False
  have l: "link_ok (tx_chan s, k)" using ok by (simp add: con_ok_def)
  have full: "length (chan_contents (tx_chan s)) = room (tx_chan s)"
    using False chan_len_less [of "tx_chan s"] l by (simp add: link_ok_def chan_contents_def room_def)
  have st: "try_send h b (tx_chan s, k) = Some (Inl b, (tx_chan s, k))"
    using try_send_spec [OF l, of h b] full by simp
  obtain v vs where c: "chan_contents (tx_chan s) = v # vs"
    using full ok by (cases "chan_contents (tx_chan s)") (simp_all add: con_ok_def)
  obtain s1 k1 where n: "tx_irq_next_byte h (s, k) = Some (Some v, (s1, k1))" "con_ok (s1, k1)"
    "wire s1 = wire s" "chan_contents (tx_chan s1) = vs" "tx_halves s1 = tx_halves s"
    "room (tx_chan s1) = room (tx_chan s)" "rx_halves s1 = rx_halves s"
    using tx_next_some [OF ok c] by blast
  let ?s2 = "board_write [v] s1"
  have ok2: "con_ok (?s2, k1)" "length (chan_contents (tx_chan ?s2)) < room (tx_chan ?s2)"
    using n c full by (auto simp: con_ok_def board_write_def)
  obtain c' k' where t: "try_send h b (tx_chan ?s2, k1) = Some (Inr (), (c', k'))"
    "con_ok (?s2\<lparr>tx_chan := c'\<rparr>, k')" "chan_contents c' = chan_contents (tx_chan ?s2) @ [b]"
    using try_send_tx [OF ok2] by blast
  have "push_byte h b (?s2, k1) = Some (?s2\<lparr>tx_chan := c'\<rparr>, k')"
    using t by (subst push_byte.simps) simp
  then have "push_byte h b (s, k) = Some (?s2\<lparr>tx_chan := c'\<rparr>, k')"
    using st n by (subst push_byte.simps) simp
  then show ?thesis using t n c ok by (simp add: stream_def board_write_def)
qed

lemma push_bytes_spec:
  "con_ok (s, k) \<Longrightarrow> tx_halves s = Some () \<Longrightarrow>
    \<exists>s' k'. push_bytes h bs (s, k) = Some (s', k') \<and> con_ok (s', k') \<and> tx_halves s' = Some () \<and>
      rx_halves s' = rx_halves s \<and> stream (s', k') = stream (s, k) @ bs"
proof (induction bs arbitrary: s k)
  case (Cons b bs)
  obtain s1 k1 where 1: "push_byte h b (s, k) = Some (s1, k1)" "con_ok (s1, k1)" "tx_halves s1 = Some ()"
    "rx_halves s1 = rx_halves s" "stream (s1, k1) = stream (s, k) @ [b]"
    using push_byte_spec [OF Cons.prems] by blast
  then show ?case using Cons.IH [OF 1(2,3)] by auto
qed auto

lemma write_bytes_irq_spec:
  assumes ok: "con_ok (s, k)" "halves_ok s"
  shows "\<exists>s' k'. write_bytes_irq h bs (s, k) = Some (True, (s', k')) \<and> con_ok (s', k') \<and>
    halves_ok s' \<and> stream (s', k') = stream (s, k) @ bs"
proof -
  obtain s1 k1 where 1: "push_bytes h bs (s, k) = Some (s1, k1)" "con_ok (s1, k1)" "tx_halves s1 = Some ()"
    "rx_halves s1 = rx_halves s" "stream (s1, k1) = stream (s, k) @ bs"
    using push_bytes_spec [OF ok(1)] ok(2) unfolding halves_ok_def by blast
  have h: "once_get (tx_halves s) = Some ()" using ok(2) by (simp add: once_get_def halves_ok_def)
  have con: "con_ok (t\<lparr>kicks := n\<rparr>, q) = con_ok (t, q)" "con_ok (t\<lparr>wire := ws\<rparr>, q) = con_ok (t, q)" for t n q ws
    by (simp_all add: con_ok_def)
  show ?thesis
  proof (cases "chan_contents (tx_chan s1)")
    case Nil
    have "tx_irq_next_byte h (s1, k1) = Some (None, (s1, k1))" by (rule tx_next_none [OF 1(2,3) Nil])
    then show ?thesis
      using h 1 ok con by (simp add: write_bytes_irq_def halves_ok_def stream_def Let_def)
  next
    case (Cons v vs)
    obtain s2 k2 where "tx_irq_next_byte h (s1, k1) = Some (Some v, (s2, k2))" "con_ok (s2, k2)"
      "wire s2 = wire s1" "chan_contents (tx_chan s2) = vs" "tx_halves s2 = tx_halves s1"
      "rx_halves s2 = rx_halves s1" using tx_next_some [OF 1(2,3) Cons] by blast
    then show ?thesis
      using h 1 ok con Cons
      by (simp add: write_bytes_irq_def halves_ok_def stream_def Let_def board_write_def)
  qed
qed

lemma flush_sync_spec:
  "con_ok (s, k) \<Longrightarrow> tx_halves s = Some () \<Longrightarrow>
    \<exists>s' k'. flush_sync h (s, k) = Some (s', k') \<and> con_ok (s', k') \<and>
      chan_contents (tx_chan s') = [] \<and> wire s' = stream (s, k)"
proof (induction "chan_contents (tx_chan s)" arbitrary: s k)
  case Nil
  have "tx_irq_next_byte h (s, k) = Some (None, (s, k))"
    by (rule tx_next_none [OF Nil(2,3) Nil(1) [symmetric]])
  then show ?case using Nil by (subst flush_sync.simps) (simp add: stream_def)
next
  case (Cons v vs)
  obtain s1 k1 where n: "tx_irq_next_byte h (s, k) = Some (Some v, (s1, k1))" "con_ok (s1, k1)"
    "wire s1 = wire s" "chan_contents (tx_chan s1) = vs" "tx_halves s1 = tx_halves s"
    using tx_next_some [OF Cons(3,4) Cons(2) [symmetric]] by blast
  have "con_ok (board_write [v] s1, k1)" using n by (simp add: con_ok_def board_write_def)
  then obtain s' k' where "flush_sync h (board_write [v] s1, k1) = Some (s', k')" "con_ok (s', k')"
    "chan_contents (tx_chan s') = []" "wire s' = stream (board_write [v] s1, k1)"
    using Cons.hyps(1) [of "board_write [v] s1" k1] n Cons.prems by (auto simp: board_write_def)
  then show ?case
    using n Cons.hyps(2) [symmetric]
    by (subst flush_sync.simps) (simp add: stream_def board_write_def)
qed

text \<open>Every write puts its bytes on the stream, whoever holds the polling lock.\<close>

lemma write_bytes_spec:
  assumes ok: "con_ok (s, k)" "halves_ok s" and e: "irq_tx_active s \<or> chan_contents (tx_chan s) = []"
  shows "\<exists>w s' k'. write_bytes h cas bs (s, k) = Some (w, (s', k')) \<and> con_ok (s', k') \<and>
    halves_ok s' \<and> stream (s', k') = stream (s, k) @ bs"
proof (cases "irq_tx_active s")
  case True
  then show ?thesis using write_bytes_irq_spec [OF ok, of h bs]
    by (auto simp: write_bytes_def write_polling_def)
next
  case False
  then show ?thesis using ok e
    by (simp add: write_bytes_def write_polling_def stream_def board_write_def con_ok_def halves_ok_def)
qed

end
