(* ===== verification/Critical.thy ===== *)
theory Critical
  imports Rivet_Base
begin

text \<open>
  The critical section (\<open>rivet/src/critical.rs\<close>): a per-hart nesting counter over one
  spinlock. Each hart is a stack of the \<open>depth\<close> values its active calls of
  \<open>enter_locked\<close> hold, and may be spinning on the lock; harts interleave at the accesses to
  the lock word. A nesting counter is touched by its own hart alone.
\<close>

section \<open>State and steps\<close>

record crit =
  nesting :: "u32 list"
  lock_owner :: "nat option"
  frames :: "u32 list list"
  spinning :: "bool list"

definition crit_boot :: "nat \<Rightarrow> crit" where
  "crit_boot n = \<lparr>nesting = replicate n 0, lock_owner = None, frames = replicate n [],
     spinning = replicate n False\<rparr>"

definition cs_push :: "nat \<Rightarrow> u32 \<Rightarrow> crit \<Rightarrow> crit" where
  "cs_push h depth c = c\<lparr>nesting := (nesting c)[h := depth + 1],
     frames := (frames c)[h := depth # frames c ! h], spinning := (spinning c)[h := False]\<rparr>"

text \<open>Entry: read the depth; the outermost entry goes on to the lock.\<close>

definition cs_enter :: "nat \<Rightarrow> crit \<Rightarrow> crit" where
  "cs_enter h c =
    (let depth = nesting c ! h
     in if depth = 0 then c\<lparr>spinning := (spinning c)[h := True]\<rparr> else cs_push h depth c)"

text \<open>One compare-exchange of the spin loop.\<close>

definition cs_cas :: "nat \<Rightarrow> crit \<Rightarrow> crit" where
  "cs_cas h c = (if lock_owner c = None then cs_push h 0 (c\<lparr>lock_owner := Some h\<rparr>) else c)"

definition cs_leave :: "nat \<Rightarrow> crit \<Rightarrow> crit" where
  "cs_leave h c =
    (case frames c ! h of
       [] \<Rightarrow> c
     | depth # fs \<Rightarrow>
         (let c1 = c\<lparr>nesting := (nesting c)[h := depth], frames := (frames c)[h := fs]\<rparr>
          in if depth = 0 then c1\<lparr>lock_owner := None\<rparr> else c1))"

text \<open>A nesting of \<open>2^32 - 1\<close> would overflow the counter and panic.\<close>

inductive cs_step :: "crit \<Rightarrow> crit \<Rightarrow> bool" where
  enter: "h < length (frames c) \<Longrightarrow> \<not> spinning c ! h \<Longrightarrow> nesting c ! h + 1 \<noteq> 0 \<Longrightarrow>
    cs_step c (cs_enter h c)"
| cas: "h < length (frames c) \<Longrightarrow> spinning c ! h \<Longrightarrow> cs_step c (cs_cas h c)"
| leave: "h < length (frames c) \<Longrightarrow> \<not> spinning c ! h \<Longrightarrow> frames c ! h \<noteq> [] \<Longrightarrow>
    cs_step c (cs_leave h c)"

inductive cs_reach :: "nat \<Rightarrow> crit \<Rightarrow> bool" for n where
  boot: "cs_reach n (crit_boot n)"
| step: "cs_reach n c \<Longrightarrow> cs_step c c' \<Longrightarrow> cs_reach n c'"

section \<open>The invariant\<close>

text \<open>The frames of a hart count down to zero, and the owner is the hart inside.\<close>

fun counts_down :: "u32 list \<Rightarrow> bool" where
  "counts_down [] \<longleftrightarrow> True"
| "counts_down (d # ds) \<longleftrightarrow> unat d = length ds \<and> counts_down ds"

definition inside :: "crit \<Rightarrow> nat \<Rightarrow> bool" where
  "inside c h \<longleftrightarrow> h < length (frames c) \<and> frames c ! h \<noteq> []"

definition cs_inv :: "nat \<Rightarrow> crit \<Rightarrow> bool" where
  "cs_inv n c \<longleftrightarrow> length (nesting c) = n \<and> length (frames c) = n \<and> length (spinning c) = n \<and>
     (\<forall>h < n. counts_down (frames c ! h) \<and> unat (nesting c ! h) = length (frames c ! h) \<and>
        (spinning c ! h \<longrightarrow> frames c ! h = []) \<and>
        (frames c ! h \<noteq> [] \<longleftrightarrow> lock_owner c = Some h)) \<and>
     (\<forall>h. lock_owner c = Some h \<longrightarrow> h < n)"

lemma cs_inv_boot: "cs_inv n (crit_boot n)"
  by (simp add: cs_inv_def crit_boot_def)

lemma unat_Suc_u32: "(d :: u32) + 1 \<noteq> 0 \<Longrightarrow> unat (d + 1) = Suc (unat d)"
  using unatSuc [of d] by (simp add: add.commute)

lemma cs_enter_inv:
  assumes inv: "cs_inv n c" and h: "h < n" and s: "\<not> spinning c ! h" and ov: "nesting c ! h + 1 \<noteq> 0"
  shows "cs_inv n (cs_enter h c)"
proof (cases "nesting c ! h = 0")
  case True
  then have "frames c ! h = []" using inv h by (auto simp: cs_inv_def)
  then show ?thesis using True inv h
    by (auto simp: cs_enter_def cs_inv_def nth_list_update)
next
  case False
  then have "0 < unat (nesting c ! h)" by (simp add: unat_gt_0)
  then have "frames c ! h \<noteq> []" "lock_owner c = Some h" using inv h by (auto simp: cs_inv_def)
  then show ?thesis using False inv h ov
    by (auto simp: cs_enter_def cs_push_def cs_inv_def nth_list_update unat_Suc_u32 Let_def)
qed

lemma cs_cas_inv:
  assumes inv: "cs_inv n c" and h: "h < n" and s: "spinning c ! h"
  shows "cs_inv n (cs_cas h c)"
proof (cases "lock_owner c")
  case None
  then have "frames c ! g = []" if "g < n" for g using inv that by (auto simp: cs_inv_def)
  then show ?thesis using None inv h
    by (auto simp: cs_cas_def cs_push_def cs_inv_def nth_list_update)
qed (use inv in \<open>simp add: cs_cas_def\<close>)

lemma cs_leave_inv:
  assumes inv: "cs_inv n c" and h: "h < n" and f: "frames c ! h = d # fs"
  shows "cs_inv n (cs_leave h c)"
proof -
  have d: "unat d = length fs" "counts_down fs" using inv h f by (auto simp: cs_inv_def)
  have o: "lock_owner c = Some h" using inv h f by (auto simp: cs_inv_def)
  have others: "frames c ! g = []" if "g < n" "g \<noteq> h" for g using inv o that by (auto simp: cs_inv_def)
  have z: "d = 0 \<longleftrightarrow> fs = []" using d by (metis length_0_conv unat_eq_0)
  show ?thesis
    using inv h f d o others z
    by (auto simp: cs_leave_def cs_inv_def nth_list_update Let_def)
qed

lemma cs_reach_inv: "cs_reach n c \<Longrightarrow> cs_inv n c"
proof (induction rule: cs_reach.induct)
  case (step c c')
  have l: "length (frames c) = n" using step by (simp add: cs_inv_def)
  from step.hyps(2) show ?case
  proof (cases rule: cs_step.cases)
    case (leave h)
    then obtain d fs where "frames c ! h = d # fs" by (cases "frames c ! h") auto
    then show ?thesis using leave step.IH l cs_leave_inv by auto
  qed (use step.IH l cs_enter_inv cs_cas_inv in auto)
qed (rule cs_inv_boot)

text \<open>Mutual exclusion, and a lock that is taken is held by a hart that can go on.\<close>

lemma cs_mutual_exclusion: "cs_reach n c \<Longrightarrow> inside c g \<Longrightarrow> inside c h \<Longrightarrow> g = h"
  using cs_reach_inv [of n c] by (force simp: cs_inv_def inside_def)

lemma cs_no_deadlock:
  assumes r: "cs_reach n c" and h: "h < n" "spinning c ! h"
  shows "inside (cs_cas h c) h \<or>
    (\<exists>g. lock_owner c = Some g \<and> g \<noteq> h \<and> inside c g \<and> \<not> spinning c ! g)"
proof (cases "lock_owner c")
  case None
  then show ?thesis using cs_reach_inv [OF r] h
    by (simp add: cs_cas_def cs_push_def inside_def cs_inv_def)
next
  case (Some g)
  then show ?thesis using cs_reach_inv [OF r] h by (auto simp: cs_inv_def inside_def)
qed

lemma cs_nested_enter: "cs_reach n c \<Longrightarrow> inside c h \<Longrightarrow> nesting c ! h + 1 \<noteq> 0 \<Longrightarrow>
    inside (cs_enter h c) h \<and> length (frames (cs_enter h c) ! h) = Suc (length (frames c ! h)) \<and>
    cs_leave h (cs_enter h c) = c"
proof -
  assume r: "cs_reach n c" and i: "inside c h" and ov: "nesting c ! h + 1 \<noteq> 0"
  have inv: "cs_inv n c" by (rule cs_reach_inv [OF r])
  have h: "h < n" and len: "length (frames c) = n" "length (nesting c) = n" "length (spinning c) = n"
    using inv i by (auto simp: cs_inv_def inside_def)
  have s: "\<not> spinning c ! h" using inv i h by (auto simp: cs_inv_def inside_def)
  have d: "nesting c ! h \<noteq> 0" using inv i h by (auto simp: cs_inv_def inside_def)
  show ?thesis
    using h len s d list_update_id [of "spinning c" h]
    by (simp add: cs_enter_def cs_push_def cs_leave_def inside_def Let_def)
qed

end
