(* ===== verification/Stack_Pool.thy ===== *)
theory Stack_Pool
  imports Rivet_Base
begin

text \<open>
  The task stack pool (\<open>rivet/src/preempt/stack_pool.rs\<close>): a bump allocator that carves
  size-aligned stacks with a guard band below each, and a bounded last-in first-out list of
  released stacks. Addresses are 32-bit words and their arithmetic wraps. The pool bounds and
  the guard size come from the linker script and the port and are arguments.
\<close>

section \<open>State and operations\<close>

definition FREE_LIST_CAP :: nat where
  "FREE_LIST_CAP = 16"

record pool =
  next_off :: usize
  alloc_count :: usize
  free_count :: nat
  free_entries :: "(usize \<times> usize) list"

definition pool_boot :: pool where
  "pool_boot = \<lparr>next_off = 0, alloc_count = 0, free_count = 0,
     free_entries = replicate FREE_LIST_CAP (0, 0)\<rparr>"

definition free_push :: "usize \<Rightarrow> usize \<Rightarrow> pool \<Rightarrow> pool" where
  "free_push off sz s =
    (let n = free_count s
     in if n < FREE_LIST_CAP
        then s\<lparr>free_entries := (free_entries s)[n := (off, sz)], free_count := n + 1\<rparr> else s)"

definition free_pop :: "pool \<Rightarrow> (usize \<times> usize) option \<times> pool" where
  "free_pop s =
    (let n = free_count s
     in if n = 0 then (None, s) else (Some (free_entries s ! (n - 1)), s\<lparr>free_count := n - 1\<rparr>))"

text \<open>A fresh stack above everything carved so far; the second result is the guard registered.\<close>

definition carve :: "usize \<Rightarrow> usize \<Rightarrow> usize \<Rightarrow> usize \<Rightarrow> pool \<Rightarrow>
    (usize \<times> (usize \<times> usize) option) option \<times> pool" where
  "carve guard base len sz s =
    (let stack_base = (base + next_off s + guard + sz - 1) AND NOT (sz - 1);
         guard_base = stack_base - guard;
         offset = guard_base - base
     in if len < offset + guard + sz then (None, s)
        else (Some (stack_base, Some (guard_base, alloc_count s)),
              s\<lparr>next_off := offset + guard + sz, alloc_count := alloc_count s + 1\<rparr>))"

definition alloc_stack :: "usize \<Rightarrow> usize \<Rightarrow> usize \<Rightarrow> usize \<Rightarrow> pool \<Rightarrow>
    (usize \<times> (usize \<times> usize) option) option \<times> pool" where
  "alloc_stack guard base len sz s =
    (case free_pop s of
       (Some (off, z), s1) \<Rightarrow>
         (if z = sz then (Some (base + off, None), s1) else carve guard base len sz (free_push off z s1))
     | (None, s1) \<Rightarrow> carve guard base len sz s1)"

definition release_stack :: "usize \<Rightarrow> usize \<Rightarrow> usize \<Rightarrow> usize \<Rightarrow> pool \<Rightarrow> pool" where
  "release_stack base len ptr sz s =
    (let offset = ptr - base in if len < offset + sz then s else free_push offset sz s)"

definition pool_contains :: "usize \<Rightarrow> usize \<Rightarrow> usize \<Rightarrow> bool" where
  "pool_contains base len addr \<longleftrightarrow> base \<le> addr \<and> addr < base + len"

section \<open>Alignment\<close>

lemma unat_and_not_mask: "unat ((x :: usize) AND NOT (mask n)) = unat x - unat x mod 2 ^ n"
proof -
  let ?y = "x AND NOT (mask n)"
  have "?y = push_bit n (drop_bit n x)" by (rule bit_word_eqI) (auto simp: bit_simps)
  then have t: "x - ?y = take_bit n x"
    using bits_ident [of n x] by (metis add_diff_cancel_left')
  have le: "?y \<le> x" by (rule word_and_le2)
  have "unat (x - ?y) = unat x - unat ?y" using le by (rule unat_sub)
  moreover have "unat (take_bit n x) = take_bit n (unat x)" by (rule unsigned_take_bit_eq)
  ultimately have "unat x - unat ?y = unat x mod 2 ^ n" unfolding t by (simp only: take_bit_eq_mod)
  moreover have "unat ?y \<le> unat x" using le by (simp add: word_le_nat_alt)
  ultimately show ?thesis by linarith
qed

lemma unat_drop_bit: "unat (drop_bit n (w :: u32)) = unat w div 2 ^ n"
proof -
  have "take_bit 32 (unat w) = unat w" by (rule take_bit_nat_eq_self) (use unsigned_less [of w, where 'a = nat] in simp)
  then show ?thesis unfolding unsigned_drop_bit_eq by (simp add: drop_bit_eq_div)
qed

lemma aligned_low_bits:
  assumes "unat (w :: u32) mod 2 ^ n = 0" and "i < n"
  shows "\<not> bit w i"
proof -
  have "unat (take_bit n w) = 0" unfolding unsigned_take_bit_eq using assms(1) by (simp add: take_bit_eq_mod)
  then have "take_bit n w = 0" by (simp add: unat_eq_0)
  then show ?thesis using assms(2) by (metis bit_0_eq bit_take_bit_iff bot_apply bot_bool_def)
qed

lemma same_block:
  fixes a b m :: nat
  assumes "0 < m" and "b mod m = 0"
  shows "a div m = b div m \<longleftrightarrow> b \<le> a \<and> a < b + m"
proof -
  obtain q where q: "b = m * q" using assms(2) by (auto elim: dvdE)
  then have b: "b div m = q" using assms(1) by simp
  have "a div m = q \<longleftrightarrow> m * q \<le> a \<and> a < m * Suc q"
  proof
    assume "a div m = q"
    then show "m * q \<le> a \<and> a < m * Suc q"
      using assms(1) by (metis dividend_less_times_div mult_Suc_right times_div_less_eq_dividend)
  next
    assume "m * q \<le> a \<and> a < m * Suc q"
    then show "a div m = q" by (intro div_nat_eqI) (simp_all add: mult.commute)
  qed
  then show ?thesis using assms(1) by (simp add: b q ac_simps)
qed

lemma round_up_bounds:
  fixes x :: nat
  assumes "0 < m"
  shows "x \<le> (x + m - 1) - (x + m - 1) mod m" "(x + m - 1) - (x + m - 1) mod m < x + m"
    "((x + m - 1) - (x + m - 1) mod m) mod m = 0"
proof -
  have "(x + m - 1) mod m < m" using assms by (rule mod_less_divisor)
  then show "x \<le> (x + m - 1) - (x + m - 1) mod m" using assms by linarith
  show "(x + m - 1) - (x + m - 1) mod m < x + m" using assms by linarith
  show "((x + m - 1) - (x + m - 1) mod m) mod m = 0" by (simp add: minus_mod_eq_mult_div)
qed

section \<open>Fresh stacks\<close>

text \<open>
  The size is a power of two, no smaller than the guard, which is one as well; the pool and
  one more stack fit below the end of the address space.
\<close>

definition pool_args :: "usize \<Rightarrow> usize \<Rightarrow> usize \<Rightarrow> usize \<Rightarrow> bool" where
  "pool_args guard base len sz \<longleftrightarrow> (\<exists>n < 31. sz = 2 ^ n \<and> (\<exists>g \<le> n. guard = 2 ^ g)) \<and>
     unat base + unat len + 2 * unat sz + unat guard < 2 ^ 32"

definition pool_end :: "usize \<Rightarrow> pool \<Rightarrow> nat" where
  "pool_end base s = unat base + unat (next_off s)"

lemma unat_exp_u32: "n < 32 \<Longrightarrow> unat (2 ^ n :: usize) = 2 ^ n"
proof -
  assume n: "n < 32"
  have "unat (of_nat m :: usize) = m mod 2 ^ 32" for m by (simp add: unat_of_nat take_bit_eq_mod)
  from this [of "2 ^ n"] have "unat (2 ^ n :: usize) = 2 ^ n mod 2 ^ 32" by simp
  also have "\<dots> = (2 :: nat) ^ n" using n by (intro mod_less power_strict_increasing) simp_all
  finally show ?thesis by simp
qed

lemma unat_add_small: "unat (a :: usize) + unat b < 2 ^ 32 \<Longrightarrow> unat (a + b) = unat a + unat b"
  by (simp add: unat_word_ariths)

lemma carve_spec:
  assumes a: "pool_args guard base len sz" and nx: "unat (next_off s) \<le> unat len"
  shows "\<exists>top. pool_end base s + unat guard \<le> top \<and>
    top < pool_end base s + unat guard + unat sz \<and> top mod unat sz = 0 \<and>
    (case carve guard base len sz s of
       (None, s') \<Rightarrow> s' = s \<and> unat base + unat len < top + unat sz
     | (Some (b, gd), s') \<Rightarrow> unat b = top \<and> gd = Some (b - guard, alloc_count s) \<and>
         unat (b - guard) = top - unat guard \<and>
         top + unat sz \<le> unat base + unat len \<and> pool_end base s' = top + unat sz \<and>
         free_count s' = free_count s \<and> free_entries s' = free_entries s)"
proof -
  obtain n g where n: "n < 31" "sz = 2 ^ n" "g \<le> n" "guard = 2 ^ g"
    and room: "unat base + unat len + 2 * unat sz + unat guard < 2 ^ 32"
    using a by (auto simp: pool_args_def)
  have sz: "unat sz = 2 ^ n" using n by (simp add: unat_exp_u32)
  have szpos: "0 < unat sz" by (simp add: sz)
  have m: "sz - 1 = mask n" using n by (simp add: mask_eq_exp_minus_1)
  let ?x = "base + next_off s + guard + sz - 1"
  have x: "unat ?x = pool_end base s + unat guard + unat sz - 1"
  proof -
    have one: "(1 :: usize) \<le> base + next_off s + guard + sz \<longleftrightarrow> 0 < unat (base + next_off s + guard + sz)"
      by (simp add: word_le_nat_alt Suc_le_eq)
    have "unat (base + next_off s + guard + sz) = pool_end base s + unat guard + unat sz"
      using room nx by (simp add: pool_end_def unat_word_ariths)
    then show ?thesis using szpos one by (simp add: unat_sub)
  qed
  let ?b = "?x AND NOT (sz - 1)"
  define top where "top = unat ?b"
  have top: "top = (pool_end base s + unat guard + unat sz - 1) -
      (pool_end base s + unat guard + unat sz - 1) mod unat sz"
    unfolding top_def m unat_and_not_mask x by (simp add: sz)
  note r = round_up_bounds [OF szpos, of "pool_end base s + unat guard", folded top]
  have gb: "unat (?b - guard) = top - unat guard"
    using r(1) by (simp add: unat_sub top_def [symmetric] word_le_nat_alt)
  let ?off = "?b - guard - base"
  have off: "unat ?off = top - unat guard - unat base"
    using r(1) gb by (subst unat_sub) (simp_all add: word_le_nat_alt pool_end_def)
  have fin: "unat (?off + guard + sz) = top - unat base + unat sz"
  proof -
    have "unat (?off + guard) = top - unat base"
      using r(1,2) off nx room by (subst unat_add_small) (simp_all add: pool_end_def)
    then show ?thesis
      using r(1,2) nx room by (subst unat_add_small) (simp_all add: pool_end_def)
  qed
  have c: "carve guard base len sz s =
    (if len < ?off + guard + sz then (None, s)
     else (Some (?b, Some (?b - guard, alloc_count s)),
           s\<lparr>next_off := ?off + guard + sz, alloc_count := alloc_count s + 1\<rparr>))"
    by (simp add: carve_def Let_def)
  have le: "unat base \<le> top" using r(1) by (simp add: pool_end_def)
  show ?thesis
    by (rule exI [of _ top], intro conjI r)
      (use fin gb le in \<open>auto simp: c word_less_nat_alt top_def [symmetric] pool_end_def\<close>)
qed

section \<open>No stack is handed out twice\<close>

text \<open>
  A region is the address of its first byte and its length. \<open>live\<close> collects the stacks
  handed out and not released; with the free list they are pairwise disjoint and lie in the
  carved part of the pool.
\<close>

type_synonym region = "usize \<times> usize"

definition apart :: "region \<Rightarrow> region \<Rightarrow> bool" where
  "apart r q \<longleftrightarrow> unat (fst r) + unat (snd r) \<le> unat (fst q) \<or> unat (fst q) + unat (snd q) \<le> unat (fst r)"

definition free_regions :: "usize \<Rightarrow> pool \<Rightarrow> region list" where
  "free_regions base s = map (\<lambda>(off, sz). (base + off, sz)) (take (free_count s) (free_entries s))"

definition within :: "usize \<Rightarrow> pool \<Rightarrow> region \<Rightarrow> bool" where
  "within base s r \<longleftrightarrow> unat base \<le> unat (fst r) \<and> 0 < unat (snd r) \<and>
     unat (fst r) + unat (snd r) \<le> pool_end base s"

definition pool_inv :: "usize \<Rightarrow> usize \<Rightarrow> pool \<Rightarrow> region list \<Rightarrow> bool" where
  "pool_inv base len s live \<longleftrightarrow> unat (next_off s) \<le> unat len \<and>
     free_count s \<le> FREE_LIST_CAP \<and> length (free_entries s) = FREE_LIST_CAP \<and>
     (\<forall>r \<in> set (live @ free_regions base s). within base s r) \<and>
     sorted_wrt apart (live @ free_regions base s)"

lemma apart_sym: "apart r q \<Longrightarrow> apart q r"
  by (auto simp: apart_def)

lemma pool_inv_boot: "pool_inv base len pool_boot []"
  by (simp add: pool_inv_def pool_boot_def free_regions_def)

lemma free_regions_push:
  assumes "free_count s < FREE_LIST_CAP" and "length (free_entries s) = FREE_LIST_CAP"
  shows "free_regions base (free_push off sz s) = free_regions base s @ [(base + off, sz)]"
  using assms by (simp add: free_regions_def free_push_def Let_def take_Suc_conv_app_nth)

lemma free_regions_pop:
  assumes "free_count s = Suc n" and "length (free_entries s) = FREE_LIST_CAP" and "Suc n \<le> FREE_LIST_CAP"
  shows "free_regions base s =
    free_regions base (s\<lparr>free_count := n\<rparr>) @ [(base + fst (free_entries s ! n), snd (free_entries s ! n))]"
  using assms by (simp add: free_regions_def take_Suc_conv_app_nth split_beta)

text \<open>Popping an entry of another size and pushing it back changes nothing.\<close>

lemma pop_push:
  assumes "free_count s = Suc n" and "length (free_entries s) = FREE_LIST_CAP" and "Suc n \<le> FREE_LIST_CAP"
  shows "free_push (fst (free_entries s ! n)) (snd (free_entries s ! n)) (s\<lparr>free_count := n\<rparr>) = s"
  using assms by (simp add: free_push_def Let_def)

lemma alloc_cases:
  assumes inv: "pool_inv base len s live"
  shows "alloc_stack guard base len sz s = carve guard base len sz s \<or>
    (\<exists>n off. free_count s = Suc n \<and> free_entries s ! n = (off, sz) \<and>
      alloc_stack guard base len sz s = (Some (base + off, None), s\<lparr>free_count := n\<rparr>))"
proof (cases "free_count s")
  case 0
  then show ?thesis by (simp add: alloc_stack_def free_pop_def)
next
  case (Suc n)
  obtain off z where e: "free_entries s ! n = (off, z)" by fastforce
  have "free_push off z (s\<lparr>free_count := n\<rparr>) = s"
    using pop_push [OF Suc] inv e Suc by (simp add: pool_inv_def)
  then show ?thesis using Suc e by (simp add: alloc_stack_def free_pop_def)
qed

lemma alloc_keeps:
  assumes inv: "pool_inv base len s live" and a: "pool_args guard base len sz"
    and al: "alloc_stack guard base len sz s = (Some (b, gd), s')"
  shows "pool_inv base len s' ((b, sz) # live)"
proof -
  obtain n where n: "n < 31" "sz = 2 ^ n" using a by (auto simp: pool_args_def)
  have szpos: "0 < unat sz" using n by (simp add: unat_exp_u32)
  have nx: "unat (next_off s) \<le> unat len" using inv by (simp add: pool_inv_def)
  from alloc_cases [OF inv, of guard sz] show ?thesis
  proof (elim disjE exE conjE)
    assume "alloc_stack guard base len sz s = carve guard base len sz s"
    then have c: "carve guard base len sz s = (Some (b, gd), s')" using al by simp
    obtain top where t: "pool_end base s + unat guard \<le> top" "unat b = top"
      "top + unat sz \<le> unat base + unat len" "pool_end base s' = top + unat sz"
      "free_count s' = free_count s" "free_entries s' = free_entries s"
      using carve_spec [OF a nx] c by auto
    have fr: "free_regions base s' = free_regions base s" using t by (simp add: free_regions_def)
    have mono: "within base s r \<Longrightarrow> within base s' r" for r using t by (auto simp: within_def)
    have ap: "apart (b, sz) r" if "within base s r" for r
      using that t by (auto simp: within_def apart_def)
    have "unat base \<le> unat b" using t by (simp add: pool_end_def)
    then have "within base s' (b, sz)" using t szpos by (simp add: within_def)
    then show ?thesis using inv t fr mono ap unfolding pool_inv_def by (auto simp: pool_end_def)
  next
    fix k off
    assume k: "free_count s = Suc k" "free_entries s ! k = (off, sz)"
      "alloc_stack guard base len sz s = (Some (base + off, None), s\<lparr>free_count := k\<rparr>)"
    have bs: "b = base + off" "s' = s\<lparr>free_count := k\<rparr>" using k(3) al by auto
    have fr: "free_regions base s = free_regions base s' @ [(b, sz)]"
      using free_regions_pop [of s k base] inv k bs by (simp add: pool_inv_def)
    have w: "within base s' r = within base s r" for r by (simp add: bs within_def pool_end_def)
    have "k \<le> FREE_LIST_CAP" using inv k(1) by (simp add: pool_inv_def)
    then show ?thesis using inv unfolding pool_inv_def fr w
      by (auto simp: bs(2) sorted_wrt_append apart_sym)
  qed
qed

lemma release_keeps:
  assumes inv: "pool_inv base len s ((b, sz) # live)" and ov: "unat base + unat len < 2 ^ 32"
  shows "pool_inv base len (release_stack base len b sz s) live"
proof -
  have w: "within base s (b, sz)" using inv by (simp add: pool_inv_def)
  have le: "unat (next_off s) \<le> unat len" using inv by (simp add: pool_inv_def)
  have off: "unat (b - base) = unat b - unat base"
    using w by (simp add: within_def unat_sub word_le_nat_alt)
  have "unat (b - base + sz) = unat b - unat base + unat sz"
    unfolding off [symmetric]
    by (rule unat_add_small) (use w le ov off in \<open>unfold within_def pool_end_def fst_conv snd_conv, linarith\<close>)
  then have "\<not> len < b - base + sz" 
    using w le unfolding word_less_nat_alt within_def pool_end_def fst_conv snd_conv by linarith
  then have r: "release_stack base len b sz s = free_push (b - base) sz s"
    by (simp add: release_stack_def Let_def)
  show ?thesis
  proof (cases "free_count s < FREE_LIST_CAP")
    case True
    have fr: "free_regions base (free_push (b - base) sz s) = free_regions base s @ [(b, sz)]"
      using free_regions_push [OF True] inv by (simp add: pool_inv_def)
    have "within base (free_push (b - base) sz s) = within base s"
      by (simp add: fun_eq_iff free_push_def Let_def within_def pool_end_def)
    then show ?thesis using inv True unfolding r pool_inv_def fr
      by (auto simp: free_push_def Let_def sorted_wrt_append apart_sym)
  next
    case False
    then show ?thesis using inv unfolding r by (auto simp: free_push_def Let_def pool_inv_def)
  qed
qed

text \<open>With the list full the released stack is forgotten: it is in neither set again.\<close>

lemma release_full: "free_count s = FREE_LIST_CAP \<Longrightarrow> release_stack base len b sz s = s"
  by (simp add: release_stack_def free_push_def Let_def)

section \<open>Runs of the pool\<close>

text \<open>
  The states of the pool after any sequence of allocations and releases of stacks in use,
  with the stacks in use.
\<close>

inductive pool_reach :: "usize \<Rightarrow> usize \<Rightarrow> usize \<Rightarrow> pool \<Rightarrow> region list \<Rightarrow> bool" for guard base len where
  boot: "pool_reach guard base len pool_boot []"
| alloc: "pool_reach guard base len s live \<Longrightarrow> pool_args guard base len sz \<Longrightarrow>
    alloc_stack guard base len sz s = (Some (b, gd), s') \<Longrightarrow> pool_reach guard base len s' ((b, sz) # live)"
| release: "pool_reach guard base len s live \<Longrightarrow> (b, sz) \<in> set live \<Longrightarrow>
    pool_reach guard base len (release_stack base len b sz s) (remove1 (b, sz) live)"

lemma pool_inv_to_front:
  assumes "pool_inv base len s live" and "r \<in> set live"
  shows "pool_inv base len s (r # remove1 r live)"
proof -
  obtain xs ys where l: "live = xs @ r # ys" "r \<notin> set xs" using split_list_first [OF assms(2)] by blast
  then have "remove1 r live = xs @ ys" by (simp add: remove1_append)
  then show ?thesis
    using assms(1) unfolding pool_inv_def l by (auto simp: sorted_wrt_append apart_sym)
qed

lemma pool_reach_inv:
  assumes "pool_reach guard base len s live" and "unat base + unat len < 2 ^ 32"
  shows "pool_inv base len s live"
  using assms(1)
proof (induction rule: pool_reach.induct)
  case (release s live b sz)
  then show ?case using release_keeps [OF pool_inv_to_front assms(2)] by blast
qed (auto intro: pool_inv_boot alloc_keeps)

text \<open>Every stack ever handed out is aligned to its size, a power of two.\<close>

definition size_aligned :: "region \<Rightarrow> bool" where
  "size_aligned r \<longleftrightarrow> (\<exists>n < 31. unat (snd r) = 2 ^ n) \<and> unat (fst r) mod unat (snd r) = 0"

lemma pool_reach_aligned:
  assumes "pool_reach guard base len s live" and "unat base + unat len < 2 ^ 32"
  shows "\<forall>r \<in> set (live @ free_regions base s). size_aligned r"
  using assms(1)
proof (induction rule: pool_reach.induct)
  case boot
  show ?case by (simp add: pool_boot_def free_regions_def)
next
  case (alloc s live sz b gd s')
  note inv = pool_reach_inv [OF alloc.hyps(1) assms(2)]
  obtain n where n: "n < 31" "sz = 2 ^ n" using alloc.hyps(2) by (auto simp: pool_args_def)
  from alloc_cases [OF inv, of guard sz] show ?case
  proof (elim disjE exE conjE)
    assume "alloc_stack guard base len sz s = carve guard base len sz s"
    then have "unat b mod unat sz = 0 \<and> free_count s' = free_count s \<and> free_entries s' = free_entries s"
      using carve_spec [OF alloc.hyps(2), of s] inv alloc.hyps(3) by (auto simp: pool_inv_def)
    moreover have "unat sz = 2 ^ n" using n by (simp add: unat_exp_u32)
    ultimately show ?thesis using alloc.IH n(1) by (auto simp: size_aligned_def free_regions_def)
  next
    fix k off
    assume k: "free_count s = Suc k" "free_entries s ! k = (off, sz)"
      "alloc_stack guard base len sz s = (Some (base + off, None), s\<lparr>free_count := k\<rparr>)"
    then have "free_regions base s = free_regions base s' @ [(b, sz)]"
      using free_regions_pop [of s k base] inv alloc.hyps(3) by (simp add: pool_inv_def)
    then show ?thesis using alloc.IH by auto
  qed
next
  case (release s live b sz)
  have inv: "pool_inv base len s live" using pool_reach_inv [OF release.hyps(1) assms(2)] .
  have "set (free_regions base (release_stack base len b sz s)) \<subseteq> insert (b, sz) (set (free_regions base s))"
  proof (cases "len < b - base + sz \<or> \<not> free_count s < FREE_LIST_CAP")
    case True
    then have "release_stack base len b sz s = s" by (auto simp: release_stack_def free_push_def Let_def)
    then show ?thesis by auto
  next
    case False
    then have "release_stack base len b sz s = free_push (b - base) sz s" by (simp add: release_stack_def Let_def)
    then show ?thesis using free_regions_push [of s base "b - base" sz] False inv by (auto simp: pool_inv_def)
  qed
  moreover have "set (remove1 (b, sz) live) \<subseteq> set live" by (rule set_remove1_subset)
  ultimately show ?case using release.IH release.hyps(2) by auto
qed

end
