(* ===== verification/Props_Sync.thy ===== *)
theory Props_Sync
  imports Demo Semaphore Signal Console Critical Stack_Pool
begin

text \<open>
  The properties of the executor's wakers, of the channel, the semaphore and the signal, of
  the console, of the critical section and of the stack pool.
\<close>

section \<open>Wakers\<close>

lemma wk_ok_demo: "wk_ok demo_boot" "wk_ready demo_boot = {}"
proof -
  have "reachable demo_config 2 demo_boot" unfolding demo_boot_def by (rule reachable.boot)
  then show "wk_ok demo_boot" using reach_timers by (simp add: timers_ok_def)
  show "wk_ready demo_boot = {}"
    by (auto simp: wk_ready_def rb.members_def wk_words_def demo_boot_def boot_kernel_def rb_mem_def)
qed

text \<open>
  The waker data of a task identity is defined exactly for the 32 priorities and 32
  indices, and decodes to the identity; the two halves of an identity are what it was made of.
\<close>
theorem waker_data_round_trip:
  "(encode_waker_data t \<noteq> None \<longleftrightarrow> unat (tid_priority t) < 32 \<and> unat (tid_index t) < 32) \<and>
    (\<forall>d. encode_waker_data t = Some d \<longrightarrow> decode_waker_data d = t) \<and>
    tid_priority (tid_new p i) = p \<and> tid_index (tid_new p i) = i"
  by (intro conjI encode_total allI impI decode_encode tid_priority_new tid_index_new)

theorem waker_data_round_trip_witness: "decode_waker_data (3, 7) = tid_new 3 7"
proof -
  have "encode_waker_data (tid_new 3 7) = Some (3, 7)" by code_simp
  then show ?thesis using waker_data_round_trip [of "tid_new 3 7" 3 7] by blast
qed

text \<open>
  Draining the executor's ready words takes every marked task exactly once and leaves
  the words empty; what comes out first is a task of the highest marked priority.
\<close>
theorem drain_takes_every_task_once:
  assumes "wk_ok k" and "card (wk_ready k) \<le> n"
  shows "wk_ready (snd (drain n k)) = {} \<and> tid_pair ` set (fst (drain n k)) = wk_ready k \<and>
    length (fst (drain n k)) = card (wk_ready k) \<and>
    (\<forall>t. fst (next_ready k) = Some t \<longrightarrow> (\<forall>(p, i) \<in> wk_ready k. p \<le> unat (tid_priority t)))"
  using drain_spec [OF assms] next_ready_spec [OF assms(1)] by (cases "next_ready k") (fastforce split: option.splits)

definition demo_marked :: kernel where
  "demo_marked = the (mark_ready (tid_new 9 3) (the (mark_ready (tid_new 4 1) demo_boot)))"

lemma demo_marked: "wk_ok demo_marked" "wk_ready demo_marked = {(9, 3), (4, 1)}"
proof -
  have c: "coop_id (tid_new 4 1)" "coop_id (tid_new 9 3)" by (simp_all add: coop_id_def tid_priority_new tid_index_new)
  obtain k1 where k1: "mark_ready (tid_new 4 1) demo_boot = Some k1" "wk_ok k1" "wk_ready k1 = {(4, 1)}"
    using mark_ready_spec [OF wk_ok_demo(1) c(1)] wk_ok_demo(2) by (auto simp: tid_priority_new tid_index_new)
  obtain k2 where "mark_ready (tid_new 9 3) k1 = Some k2" "wk_ok k2" "wk_ready k2 = {(9, 3), (4, 1)}"
    using mark_ready_spec [OF k1(2) c(2)] k1(3) by (auto simp: tid_priority_new tid_index_new)
  then show "wk_ok demo_marked" "wk_ready demo_marked = {(9, 3), (4, 1)}"
    using k1 by (simp_all add: demo_marked_def)
qed

theorem drain_takes_every_task_once_witness:
  "tid_pair ` set (fst (drain 2 demo_marked)) = {(9, 3), (4, 1)} \<and> wk_ready (snd (drain 2 demo_marked)) = {}"
  using drain_takes_every_task_once [OF demo_marked(1), of 2] by (simp add: demo_marked(2))

text \<open>
  Between the two accesses of \<open>next_ready\<close> that take the last task of a priority, an
  interrupt that marks another task of that priority loses the mark: the queue holds the task
  but the bitmap is clear, nothing is pending and the next call finds no task.
\<close>
theorem interrupt_in_next_ready_loses_wakeup:
  assumes "wk_ok k" and "coop_id t" and "coop_id u" and "wk_ready k = {tid_pair t}"
    and "tid_priority u = tid_priority t"
  shows "\<exists>k'. next_ready_with (\<lambda>k. the (mark_ready u k)) k = (Some t, k') \<and>
    bit (wk_queues k' ! unat (tid_priority u)) (unat (tid_index u)) \<and> wk_bitmap k' = 0 \<and>
    next_ready (clear_pend k') = (None, clear_pend k') \<and> \<not> has_pending (clear_pend k')"
  using interrupted_next_ready [OF assms] .

theorem interrupt_in_next_ready_loses_wakeup_witness:
  "\<exists>k'. next_ready_with (\<lambda>k. the (mark_ready (tid_new 4 2) k)) (the (mark_ready (tid_new 4 1) demo_boot)) =
      (Some (tid_new 4 1), k') \<and> next_ready (clear_pend k') = (None, clear_pend k')"
proof -
  have c: "coop_id (tid_new 4 1)" "coop_id (tid_new 4 2)" by (simp_all add: coop_id_def tid_priority_new tid_index_new)
  obtain k1 where k1: "mark_ready (tid_new 4 1) demo_boot = Some k1" "wk_ok k1"
    "wk_ready k1 = {tid_pair (tid_new 4 1)}"
    using mark_ready_spec [OF wk_ok_demo(1) c(1)] wk_ok_demo(2) by (auto simp: tid_pair_def)
  then show ?thesis
    using interrupt_in_next_ready_loses_wakeup [OF k1(2) c k1(3)] by (auto simp: tid_priority_new)
qed

section \<open>Channel, semaphore and signal\<close>

text \<open>
  C19: a channel is a bounded first-in first-out queue: over any script of sends and receives
  on a new channel of \<open>n\<close> cells, what was received followed by what is still queued is what
  was accepted, in order, never more than \<open>n - 1\<close> values are queued, and a send is refused
  only when that many are.
\<close>
theorem channel_is_fifo:
  assumes "0 < n" and "wk_ok k" and "qrun (put_op h) (get_op h) os (new_channel n :: 'a channel, k) = (sent, got, s)"
  shows "sent = got @ chan_contents (fst s) \<and> length (chan_contents (fst s)) \<le> n - 1 \<and>
    (put_op h v s \<noteq> None \<longleftrightarrow> length (chan_contents (fst s)) < n - 1) \<and>
    (get_op h s \<noteq> None \<longleftrightarrow> chan_contents (fst s) \<noteq> [])"
proof -
  have l: "link_ok (new_channel n :: 'a channel, k)" "chan_contents (new_channel n :: 'a channel) = []"
    "room (new_channel n :: 'a channel) = n - 1"
    using chan_ok_new [OF assms(1)] assms(2) by (auto simp: link_ok_def room_def new_channel_def)
  note r = cq.run_fifo [OF l(1) assms(3)]
  then have "chan_ok (fst s)" by (cases s) (simp add: link_ok_def)
  then have le: "length (chan_contents (fst s)) \<le> room (fst s)"
    using chan_len_less [of "fst s"] by (simp add: chan_contents_def room_def)
  show ?thesis
    using r l le cq.put_iff [of s h v] cq.get_iff [of s h] by simp
qed

theorem channel_is_fifo_witness:
  "\<exists>s. qrun (put_op 0) (get_op 0) [Put (1 :: nat), Put 2, Put 3, Get, Put 4, Get] (new_channel 3, demo_boot) =
    ([1, 2, 4], [1, 2], s) \<and> chan_contents (fst s) = [4]"
proof -
  let ?r = "qrun (put_op 0) (get_op 0) [Put (1 :: nat), Put 2, Put 3, Get, Put 4, Get] (new_channel 3, demo_boot)"
  have "fst ?r = [1, 2, 4]" "fst (snd ?r) = [1, 2]" by code_simp+
  then obtain s where e: "?r = ([1, 2, 4], [1, 2], s)" by (metis prod.collapse)
  have "[1, 2, 4] = [1, 2] @ chan_contents (fst s)"
    by (rule channel_is_fifo [OF _ wk_ok_demo(1) e, THEN conjunct1]) simp
  then show ?thesis by (intro exI [of _ s] conjI e) simp
qed



text \<open>
  C21: semaphore tokens are bounded: over any script of attempts, polls, drops and releases
  the acquisitions plus the tokens left never exceed the initial tokens plus the releases,
  and the count never exceeds the largest of its initial value, its maximum and one.
\<close>
theorem semaphore_tokens_bounded:
  assumes "sem_ok s" and "wk_ok k" and "\<forall>c \<in> set cs. call_ok c"
  shows "\<exists>a r s' k'. sem_run h mx cs (s, k) = Some (a, r, s', k') \<and> r = count_list cs Call_release \<and>
    a + unat (count s') \<le> unat (count s) + r \<and>
    unat (count s') \<le> max (unat (count s)) (max 1 (unat mx))"
  using sem_run_spec [OF assms, of h mx] by blast

theorem semaphore_tokens_bounded_witness:
  "\<exists>a s' k'. sem_run 0 3 [Call_try, Call_try, Call_release, Call_try] (new_semaphore 1, demo_boot) =
    Some (a, 1, s', k') \<and> a + unat (count s') \<le> 2"
proof -
  have s: "sem_ok (new_semaphore 1)" by (simp add: sem_ok_def new_semaphore_def)
  have "\<forall>c \<in> set [Call_try, Call_try, Call_release, Call_try]. call_ok c" by simp
  from semaphore_tokens_bounded [OF s wk_ok_demo(1) this, of 0 3] show ?thesis
    by (auto simp: new_semaphore_def)
qed

text \<open>
  A release without waiters adds one token up to the maximum; with waiters it takes the
  lowest index of the highest waiting priority off the waiting set, marks that task ready,
  and leaves the count at one.
\<close>
theorem release_hands_to_first_waiter:
  assumes "sem_ok s" and "wk_ok k"
  shows "\<exists>s' k'. release h mx s k = Some (s', k') \<and> sem_ok s' \<and> wk_ok k' \<and>
    (if sem_waiting s = {}
     then s' = s\<lparr>count := (if mx \<le> count s then count s else count s + 1)\<rparr> \<and> k' = k
     else \<exists>w. first_waiter (sem_waiting s) w \<and> sem_waiting s' = sem_waiting s - {w} \<and> count s' = 1 \<and>
       wk_ready k' = insert w (wk_ready k))"
  using release_spec [OF assms, of h mx] unfolding sem_released_def by blast

definition demo_sem :: semaphore where
  "demo_sem = the (sem_register (tid_new 2 5) (the (sem_register (tid_new 7 1) (new_semaphore 0))))"

lemma demo_sem: "sem_ok demo_sem" "sem_waiting demo_sem = {(2, 5), (7, 1)}" "count demo_sem = 0"
proof -
  have c: "coop_id (tid_new 7 1)" "coop_id (tid_new 2 5)" by (simp_all add: coop_id_def tid_priority_new tid_index_new)
  have n: "sem_ok (new_semaphore 0)" "sem_waiting (new_semaphore 0) = {}" "count (new_semaphore 0) = 0"
    by (auto simp: sem_ok_def new_semaphore_def sem_waiting_def)
  obtain s1 where s1: "sem_register (tid_new 7 1) (new_semaphore 0) = Some s1" "sem_ok s1"
    "sem_waiting s1 = {(7, 1)}" "count s1 = 0"
    using sem_register_spec [OF n(1) c(1)] n by (auto simp: coop_pair_def tid_priority_new tid_index_new)
  obtain s2 where "sem_register (tid_new 2 5) s1 = Some s2" "sem_ok s2"
    "sem_waiting s2 = {(2, 5), (7, 1)}" "count s2 = 0"
    using sem_register_spec [OF s1(2) c(2)] s1 by (auto simp: coop_pair_def tid_priority_new tid_index_new)
  then show "sem_ok demo_sem" "sem_waiting demo_sem = {(2, 5), (7, 1)}" "count demo_sem = 0"
    using s1 by (simp_all add: demo_sem_def)
qed

theorem release_hands_to_first_waiter_witness:
  "\<exists>s' k'. release 0 3 demo_sem demo_boot = Some (s', k') \<and> (7, 1) \<in> wk_ready k' \<and>
    sem_waiting s' = {(2, 5)}"
  using release_hands_to_first_waiter [OF demo_sem(1) wk_ok_demo(1), of 0 3]
  by (auto simp: demo_sem(2) first_waiter_def)

text \<open>
  Two releases in a row that both find a waiter wake two tasks but leave one token
  between them.
\<close>
theorem two_releases_leave_one_token:
  assumes "sem_ok s" and "count s = 0" and "wk_ok k"
    and "w1 \<in> sem_waiting s" and "w2 \<in> sem_waiting s" and "w1 \<noteq> w2"
  shows "\<exists>s1 k1 s2 k2. release h mx s k = Some (s1, k1) \<and> release h mx s1 k1 = Some (s2, k2) \<and>
    count s2 = 1 \<and> card (sem_waiting s - sem_waiting s2) = 2 \<and>
    wk_ready k \<union> (sem_waiting s - sem_waiting s2) = wk_ready k2"
  using two_releases_one_token [OF assms] .

theorem two_releases_leave_one_token_witness:
  "\<exists>s1 k1 s2 k2. release 0 3 demo_sem demo_boot = Some (s1, k1) \<and> release 0 3 s1 k1 = Some (s2, k2) \<and>
    count s2 = 1 \<and> wk_ready demo_boot \<union> (sem_waiting demo_sem - sem_waiting s2) = wk_ready k2"
proof -
  have w: "(2, 5) \<in> sem_waiting demo_sem" "(7, 1) \<in> sem_waiting demo_sem" "(2, 5) \<noteq> (7 :: nat, 1 :: nat)"
    by (simp_all add: demo_sem(2))
  show ?thesis using two_releases_leave_one_token [OF demo_sem(1,3) wk_ok_demo(1) w, of 0 3] by blast
qed

text \<open>
  C22: however a waiting task and signalling interrupts interleave at their accesses to the
  latch, a task that is parked on a fired latch has been marked ready once no signal call is
  between its two accesses.
\<close>
theorem signal_is_not_lost:
  assumes "sig_reach t s" and "pc s = Parked" and "fired (latch s)" and "mid s = 0"
  shows "woke s"
  using no_lost_signal [OF assms] .

theorem signal_is_not_lost_witness:
  "\<exists>s. sig_reach (tid_new 2 1) s \<and> pc s = Parked \<and> fired (latch s) \<and> woke s"
proof -
  let ?t = "tid_new 2 1"
  let ?l = "\<lambda>f w. \<lparr>fired = f, waiter = w\<rparr>"
  let ?s = "\<lambda>f w p m b. \<lparr>latch = ?l f w, pc = p, mid = m, woke = b\<rparr>"
  have 0: "sig_reach ?t (?s False None Idle 0 False)"
    using sig_reach.start [of ?t] by (simp add: sig_init_def new_signal_def)
  have 1: "sig_reach ?t (?s False None Missed 0 False)"
    using sig_reach.step [OF 0 sig_step.take [where r = False]] by (simp add: try_take_def)
  have 2: "sig_reach ?t (?s False (Some ?t) Registered 0 False)"
    using sig_reach.step [OF 1 sig_step.register] by (simp add: sig_swap_def)
  have 3: "sig_reach ?t (?s False (Some ?t) Parked 0 False)"
    using sig_reach.step [OF 2 sig_step.retake [where r = False]] by (simp add: try_take_def)
  have 4: "sig_reach ?t (?s True (Some ?t) Parked 1 False)"
    using sig_reach.step [OF 3 sig_step.fire] by (simp add: sig_fire_def)
  have 5: "sig_reach ?t (?s True None Parked 0 True)"
    using sig_reach.step [OF 4 sig_step.swap] by (simp add: sig_swap_def)
  show ?thesis using signal_is_not_lost [OF 5] 5 by (intro exI [of _ "?s True None Parked 0 True"]) simp
qed

section \<open>Critical section, stack pool and console\<close>

text \<open>
  C23: at most one hart is inside the critical section, however the harts interleave and
  nest; and a hart that spins gets in at its next attempt unless another hart is inside,
  which itself does not spin.
\<close>
theorem critical_section_excludes:
  assumes "cs_reach n c"
  shows "(\<forall>g h. inside c g \<and> inside c h \<longrightarrow> g = h) \<and>
    (\<forall>h < n. spinning c ! h \<longrightarrow> inside (cs_cas h c) h \<or>
      (\<exists>g. lock_owner c = Some g \<and> g \<noteq> h \<and> inside c g \<and> \<not> spinning c ! g))"
  using cs_mutual_exclusion [OF assms] cs_no_deadlock [OF assms] by blast

theorem critical_section_excludes_witness:
  "inside (cs_cas 0 (cs_enter 1 (cs_enter 0 (crit_boot 2)))) 0 \<and>
    \<not> inside (cs_cas 0 (cs_enter 1 (cs_enter 0 (crit_boot 2)))) 1"
proof -
  let ?c1 = "cs_enter 0 (crit_boot 2)" and ?c2 = "cs_enter 1 (cs_enter 0 (crit_boot 2))"
  have f: "0 < length (frames (crit_boot 2))" "\<not> spinning (crit_boot 2) ! 0" "nesting (crit_boot 2) ! 0 + 1 \<noteq> 0"
    "1 < length (frames ?c1)" "\<not> spinning ?c1 ! 1" "nesting ?c1 ! 1 + 1 \<noteq> 0"
    "0 < length (frames ?c2)" "spinning ?c2 ! 0" "inside (cs_cas 0 ?c2) 0"
    by code_simp+
  have "cs_reach 2 (cs_cas 0 ?c2)"
    by (rule cs_reach.step [OF cs_reach.step [OF cs_reach.step [OF cs_reach.boot]]])
      (rule cs_step.enter [OF f(1-3)], rule cs_step.enter [OF f(4-6)], rule cs_step.cas [OF f(7,8)])
  then show ?thesis using critical_section_excludes f(9) by fastforce
qed

text \<open>
  C24: whatever sequence of allocations and releases the pool serves, the stacks in use are
  pairwise disjoint and lie inside the pool.
\<close>
theorem stacks_never_overlap:
  assumes "pool_reach guard base len s live" and "unat base + unat len < 2 ^ 32"
  shows "sorted_wrt apart live \<and>
    (\<forall>(b, sz) \<in> set live. unat base \<le> unat b \<and> unat b + unat sz \<le> unat base + unat len)"
  using pool_reach_inv [OF assms]
  by (force simp: pool_inv_def sorted_wrt_append within_def pool_end_def)

definition demo_pool :: "pool \<times> pool" where
  "demo_pool = (let s1 = snd (alloc_stack 32 0x1000 0x2000 1024 pool_boot)
     in (s1, snd (alloc_stack 32 0x1000 0x2000 1024 s1)))"

theorem stacks_never_overlap_witness:
  "sorted_wrt apart [(0x1C00, 1024), (0x1400, 1024 :: usize)] \<and>
    pool_reach 32 0x1000 0x2000 (snd demo_pool) [(0x1C00, 1024), (0x1400, 1024)]"
proof -
  have a: "pool_args 32 0x1000 0x2000 1024"
    unfolding pool_args_def by (intro conjI exI [of _ 10] exI [of _ 5]) simp_all
  have f: "alloc_stack 32 0x1000 0x2000 1024 pool_boot = (Some (0x1400, Some (0x13E0, 0)), fst demo_pool)"
    "alloc_stack 32 0x1000 0x2000 1024 (fst demo_pool) = (Some (0x1C00, Some (0x1BE0, 1)), snd demo_pool)"
    by code_simp+
  have r: "pool_reach 32 0x1000 0x2000 (snd demo_pool) [(0x1C00, 1024), (0x1400, 1024)]"
    by (rule pool_reach.alloc [OF pool_reach.alloc [OF pool_reach.boot a f(1)] a f(2)])
  have "unat (0x1000 :: usize) + unat (0x2000 :: usize) < 2 ^ 32" by simp
  then show ?thesis using stacks_never_overlap [OF r] r by blast
qed

text \<open>
  A write to the console loses and reorders nothing, full ring or not, lock taken or
  given up: after the write and a flush the wire carries what was written and queued before,
  followed by the new bytes.
\<close>
theorem console_loses_nothing:
  assumes "con_ok (s, k)" and "halves_ok s" and "irq_tx_active s \<or> chan_contents (tx_chan s) = []"
  shows "\<exists>w x1 x2. write_bytes h cas bs (s, k) = Some (w, x1) \<and> flush_sync h x1 = Some x2 \<and>
    wire (fst x2) = wire s @ chan_contents (tx_chan s) @ bs \<and> chan_contents (tx_chan (fst x2)) = []"
proof -
  obtain w s1 k1 where w: "write_bytes h cas bs (s, k) = Some (w, (s1, k1))" "con_ok (s1, k1)" "halves_ok s1"
    "stream (s1, k1) = stream (s, k) @ bs" using write_bytes_spec [OF assms] by blast
  obtain s2 k2 where "flush_sync h (s1, k1) = Some (s2, k2)" "chan_contents (tx_chan s2) = []"
    "wire s2 = stream (s1, k1)" using flush_sync_spec [OF w(2)] w(3) unfolding halves_ok_def by blast
  then show ?thesis using w by (auto simp: stream_def)
qed

theorem console_loses_nothing_witness:
  "\<exists>w x1 x2. write_bytes 0 (\<lambda>_. True) [72, 105] (enable_irq_tx (console_init console_boot), demo_boot) = Some (w, x1) \<and>
    flush_sync 0 x1 = Some x2 \<and> wire (fst x2) = [72, 105]"
proof -
  let ?s = "enable_irq_tx (console_init console_boot)"
  note b = con_ok_boot [OF wk_ok_demo(1)]
  have s: "con_ok (?s, demo_boot)" "halves_ok ?s" "irq_tx_active ?s" "wire ?s = []" "chan_contents (tx_chan ?s) = []"
    using b by (simp_all add: con_ok_def halves_ok_def enable_irq_tx_def stream_def)
  show ?thesis using console_loses_nothing [OF s(1,2), of 0 "\<lambda>_. True" "[72, 105]"] s(3-5) by auto
qed

end
