(* ===== verification/Sleep.thy ===== *)
theory Sleep
  imports Channel Timer
begin

text \<open>
  Durations and the sleep future of the cooperative tier (\<open>rivet/src/time.rs\<close>). \<open>now\<close> is the
  clock read by the poll and \<open>me\<close> the task the executor is polling; \<open>ovf\<close> says whether
  overflow checks are compiled in. \<open>None\<close> is a panic.
\<close>

section \<open>Durations\<close>

record duration =
  micros :: u64

definition from_micros :: "u64 \<Rightarrow> duration" where
  "from_micros us = \<lparr>micros = us\<rparr>"

definition from_millis :: "bool \<Rightarrow> u64 \<Rightarrow> duration option" where
  "from_millis ovf ms = (if ovf \<and> unat ms * 1000 \<ge> 2 ^ 64 then None else Some \<lparr>micros = ms * 1000\<rparr>)"

definition as_micros :: "duration \<Rightarrow> u64" where
  "as_micros d = micros d"

definition as_millis :: "duration \<Rightarrow> u64" where
  "as_millis d = micros d div 1000"

lemma millis_round_trip:
  assumes "unat ms * 1000 < 2 ^ 64"
  shows "\<exists>d. from_millis ovf ms = Some d \<and> as_millis d = ms \<and> unat (as_micros d) = unat ms * 1000"
proof -
  have u: "unat (ms * 1000) = unat ms * 1000" using assms by (simp add: unat_word_ariths)
  have "unat (ms * 1000 div 1000) = unat ms" unfolding unat_div u by simp
  then have "ms * 1000 div 1000 = ms" by (simp add: word_unat_eq_iff)
  with u assms show ?thesis by (simp add: from_millis_def as_millis_def as_micros_def)
qed

section \<open>The future\<close>

record sleep =
  sl_deadline :: u64
  sl_slot :: "timer_handle option"

definition sleep_new :: sleep where
  "sleep_new = \<lparr>sl_deadline = 0, sl_slot = None\<rparr>"

definition sleep_poll :: "u64 \<Rightarrow> u64 \<Rightarrow> task_id option \<Rightarrow> sleep \<times> timer_slot list \<Rightarrow>
    (unit poll \<times> sleep \<times> timer_slot list) option" where
  "sleep_poll us now me fs =
    (let (f, ss) = fs
     in if sl_deadline f = 0
        then do {
          let d = max (now + us) 1;
          t \<leftarrow> me;
          (case register_deadline d t ss of
             (None, _) \<Rightarrow> None
           | (Some th, ss1) \<Rightarrow>
               Some (if now \<ge> d then Done () else Pending, \<lparr>sl_deadline = d, sl_slot = Some th\<rparr>, ss1))
        }
        else if now \<ge> sl_deadline f then Some (Done (), f\<lparr>sl_slot := None\<rparr>, ss)
        else Some (Pending, f, ss))"

definition sleep_drop :: "sleep \<times> timer_slot list \<Rightarrow> timer_slot list" where
  "sleep_drop fs = (case sl_slot (fst fs) of None \<Rightarrow> snd fs | Some th \<Rightarrow> cancel_deadline th (snd fs))"

section \<open>Correctness\<close>

text \<open>The first poll, outside a task or with a full table, panics.\<close>

lemma sleep_first_panics:
  "sleep_poll us now None (sleep_new, ss) = None"
  "slots_in_use ss = length ss \<Longrightarrow> sleep_poll us now me (sleep_new, ss) = None"
proof -
  show "sleep_poll us now None (sleep_new, ss) = None" by (simp add: sleep_poll_def sleep_new_def Let_def)
  assume full: "slots_in_use ss = length ss"
  have "fst (register_deadline d t ss) = None" for d t using full by (simp add: register_full)
  then have "register_deadline d t ss = (None, snd (register_deadline d t ss))" for d t
    by (metis prod.collapse)
  from this [of "max (now + us) 1" "the me"] show "sleep_poll us now me (sleep_new, ss) = None"
    by (cases me) (auto simp: sleep_poll_def sleep_new_def Let_def split: prod.splits)
qed

text \<open>
  Otherwise it enters the deadline (never 0) in a free slot; dropping the future before it
  completes takes the entry out again.
\<close>

lemma sleep_first_poll:
  fixes us now :: u64
  assumes room: "slots_in_use ss \<noteq> length ss" and len: "length ss < 256"
  defines "d \<equiv> max (now + us) 1"
  shows "\<exists>f ss' i. sleep_poll us now (Some t) (sleep_new, ss) =
      Some (if d \<le> now then Done () else Pending, f, ss') \<and> sl_deadline f = d \<and> length ss' = length ss \<and>
    pending ss' = insert (i, d, t) (pending ss) \<and> i < length ss \<and> (\<forall>x y. (i, x, y) \<notin> pending ss) \<and>
    pending (sleep_drop (f, ss')) = pending ss"
proof -
  have "fst (register_deadline d t ss) \<noteq> None" using room by (simp add: register_full)
  then obtain th ss' where r: "register_deadline d t ss = (Some th, ss')" by (metis not_Some_eq prod.collapse)
  have d0: "d \<noteq> 0" unfolding d_def by (metis max.cobounded2 word_le_0_iff zero_neq_one)
  note reg = register_pending [OF r len d0]
  let ?i = "unat (th_slot th)"
  have free: "(?i, x, y) \<notin> pending ss" for x y using reg(5) by (auto simp: pending_def)
  have p: "sleep_poll us now (Some t) (sleep_new, ss) =
      Some (if d \<le> now then Done () else Pending, \<lparr>sl_deadline = d, sl_slot = Some th\<rparr>, ss')"
    using r by (simp add: sleep_poll_def sleep_new_def d_def Let_def)
  have "pending (cancel_deadline th ss') = pending ss"
    using free by (auto simp: cancel_pending reg(1,3))
  then have "pending (sleep_drop (\<lparr>sl_deadline = d, sl_slot = Some th\<rparr>, ss')) = pending ss"
    by (simp add: sleep_drop_def)
  then show ?thesis using p reg free by (intro exI [of _ ?i] exI conjI) auto
qed

lemma sleep_later_poll:
  "sl_deadline f \<noteq> 0 \<Longrightarrow> sleep_poll us now me (f, ss) =
    Some (if sl_deadline f \<le> now then (Done (), f\<lparr>sl_slot := None\<rparr>, ss) else (Pending, f, ss))"
  by (simp add: sleep_poll_def)

text \<open>
  A completed future keeps no handle: if the timer poll has not run since the deadline, its
  entry outlives the future.
\<close>

lemma completed_sleep_keeps_entry:
  "sl_deadline f \<noteq> 0 \<Longrightarrow> sl_deadline f \<le> now \<Longrightarrow>
    \<exists>f'. sleep_poll us now me (f, ss) = Some (Done (), f', ss) \<and> sleep_drop (f', ss) = ss"
  by (simp add: sleep_later_poll sleep_drop_def)

text \<open>The timer poll wakes the task exactly when the future would complete.\<close>

lemma sleep_timer_wakes:
  assumes g: "good k" and t: "timers_ok k" and id: "coop_id t"
    and p: "pending ss = insert (i, d, t) (pending (timer_slots k))" "length ss = length (timer_slots k)"
  shows "\<exists>k'. poll_timers h now (k\<lparr>timer_slots := ss\<rparr>) = Some k' \<and>
    wk_ready k' = wk_ready k \<union> {tid_pair t' | i' d' t'. (i', d', t') \<in> pending (timer_slots k) \<and> d' \<le> now} \<union>
      (if d \<le> now then {tid_pair t} else {})"
proof -
  have old: "coop_id t'" if "(i', d', t') \<in> pending (timer_slots k)" for i' d' t'
    using that t nth_mem [of i' "timer_slots k"] by (auto simp: pending_def timers_ok_def)
  have "coop_id t'" if m: "(d', t') \<in> set ss" and "d' \<noteq> 0" for d' t'
  proof -
    obtain j where "j < length ss" "ss ! j = (d', t')" using m unfolding in_set_conv_nth by blast
    then have "(j, d', t') \<in> pending ss" using \<open>d' \<noteq> 0\<close> by (simp add: pending_def)
    then show ?thesis using old id by (auto simp: p(1))
  qed
  then have "timers_ok (k\<lparr>timer_slots := ss\<rparr>)" using t by (auto simp: timers_ok_def wk_ok_def wk_words_def)
  then obtain k' where k': "poll_timers h now (k\<lparr>timer_slots := ss\<rparr>) = Some k'"
    "polled now (k\<lparr>timer_slots := ss\<rparr>) k'"
    using poll_timers_spec g good_timer_slots by blast
  have "wk_ready (k\<lparr>timer_slots := ss\<rparr>) = wk_ready k" by (simp add: wk_ready_def wk_words_def)
  then have "wk_ready k' = wk_ready k \<union> {tid_pair t' | i' d' t'. (i', d', t') \<in> pending ss \<and> d' \<le> now}"
    using k'(2) by (simp add: polled_def coop_due_def)
  then show ?thesis using k'(1) by (auto simp: p(1))
qed

end
