(* ===== verification/Watchdog.thy ===== *)
theory Watchdog
  imports Sleep Print Tcb_Ops
begin

text \<open>
  The watchdogs (\<open>rivet/src/watchdog.rs\<close>): the check-ins of tasks, scanned on every tick, and
  the software watchdog of boards without a hardware one
  (\<open>rivet-bsp-support/src/sw_watchdog.rs\<close>). \<open>now\<close> is the clock. A reset does not return, so
  a scan ends there; the answer says whether it did.
\<close>

section \<open>The software watchdog\<close>

record sw_watchdog =
  wd_period_us :: u32
  wd_deadline_us :: u64

definition wd_init :: "u32 \<Rightarrow> u64 \<Rightarrow> sw_watchdog \<Rightarrow> sw_watchdog" where
  "wd_init period now w = w\<lparr>wd_period_us := period, wd_deadline_us := now + ucast period\<rparr>"

definition wd_feed :: "u64 \<Rightarrow> sw_watchdog \<Rightarrow> sw_watchdog" where
  "wd_feed now w = (if wd_period_us w \<noteq> 0
     then w\<lparr>wd_deadline_us := now + ucast (wd_period_us w)\<rparr> else w)"

definition wd_expired :: "u64 \<Rightarrow> sw_watchdog \<Rightarrow> bool" where
  "wd_expired now w \<longleftrightarrow> (if wd_period_us w = 0 then False else now \<ge> wd_deadline_us w)"

text \<open>The kernel's entry points forward to the board with the period cut to 32 bits.\<close>

definition watchdog_init :: "duration \<Rightarrow> u64 \<Rightarrow> sw_watchdog \<Rightarrow> sw_watchdog" where
  "watchdog_init period now w = wd_init (ucast (as_micros period)) now w"

text \<open>
  The board's check: the text is what the board writes before it resets. The answer is
  whether it did.
\<close>

definition wdt_check :: "u64 \<Rightarrow> sw_watchdog \<Rightarrow> kernel \<Rightarrow> bool \<times> kernel" where
  "wdt_check now w k =
    (if wd_expired now w
     then (True, emits [Console_write (''RIVET WATCHDOG TIMEOUT'' @ [CHR 0x0A]), Board_reset] k)
     else (False, k))"

section \<open>Check-ins\<close>

definition enable_checkins :: "duration \<Rightarrow> u32" where
  "enable_checkins timeout = ucast (as_micros timeout)"

definition checkin :: "nat \<Rightarrow> u32 \<Rightarrow> u64 \<Rightarrow> kernel \<Rightarrow> kernel" where
  "checkin h timeout now k =
    (if timeout = 0 then k
     else case current h k of
            None \<Rightarrow> k
          | Some i \<Rightarrow>
              (case get_task i k of
                 None \<Rightarrow> k
               | Some _ \<Rightarrow> upd_task i (\<lambda>t. t\<lparr>last_checkin := ucast now\<rparr>) k))"

fun scan_checkins :: "nat list \<Rightarrow> u32 \<Rightarrow> u32 \<Rightarrow> kernel \<Rightarrow> (bool \<times> kernel) option" where
  "scan_checkins [] timeout now k = Some (False, k)"
| "scan_checkins (i # is) timeout now k =
     (let t = tasks k ! i; last = last_checkin t
      in if \<not> used t then scan_checkins is timeout now k
         else if last \<noteq> 0 \<and> now - last > timeout
         then do {
           digits \<leftarrow> print_dec 10 i;
           Some (True, emits [Console_write ''RIVET TASK CHECKIN TIMEOUT task='', Console_write digits,
             Console_write [CHR 0x0A], Board_reset] k)
         }
         else scan_checkins is timeout now k)"

definition check_task_checkins :: "u32 \<Rightarrow> u64 \<Rightarrow> kernel \<Rightarrow> (bool \<times> kernel) option" where
  "check_task_checkins timeout now k =
    (if timeout = 0 then Some (False, k)
     else scan_checkins [0..<max_ptasks k] timeout (ucast now) k)"

definition watchdog_on_tick :: "sw_watchdog \<Rightarrow> u32 \<Rightarrow> u64 \<Rightarrow> kernel \<Rightarrow> (bool \<times> kernel) option" where
  "watchdog_on_tick w timeout now k =
    (case wdt_check now w k of
       (True, k1) \<Rightarrow> Some (True, k1)
     | (False, k1) \<Rightarrow> check_task_checkins timeout now k1)"

section \<open>The software watchdog fires after silence\<close>

text \<open>
  Fed at \<open>fed\<close>, the watchdog has expired at \<open>now\<close> exactly when a period has passed since, as long as
  the clock does not reach its end.
\<close>

lemma unat_ucast_u64: "unat (ucast (x :: u32) :: u64) = unat x"
proof -
  have "unat x < 2 ^ LENGTH(32)" by (rule unsigned_less)
  then show ?thesis by (simp add: unsigned_ucast_eq take_bit_nat_eq_self)
qed

lemma wd_fed_expires:
  assumes "wd_period_us w \<noteq> 0" and "unat fed + unat (wd_period_us w) < 2 ^ 64"
  shows "wd_expired now (wd_feed fed w) \<longleftrightarrow> unat fed + unat (wd_period_us w) \<le> unat now"
proof -
  have "unat (ucast (wd_period_us w) :: u64) = unat (wd_period_us w)"
    by (rule unat_ucast_u64)
  then have "unat (fed + ucast (wd_period_us w)) = unat fed + unat (wd_period_us w)"
    using assms(2) by (simp add: unat_word_ariths)
  then show ?thesis using assms(1) by (simp add: wd_expired_def wd_feed_def word_le_nat_alt)
qed

lemma wd_off: "\<not> wd_expired now (wd_init 0 t w)" "wd_feed t (wd_init 0 t' w) = wd_init 0 t' w"
  by (simp_all add: wd_expired_def wd_init_def wd_feed_def)

section \<open>The scan of check-ins\<close>

text \<open>Task \<open>i\<close> opted in and has been silent for longer than the timeout.\<close>

definition silent :: "u32 \<Rightarrow> u32 \<Rightarrow> kernel \<Rightarrow> nat \<Rightarrow> bool" where
  "silent timeout now k i \<longleftrightarrow> used (tasks k ! i) \<and> last_checkin (tasks k ! i) \<noteq> 0 \<and>
     now - last_checkin (tasks k ! i) > timeout"

definition checkin_text :: "nat \<Rightarrow> event list" where
  "checkin_text i = [Console_write ''RIVET TASK CHECKIN TIMEOUT task='',
     Console_write (the (print_dec 10 i)), Console_write [CHR 0x0A], Board_reset]"

lemma scan_checkins_spec:
  assumes "\<forall>i \<in> set is. i < 10 ^ 10"
  shows "scan_checkins is timeout now k =
    Some (case find (silent timeout now k) is of
            None \<Rightarrow> (False, k) | Some i \<Rightarrow> (True, emits (checkin_text i) k))"
  using assms
proof (induction "is")
  case (Cons i "is")
  have "print_dec 10 i \<noteq> None" using print_dec_ok [of i 10] Cons.prems by auto
  then show ?case using Cons by (auto simp: silent_def checkin_text_def Let_def)
qed simp

text \<open>The tick resets for the first task that has been silent too long, and for no other reason.\<close>

lemma check_task_checkins_spec:
  assumes "wf k"
  shows "check_task_checkins timeout now k =
    Some (case find (silent timeout (ucast now) k) [0..<max_ptasks k] of
            Some i \<Rightarrow> if timeout = 0 then (False, k) else (True, emits (checkin_text i) k)
          | None \<Rightarrow> (False, k))"
proof -
  have "max_ptasks k \<le> 32" using assms by (simp add: wf_def)
  then have "\<forall>i \<in> set [0..<max_ptasks k]. i < 10 ^ 10" by auto
  then show ?thesis
    by (simp add: check_task_checkins_def scan_checkins_spec split: option.splits)
qed

text \<open>
  A task that checks in at \<open>t\<close> is silent at a later \<open>now\<close> exactly when more than the timeout
  has passed, except when \<open>t\<close> is a multiple of \<open>2^32\<close>, which counts as never checked in.
\<close>

lemma checkin_then_silent:
  assumes c: "current h k = Some i" "get_task i k = Some tk" and on: "timeout \<noteq> 0"
    and t: "t \<le> now" "unat now - unat t < 2 ^ 32"
  shows "silent timeout (ucast now) (checkin h timeout t k) i \<longleftrightarrow>
    unat t mod 2 ^ 32 \<noteq> 0 \<and> unat now - unat t > unat timeout"
proof -
  have i: "i < max_ptasks k" "used (tasks k ! i)" using c(2) by (auto simp: get_task_Some_iff)
  have tk: "tasks (checkin h timeout t k) ! i = (tasks k ! i)\<lparr>last_checkin := ucast t\<rparr>"
    using c on i by (simp add: checkin_def nth_upd_at)
  have z: "(ucast t :: u32) = 0 \<longleftrightarrow> unat t mod 2 ^ 32 = 0"
    by (simp add: word_unat_eq_iff unsigned_ucast_eq take_bit_eq_mod)
  have "(ucast now :: u32) - ucast t = ucast (now - t)"
    by (simp add: word_uint_eq_iff uint_word_ariths unsigned_ucast_eq take_bit_eq_mod mod_simps mod_mod_cancel)
  moreover have "unat (ucast (now - t) :: u32) = unat now - unat t"
    using t by (simp add: unsigned_ucast_eq unat_sub take_bit_nat_eq_self)
  ultimately have "unat ((ucast now :: u32) - ucast t) = unat now - unat t" by simp
  then show ?thesis using z i by (simp add: silent_def tk word_less_nat_alt)
qed

section \<open>Respawned slots\<close>

text \<open>
  Neither freeing a slot nor taking it for a new task touches its check-in time, so a task
  that never opted in is judged by the check-ins of the slot's previous occupant.
\<close>

lemma register_from_checkin:
  "register_from is h s0 p b sz k = Some (r, k') \<Longrightarrow> last_checkin (tasks k' ! j) = last_checkin (tasks k ! j)"
proof (induction "is" arbitrary: k)
  case (Cons i "is")
  then show ?case
    by (auto simp: Let_def bind_eq_Some_conv ready_add_def wake_other_harts_def nth_upd_at claim_slot_def
        upd_at_def nth_list_update split: if_splits)
qed simp

lemma spawn_checkin:
  "spawn h ms it b sz p rs df k = Some (r, k') \<Longrightarrow> last_checkin (tasks k' ! j) = last_checkin (tasks k ! j)"
proof -
  assume s: "spawn h ms it b sz p rs df k = Some (r, k')"
  then obtain q k1 where q: "register_from [0..<max_ptasks k] h (it b sz) p b sz k = Some (q, k1)"
    by (auto simp: spawn_def register_full_def bind_eq_Some_conv split: if_splits)
  then have "k' = k1 \<or> (\<exists>i. k' = upd_task i (\<lambda>t. t\<lparr>result_size := rs, result_drop := df\<rparr>) k1)"
    using s by (cases q) (auto simp: spawn_def register_full_def split: if_splits option.splits)
  then show ?thesis using register_from_checkin [OF q] by (auto simp: upd_at_def nth_list_update)
qed

lemma despawn_checkin:
  "despawn h th k = Some (r, k') \<Longrightarrow> last_checkin (tasks k' ! j) = last_checkin (tasks k ! j)"
  by (auto simp: despawn_def Let_def ready_remove_def bind_eq_Some_conv upd_at_def nth_list_update
      split: if_splits option.splits)

lemma respawned_slot_is_silent:
  assumes "silent timeout now k i" and "despawn h1 th1 k = Some (True, k1)"
    and "spawn h2 ms it b sz p rs df k1 = Some (Inr th2, k2)" and "used (tasks k2 ! i)"
  shows "silent timeout now k2 i"
  using assms(1,4) spawn_checkin [OF assms(3)] despawn_checkin [OF assms(2)] by (simp add: silent_def)

end
