(* ===== verification/Bytes.thy ===== *)
theory Bytes
  imports Rivet_Base
begin

text \<open>
  Words as little-endian bytes: the trace writes its fields this way, a protection register
  packs one configuration byte per entry, and the initial frames of a task are words in memory.
\<close>

text \<open>\<open>to_le_bytes\<close> of a word of \<open>n\<close> bytes, and the word of such bytes.\<close>

definition to_le :: "nat \<Rightarrow> 'a::len word \<Rightarrow> u8 list" where
  "to_le n v = map (\<lambda>i. ucast (drop_bit (8 * i) v)) [0..<n]"

definition of_le :: "u8 list \<Rightarrow> 'a::len word" where
  "of_le bs = foldr (\<lambda>b v. ucast b OR push_bit 8 v) bs 0"

lemma length_to_le [simp]: "length (to_le n v) = n"
  by (simp add: to_le_def)

lemma bit_of_le: "bit (of_le bs :: 'a::len word) i \<longleftrightarrow>
    i < LENGTH('a) \<and> i div 8 < length bs \<and> bit (bs ! (i div 8)) (i mod 8)"
proof (induction bs arbitrary: i)
  case Nil
  then show ?case by (simp add: of_le_def)
next
  case (Cons b bs)
  have c: "of_le (b # bs) = (ucast b OR push_bit 8 (of_le bs) :: 'a word)" by (simp add: of_le_def)
  show ?case
  proof (cases "i < 8")
    case True
    then show ?thesis by (auto simp: c bit_simps)
  next
    case False
    then have d: "i div 8 = Suc ((i - 8) div 8)" "i mod 8 = (i - 8) mod 8"
      by (simp_all add: div_if [of i] mod_if [of i])
    have "\<not> bit b i" using False by (auto dest: bit_imp_le_length)
    then show ?thesis using False Cons.IH [of "i - 8"] by (auto simp: c d bit_simps)
  qed
qed

lemma of_le_to_le: "LENGTH('a) = 8 * n \<Longrightarrow> of_le (to_le n v) = (v :: 'a::len word)"
proof (rule bit_word_eqI)
  fix i assume n: "LENGTH('a) = 8 * n" and i: "i < LENGTH('a)"
  have "i div 8 < n" using n i by (simp add: less_mult_imp_div_less)
  then show "bit (of_le (to_le n v) :: 'a word) i = bit v i"
    using i by (simp add: bit_of_le to_le_def bit_simps)
qed

lemma to_le_of_le:
  assumes "length bs = n" and "LENGTH('a) = 8 * n"
  shows "to_le n (of_le bs :: 'a::len word) = bs"
proof (rule nth_equalityI)
  show "length (to_le n (of_le bs :: 'a word)) = length bs" using assms by simp
  fix i assume "i < length (to_le n (of_le bs :: 'a word))"
  then have i: "i < n" by simp
  show "to_le n (of_le bs :: 'a word) ! i = bs ! i"
  proof (rule bit_word_eqI)
    fix j assume j: "j < LENGTH(8)"
    then have "(8 * i + j) div 8 = i" "(8 * i + j) mod 8 = j" "8 * i + j < LENGTH('a)"
      using i assms(2) by auto
    then show "bit (to_le n (of_le bs :: 'a word) ! i) j = bit (bs ! i) j"
      using i j assms(1) by (simp add: to_le_def bit_of_le bit_simps add.commute)
  qed
qed

end
