(* ===== verification/Trace.thy ===== *)
theory Trace
  imports Kernel_State Bytes
begin

text \<open>
  The encoder of the debugger's wire protocol (\<open>rivet/src/trace.rs\<close>, feature \<open>trace\<close>): frames
  with a sequence number, a payload and a CRC, one per traced event. The bytes given to the
  board's \<open>trace_write\<close> are collected in \<open>wire\<close>; the hart and the clock are arguments.
\<close>

section \<open>The checksum\<close>

definition crc_bit :: "u16 \<Rightarrow> u16" where
  "crc_bit crc = (if crc AND 0x8000 \<noteq> 0 then push_bit 1 crc XOR 0x1021 else push_bit 1 crc)"

definition crc_byte :: "u16 \<Rightarrow> u8 \<Rightarrow> u16" where
  "crc_byte crc b = (crc_bit ^^ 8) (crc XOR push_bit 8 (ucast b))"

definition crc16 :: "u8 list \<Rightarrow> u16" where
  "crc16 data = foldl crc_byte 0xFFFF data"

text \<open>One shift of the register loses nothing, so neither does a byte.\<close>

lemma top_bit: "(x :: u16) AND 0x8000 \<noteq> 0 \<longleftrightarrow> bit x 15"
proof -
  have "bit (push_bit 15 1 :: u16) n \<longleftrightarrow> n = 15" for n
    unfolding bit_push_bit_iff bit_1_iff by auto
  then have b: "bit (0x8000 :: u16) n \<longleftrightarrow> n = 15" for n by simp
  have "w \<noteq> 0 \<longleftrightarrow> (\<exists>n. bit w n)" for w :: u16 by (auto intro: bit_word_eqI)
  then show ?thesis by (simp only: bit_and_iff b) blast
qed

lemma xor_cancel: "(a :: 'a::len word) XOR b = c XOR b \<longleftrightarrow> a = c" "b XOR a = b XOR c \<longleftrightarrow> a = c"
  by (auto simp: bit_eq_iff bit_xor_iff)

lemma crc_bit_inj: "crc_bit x = crc_bit y \<Longrightarrow> x = y"
proof -
  assume e: "crc_bit x = crc_bit y"
  have z: "bit (crc_bit w) 0 \<longleftrightarrow> bit w 15" for w :: u16
    by (auto simp: crc_bit_def top_bit bit_0 even_xor_iff)
  have t: "bit x 15 = bit y 15" using e z by metis
  have s: "push_bit 1 x = push_bit 1 y" using e t by (auto simp: crc_bit_def top_bit xor_cancel split: if_splits)
  show ?thesis
  proof (rule bit_word_eqI)
    fix n assume n: "n < LENGTH(16)"
    show "bit x n = bit y n"
    proof (cases "n = 15")
      case False
      then have "bit (push_bit 1 w) (Suc n) = bit w n" for w :: u16
        using n unfolding bit_push_bit_iff by simp
      then show ?thesis using s by metis
    qed (simp add: t)
  qed
qed

lemma crc_bits_inj: "(crc_bit ^^ n) x = (crc_bit ^^ n) y \<Longrightarrow> x = y"
  by (induction n) (auto dest: crc_bit_inj)

lemma crc_byte_inj:
  "crc_byte c b = crc_byte d b \<Longrightarrow> c = d"
  "crc_byte c a = crc_byte c b \<Longrightarrow> a = b"
proof -
  assume "crc_byte c b = crc_byte d b"
  then have "c XOR push_bit 8 (ucast b) = d XOR push_bit 8 (ucast b)"
    unfolding crc_byte_def by (rule crc_bits_inj)
  then show "c = d" by (simp only: xor_cancel)
next
  assume "crc_byte c a = crc_byte c b"
  then have "c XOR push_bit 8 (ucast a) = c XOR push_bit 8 (ucast b)"
    unfolding crc_byte_def by (rule crc_bits_inj)
  then have p: "push_bit 8 (ucast a :: u16) = push_bit 8 (ucast b)"
    by (simp only: xor_cancel)
  show "a = b"
  proof (rule bit_word_eqI)
    fix n assume n: "n < LENGTH(8)"
    then have "bit (push_bit 8 (ucast w :: u16)) (n + 8) = bit w n" for w :: u8 by (simp add: bit_simps)
    then show "bit a n = bit b n" using p by metis
  qed
qed

lemma crc_fold_inj: "foldl crc_byte c xs = foldl crc_byte d xs \<Longrightarrow> c = d"
  by (induction xs arbitrary: c d) (auto dest: crc_byte_inj)

text \<open>A change of one byte changes the checksum.\<close>

lemma crc16_detects:
  assumes "i < length xs" and "b \<noteq> xs ! i"
  shows "crc16 (xs[i := b]) \<noteq> crc16 xs"
proof
  assume "crc16 (xs[i := b]) = crc16 xs"
  then have "crc16 (take i xs @ b # drop (Suc i) xs) = crc16 (take i xs @ xs ! i # drop (Suc i) xs)"
    using assms(1) by (simp add: upd_conv_take_nth_drop id_take_nth_drop [symmetric])
  then have "crc_byte (foldl crc_byte 0xFFFF (take i xs)) b = crc_byte (foldl crc_byte 0xFFFF (take i xs)) (xs ! i)"
    by (simp add: crc16_def crc_fold_inj)
  then show False using crc_byte_inj(2) assms(2) by blast
qed

lemma crc16_check: "crc16 (map of_char ''123456789'') = 0x29B1"
  by code_simp

section \<open>Frames\<close>

record frame =
  f_seq :: u16
  f_kind :: u16
  f_core :: u8
  f_task :: u32
  f_time :: u64
  f_payload :: "u8 list"

definition MAX_PAYLOAD :: nat where "MAX_PAYLOAD = 32"

definition NO_TASK :: u32 where "NO_TASK = - 1"

definition frame_body :: "frame \<Rightarrow> u8 list" where
  "frame_body f = [0xA5, 0x5A, 1] @ to_le 2 (f_seq f) @ to_le 2 (f_kind f) @ [f_core f] @
     to_le 4 (f_task f) @ to_le 8 (f_time f) @ [of_nat (length (f_payload f))] @ f_payload f"

definition frame_bytes :: "frame \<Rightarrow> u8 list" where
  "frame_bytes f = frame_body f @ to_le 2 (crc16 (frame_body f))"

record tracer =
  seq :: u16
  cached_cpu_hz :: u32
  cached_max_harts :: u8
  wire :: "u8 list list"

definition tracer_boot :: tracer where
  "tracer_boot = \<lparr>seq = 0, cached_cpu_hz = 0, cached_max_harts = 0, wire = []\<rparr>"

text \<open>
  Building a frame and writing it. A payload beyond \<open>MAX_PAYLOAD\<close> does not fit the buffer
  and panics; the sequence number wraps.
\<close>

definition encode :: "u16 \<Rightarrow> u8 \<Rightarrow> u32 \<Rightarrow> u64 \<Rightarrow> u8 list \<Rightarrow> tracer \<Rightarrow> (u8 list \<times> tracer) option" where
  "encode kind core task time payload tr =
    (if length payload > MAX_PAYLOAD then None
     else Some (frame_bytes \<lparr>f_seq = seq tr, f_kind = kind, f_core = core, f_task = task,
         f_time = time, f_payload = payload\<rparr>, tr\<lparr>seq := seq tr + 1\<rparr>))"

definition send :: "u16 \<Rightarrow> nat \<Rightarrow> u32 \<Rightarrow> u64 \<Rightarrow> u8 list \<Rightarrow> tracer \<Rightarrow> tracer option" where
  "send kind h task time payload tr = do {
     (bytes, tr1) \<leftarrow> encode kind (of_nat h) task time payload tr;
     Some (tr1\<lparr>wire := wire tr1 @ [bytes]\<rparr>)
   }"

section \<open>Events\<close>

definition stream_header :: "nat \<Rightarrow> u64 \<Rightarrow> u32 \<Rightarrow> u8 \<Rightarrow> tracer \<Rightarrow> tracer option" where
  "stream_header h now cpu_hz harts tr =
     send 0x0701 h NO_TASK now ([0, 1, 0] @ to_le 4 cpu_hz @ [harts])
       (tr\<lparr>cached_cpu_hz := cpu_hz, cached_max_harts := harts\<rparr>)"

definition reannounce_stream_header :: "nat \<Rightarrow> u64 \<Rightarrow> tracer \<Rightarrow> tracer option" where
  "reannounce_stream_header h now tr =
    (if cached_cpu_hz tr = 0 then Some tr
     else stream_header h now (cached_cpu_hz tr) (cached_max_harts tr) tr)"

definition task_created :: "nat \<Rightarrow> u64 \<Rightarrow> u16 \<Rightarrow> u8 \<Rightarrow> u32 \<Rightarrow> tracer \<Rightarrow> tracer option" where
  "task_created h now task prio stack tr = send 0x0001 h (ucast task) now (prio # to_le 4 stack) tr"

definition context_switch :: "nat \<Rightarrow> u64 \<Rightarrow> u16 \<Rightarrow> u16 \<Rightarrow> u8 \<Rightarrow> tracer \<Rightarrow> tracer option" where
  "context_switch h now prev nxt reason tr = send 0x0009 h (ucast nxt) now
     (to_le 4 (ucast prev :: u32) @ to_le 4 (ucast nxt :: u32) @ [reason]) tr"

definition isr :: "nat \<Rightarrow> u64 \<Rightarrow> u32 \<Rightarrow> bool \<Rightarrow> tracer \<Rightarrow> tracer option" where
  "isr h now irq entry tr = send (if entry then 0x0301 else 0x0302) h NO_TASK now (to_le 4 irq) tr"

definition mutex_lock_acquired :: "nat \<Rightarrow> u64 \<Rightarrow> u16 \<Rightarrow> u32 \<Rightarrow> tracer \<Rightarrow> tracer option" where
  "mutex_lock_acquired h now task m tr = send 0x0102 h (ucast task) now (to_le 4 m) tr"

definition mutex_unlock :: "nat \<Rightarrow> u64 \<Rightarrow> u16 \<Rightarrow> u32 \<Rightarrow> tracer \<Rightarrow> tracer option" where
  "mutex_unlock h now task m tr = send 0x0104 h (ucast task) now (to_le 4 m) tr"

definition priority_inherit :: "nat \<Rightarrow> u64 \<Rightarrow> u16 \<Rightarrow> u32 \<Rightarrow> tracer \<Rightarrow> tracer option" where
  "priority_inherit h now task m tr = send 0x0105 h (ucast task) now (to_le 4 m) tr"

definition fault_event :: "nat \<Rightarrow> u64 \<Rightarrow> u16 \<Rightarrow> u8 \<Rightarrow> u32 \<Rightarrow> tracer \<Rightarrow> tracer option" where
  "fault_event h now task reason pc tr = send (if reason = 4 then 0x0605 else 0x0601) h (ucast task) now
     (to_le 4 (ucast reason :: u32) @ to_le 4 pc) tr"

fun announce :: "nat list \<Rightarrow> nat \<Rightarrow> u64 \<Rightarrow> kernel \<Rightarrow> tracer \<Rightarrow> tracer option" where
  "announce [] h now k tr = Some tr"
| "announce (i # is) h now k tr =
     (case get_task i k of
        None \<Rightarrow> announce is h now k tr
      | Some t \<Rightarrow> do {
          tr1 \<leftarrow> task_created h now (of_nat i) (of_nat (base_priority t)) (stack_size t) tr;
          announce is h now k tr1
        })"

definition reannounce_all_tasks :: "nat \<Rightarrow> u64 \<Rightarrow> kernel \<Rightarrow> tracer \<Rightarrow> tracer option" where
  "reannounce_all_tasks h now k tr = announce [0..<max_ptasks k] h now k tr"

section \<open>Reading the stream\<close>

text \<open>
  A reader of the stream: it checks the marks, the version and the checksum of a frame, and
  returns the frame and the rest.
\<close>

definition grab :: "nat \<Rightarrow> u8 list \<Rightarrow> (u8 list \<times> u8 list) option" where
  "grab n bs = (if length bs < n then None else Some (take n bs, drop n bs))"

definition parse_frame :: "u8 list \<Rightarrow> (frame \<times> u8 list) option" where
  "parse_frame bs = do {
     (m, r1) \<leftarrow> grab 3 bs;
     (s, r2) \<leftarrow> grab 2 r1;
     (kd, r3) \<leftarrow> grab 2 r2;
     (c, r4) \<leftarrow> grab 1 r3;
     (t, r5) \<leftarrow> grab 4 r4;
     (ts, r6) \<leftarrow> grab 8 r5;
     (n, r7) \<leftarrow> grab 1 r6;
     (p, r8) \<leftarrow> grab (unat (hd n)) r7;
     (crc, r9) \<leftarrow> grab 2 r8;
     (if m = [0xA5, 0x5A, 1] \<and> length p \<le> MAX_PAYLOAD \<and>
         of_le crc = crc16 (m @ s @ kd @ c @ t @ ts @ n @ p)
      then Some (\<lparr>f_seq = of_le s, f_kind = of_le kd, f_core = hd c, f_task = of_le t,
                   f_time = of_le ts, f_payload = p\<rparr>, r9)
      else None)
   }"

lemma grab_append:
  "length xs = n \<Longrightarrow> grab n (xs @ ys) = Some (xs, ys)"
  "grab 3 (a # b # c # ys) = Some ([a, b, c], ys)" "grab (Suc 0) (a # ys) = Some ([a], ys)"
  by (simp_all add: grab_def)

lemma grab_Some: "grab n bs = Some (x, y) \<longleftrightarrow> bs = x @ y \<and> length x = n"
  by (auto simp: grab_def)

lemma length_frame_body: "length (frame_body f) = 21 + length (f_payload f)"
  by (simp add: frame_body_def)

lemma parse_frame_bytes:
  assumes "length (f_payload f) \<le> MAX_PAYLOAD"
  shows "parse_frame (frame_bytes f @ rest) = Some (f, rest)"
proof -
  have u: "unat (of_nat (length (f_payload f)) :: u8) = length (f_payload f)"
    using assms by (simp add: MAX_PAYLOAD_def unat_of_nat take_bit_nat_eq_self)
  show ?thesis
    using assms
    unfolding parse_frame_def frame_bytes_def frame_body_def append_assoc
    by (simp add: grab_append u of_le_to_le)
qed

text \<open>What the reader accepts is what the encoder writes.\<close>

lemma parse_frame_sound:
  assumes "parse_frame bs = Some (f, rest)"
  shows "bs = frame_bytes f @ rest" "length (f_payload f) \<le> MAX_PAYLOAD"
proof -
  obtain m s kd c t ts n p crc where g:
    "bs = m @ s @ kd @ c @ t @ ts @ n @ p @ crc @ rest" "m = [0xA5, 0x5A, 1]" "length s = 2"
    "length kd = 2" "length c = 1" "length t = 4" "length ts = 8" "length n = 1"
    "length p = unat (hd n)" "length crc = 2" "length p \<le> MAX_PAYLOAD"
    "of_le crc = crc16 (m @ s @ kd @ c @ t @ ts @ n @ p)"
    "f = \<lparr>f_seq = of_le s, f_kind = of_le kd, f_core = hd c, f_task = of_le t,
      f_time = of_le ts, f_payload = p\<rparr>"
    using assms by (auto simp: parse_frame_def bind_eq_Some_conv grab_Some split: if_splits)
  have w: "n = [of_nat (length p)]" "c = [hd c]"
    using g(5,8,9) by (cases n; cases c; simp)+
  have le: "to_le 2 (of_le s :: u16) = s" "to_le 2 (of_le kd :: u16) = kd" "to_le 4 (of_le t :: u32) = t"
    "to_le 8 (of_le ts :: u64) = ts" "to_le 2 (of_le crc :: u16) = crc"
    by (rule to_le_of_le; use g in simp)+
  have b: "frame_body f = m @ s @ kd @ c @ t @ ts @ n @ p"
    using w le by (simp add: frame_body_def g(2,13))
  have "to_le 2 (crc16 (frame_body f)) = crc" unfolding b using le(5) by (simp only: g(12))
  then show "bs = frame_bytes f @ rest" using g(1) b by (simp only: frame_bytes_def append_assoc)
  show "length (f_payload f) \<le> MAX_PAYLOAD" using g by simp
qed

lemma update_append_eq:
  assumes "(xs @ ys)[i := b] = xs' @ ys'" and "length xs' = length xs"
  shows "if i < length xs then xs[i := b] = xs' \<and> ys = ys' else xs = xs' \<and> ys[i - length xs := b] = ys'"
  using assms by (auto simp: list_update_append split: if_splits)

lemma to_le_inj: "to_le 2 (v :: u16) = to_le 2 w \<Longrightarrow> v = w"
proof -
  assume "to_le 2 v = to_le 2 w"
  then have "of_le (to_le 2 v) = (of_le (to_le 2 w) :: u16)" by (simp only:)
  then show "v = w" by (simp add: of_le_to_le)
qed

text \<open>A change of one byte other than the length is never accepted.\<close>

lemma corrupted_frame_rejected:
  assumes p: "length (f_payload f) \<le> MAX_PAYLOAD" and i: "i < length (frame_bytes f)" "i \<noteq> 20"
    and b: "b \<noteq> frame_bytes f ! i"
  shows "parse_frame ((frame_bytes f)[i := b]) = None"
proof (rule ccontr)
  let ?x = "(frame_bytes f)[i := b]" and ?n = "21 + length (f_payload f)"
  assume "parse_frame ?x \<noteq> None"
  then obtain g r where "parse_frame ?x = Some (g, r)" by auto
  then have x: "?x = frame_bytes g @ r" and q: "length (f_payload g) \<le> MAX_PAYLOAD"
    by (rule parse_frame_sound)+
  have at20: "frame_bytes h ! 20 = of_nat (length (f_payload h))" for h
    by (simp add: frame_bytes_def frame_body_def nth_append)
  have "length (frame_bytes g) = 23 + length (f_payload g)" by (simp add: frame_bytes_def length_frame_body)
  then have "?x ! 20 = frame_bytes g ! 20" by (simp add: x nth_append)
  then have "(of_nat (length (f_payload f)) :: u8) = of_nat (length (f_payload g))"
    using i(2) by (simp add: at20)
  then have "unat (of_nat (length (f_payload f)) :: u8) = unat (of_nat (length (f_payload g)) :: u8)" by simp
  then have len: "length (f_payload g) = length (f_payload f)"
    using p q by (simp add: MAX_PAYLOAD_def unat_of_nat take_bit_nat_eq_self)
  have bl: "length (frame_body h) = 21 + length (f_payload h)" for h by (rule length_frame_body)
  have lf: "length (frame_bytes f) = ?n + 2" by (simp add: frame_bytes_def bl)
  have "length ?x = length (frame_bytes g @ r)" using x by simp
  then have "r = []" by (simp add: lf frame_bytes_def bl len)
  then have x': "(frame_body f @ to_le 2 (crc16 (frame_body f)))[i := b] = frame_body g @ to_le 2 (crc16 (frame_body g))"
    using x by (simp add: frame_bytes_def)
  note u = update_append_eq [OF x', unfolded bl len, OF refl]
  show False
  proof (cases "i < ?n")
    case True
    then have e: "(frame_body f)[i := b] = frame_body g" "crc16 (frame_body f) = crc16 (frame_body g)"
      using u by (auto intro: to_le_inj)
    have "b \<noteq> frame_body f ! i" using b True by (simp add: frame_bytes_def nth_append bl)
    then show False using crc16_detects [of i "frame_body f" b] True e by (simp add: bl)
  next
    case False
    have "frame_body f = frame_body g \<and>
        (to_le 2 (crc16 (frame_body f)))[i - ?n := b] = to_le 2 (crc16 (frame_body g))"
      using u unfolding if_not_P [OF False] .
    then have "(to_le 2 (crc16 (frame_body f)))[i - ?n := b] = to_le 2 (crc16 (frame_body f))"
      by (elim conjE) (simp only:)
    moreover have j: "i - ?n < length (to_le 2 (crc16 (frame_body f)))" using False i(1) lf by simp
    ultimately have "to_le 2 (crc16 (frame_body f)) ! (i - ?n) = b" by (metis nth_list_update_eq)
    moreover have "frame_bytes f ! i = to_le 2 (crc16 (frame_body f)) ! (i - ?n)"
      using False by (simp add: frame_bytes_def nth_append bl)
    ultimately show False using b by simp
  qed
qed

section \<open>The stream\<close>

function parse_stream :: "u8 list \<Rightarrow> frame list option" where
  "parse_stream bs =
    (if bs = [] then Some []
     else case parse_frame bs of
            None \<Rightarrow> None
          | Some (f, rest) \<Rightarrow> (if length rest < length bs then map_option (Cons f) (parse_stream rest) else None))"
  by pat_completeness auto
termination by (relation "measure length") auto

declare parse_stream.simps [simp del]

text \<open>The frames on the wire, with the sequence numbers that lead to the tracer's own.\<close>

definition sent :: "frame list \<Rightarrow> tracer \<Rightarrow> bool" where
  "sent fs tr \<longleftrightarrow> wire tr = map frame_bytes fs \<and>
     (\<forall>i < length fs. f_seq (fs ! i) = of_nat i \<and> length (f_payload (fs ! i)) \<le> MAX_PAYLOAD) \<and>
     seq tr = of_nat (length fs)"

lemma sent_boot: "sent [] tracer_boot"
  by (simp add: sent_def tracer_boot_def)

lemma send_sent:
  assumes "sent fs tr" and "length p \<le> MAX_PAYLOAD"
  shows "\<exists>tr'. send kind h task now p tr = Some tr' \<and> cached_cpu_hz tr' = cached_cpu_hz tr \<and>
    cached_max_harts tr' = cached_max_harts tr \<and>
    sent (fs @ [\<lparr>f_seq = of_nat (length fs), f_kind = kind, f_core = of_nat h, f_task = task,
      f_time = now, f_payload = p\<rparr>]) tr'"
  using assms by (auto simp: send_def encode_def sent_def nth_append less_Suc_eq)

lemma parse_stream_sent: "sent fs tr \<Longrightarrow> parse_stream (concat (wire tr)) = Some fs"
proof -
  have "parse_stream (concat (map frame_bytes fs)) = Some fs"
    if "\<forall>f \<in> set fs. length (f_payload f) \<le> MAX_PAYLOAD" for fs
    using that
  proof (induction fs)
    case Nil
    then show ?case by (simp add: parse_stream.simps)
  next
    case (Cons f fs)
    have "length (frame_bytes f) = 23 + length (f_payload f)" by (simp add: frame_bytes_def length_frame_body)
    then have "frame_bytes f \<noteq> []" by (metis add_is_0 list.size(3) zero_neq_numeral)
    then show ?case using Cons
      by (subst parse_stream.simps) (simp add: parse_frame_bytes)
  qed
  moreover assume s: "sent fs tr"
  moreover have "\<forall>f \<in> set fs. length (f_payload f) \<le> MAX_PAYLOAD"
    using s unfolding sent_def all_set_conv_all_nth by blast
  ultimately show "parse_stream (concat (wire tr)) = Some fs" by (simp add: sent_def)
qed

text \<open>A re-announcement sends one frame for every task in the registry, in order.\<close>

definition created_frame :: "nat \<Rightarrow> u64 \<Rightarrow> kernel \<Rightarrow> nat \<Rightarrow> nat \<Rightarrow> frame" where
  "created_frame h now k n i = \<lparr>f_seq = of_nat n, f_kind = 1, f_core = of_nat h, f_task = of_nat i,
     f_time = now, f_payload = of_nat (base_priority (tasks k ! i)) # to_le 4 (stack_size (tasks k ! i))\<rparr>"

lemma announce_sent:
  "sent fs tr \<Longrightarrow> \<forall>i \<in> set is. i < 2 ^ 16 \<Longrightarrow> \<exists>tr'. announce is h now k tr = Some tr' \<and>
    sent (fs @ map (\<lambda>(n, i). created_frame h now k n i)
      (enumerate (length fs) (filter (\<lambda>i. get_task i k \<noteq> None) is))) tr'"
proof (induction "is" arbitrary: fs tr)
  case (Cons i "is")
  show ?case
  proof (cases "get_task i k")
    case None
    then show ?thesis using Cons by simp
  next
    case (Some t)
    have t: "t = tasks k ! i" using Some by (simp add: get_task_Some_iff)
    have "(ucast (of_nat i :: u16) :: u32) = of_nat i"
      using Cons.prems(2) by (simp add: word_unat_eq_iff unsigned_ucast_eq unat_of_nat take_bit_nat_eq_self)
    then obtain tr1 where "task_created h now (of_nat i) (of_nat (base_priority t)) (stack_size t) tr = Some tr1"
      "sent (fs @ [created_frame h now k (length fs) i]) tr1"
      using send_sent [OF Cons.prems(1), of "of_nat (base_priority t) # to_le 4 (stack_size t)" 1 h "of_nat i" now]
      by (auto simp: task_created_def created_frame_def t MAX_PAYLOAD_def)
    then show ?thesis using Cons.IH Cons.prems(2) Some by fastforce
  qed
qed simp

section \<open>Events read back\<close>

datatype trace_event = Header u32 u8 | Created u16 u8 u32 | Switched u16 u16 u8 | Isr u32 bool
  | Lock_acquired u16 u32 | Unlocked u16 u32 | Inherited u16 u32 | Faulted u16 u8 u32

fun trace_emit :: "nat \<Rightarrow> u64 \<Rightarrow> trace_event \<Rightarrow> tracer \<Rightarrow> tracer option" where
  "trace_emit h now (Header hz harts) tr = stream_header h now hz harts tr"
| "trace_emit h now (Created t p s) tr = task_created h now t p s tr"
| "trace_emit h now (Switched a b r) tr = context_switch h now a b r tr"
| "trace_emit h now (Isr n entry) tr = isr h now n entry tr"
| "trace_emit h now (Lock_acquired t m) tr = mutex_lock_acquired h now t m tr"
| "trace_emit h now (Unlocked t m) tr = mutex_unlock h now t m tr"
| "trace_emit h now (Inherited t m) tr = priority_inherit h now t m tr"
| "trace_emit h now (Faulted t r pc) tr = fault_event h now t r pc tr"

fun trace_run :: "(nat \<times> u64 \<times> trace_event) list \<Rightarrow> tracer \<Rightarrow> tracer option" where
  "trace_run [] tr = Some tr"
| "trace_run ((h, now, ev) # evs) tr = do { tr1 \<leftarrow> trace_emit h now ev tr; trace_run evs tr1 }"

definition decode_event :: "frame \<Rightarrow> trace_event option" where
  "decode_event f =
    (let p = f_payload f; t = ucast (f_task f); kd = f_kind f
     in if kd = 0x0701 then Some (Header (of_le (take 4 (drop 3 p))) (p ! 7))
        else if kd = 0x0001 then Some (Created t (p ! 0) (of_le (drop 1 p)))
        else if kd = 0x0009 then Some (Switched (ucast (of_le (take 4 p) :: u32))
            (ucast (of_le (take 4 (drop 4 p)) :: u32)) (p ! 8))
        else if kd = 0x0301 then Some (Isr (of_le p) True)
        else if kd = 0x0302 then Some (Isr (of_le p) False)
        else if kd = 0x0102 then Some (Lock_acquired t (of_le p))
        else if kd = 0x0104 then Some (Unlocked t (of_le p))
        else if kd = 0x0105 then Some (Inherited t (of_le p))
        else if kd = 0x0601 \<or> kd = 0x0605
        then Some (Faulted t (ucast (of_le (take 4 p) :: u32)) (of_le (drop 4 p)))
        else None)"

lemma down_up [simp]:
  "(ucast (ucast (x :: u16) :: u32) :: u16) = x" "(ucast (ucast (y :: u8) :: u32) :: u8) = y"
  by (rule bit_word_eqI; simp add: bit_simps)+

lemma of_le_32 [simp]: "of_le (to_le 4 v) = (v :: u32)"
  by (rule of_le_to_le) simp

lemma trace_emit_sent:
  assumes "sent fs tr"
  shows "\<exists>tr' f. trace_emit h now ev tr = Some tr' \<and> sent (fs @ [f]) tr' \<and>
    f_time f = now \<and> f_core f = of_nat h \<and> decode_event f = Some ev"
proof -
  have s2: "sent fs (tr\<lparr>cached_cpu_hz := a, cached_max_harts := b\<rparr>)" for a b
    using assms by (simp add: sent_def)
  have one: ?thesis if "trace_emit h now ev tr = send kd h t now p tr0" "sent fs tr0" "length p \<le> MAX_PAYLOAD"
    "decode_event \<lparr>f_seq = of_nat (length fs), f_kind = kd, f_core = of_nat h, f_task = t, f_time = now,
      f_payload = p\<rparr> = Some ev" for kd t p tr0
    using send_sent [OF that(2,3), of kd h t now] that(1,4) by fastforce
  show ?thesis
  proof (cases ev)
    case (Header hz harts)
    then show ?thesis
      by (intro one [where kd = "0x0701" and t = NO_TASK and p = "[0, 1, 0] @ to_le 4 hz @ [harts]", OF _ s2 [of harts hz]])
        (simp_all add: stream_header_def MAX_PAYLOAD_def decode_event_def nth_append)
  next
    case (Created t p s)
    then show ?thesis
      by (intro one [where kd = 1 and t = "ucast t" and p = "p # to_le 4 s", OF _ assms])
        (simp_all add: task_created_def MAX_PAYLOAD_def decode_event_def)
  next
    case (Switched a b r)
    then show ?thesis
      by (intro one [where kd = 9 and t = "ucast b" and p = "to_le 4 (ucast a :: u32) @ to_le 4 (ucast b :: u32) @ [r]", OF _ assms])
        (simp_all add: context_switch_def MAX_PAYLOAD_def decode_event_def nth_append)
  next
    case (Isr n e)
    then show ?thesis
      by (intro one [where kd = "if e then 0x0301 else 0x0302" and t = NO_TASK and p = "to_le 4 n", OF _ assms])
        (simp_all add: isr_def MAX_PAYLOAD_def decode_event_def)
  next
    case (Lock_acquired t m)
    then show ?thesis
      by (intro one [where kd = "0x0102" and t = "ucast t" and p = "to_le 4 m", OF _ assms])
        (simp_all add: mutex_lock_acquired_def MAX_PAYLOAD_def decode_event_def)
  next
    case (Unlocked t m)
    then show ?thesis
      by (intro one [where kd = "0x0104" and t = "ucast t" and p = "to_le 4 m", OF _ assms])
        (simp_all add: mutex_unlock_def MAX_PAYLOAD_def decode_event_def)
  next
    case (Inherited t m)
    then show ?thesis
      by (intro one [where kd = "0x0105" and t = "ucast t" and p = "to_le 4 m", OF _ assms])
        (simp_all add: priority_inherit_def MAX_PAYLOAD_def decode_event_def)
  next
    case (Faulted t r pc)
    then show ?thesis
      by (intro one [where kd = "if r = 4 then 0x0605 else 0x0601" and t = "ucast t" and p = "to_le 4 (ucast r :: u32) @ to_le 4 pc", OF _ assms])
        (simp_all add: fault_event_def MAX_PAYLOAD_def decode_event_def)
  qed
qed

lemma trace_run_sent:
  "sent fs tr \<Longrightarrow> \<exists>tr' fs'. trace_run evs tr = Some tr' \<and> sent (fs @ fs') tr' \<and>
    map (\<lambda>f. (f_core f, f_time f, decode_event f)) fs' = map (\<lambda>(h, now, ev). (of_nat h, now, Some ev)) evs"
proof (induction evs arbitrary: fs tr)
  case (Cons x evs)
  obtain h now ev where x: "x = (h, now, ev)" by (cases x)
  obtain tr1 f where f: "trace_emit h now ev tr = Some tr1" "sent (fs @ [f]) tr1" "f_time f = now"
    "f_core f = of_nat h" "decode_event f = Some ev"
    using trace_emit_sent [OF Cons.prems] by blast
  obtain tr' fs' where "trace_run evs tr1 = Some tr'" "sent ((fs @ [f]) @ fs') tr'"
    "map (\<lambda>f. (f_core f, f_time f, decode_event f)) fs' = map (\<lambda>(h, now, ev). (of_nat h, now, Some ev)) evs"
    using Cons.IH [OF f(2)] by blast
  then show ?case using f by (intro exI [of _ tr'] exI [of _ "f # fs'"]) (simp add: x)
qed simp

lemma trace_reads_back:
  "\<exists>tr fs. trace_run evs tracer_boot = Some tr \<and> parse_stream (concat (wire tr)) = Some fs \<and>
    (\<forall>i < length fs. f_seq (fs ! i) = of_nat i) \<and>
    map (\<lambda>f. (f_core f, f_time f, decode_event f)) fs = map (\<lambda>(h, now, ev). (of_nat h, now, Some ev)) evs"
proof -
  obtain tr fs where r: "trace_run evs tracer_boot = Some tr" "sent fs tr"
    "map (\<lambda>f. (f_core f, f_time f, decode_event f)) fs = map (\<lambda>(h, now, ev). (of_nat h, now, Some ev)) evs"
    using trace_run_sent [OF sent_boot, of evs] by auto
  then show ?thesis using parse_stream_sent [OF r(2)] by (auto simp: sent_def)
qed

end
