(* ===== verification/Irq.thy ===== *)
theory Irq
  imports Trace
begin

text \<open>
  The interrupt table (\<open>rivet/src/irq.rs\<close>): one handler slot per interrupt number and the mark
  that keeps the handler's runs out of the trace. A handler is its address, 0 an empty slot.
  Dispatching answers what runs, in order, with the feature \<open>trace\<close> or without.
\<close>

section \<open>The table\<close>

record irqs =
  handlers :: "usize list"
  untraced :: "bool list"

datatype irq_error = OutOfRange

datatype irq_action = Isr_enter u32 | Call usize | Isr_exit u32

definition irq_boot :: "config \<Rightarrow> irqs" where
  "irq_boot c = \<lparr>handlers = replicate (cfg_max_irqs c) 0, untraced = replicate (cfg_max_irqs c) False\<rparr>"

definition irq_register :: "u32 \<Rightarrow> usize \<Rightarrow> irqs \<Rightarrow> (irq_error + unit) \<times> irqs" where
  "irq_register n f s =
    (if unat n < length (handlers s)
     then (Inr (), s\<lparr>handlers := (handlers s)[unat n := f]\<rparr>) else (Inl OutOfRange, s))"

definition register_untraced :: "u32 \<Rightarrow> usize \<Rightarrow> irqs \<Rightarrow> (irq_error + unit) \<times> irqs" where
  "register_untraced n f s =
    (case irq_register n f s of
       (Inl e, s1) \<Rightarrow> (Inl e, s1)
     | (Inr _, s1) \<Rightarrow>
         (Inr (), if unat n < length (untraced s1) then s1\<lparr>untraced := (untraced s1)[unat n := True]\<rparr> else s1))"

definition unregister :: "u32 \<Rightarrow> irqs \<Rightarrow> irqs" where
  "unregister n s =
    (let s1 = (if unat n < length (handlers s) then s\<lparr>handlers := (handlers s)[unat n := 0]\<rparr> else s)
     in if unat n < length (untraced s1) then s1\<lparr>untraced := (untraced s1)[unat n := False]\<rparr> else s1)"

definition dispatch :: "bool \<Rightarrow> u32 \<Rightarrow> irqs \<Rightarrow> irq_action list" where
  "dispatch trace n s =
    (if \<not> unat n < length (handlers s) then []
     else let f = handlers s ! unat n
          in if f = 0 then []
             else if trace
             then let traced = \<not> (if unat n < length (untraced s) then untraced s ! unat n else False)
                  in (if traced then [Isr_enter n] else []) @ [Call f] @ (if traced then [Isr_exit n] else [])
             else [Call f])"

definition irq_reset :: "irqs \<Rightarrow> irqs" where
  "irq_reset s = s\<lparr>handlers := map (\<lambda>_. 0) (handlers s)\<rparr>"

section \<open>What a history of registrations means\<close>

datatype irq_op = Register u32 usize | Register_untraced u32 usize | Unregister u32

fun irq_apply :: "irq_op \<Rightarrow> irqs \<Rightarrow> irqs" where
  "irq_apply (Register n f) s = snd (irq_register n f s)"
| "irq_apply (Register_untraced n f) s = snd (register_untraced n f s)"
| "irq_apply (Unregister n) s = unregister n s"

text \<open>
  Read off the history, newest operation first: the handler registered last and not removed
  since, and whether an untraced registration was made since the last removal.
\<close>

fun last_handler :: "irq_op list \<Rightarrow> u32 \<Rightarrow> usize option" where
  "last_handler [] n = None"
| "last_handler (Register m f # ops) n = (if m = n then Some f else last_handler ops n)"
| "last_handler (Register_untraced m f # ops) n = (if m = n then Some f else last_handler ops n)"
| "last_handler (Unregister m # ops) n = (if m = n then None else last_handler ops n)"

fun marked_untraced :: "irq_op list \<Rightarrow> u32 \<Rightarrow> bool" where
  "marked_untraced [] n = False"
| "marked_untraced (Register m f # ops) n = marked_untraced ops n"
| "marked_untraced (Register_untraced m f # ops) n = (m = n \<or> marked_untraced ops n)"
| "marked_untraced (Unregister m # ops) n = (m \<noteq> n \<and> marked_untraced ops n)"

fun op_handler_ok :: "irq_op \<Rightarrow> bool" where
  "op_handler_ok (Register n f) = (f \<noteq> 0)"
| "op_handler_ok (Register_untraced n f) = (f \<noteq> 0)"
| "op_handler_ok (Unregister n) = True"

definition irq_run :: "config \<Rightarrow> irq_op list \<Rightarrow> irqs" where
  "irq_run c ops = foldr irq_apply ops (irq_boot c)"

lemma irq_run_spec:
  assumes "\<forall>q \<in> set ops. op_handler_ok q" and "unat n < cfg_max_irqs c"
  shows "length (handlers (irq_run c ops)) = cfg_max_irqs c \<and> length (untraced (irq_run c ops)) = cfg_max_irqs c \<and>
    handlers (irq_run c ops) ! unat n = (case last_handler ops n of None \<Rightarrow> 0 | Some f \<Rightarrow> f) \<and>
    untraced (irq_run c ops) ! unat n = marked_untraced ops n \<and>
    (\<forall>f. last_handler ops n = Some f \<longrightarrow> f \<noteq> 0)"
  using assms
proof (induction ops)
  case Nil
  then show ?case by (simp add: irq_run_def irq_boot_def)
next
  case (Cons q ops)
  have r: "irq_run c (q # ops) = irq_apply q (irq_run c ops)" by (simp add: irq_run_def)
  have eq: "unat m = unat n \<longleftrightarrow> m = n" for m :: u32 by (simp add: word_unat_eq_iff)
  have IH: "length (handlers (irq_run c ops)) = cfg_max_irqs c" "length (untraced (irq_run c ops)) = cfg_max_irqs c"
    "handlers (irq_run c ops) ! unat n = (case last_handler ops n of None \<Rightarrow> 0 | Some f \<Rightarrow> f)"
    "untraced (irq_run c ops) ! unat n = marked_untraced ops n" "\<forall>f. last_handler ops n = Some f \<longrightarrow> f \<noteq> 0"
    using Cons by auto
  show ?case
    using IH Cons.prems unfolding r
    by (cases q) (auto simp: irq_register_def register_untraced_def unregister_def Let_def nth_list_update eq)
qed

lemma irq_apply_length: "length (handlers (irq_apply q s)) = length (handlers s)"
  by (cases q) (simp_all add: irq_register_def register_untraced_def unregister_def Let_def)

lemma dispatch_spec:
  assumes "\<forall>q \<in> set ops. op_handler_ok q"
  shows "dispatch trace n (irq_run c ops) =
    (if unat n < cfg_max_irqs c
     then case last_handler ops n of
            None \<Rightarrow> []
          | Some f \<Rightarrow> if trace \<and> \<not> marked_untraced ops n then [Isr_enter n, Call f, Isr_exit n] else [Call f]
     else [])"
proof (cases "unat n < cfg_max_irqs c")
  case True
  then show ?thesis using irq_run_spec [OF assms True]
    by (auto simp: dispatch_def Let_def split: option.splits)
next
  case False
  have "length (handlers (irq_run c ops)) = cfg_max_irqs c"
    by (induction ops) (simp_all add: irq_run_def irq_apply_length irq_boot_def)
  then show ?thesis using False by (simp add: dispatch_def)
qed

text \<open>
  The mark outlives the handler it was made for: a plain registration over an untraced one is
  not traced either, and the reset between tests does not clear it.
\<close>

lemma mark_outlives_handler:
  assumes "unat n < cfg_max_irqs c" and "f \<noteq> 0" and "g \<noteq> 0"
  shows "dispatch True n (snd (irq_register n g (snd (register_untraced n f (irq_boot c))))) = [Call g]"
  using assms dispatch_spec [of "[Register n g, Register_untraced n f]" True n c] by (simp add: irq_run_def)

end
