(* ===== verification/Log.thy ===== *)
theory Log
  imports Channel Print "HOL-Library.Sublist"
begin

text \<open>
  Deferred logging (\<open>rivet/src/log.rs\<close>): frames pushed into a channel of 16 cells by tasks and
  interrupts under the critical section, and formatted when they are drained. Text is a list
  of bytes; the display of a 32-bit float (\<open>core::fmt\<close>) is the argument \<open>ff\<close>.
\<close>

section \<open>Frames\<close>

datatype level = Trace | Debug | Info | Warn | Error

fun level_as_str :: "level \<Rightarrow> string" where
  "level_as_str Trace = ''TRACE''"
| "level_as_str Debug = ''DEBUG''"
| "level_as_str Info = ''INFO''"
| "level_as_str Warn = ''WARN''"
| "level_as_str Error = ''ERROR''"

datatype 'f log_arg = NoArg | U32 u32 | I32 u32 | F32 'f | Str string

record 'f log_frame =
  lf_level :: level
  lf_task :: "u16 option"
  lf_time :: u32
  lf_msg :: string
  lf_args :: "'f log_arg list"

definition CAPACITY :: nat where "CAPACITY = 16"

record 'f log =
  lg_chan :: "'f log_frame channel"
  lg_ready :: bool
  lg_dropped :: u32

definition log_boot :: "'f log" where
  "log_boot = \<lparr>lg_chan = new_channel CAPACITY, lg_ready = False, lg_dropped = 0\<rparr>"

definition log_init :: "'f log \<Rightarrow> 'f log" where
  "log_init lg = (case split_channel (lg_chan lg) of
     (True, c) \<Rightarrow> lg\<lparr>lg_chan := c, lg_ready := True\<rparr> | (False, c) \<Rightarrow> lg\<lparr>lg_chan := c\<rparr>)"

definition make_frame :: "nat \<Rightarrow> u64 \<Rightarrow> level \<Rightarrow> string \<Rightarrow> 'f log_arg \<Rightarrow> 'f log_arg \<Rightarrow> kernel \<Rightarrow> 'f log_frame" where
  "make_frame h now lv msg a0 a1 k = \<lparr>lf_level = lv, lf_task = map_option of_nat (current h k),
     lf_time = ucast now, lf_msg = msg, lf_args = [a0, a1]\<rparr>"

text \<open>\<open>None\<close> is a panic of the channel, which does not happen (below).\<close>

definition log_push :: "nat \<Rightarrow> u64 \<Rightarrow> level \<Rightarrow> string \<Rightarrow> 'f log_arg \<Rightarrow> 'f log_arg \<Rightarrow> 'f log \<times> kernel \<Rightarrow>
    ('f log \<times> kernel) option" where
  "log_push h now lv msg a0 a1 s =
    (let (lg, k) = s; frame = make_frame h now lv msg a0 a1 k
     in if \<not> lg_ready lg then Some (lg\<lparr>lg_dropped := lg_dropped lg + 1\<rparr>, k)
        else do {
          (r, c, k1) \<leftarrow> try_send h frame (lg_chan lg, k);
          let lg1 = lg\<lparr>lg_chan := c\<rparr>;
          Some ((case r of Inr _ \<Rightarrow> lg1 | Inl _ \<Rightarrow> lg1\<lparr>lg_dropped := lg_dropped lg1 + 1\<rparr>), k1)
        })"

definition dropped_frames :: "'f log \<Rightarrow> usize" where
  "dropped_frames lg = lg_dropped lg"

section \<open>Formatting\<close>

text \<open>Display of the integer types.\<close>

definition show_u32 :: "u32 \<Rightarrow> string" where
  "show_u32 v = the (print_dec 10 (unat v))"

definition show_i32 :: "u32 \<Rightarrow> string" where
  "show_i32 v = (if sint v < 0 then ''-'' @ the (print_dec 10 (nat (- sint v)))
     else the (print_dec 10 (nat (sint v))))"

fun write_arg :: "('f \<Rightarrow> string) \<Rightarrow> 'f log_arg \<Rightarrow> string" where
  "write_arg ff NoArg = []"
| "write_arg ff (U32 v) = show_u32 v"
| "write_arg ff (I32 v) = show_i32 v"
| "write_arg ff (F32 v) = ff v"
| "write_arg ff (Str s) = s"

text \<open>\<open>str::find("{}")\<close>: the position of the first pair of braces.\<close>

fun find_braces :: "string \<Rightarrow> nat option" where
  "find_braces [] = None"
| "find_braces [c] = None"
| "find_braces (a # b # r) = (if a = CHR ''{'' \<and> b = CHR ''}'' then Some 0
     else map_option Suc (find_braces (b # r)))"

lemma find_braces_less: "find_braces s = Some p \<Longrightarrow> p + 2 \<le> length s"
  by (induction s arbitrary: p rule: find_braces.induct) (auto split: if_splits)

definition fill_in :: "('f \<Rightarrow> string) \<Rightarrow> 'f log_arg list \<Rightarrow> nat \<Rightarrow> string" where
  "fill_in ff args i = (if i < length args \<and> args ! i \<noteq> NoArg then write_arg ff (args ! i) else ''{}'')"

function interpolate :: "('f \<Rightarrow> string) \<Rightarrow> 'f log_arg list \<Rightarrow> nat \<Rightarrow> string \<Rightarrow> string" where
  "interpolate ff args i rest =
    (case find_braces rest of
       None \<Rightarrow> rest
     | Some pos \<Rightarrow> take pos rest @ fill_in ff args i @ interpolate ff args (i + 1) (drop (pos + 2) rest))"
  by pat_completeness auto
termination
  by (relation "measure (\<lambda>(ff, args, i, rest). length rest)") (auto dest: find_braces_less)

declare interpolate.simps [simp del]

definition write_interpolated :: "('f \<Rightarrow> string) \<Rightarrow> string \<Rightarrow> 'f log_arg list \<Rightarrow> string" where
  "write_interpolated ff msg args = interpolate ff args 0 msg"

definition write_frame :: "('f \<Rightarrow> string) \<Rightarrow> 'f log_frame \<Rightarrow> string option" where
  "write_frame ff f = do {
     t \<leftarrow> print_dec 20 (unat (lf_time f));
     task \<leftarrow> (case lf_task f of
                None \<Rightarrow> Some []
              | Some i \<Rightarrow> map_option (\<lambda>d. '' task='' @ d) (print_dec 20 (unat i)));
     Some (''['' @ level_as_str (lf_level f) @ ''] t='' @ t @ task @ '' '' @
       write_interpolated ff (lf_msg f) (lf_args f) @ [CHR 0x0A])
   }"

text \<open>The answer is the text written, \<open>None\<close> inside when there was no frame.\<close>

definition drain_one :: "('f \<Rightarrow> string) \<Rightarrow> nat \<Rightarrow> 'f log \<times> kernel \<Rightarrow>
    (string option \<times> 'f log \<times> kernel) option" where
  "drain_one ff h s =
    (let (lg, k) = s
     in if \<not> lg_ready lg then Some (None, lg, k)
        else do {
          (r, c, k1) \<leftarrow> try_recv h (lg_chan lg, k);
          (case r of
             None \<Rightarrow> Some (None, lg\<lparr>lg_chan := c\<rparr>, k1)
           | Some f \<Rightarrow> do { out \<leftarrow> write_frame ff f; Some (Some out, lg\<lparr>lg_chan := c\<rparr>, k1) })
        })"

section \<open>Interpolation character by character\<close>

text \<open>
  The reference: one pass over the message that replaces each pair of braces by the next
  argument, or leaves it when there is none.
\<close>

fun substitute :: "('f \<Rightarrow> string) \<Rightarrow> 'f log_arg list \<Rightarrow> string \<Rightarrow> string" where
  "substitute ff args (a # b # r) =
    (if a = CHR ''{'' \<and> b = CHR ''}''
     then (case args of [] \<Rightarrow> ''{}'' | NoArg # _ \<Rightarrow> ''{}'' | x # _ \<Rightarrow> write_arg ff x) @ substitute ff (tl args) r
     else a # substitute ff args (b # r))"
| "substitute ff args s = s"

lemma substitute_find:
  "substitute ff args s = (case find_braces s of
     None \<Rightarrow> s
   | Some p \<Rightarrow> take p s @ fill_in ff args 0 @ substitute ff (tl args) (drop (p + 2) s))"
proof (induction s rule: find_braces.induct)
  case (3 a b r)
  show ?case
  proof (cases "a = CHR ''{'' \<and> b = CHR ''}''")
    case True
    then show ?thesis by (cases args) (auto simp: fill_in_def split: log_arg.splits)
  next
    case False
    then show ?thesis using 3 by (auto split: option.splits)
  qed
qed simp_all

lemma fill_in_drop: "fill_in ff (drop i args) 0 = fill_in ff args i"
  by (auto simp: fill_in_def)

lemma interpolate_substitute: "interpolate ff args i s = substitute ff (drop i args) s"
proof (induction "length s" arbitrary: i s rule: less_induct)
  case less
  show ?case
  proof (cases "find_braces s")
    case None
    then show ?thesis by (simp add: interpolate.simps [of _ _ _ s] substitute_find [of _ _ s])
  next
    case (Some p)
    have "length (drop (p + 2) s) < length s" using find_braces_less [OF Some] by simp
    then have "interpolate ff args (i + 1) (drop (p + 2) s) = substitute ff (drop (i + 1) args) (drop (p + 2) s)"
      by (rule less)
    then show ?thesis
      by (simp add: interpolate.simps [of _ _ _ s] substitute_find [of _ _ s] Some fill_in_drop
          drop_Suc tl_drop)
  qed
qed

lemma write_frame_total: "\<exists>out. write_frame ff f = Some out"
proof -
  have a: "\<exists>s. print_dec 20 (unat (lf_time f)) = Some s"
    using print_dec_ok [of "unat (lf_time f)" 20] unsigned_less [of "lf_time f", where ?'a = nat] by auto
  have b: "\<exists>s. print_dec 20 (unat i) = Some s" for i :: u16
    using print_dec_ok [of "unat i" 20] unsigned_less [of i, where ?'a = nat] by auto
  show ?thesis
  proof (cases "lf_task f")
    case None
    then show ?thesis using a by (auto simp: write_frame_def)
  next
    case (Some i)
    then show ?thesis using a b [of i] by (auto simp: write_frame_def)
  qed
qed

section \<open>No frame is lost silently\<close>

definition log_ok :: "'f log \<times> kernel \<Rightarrow> bool" where
  "log_ok s \<longleftrightarrow> link_ok (lg_chan (fst s), snd s) \<and> lg_ready (fst s) \<and> room (lg_chan (fst s)) = 15"

abbreviation queued_frames :: "'f log \<times> kernel \<Rightarrow> 'f log_frame list" where
  "queued_frames s \<equiv> chan_contents (lg_chan (fst s))"

lemma log_ok_init: "wk_ok k \<Longrightarrow> log_ok (log_init log_boot :: 'f log, k) \<and>
    queued_frames (log_init log_boot :: 'f log, k) = [] \<and> lg_dropped (log_init log_boot :: 'f log) = 0"
  using chan_ok_new [of CAPACITY, where ?'a = "'f log_frame"]
  by (simp add: log_ok_def log_init_def log_boot_def split_channel_def link_ok_def CAPACITY_def room_def
      new_channel_def chan_ok_def chan_contents_def chan_len_def)

lemma log_push_spec:
  fixes h :: nat and now :: u64 and lv :: level and msg :: string and a0 a1 :: "'f log_arg"
  assumes ok: "log_ok s"
  defines "f \<equiv> make_frame h now lv msg a0 a1 (snd s)"
  shows "\<exists>s'. log_push h now lv msg a0 a1 s = Some s' \<and> log_ok s' \<and>
    (if length (queued_frames s) < 15
     then queued_frames s' = queued_frames s @ [f] \<and> lg_dropped (fst s') = lg_dropped (fst s)
     else queued_frames s' = queued_frames s \<and> lg_dropped (fst s') = lg_dropped (fst s) + 1)"
proof -
  obtain lg k where s: "s = (lg, k)" by fastforce
  have l: "link_ok (lg_chan lg, k)" "lg_ready lg" "room (lg_chan lg) = 15" using ok by (simp_all add: log_ok_def s)
  have le: "length (chan_contents (lg_chan lg)) \<le> 15"
    using chan_len_less [of "lg_chan lg"] l by (simp add: chan_contents_def room_def link_ok_def)
  note sp = try_send_spec [OF l(1), of h f]
  show ?thesis
  proof (cases "length (chan_contents (lg_chan lg)) = 15")
    case True
    then have "try_send h f (lg_chan lg, k) = Some (Inl f, lg_chan lg, k)" using sp l(3) by simp
    then show ?thesis using True l by (simp add: log_push_def s f_def log_ok_def)
  next
    case False
    then obtain c k1 where t: "try_send h f (lg_chan lg, k) = Some (Inr (), c, k1)" using sp l(3) by auto
    then have "put_op h f (lg_chan lg, k) = Some (c, k1)" by (simp add: put_op_def)
    from cq.put_some [OF l(1) this] show ?thesis
      using t False le l by (simp add: log_push_def s f_def log_ok_def)
  qed
qed

lemma drain_one_spec:
  assumes ok: "log_ok s"
  shows "\<exists>r s'. drain_one ff h s = Some (r, s') \<and> log_ok s' \<and> lg_dropped (fst s') = lg_dropped (fst s) \<and>
    (case queued_frames s of
       [] \<Rightarrow> r = None \<and> queued_frames s' = []
     | f # fs \<Rightarrow> r = write_frame ff f \<and> queued_frames s' = fs)"
proof -
  obtain lg k where s: "s = (lg, k)" by fastforce
  have l: "link_ok (lg_chan lg, k)" "lg_ready lg" "room (lg_chan lg) = 15" using ok by (simp_all add: log_ok_def s)
  note sp = try_recv_spec [OF l(1), of h]
  show ?thesis
  proof (cases "chan_contents (lg_chan lg)")
    case Nil
    then show ?thesis using sp l by (simp add: drain_one_def s log_ok_def)
  next
    case (Cons f fs)
    then obtain c k1 where t: "try_recv h (lg_chan lg, k) = Some (Some f, c, k1)" using sp by auto
    then have g: "get_op h (lg_chan lg, k) = Some (f, c, k1)" by (simp add: get_op_def)
    obtain out where "write_frame ff f = Some out" using write_frame_total by blast
    then show ?thesis using cq.get_some [OF l(1) g] t l Cons by (simp add: drain_one_def s log_ok_def)
  qed
qed

text \<open>
  A run of pushes and drains: the frames pushed, those the ring accepted and the texts drained.
\<close>

datatype 'f log_act = Push nat u64 level string "'f log_arg" "'f log_arg" | Drain nat

inductive log_run :: "('f \<Rightarrow> string) \<Rightarrow> 'f log \<times> kernel \<Rightarrow> 'f log_act list \<Rightarrow>
    'f log_frame list \<Rightarrow> string list \<Rightarrow> 'f log \<times> kernel \<Rightarrow> bool"
  for ff where
  nil: "log_run ff s [] [] [] s"
| push: "log_push h now lv msg a0 a1 s = Some s1 \<Longrightarrow> log_run ff s1 acts fs outs s' \<Longrightarrow>
    log_run ff s (Push h now lv msg a0 a1 # acts) (make_frame h now lv msg a0 a1 (snd s) # fs) outs s'"
| drain: "drain_one ff h s = Some (Some out, s1) \<Longrightarrow> log_run ff s1 acts fs outs s' \<Longrightarrow>
    log_run ff s (Drain h # acts) fs (out # outs) s'"
| idle: "drain_one ff h s = Some (None, s1) \<Longrightarrow> log_run ff s1 acts fs outs s' \<Longrightarrow>
    log_run ff s (Drain h # acts) fs outs s'"

lemma log_run_total: "log_ok s \<Longrightarrow> \<exists>fs outs s'. log_run ff s acts fs outs s'"
proof (induction acts arbitrary: s)
  case Nil
  then show ?case by (blast intro: log_run.nil)
next
  case (Cons a acts)
  show ?case
  proof (cases a)
    case (Push h now lv msg a0 a1)
    then show ?thesis using log_push_spec [OF Cons.prems, of h now lv msg a0 a1] Cons.IH
      by (blast intro: log_run.push)
  next
    case (Drain h)
    obtain r s1 where r: "drain_one ff h s = Some (r, s1)" "log_ok s1"
      using drain_one_spec [OF Cons.prems] by blast
    then show ?thesis using Cons.IH [OF r(2)] Drain
      by (cases r) (blast intro: log_run.drain log_run.idle)+
  qed
qed

lemma log_run_conserves:
  assumes "log_run ff s acts fs outs s'" and "log_ok s"
  shows "\<exists>kept. log_ok s' \<and> subseq kept fs \<and>
    map Some outs @ map (write_frame ff) (queued_frames s') = map (write_frame ff) (queued_frames s @ kept) \<and>
    lg_dropped (fst s') = lg_dropped (fst s) + of_nat (length fs - length kept)"
  using assms
proof (induction rule: log_run.induct)
  case (nil s)
  then show ?case by (intro exI [of _ "[]"]) simp
next
  case (push h now lv msg a0 a1 s s1 acts fs outs s')
  let ?f = "make_frame h now lv msg a0 a1 (snd s)"
  have p: "log_ok s1" "if length (queued_frames s) < 15
     then queued_frames s1 = queued_frames s @ [?f] \<and> lg_dropped (fst s1) = lg_dropped (fst s)
     else queued_frames s1 = queued_frames s \<and> lg_dropped (fst s1) = lg_dropped (fst s) + 1"
    using log_push_spec [OF push.prems, of h now lv msg a0 a1] push.hyps(1) by auto
  obtain kept where k: "log_ok s'" "subseq kept fs"
    "map Some outs @ map (write_frame ff) (queued_frames s') = map (write_frame ff) (queued_frames s1 @ kept)"
    "lg_dropped (fst s') = lg_dropped (fst s1) + of_nat (length fs - length kept)"
    using push.IH [OF p(1)] by blast
  have le: "length kept \<le> length fs" using k(2) by (rule list_emb_length)
  show ?case
  proof (cases "length (queued_frames s) < 15")
    case True
    then show ?thesis using k p by (intro exI [of _ "?f # kept"]) simp
  next
    case False
    then show ?thesis using k p le by (intro exI [of _ kept]) (auto simp: Suc_diff_le)
  qed
next
  case (drain h s out s1 acts fs outs s')
  then show ?case
    using drain_one_spec [OF drain.prems, of ff h] by (cases "queued_frames s") auto
next
  case (idle h s s1 acts fs outs s')
  have e: "queued_frames s = []"
  proof (cases "queued_frames s")
    case (Cons f fs)
    then have "write_frame ff f = None"
      using drain_one_spec [OF idle.prems, of ff h] idle.hyps(1) by auto
    then show ?thesis using write_frame_total [of ff f] by simp
  qed simp
  then show ?case
    using drain_one_spec [OF idle.prems, of ff h] idle by auto
qed

end
