(* ===== verification/Latency.thy ===== *)
theory Latency
  imports Rivet_Base
begin

text \<open>
  The latency histograms (\<open>rivet/src/latency.rs\<close>, feature \<open>latency-histograms\<close>): sixteen
  logarithmic buckets and the largest sample of each kind.
\<close>

section \<open>Histograms\<close>

definition BUCKETS :: nat where "BUCKETS = 16"

datatype kind = IrqEntry | DispatchDecision | CriticalSection | SchedulingWake

fun kind_index :: "kind \<Rightarrow> nat" where
  "kind_index IrqEntry = 0"
| "kind_index DispatchDecision = 1"
| "kind_index CriticalSection = 2"
| "kind_index SchedulingWake = 3"

record histograms =
  hist :: "u32 list list"
  max_of :: "u32 list"

definition hist_boot :: histograms where
  "hist_boot = \<lparr>hist = replicate 4 (replicate BUCKETS 0), max_of = replicate 4 0\<rparr>"

definition clz64 :: "u64 \<Rightarrow> nat" where
  "clz64 w = length (takeWhile (\<lambda>i. \<not> bit w i) (rev [0..<64]))"

definition bucket_of :: "u64 \<Rightarrow> nat" where
  "bucket_of cycles = (if cycles = 0 then 0 else min (63 - clz64 cycles) (BUCKETS - 1))"

definition latency_record :: "kind \<Rightarrow> u64 \<Rightarrow> histograms \<Rightarrow> histograms" where
  "latency_record kd cycles s =
    (let i = kind_index kd; b = bucket_of cycles; capped = ucast (min cycles 0xFFFFFFFF)
     in s\<lparr>hist := (hist s)[i := (hist s ! i)[b := hist s ! i ! b + 1]],
          max_of := (max_of s)[i := max (max_of s ! i) capped]\<rparr>)"

definition snapshot :: "kind \<Rightarrow> histograms \<Rightarrow> u32 list" where
  "snapshot kd s = map (\<lambda>b. hist s ! kind_index kd ! b) [0..<BUCKETS]"

definition max_cycles :: "kind \<Rightarrow> histograms \<Rightarrow> u32" where
  "max_cycles kd s = max_of s ! kind_index kd"

fun kind_name :: "kind \<Rightarrow> string" where
  "kind_name IrqEntry = ''irq_entry''"
| "kind_name DispatchDecision = ''dispatch''"
| "kind_name CriticalSection = ''critsec''"
| "kind_name SchedulingWake = ''sched_wake''"

definition ALL_KINDS :: "kind list" where
  "ALL_KINDS = [IrqEntry, DispatchDecision, CriticalSection, SchedulingWake]"

section \<open>Buckets\<close>

lemma takeWhile_rev_upt:
  "(\<exists>i < n. P i) \<Longrightarrow> P (n - 1 - length (takeWhile (\<lambda>i. \<not> P i) (rev [0..<n]))) \<and>
    (\<forall>j < n. P j \<longrightarrow> j \<le> n - 1 - length (takeWhile (\<lambda>i. \<not> P i) (rev [0..<n]))) \<and>
    length (takeWhile (\<lambda>i. \<not> P i) (rev [0..<n])) < n"
proof (induction n)
  case (Suc n)
  show ?case
  proof (cases "P n")
    case False
    then have "\<exists>i < n. P i" using Suc.prems by (auto simp: less_Suc_eq)
    then show ?thesis using Suc.IH False by (auto simp: less_Suc_eq)
  qed simp
qed simp

lemma highest_bit_bounds:
  assumes "w \<noteq> (0 :: u64)"
  shows "2 ^ (63 - clz64 w) \<le> unat w" "unat w < 2 ^ Suc (63 - clz64 w)"
proof -
  let ?h = "63 - clz64 w"
  have "\<exists>i < 64. bit w i" using assms by (auto intro: bit_word_eqI)
  from takeWhile_rev_upt [OF this] have h: "bit w ?h" "\<forall>j < 64. bit w j \<longrightarrow> j \<le> ?h"
    by (simp_all add: clz64_def)
  have "bit (unat w) ?h" using h(1) by (simp add: bit_unsigned_iff)
  then have "odd (unat w div 2 ^ ?h)" by (simp add: bit_iff_odd)
  then have "unat w div 2 ^ ?h \<noteq> 0" by (metis even_zero)
  then show "2 ^ ?h \<le> unat w" by (simp add: div_eq_0_iff)
  have "take_bit (Suc ?h) w = w"
    by (rule bit_word_eqI) (use h(2) in \<open>auto simp: bit_take_bit_iff less_Suc_eq_le\<close>)
  then have "take_bit (Suc ?h) (unat w) = unat w" by (metis unsigned_take_bit_eq)
  then show "unat w < 2 ^ Suc ?h" by (metis take_bit_nat_less_exp)
qed

text \<open>Bucket \<open>b\<close> holds the samples of \<open>[2^b, 2^(b+1))\<close>, the first also 0, the last all above.\<close>

lemma bucket_of_iff:
  assumes "b < BUCKETS"
  shows "bucket_of c = b \<longleftrightarrow> (b = 0 \<or> 2 ^ b \<le> unat c) \<and> (b = BUCKETS - 1 \<or> unat c < 2 ^ Suc b)"
proof (cases "c = 0")
  case True
  then show ?thesis using assms by (auto simp: bucket_of_def BUCKETS_def)
next
  case False
  let ?h = "63 - clz64 c"
  note hb = highest_bit_bounds [OF False]
  have le: "2 ^ b \<le> unat c \<longleftrightarrow> b \<le> ?h"
  proof
    assume "2 ^ b \<le> unat c"
    then have "(2 :: nat) ^ b < 2 ^ Suc ?h" using hb(2) by linarith
    then show "b \<le> ?h" using power_less_imp_less_exp [of "2 :: nat" b "Suc ?h"] by simp
  next
    assume "b \<le> ?h"
    then have "(2 :: nat) ^ b \<le> 2 ^ ?h" by (rule power_increasing) simp
    then show "2 ^ b \<le> unat c" using hb(1) by linarith
  qed
  have lt: "unat c < 2 ^ Suc b \<longleftrightarrow> ?h \<le> b"
  proof
    assume "unat c < 2 ^ Suc b"
    then have "(2 :: nat) ^ ?h < 2 ^ Suc b" using hb(1) by linarith
    then show "?h \<le> b" using power_less_imp_less_exp [of "2 :: nat" ?h "Suc b"] by simp
  next
    assume "?h \<le> b"
    then have "(2 :: nat) ^ Suc ?h \<le> 2 ^ Suc b" by (intro power_increasing) simp_all
    then show "unat c < 2 ^ Suc b" using hb(2) by linarith
  qed
  show ?thesis unfolding le lt using False assms by (auto simp: bucket_of_def BUCKETS_def)
qed

lemma bucket_of_less: "bucket_of c < BUCKETS"
  by (auto simp: bucket_of_def BUCKETS_def min_def)

section \<open>What the histograms hold\<close>

definition hist_ok :: "histograms \<Rightarrow> bool" where
  "hist_ok s \<longleftrightarrow> length (hist s) = 4 \<and> length (max_of s) = 4 \<and> (\<forall>h \<in> set (hist s). length h = BUCKETS)"

lemma kind_index: "kind_index a < 4" "kind_index a = kind_index b \<longleftrightarrow> a = b"
  by (cases a; simp) (cases a; cases b; simp)

text \<open>After recording \<open>samples\<close>, newest first.\<close>

definition recorded :: "(kind \<times> u64) list \<Rightarrow> histograms" where
  "recorded samples = foldr (\<lambda>(kd, c). latency_record kd c) samples hist_boot"

lemma recorded_spec:
  "hist_ok (recorded samples) \<and>
   (\<forall>kd. \<forall>b < BUCKETS. hist (recorded samples) ! kind_index kd ! b =
      of_nat (length (filter (\<lambda>(a, c). a = kd \<and> bucket_of c = b) samples))) \<and>
   (\<forall>kd. max_of (recorded samples) ! kind_index kd =
      foldr (\<lambda>(a, c) m. if a = kd then max m (ucast (min c 0xFFFFFFFF)) else m) samples 0)"
proof (induction samples)
  case Nil
  then show ?case using kind_index(1) by (auto simp: recorded_def hist_boot_def hist_ok_def)
next
  case (Cons x samples)
  obtain kd c where x: "x = (kd, c)" by fastforce
  have r: "recorded (x # samples) = latency_record kd c (recorded samples)" by (simp add: recorded_def x)
  have ok: "length (hist (recorded samples)) = 4" "length (max_of (recorded samples)) = 4"
    "length (hist (recorded samples) ! kind_index a) = BUCKETS" for a
    using Cons.IH kind_index(1) [of a] by (auto simp: hist_ok_def)
  have "hist_ok (latency_record kd c (recorded samples))"
    using ok Cons.IH by (auto simp: hist_ok_def latency_record_def Let_def dest!: set_update_subset_insert [THEN subsetD])
  moreover have "hist (latency_record kd c (recorded samples)) ! kind_index a ! b =
      of_nat (length (filter (\<lambda>(d, v). d = a \<and> bucket_of v = b) (x # samples)))" if "b < BUCKETS" for a b
    using that Cons.IH ok kind_index(1) [of kd] bucket_of_less [of c]
    by (auto simp: latency_record_def Let_def nth_list_update kind_index(2) x add.commute)
  moreover have "max_of (latency_record kd c (recorded samples)) ! kind_index a =
      foldr (\<lambda>(d, v) m. if d = a then max m (ucast (min v 0xFFFFFFFF)) else m) (x # samples) 0" for a
    using Cons.IH ok kind_index(1) [of kd]
    by (auto simp: latency_record_def Let_def nth_list_update kind_index(2) x)
  ultimately show ?case unfolding r by blast
qed

lemma snapshot_recorded:
  "snapshot kd (recorded samples) =
    map (\<lambda>b. of_nat (length (filter (\<lambda>(a, c). a = kd \<and> bucket_of c = b) samples))) [0..<BUCKETS]"
  using recorded_spec [of samples] by (auto simp: snapshot_def)

end
