(* ===== verification/Report.thy ===== *)
theory Report
  imports Log Latency Accounting Timer Fault
begin

text \<open>
  The kernel report (\<open>rivet/src/report.rs\<close>): the text it writes, piece by piece as the code
  does, with the memory, the cycle counter read for each task and the histograms as
  arguments. \<open>None\<close> is a panic, of which there is none.
\<close>

section \<open>The text\<close>

definition report_dec :: "nat \<Rightarrow> string option" where
  "report_dec n = print_dec 20 n"

definition task_stack_usage :: "(usize \<Rightarrow> u8) \<Rightarrow> nat \<Rightarrow> kernel \<Rightarrow> (nat \<times> nat) option" where
  "task_stack_usage mem i k = do {
     t \<leftarrow> get_task i k;
     (if stack_base t = 0 \<or> stack_size t = 0 then None
      else Some (stack_usage (stack_bytes mem (stack_base t) (stack_size t)), unat (stack_size t)))
   }"

definition state_text :: "tcb \<Rightarrow> string" where
  "state_text t = (if exited t then ''exited''
     else case state_of t of Ready \<Rightarrow> ''ready'' | Running \<Rightarrow> ''running'' | Blocked \<Rightarrow> ''blocked'')"

definition task_text :: "(usize \<Rightarrow> u8) \<Rightarrow> u64 \<Rightarrow> nat \<Rightarrow> kernel \<Rightarrow> string option" where
  "task_text mem now i k = do {
     let t = tasks k ! i;
     n \<leftarrow> report_dec i;
     base \<leftarrow> report_dec (base_priority t);
     eff \<leftarrow> (if effective_priority t \<noteq> base_priority t
            then map_option (\<lambda>d. ''(eff='' @ d @ '')'') (report_dec (effective_priority t)) else Some []);
     stack \<leftarrow> (case task_stack_usage mem i k of
                None \<Rightarrow> Some []
              | Some (used_bytes, size_bytes) \<Rightarrow> do {
                  a \<leftarrow> report_dec used_bytes;
                  b \<leftarrow> report_dec size_bytes;
                  Some ('' stack='' @ a @ ''/'' @ b)
                });
     held_txt \<leftarrow> (if held_count t \<noteq> 0
                 then map_option (\<lambda>d. '' held_mutexes='' @ d) (report_dec (unat (held_count t))) else Some []);
     busy \<leftarrow> report_dec (unat (busy_percent i now k));
     Some (''task '' @ n @ '' prio='' @ base @ eff @ '' state='' @ state_text t @ stack @ held_txt @
       '' busy='' @ busy @ ''%'' @ [CHR 0x0A])
   }"

fun tasks_text :: "nat list \<Rightarrow> (usize \<Rightarrow> u8) \<Rightarrow> (nat \<Rightarrow> u64) \<Rightarrow> kernel \<Rightarrow> (nat \<times> string) option" where
  "tasks_text [] mem nows k = Some (0, [])"
| "tasks_text (i # is) mem nows k =
     (if \<not> used (tasks k ! i) then tasks_text is mem nows k
      else do {
        a \<leftarrow> task_text mem (nows i) i k;
        (n, b) \<leftarrow> tasks_text is mem nows k;
        Some (Suc n, a @ b)
      })"

fun buckets_text :: "nat \<Rightarrow> u32 list \<Rightarrow> (bool \<times> string) option" where
  "buckets_text b [] = Some (False, [])"
| "buckets_text b (c # cs) =
     (if c = 0 then buckets_text (Suc b) cs
      else do {
        x \<leftarrow> report_dec b;
        y \<leftarrow> report_dec (unat c);
        (_, r) \<leftarrow> buckets_text (Suc b) cs;
        Some (True, ''2^'' @ x @ '':'' @ y @ '' '' @ r)
      })"

fun histograms_text :: "kind list \<Rightarrow> histograms \<Rightarrow> string option" where
  "histograms_text [] s = Some []"
| "histograms_text (kd # ks) s = do {
     (any, line) \<leftarrow> buckets_text 0 (snapshot kd s);
     m \<leftarrow> report_dec (unat (max_cycles kd s));
     r \<leftarrow> histograms_text ks s;
     Some (''  '' @ kind_name kd @ '': '' @ line @ (if any then ''max='' @ m else ''(no samples)'') @
       [CHR 0x0A] @ r)
   }"

definition print_latency_histograms :: "histograms \<Rightarrow> string option" where
  "print_latency_histograms s =
    map_option (\<lambda>r. ''latency (cycles, log2 buckets):'' @ [CHR 0x0A] @ r) (histograms_text ALL_KINDS s)"

definition report :: "(usize \<Rightarrow> u8) \<Rightarrow> (nat \<Rightarrow> u64) \<Rightarrow> histograms option \<Rightarrow> 'f log \<Rightarrow> kernel \<Rightarrow> string option" where
  "report mem nows hists lg k = do {
     (n, lines) \<leftarrow> tasks_text [0..<max_ptasks k] mem nows k;
     a \<leftarrow> report_dec n;
     b \<leftarrow> report_dec (max_ptasks k);
     c \<leftarrow> report_dec (slots_in_use (timer_slots k));
     d \<leftarrow> report_dec (length (timer_slots k));
     e \<leftarrow> report_dec (unat (dropped_frames lg));
     h \<leftarrow> (case hists of None \<Rightarrow> Some [] | Some s \<Rightarrow> print_latency_histograms s);
     Some (''=== rivet::report() ==='' @ [CHR 0x0A] @ lines @ ''ptask slots: '' @ a @ ''/'' @ b @ [CHR 0x0A] @
       ''timer slots: '' @ c @ ''/'' @ d @ [CHR 0x0A] @ ''log: '' @ e @ '' dropped frame(s)'' @ [CHR 0x0A] @
       h @ ''=== end report ==='' @ [CHR 0x0A])
   }"

section \<open>The report always prints\<close>

lemma report_dec_total: "n < 10 ^ 20 \<Longrightarrow> \<exists>s. report_dec n = Some s \<and> dec_value s = n"
  unfolding report_dec_def by (rule print_dec_ok)

lemma report_dec_words:
  "\<exists>s. report_dec (unat (v :: u32)) = Some s" "\<exists>s. report_dec (unat (b :: u8)) = Some s"
proof -
  have "unat v < 2 ^ LENGTH(32)" "unat b < 2 ^ LENGTH(8)" by (rule unsigned_less)+
  then show "\<exists>s. report_dec (unat v) = Some s" "\<exists>s. report_dec (unat b) = Some s"
    using report_dec_total [of "unat v"] report_dec_total [of "unat b"] by auto
qed

lemma task_text_total:
  assumes "wf k" and "i < max_ptasks k"
  shows "\<exists>s. task_text mem now i k = Some s"
proof -
  have t: "base_priority (tasks k ! i) < 32" "effective_priority (tasks k ! i) < 32" "i < 32"
    using assms by (auto simp: wf_def wf_tcb_def)
  have u: "stack_usage (stack_bytes mem b sz) < 10 ^ 20" for b sz
  proof -
    have "unat sz < 2 ^ LENGTH(32)" by (rule unsigned_less)
    then show ?thesis using stack_usage_bound [of mem b sz] by simp
  qed
  have st: "case task_stack_usage mem i k of None \<Rightarrow> True
      | Some (a, b) \<Rightarrow> (\<exists>x. report_dec a = Some x) \<and> (\<exists>y. report_dec b = Some y)"
    using report_dec_total [OF u] report_dec_words(1)
    by (fastforce simp: task_stack_usage_def split: option.splits if_splits bind_splits)
  have d: "\<exists>s. report_dec n = Some s" if "n < 32" for n using report_dec_total [of n] that by auto
  obtain n b e y where n: "report_dec i = Some n" "report_dec (base_priority (tasks k ! i)) = Some b"
    "report_dec (effective_priority (tasks k ! i)) = Some e" "report_dec (unat (busy_percent i now k)) = Some y"
    using d [OF t(1)] d [OF t(2)] d [OF t(3)] report_dec_words(2) by blast
  obtain hc where hc: "report_dec (unat (held_count (tasks k ! i))) = Some hc" using report_dec_words(2) by blast
  show ?thesis
  proof (cases "task_stack_usage mem i k")
    case None
    then show ?thesis using n hc by (simp add: task_text_def Let_def)
  next
    case (Some p)
    then obtain x z where "report_dec (fst p) = Some x" "report_dec (snd p) = Some z" using st by auto
    then show ?thesis using n hc Some by (simp add: task_text_def Let_def split_beta)
  qed
qed

lemma tasks_text_total:
  assumes "wf k" and "\<forall>i \<in> set is. i < max_ptasks k"
  shows "\<exists>s. tasks_text is mem nows k = Some (length (filter (\<lambda>i. used (tasks k ! i)) is), s)"
  using assms(2)
proof (induction "is")
  case (Cons i "is")
  then obtain a s where "task_text mem (nows i) i k = Some a"
    "tasks_text is mem nows k = Some (length (filter (\<lambda>i. used (tasks k ! i)) is), s)"
    using task_text_total [OF assms(1)] by auto blast
  then show ?case by auto
qed simp

lemma buckets_text_total: "b + length cs < 10 ^ 20 \<Longrightarrow> \<exists>r. buckets_text b cs = Some r"
proof (induction cs arbitrary: b)
  case (Cons c cs)
  then show ?case
    using report_dec_total [of b] report_dec_words(1) [of c] Cons.IH [of "Suc b"] by fastforce
qed auto

lemma histograms_text_total: "\<exists>r. histograms_text ks s = Some r"
proof (induction ks)
  case (Cons kd ks)
  have "0 + length (snapshot kd s) < 10 ^ 20" by (simp add: snapshot_def BUCKETS_def)
  then show ?case
    using buckets_text_total [of 0 "snapshot kd s"] report_dec_words(1) [of "max_cycles kd s"] Cons by fastforce
qed simp

lemma report_total:
  assumes "wf k" and "length (timer_slots k) \<le> 64"
  shows "\<exists>s. report mem nows hists lg k = Some s"
proof -
  obtain n lines where t: "tasks_text [0..<max_ptasks k] mem nows k = Some (n, lines)" "n \<le> max_ptasks k"
    using tasks_text_total [OF assms(1), of "[0..<max_ptasks k]" mem nows]
      length_filter_le [of "\<lambda>i. used (tasks k ! i)" "[0..<max_ptasks k]"] by auto
  have m: "max_ptasks k \<le> 32" using assms(1) by (simp add: wf_def)
  have s: "slots_in_use (timer_slots k) \<le> 64"
    unfolding slots_in_use_def by (rule order_trans [OF length_filter_le assms(2)])
  have d: "\<exists>s. report_dec n = Some s" if "n \<le> 64" for n using report_dec_total [of n] that by auto
  have h: "\<exists>r. (case hists of None \<Rightarrow> Some [] | Some s \<Rightarrow> print_latency_histograms s) = Some r"
    using histograms_text_total by (auto simp: print_latency_histograms_def split: option.splits)
  show ?thesis
    using t(1) d [of n] d [of "max_ptasks k"] d [OF s] d [OF assms(2)] report_dec_words(1) [of "dropped_frames lg"] h
      t(2) m by (fastforce simp: report_def)
qed

end
