(* ===== verification/Kernel_Init.thy ===== *)
theory Kernel_Init
  imports Executor Console Log Irq Tick
begin

text \<open>
  Bringing the kernel up (\<open>init\<close>, \<open>run\<close> and \<open>run_secondary_hart\<close> of \<open>rivet/src/lib.rs\<close>): the
  statics of the components side by side, and the order in which \<open>init\<close> fills them. The
  board's own \<open>init\<close> reaches the console and the interrupt table and is an argument, as is the
  address of the static stack of the task that runs the executor.
\<close>

record 'f machine =
  m_kernel :: kernel
  m_exec :: "nat executor"
  m_log :: "'f log"
  m_console :: console
  m_irqs :: irqs
  kernel_ready :: bool

definition machine_boot :: "config \<Rightarrow> nat \<Rightarrow> nat \<Rightarrow> 'f machine" where
  "machine_boot c mutexes_declared tasks_declared = \<lparr>m_kernel = boot_kernel c mutexes_declared,
     m_exec = exec_new c tasks_declared, m_log = log_boot, m_console = console_boot,
     m_irqs = irq_boot c, kernel_ready = False\<rparr>"

definition ASYNC_IDLE_STACK_SIZE :: usize where "ASYNC_IDLE_STACK_SIZE = 4096"

definition kernel_init :: "bool \<Rightarrow> config \<Rightarrow> task_reg list \<Rightarrow> usize \<Rightarrow> (usize \<Rightarrow> usize \<Rightarrow> usize) \<Rightarrow> usize
    \<Rightarrow> (console \<times> irqs \<Rightarrow> console \<times> irqs) \<Rightarrow> 'f machine \<Rightarrow> 'f machine option" where
  "kernel_init ovf c regs min_stack init_stack idle_stack board m = do {
     let con = console_init (m_console m);
     let (con1, irq1) = board (con, m_irqs m);
     let lg = log_init (m_log m);
     (e, k) \<leftarrow> exec_init ovf c regs (m_exec m, m_kernel m);
     (_, k1) \<leftarrow> spawn 0 min_stack init_stack idle_stack ASYNC_IDLE_STACK_SIZE 0 0 0 k;
     Some (m\<lparr>m_kernel := k1, m_exec := e, m_log := lg, m_console := con1, m_irqs := irq1\<rparr>)
   }"

definition kernel_run :: "u64 \<Rightarrow> u64 \<Rightarrow> 'f machine \<Rightarrow> (usize \<times> 'f machine) option" where
  "kernel_run now us m = do {
     let m1 = m\<lparr>kernel_ready := True\<rparr>;
     (s, k) \<leftarrow> start 0 now us (m_kernel m1);
     Some (s, m1\<lparr>m_kernel := k\<rparr>)
   }"

definition run_secondary_hart :: "nat \<Rightarrow> 'f machine \<Rightarrow> (usize option \<times> 'f machine) option" where
  "run_secondary_hart h m =
    map_option (\<lambda>(s, k). (s, m\<lparr>m_kernel := k\<rparr>)) (start_secondary h (m_kernel m))"

section \<open>The marks leave the rest of the kernel alone\<close>

lemma mark_each_frame:
  "mark_each ts k = Some k' \<Longrightarrow> good k \<Longrightarrow> good k' \<and> tasks k' = tasks k \<and> current_ids k' = current_ids k"
proof (induction ts arbitrary: k)
  case (Cons t ts)
  then obtain k1 where k1: "mark_ready t k = Some k1" "mark_each ts k1 = Some k'"
    by (auto simp: bind_eq_Some_conv)
  then show ?case
    using Cons.IH [OF k1(2)] mark_ready_frame [OF k1(1)] Cons.prems(2)
    by (auto simp: mark_ready_def Let_def split: if_splits)
qed simp

lemma exec_init_frame:
  "exec_init ovf c regs (e, k) = Some (e', k') \<Longrightarrow> good k \<Longrightarrow>
    good k' \<and> tasks k' = tasks k \<and> current_ids k' = current_ids k"
  by (auto simp: exec_init_def bind_eq_Some_conv split: prod.splits dest: mark_each_frame)

lemma register_from_currents:
  "register_from is h s0 p b sz k = Some (r, k') \<Longrightarrow> current_ids k' = current_ids k"
proof (induction "is" arbitrary: k)
  case (Cons i "is")
  then show ?case by (auto simp: Let_def bind_eq_Some_conv ready_add_def split: if_splits)
qed simp

lemma spawn_currents:
  assumes s: "spawn h ms it b sz p rs df k = Some (r, k')"
  shows "current_ids k' = current_ids k"
proof -
  obtain q k1 where q: "register_from [0..<max_ptasks k] h (it b sz) p b sz k = Some (q, k1)"
    using s by (auto simp: spawn_def register_full_def bind_eq_Some_conv split: if_splits)
  then have "k' = k1 \<or> (\<exists>i. k' = upd_task i (\<lambda>t. t\<lparr>result_size := rs, result_drop := df\<rparr>) k1)"
    using s by (cases q) (auto simp: spawn_def register_full_def split: if_splits option.splits)
  then show ?thesis using register_from_currents [OF q] by auto
qed

section \<open>The first dispatch\<close>

lemma start_only_task:
  assumes g: "good k" and h: "h < max_harts k" and r: "task_ready k i"
    and only: "\<forall>j < max_ptasks k. used (tasks k ! j) \<longrightarrow> j = i"
  shows "\<exists>k'. start h now us k = Some (sp (tasks k ! i), k') \<and> current h k' = Some i \<and>
    used (tasks k' ! i) \<and> raw_state (tasks k' ! i) = RUNNING"
proof -
  have i: "i < max_ptasks k" "used (tasks k ! i)" using r by (auto simp: task_ready_def)
  have qo: "queue_ok k" using goodD(2) [OF g] .
  have "queued k i" using task_ready_queued [OF g r] .
  then obtain j where j: "fst (schedule k) = Some j" using schedule_ok_None [OF qo] by fastforce
  have "best_ready k j" using schedule_ok_Some [OF qo j] .
  then have "j < max_ptasks k" "queueable (tasks k ! j)" using best_readyD [OF qo] by blast+
  then have "j = i" using only by (simp add: queueable_def)
  then have sch: "schedule k = (Some i, k)" using schedule_eq [OF qo] j by simp
  let ?k2 = "set_current h i k"
  have p: "effective_priority (tasks k ! i) < 32" using good_wf(8) [OF g i(1)] by (simp add: wf_tcb_def)
  have gt: "get_task i ?k2 = Some (tasks k ! i)" using i by (simp add: get_task_def)
  obtain k3 where k3: "set_state h i Running ?k2 = Some k3"
    "tasks k3 = upd_at i (\<lambda>t. t\<lparr>raw_state := RUNNING\<rparr>) (tasks k)" "current_ids k3 = current_ids ?k2"
    using p i by (auto simp: set_state_def ready_remove_def Let_def nth_upd_at)
  have f: "first_dispatch h k = Some (Some i, on_dispatch i k3)"
    using sch gt k3(1) by (simp add: first_dispatch_def Let_def)
  let ?k4 = "on_first_dispatch now us (on_dispatch i k3)"
  have t4: "tasks ?k4 = tasks k3" "current_ids ?k4 = current_ids k3"
    by (simp_all add: on_first_dispatch_def)
  have "get_task i ?k4 = Some (tasks k3 ! i)" using i by (simp add: get_task_def t4 k3(2) nth_upd_at)
  then have "start h now us k = Some (sp (tasks k3 ! i), emit (Switch_to (stack_base (tasks k3 ! i))
      (stack_size (tasks k3 ! i))) ?k4)"
    using f by (simp add: start_def arch_dispatch_def)
  moreover have "sp (tasks k3 ! i) = sp (tasks k ! i)" using i by (simp add: k3(2) nth_upd_at)
  ultimately show ?thesis
    using i h by (simp add: current_def t4 k3(2,3) nth_upd_at)
qed

lemma kernel_init_spec:
  assumes c: "config_ok c" and fit: "\<forall>j < length regs. entry_fits ovf c regs j"
    and sz: "min_stack \<le> ASYNC_IDLE_STACK_SIZE"
  shows "\<exists>(m :: 'f machine) i. kernel_init ovf c regs min_stack init_stack idle board (machine_boot c n (length regs)) = Some m \<and>
    good (m_kernel m) \<and> exec_ok c regs (m_exec m) \<and> live_count (m_exec m) = length regs \<and>
    lg_ready (m_log m) \<and> task_ready (m_kernel m) i \<and> stack_base (tasks (m_kernel m) ! i) = idle \<and>
    max_harts (m_kernel m) = cfg_max_harts c \<and>
    (\<forall>j < max_ptasks (m_kernel m). used (tasks (m_kernel m) ! j) \<longrightarrow> j = i)"
proof -
  let ?b = "boot_kernel c n"
  have w: "wk_ok ?b" using timers_ok_boot [of c n] by (simp add: timers_ok_def)
  obtain e :: "nat executor" and k where e: "exec_init ovf c regs (exec_new c (length regs), ?b) = Some (e, k)"
    "exec_ok c regs e" "live_count e = length regs"
    using exec_init_spec [OF c w, of regs ovf, where 'f = nat] fit by auto
  have k: "good k" "tasks k = tasks ?b" "current_ids k = current_ids ?b"
    using exec_init_frame [OF e(1) good_boot [OF c]] by auto
  have np: "0 < cfg_max_ptasks c" using c by (simp add: config_ok_def)
  have len: "max_ptasks k = cfg_max_ptasks c" "\<forall>j < cfg_max_ptasks c. claimable (tasks k ! j) \<and> \<not> used (tasks k ! j)"
    using k(2) boot_claimable [of _ c n] by (auto simp: boot_kernel_def new_tcb_def)
  obtain r k1 where s: "spawn 0 min_stack init_stack idle ASYNC_IDLE_STACK_SIZE 0 0 0 k = Some (r, k1)"
    "spawn_ok k 0 idle ASYNC_IDLE_STACK_SIZE r k1"
    using spawn_spec [OF k(1) _ sz, of 0 0 init_stack idle 0 0] by auto
  obtain th where r: "r = Inr th" using s(2) len np by (cases r) (auto simp: spawn_ok_def)
  let ?i = "handle_id th"
  have h: "current_ids k1 = current_ids k" using s(1) by (rule spawn_currents)
  let ?m = "(machine_boot c n (length regs) :: 'f machine)\<lparr>m_kernel := k1, m_exec := e, m_log := log_init log_boot,
    m_console := fst (board (console_init console_boot, irq_boot c)),
    m_irqs := snd (board (console_init console_boot, irq_boot c))\<rparr>"
  have m: "kernel_init ovf c regs min_stack init_stack idle board (machine_boot c n (length regs)) = Some ?m"
    using e(1) s(1) by (simp add: kernel_init_def machine_boot_def Let_def split_beta)
  have only: "\<forall>j < max_ptasks k1. used (tasks k1 ! j) \<longrightarrow> j = ?i"
    using s(2) len by (auto simp: spawn_ok_def r)
  have sp: "good k1" "task_ready k1 ?i" "stack_base (tasks k1 ! ?i) = idle"
    using s(2) by (simp_all add: spawn_ok_def r)
  have hm: "max_harts k1 = cfg_max_harts c" using h k(3) by (simp add: boot_kernel_def)
  have lg: "lg_ready (log_init log_boot :: 'f log)"
    by (simp add: log_init_def log_boot_def split_channel_def new_channel_def)
  show ?thesis using m e(2,3) only sp hm lg by (intro exI [of _ ?m] exI [of _ ?i]) simp
qed

text \<open>After \<open>init\<close>, \<open>run\<close> dispatches the task that runs the executor.\<close>

lemma kernel_boots:
  assumes "config_ok c" and "\<forall>j < length regs. entry_fits ovf c regs j"
    and "min_stack \<le> ASYNC_IDLE_STACK_SIZE"
  shows "\<exists>(m :: 'f machine) s m' i. kernel_init ovf c regs min_stack init_stack idle board (machine_boot c n (length regs)) = Some m \<and>
    good (m_kernel m) \<and> live_count (m_exec m) = length regs \<and> lg_ready (m_log m) \<and> \<not> kernel_ready m \<and>
    kernel_run now us m = Some (s, m') \<and> kernel_ready m' \<and> current 0 (m_kernel m') = Some i \<and>
    stack_base (tasks (m_kernel m) ! i) = idle \<and> s = sp (tasks (m_kernel m) ! i)"
proof -
  obtain m :: "'f machine" and i where m: "kernel_init ovf c regs min_stack init_stack idle board (machine_boot c n (length regs)) = Some m"
    "good (m_kernel m)" "live_count (m_exec m) = length regs" "lg_ready (m_log m)"
    "task_ready (m_kernel m) i" "stack_base (tasks (m_kernel m) ! i) = idle"
    "max_harts (m_kernel m) = cfg_max_harts c"
    "\<forall>j < max_ptasks (m_kernel m). used (tasks (m_kernel m) ! j) \<longrightarrow> j = i"
    using kernel_init_spec [OF assms] by blast
  have "0 < max_harts (m_kernel m)" using m(7) assms(1) by (simp add: config_ok_def)
  then obtain k' where k': "start 0 now us (m_kernel m) = Some (sp (tasks (m_kernel m) ! i), k')"
    "current 0 k' = Some i"
    using start_only_task [OF m(2) _ m(5,8)] by blast
  have "\<not> kernel_ready m"
    using m(1) by (auto simp: kernel_init_def machine_boot_def Let_def bind_eq_Some_conv split: prod.splits)
  then show ?thesis
    using m k' by (intro exI [of _ m] exI [of _ "sp (tasks (m_kernel m) ! i)"]
        exI [of _ "m\<lparr>kernel_ready := True, m_kernel := k'\<rparr>"] exI [of _ i])
      (simp add: kernel_run_def Let_def)
qed

end
