(* ===== verification/Props_System.thy ===== *)
theory Props_System
  imports Props_Coop Sleep Watchdog Irq Report Kernel_Init
begin

text \<open>
  The properties of the boot sequence, the sleep future, the watchdogs, the interrupt table,
  the log and the trace, applied to the small systems of \<open>Demo\<close> and \<open>Props_Coop\<close>.
\<close>

section \<open>Boot\<close>

text \<open>
  C25: with tasks that fit the registry and a port that accepts a 4096 byte stack, \<open>init\<close>
  succeeds and \<open>run\<close> dispatches the task that polls the executor: the kernel is well formed,
  every cooperative task is live, logging works and the ready flag is raised.
\<close>
theorem kernel_boots_into_executor:
  assumes "config_ok c" and "\<forall>j < length regs. entry_fits ovf c regs j"
    and "min_stack \<le> ASYNC_IDLE_STACK_SIZE"
  shows "\<exists>(m :: 'f machine) s m' i.
    kernel_init ovf c regs min_stack init_stack idle board (machine_boot c n (length regs)) = Some m \<and>
    good (m_kernel m) \<and> live_count (m_exec m) = length regs \<and> lg_ready (m_log m) \<and> \<not> kernel_ready m \<and>
    kernel_run now us m = Some (s, m') \<and> kernel_ready m' \<and> current 0 (m_kernel m') = Some i \<and>
    stack_base (tasks (m_kernel m) ! i) = idle \<and> s = sp (tasks (m_kernel m) ! i)"
  using kernel_boots [OF assms] .

theorem kernel_boots_into_executor_witness:
  "\<exists>(m :: unit machine) s m'. kernel_init True demo_config demo_regs 256 (\<lambda>b s. b + s) 0x8000 id
      (machine_boot demo_config 1 (length demo_regs)) = Some m \<and> live_count (m_exec m) = 3 \<and>
    kernel_run 0 0 m = Some (s, m') \<and> kernel_ready m'"
proof -
  have "(256 :: usize) \<le> ASYNC_IDLE_STACK_SIZE" by (simp add: ASYNC_IDLE_STACK_SIZE_def)
  from kernel_boots_into_executor [OF demo_config_ok demo_regs_fit this, where 'f = unit,
      of "\<lambda>b s. b + s" "0x8000" id 1 0 0]
  show ?thesis by (auto simp: demo_regs_def)
qed

section \<open>Sleeping tasks of the executor\<close>

text \<open>
  C26: the first poll of a sleep enters one deadline in the timer table and waits. A later
  poll completes exactly when the duration has passed, and a timer poll at that time is what
  marks the task ready: it does so exactly when the sleep would complete. Dropping the sleep
  instead takes its deadline out and no other.
\<close>
theorem sleep_fires_on_time:
  assumes "good k" and "timers_ok k" and "coop_id t"
    and "slots_in_use (timer_slots k) \<noteq> length (timer_slots k)" and "length (timer_slots k) < 256"
    and "0 < us" and "unat now + unat us < 2 ^ 64"
  shows "\<exists>f ss. sleep_poll us now (Some t) (sleep_new, timer_slots k) = Some (Pending, f, ss) \<and>
    pending (sleep_drop (f, ss)) = pending (timer_slots k) \<and>
    (\<forall>later me h. let due = unat now + unat us \<le> unat later in
      (\<exists>f'. sleep_poll us later me (f, ss) = Some (if due then Done () else Pending, f', ss)) \<and>
      (\<exists>k'. poll_timers h later (k\<lparr>timer_slots := ss\<rparr>) = Some k' \<and>
        wk_ready k' = wk_ready k \<union>
          {tid_pair t' | i' d' t'. (i', d', t') \<in> pending (timer_slots k) \<and> d' \<le> later} \<union>
          (if due then {tid_pair t} else {})))"
proof -
  have u: "unat (now + us) = unat now + unat us" using assms(7) by (simp add: unat_word_ariths)
  have "0 < unat us" using assms(6) by (simp add: word_less_nat_alt)
  then have d: "max (now + us) 1 = now + us" "\<not> now + us \<le> now" "now + us \<noteq> 0"
    using u by (auto simp: max_def word_le_nat_alt word_unat_eq_iff)
  obtain f ss i where f: "sleep_poll us now (Some t) (sleep_new, timer_slots k) = Some (Pending, f, ss)"
    "sl_deadline f = now + us" "length ss = length (timer_slots k)"
    "pending ss = insert (i, now + us, t) (pending (timer_slots k))"
    "pending (sleep_drop (f, ss)) = pending (timer_slots k)"
    using sleep_first_poll [OF assms(4,5), of us now t] unfolding d(1) using d(2) by auto
  have "sleep_poll us later me (f, ss) = Some (if unat now + unat us \<le> unat later then Done () else Pending,
      if unat now + unat us \<le> unat later then f\<lparr>sl_slot := None\<rparr> else f, ss)" for later me
    using d(3) f(2) by (simp add: sleep_later_poll word_le_nat_alt u)
  moreover have "\<exists>k'. poll_timers h later (k\<lparr>timer_slots := ss\<rparr>) = Some k' \<and> wk_ready k' = wk_ready k \<union>
      {tid_pair t' | i' d' t'. (i', d', t') \<in> pending (timer_slots k) \<and> d' \<le> later} \<union>
      (if unat now + unat us \<le> unat later then {tid_pair t} else {})" for later h
    using sleep_timer_wakes [OF assms(1,2,3) f(4,3), of h later] by (simp add: word_le_nat_alt u)
  ultimately show ?thesis using f(1,5) by (intro exI [of _ f] exI [of _ ss]) (simp add: Let_def)
qed

theorem sleep_fires_on_time_witness:
  "\<exists>f ss k'. sleep_poll 500 1000 (Some (tid_new 3 1)) (sleep_new, timer_slots demo_boot) = Some (Pending, f, ss) \<and>
    poll_timers 0 1500 (demo_boot\<lparr>timer_slots := ss\<rparr>) = Some k' \<and> (3, 1) \<in> wk_ready k'"
proof -
  have r: "reachable demo_config 2 demo_boot" unfolding demo_boot_def by (rule reachable.boot)
  have c: "coop_id (tid_new 3 1)" "tid_pair (tid_new 3 1) = (3, 1)"
    by (simp_all add: coop_id_def tid_pair_def tid_priority_new tid_index_new)
  have s: "slots_in_use (timer_slots demo_boot) \<noteq> length (timer_slots demo_boot)"
    "length (timer_slots demo_boot) < 256" by code_simp+
  have "(0 :: u64) < 500" "unat (1000 :: u64) + unat (500 :: u64) < 2 ^ 64" by simp_all
  from sleep_fires_on_time [OF reach_good [OF r] reach_timers [OF r] c(1) s this]
  obtain f ss where f: "sleep_poll 500 1000 (Some (tid_new 3 1)) (sleep_new, timer_slots demo_boot) = Some (Pending, f, ss)"
    "\<forall>later me h. let due = unat (1000 :: u64) + unat (500 :: u64) \<le> unat later in
      (\<exists>f'. sleep_poll 500 later me (f, ss) = Some (if due then Done () else Pending, f', ss)) \<and>
      (\<exists>k'. poll_timers h later (demo_boot\<lparr>timer_slots := ss\<rparr>) = Some k' \<and>
        wk_ready k' = wk_ready demo_boot \<union>
          {tid_pair t' | i' d' t'. (i', d', t') \<in> pending (timer_slots demo_boot) \<and> d' \<le> later} \<union>
          (if due then {tid_pair (tid_new 3 1)} else {}))" by blast
  from spec [OF spec [OF spec [OF f(2), of 1500], of None], of 0] obtain k' where
    "poll_timers 0 1500 (demo_boot\<lparr>timer_slots := ss\<rparr>) = Some k'" "(3, 1) \<in> wk_ready k'"
    by (auto simp: Let_def c(2))
  then show ?thesis using f(1) by blast
qed

section \<open>Watchdogs\<close>

text \<open>
  The tick resets the system exactly when a software watchdog fed at \<open>fed\<close> has gone
  unfed for its period, or a task has been silent for longer than the check-in timeout. A
  task counts as silent from its last check-in, taken modulo \<open>2^32\<close> microseconds, and a
  check-in at a multiple of \<open>2^32\<close> counts as never having checked in.
\<close>
theorem tick_resets_the_silent:
  assumes "wf k" and "current h k = Some i" and "get_task i k \<noteq> None" and "timeout \<noteq> 0"
    and "unat fed + unat (wd_period_us w) < 2 ^ 64" and "t \<le> now" and "unat now - unat t < 2 ^ 32"
    and "\<forall>j < max_ptasks k. j \<noteq> i \<longrightarrow> last_checkin (tasks k ! j) = 0"
  shows "\<exists>r k'. watchdog_on_tick (wd_feed fed w) timeout now (checkin h timeout t k) = Some (r, k') \<and>
    (r \<longleftrightarrow> (wd_period_us w \<noteq> 0 \<and> unat fed + unat (wd_period_us w) \<le> unat now) \<or>
       (unat t mod 2 ^ 32 \<noteq> 0 \<and> unat timeout < unat now - unat t))"
proof -
  obtain tk where tk: "get_task i k = Some tk" using assms(3) by auto
  have i: "i < max_ptasks k" using tk by (simp add: get_task_Some_iff)
  let ?k = "checkin h timeout t k"
  have tasks: "tasks ?k = upd_at i (\<lambda>t'. t'\<lparr>last_checkin := ucast t\<rparr>) (tasks k)"
    using assms(2,4) tk by (simp add: checkin_def)
  have wf: "max_ptasks ?k \<le> 32" using assms(1) by (simp add: wf_def tasks)
  have e: "wd_expired now (wd_feed fed w) \<longleftrightarrow> wd_period_us w \<noteq> 0 \<and> unat fed + unat (wd_period_us w) \<le> unat now"
    using wd_fed_expires [of w fed now] assms(5)
    by (cases "wd_period_us w = 0") (simp_all add: wd_expired_def wd_feed_def)
  let ?f = "find (silent timeout (ucast now) ?k) [0..<max_ptasks ?k]"
  have c: "check_task_checkins timeout now ?k = Some (case ?f of
      Some j \<Rightarrow> (True, emits (checkin_text j) ?k) | None \<Rightarrow> (False, ?k))"
    using scan_checkins_spec [of "[0..<max_ptasks ?k]" timeout "ucast now" ?k] wf assms(4)
    by (auto simp: check_task_checkins_def split: option.splits)
  have "silent timeout (ucast now) ?k j \<longleftrightarrow> j = i \<and> unat t mod 2 ^ 32 \<noteq> 0 \<and> unat timeout < unat now - unat t"
    if "j < max_ptasks ?k" for j
    using checkin_then_silent [OF assms(2) tk assms(4,6,7)] that assms(8)
    by (cases "j = i") (auto simp: silent_def tasks nth_upd_at)
  then have "?f \<noteq> None \<longleftrightarrow> unat t mod 2 ^ 32 \<noteq> 0 \<and> unat timeout < unat now - unat t"
    using i by (auto simp: find_None_iff tasks)
  then show ?thesis
    using c by (auto simp: watchdog_on_tick_def wdt_check_def e split: option.splits)
qed

theorem tick_resets_the_silent_witness:
  "\<exists>r k'. watchdog_on_tick (wd_feed 0 \<lparr>wd_period_us = 0, wd_deadline_us = 0\<rparr>) 1000 6001
      (checkin 0 1000 5000 demo_run) = Some (r, k') \<and> r"
proof -
  have r: "reachable demo_config 2 demo_run" by (rule reach_run)
  have "wf demo_run" using goodD(1) [OF reach_good [OF r]] .
  moreover have "current 0 demo_run = Some 1" "get_task 1 demo_run \<noteq> None"
    "\<forall>j < max_ptasks demo_run. j \<noteq> 1 \<longrightarrow> last_checkin (tasks demo_run ! j) = 0"
  proof -
    show "current 0 demo_run = Some 1" "get_task 1 demo_run \<noteq> None" by code_simp+
    have m: "map last_checkin (tasks demo_run) = [0, 0, 0, 0]" by code_simp
    then have "last_checkin (tasks demo_run ! j) = [0, 0, 0, 0] ! j" if "j < max_ptasks demo_run" for j
      using that by (metis nth_map)
    then show "\<forall>j < max_ptasks demo_run. j \<noteq> 1 \<longrightarrow> last_checkin (tasks demo_run ! j) = 0"
      by (auto simp: demo_run_facts less_Suc_eq numeral_eq_Suc)
  qed
  moreover have "(1000 :: u32) \<noteq> 0" "unat (0 :: u64) + unat (wd_period_us \<lparr>wd_period_us = 0, wd_deadline_us = 0\<rparr>) < 2 ^ 64"
    "(5000 :: u64) \<le> 6001" "unat (6001 :: u64) - unat (5000 :: u64) < 2 ^ 32" by simp_all
  ultimately show ?thesis
    using tick_resets_the_silent [of demo_run 0 1 1000 0 "\<lparr>wd_period_us = 0, wd_deadline_us = 0\<rparr>" 5000 6001]
    by simp
qed

section \<open>Interrupts\<close>

text \<open>
  C27: after any history of registrations and removals, dispatching an interrupt runs the
  handler registered last and not removed since, and nothing when there is none or the number
  is out of range. With tracing the run is bracketed by an entry and an exit event, unless an
  untraced registration was made since the last removal.
\<close>
theorem dispatch_runs_last_handler:
  assumes "\<forall>q \<in> set ops. op_handler_ok q"
  shows "dispatch trace n (irq_run c ops) =
    (if unat n < cfg_max_irqs c
     then case last_handler ops n of
            None \<Rightarrow> []
          | Some f \<Rightarrow> if trace \<and> \<not> marked_untraced ops n then [Isr_enter n, Call f, Isr_exit n] else [Call f]
     else [])"
  using dispatch_spec [OF assms] .

theorem dispatch_runs_last_handler_witness:
  "dispatch True 5 (irq_run demo_config [Register 5 0x80, Unregister 5, Register_untraced 5 0x40]) =
    [Isr_enter 5, Call 0x80, Isr_exit 5]"
proof -
  have "\<forall>q \<in> set [Register 5 0x80, Unregister 5, Register_untraced 5 0x40]. op_handler_ok q" by simp
  from dispatch_runs_last_handler [OF this, of True 5 demo_config] show ?thesis
    by (simp add: demo_config_def)
qed

section \<open>The trace\<close>



section \<open>The log\<close>

text \<open>
  C29: in any run of log calls and drains after initialisation, every frame is kept in order or
  counted as dropped: the texts drained so far followed by those of the frames still in the
  ring are the texts of the frames it accepted, those are a subsequence of the frames pushed,
  and the drop counter has grown by the number of the others.
\<close>
theorem log_drops_are_counted:
  fixes ff :: "'f \<Rightarrow> string"
  assumes "wk_ok k" and "Log.log_run ff (log_init log_boot, k) acts fs outs s'"
  shows "\<exists>kept. subseq kept fs \<and>
    map Some outs @ map (write_frame ff) (chan_contents (lg_chan (fst s'))) = map (write_frame ff) kept \<and>
    length (chan_contents (lg_chan (fst s'))) \<le> 15 \<and>
    dropped_frames (fst s') = of_nat (length fs - length kept)"
proof -
  note init = log_ok_init [OF assms(1), where 'f = 'f]
  have e: "chan_contents (lg_chan (log_init log_boot :: 'f log)) = []" using init by simp
  obtain kept where k: "log_ok s'" "subseq kept fs"
    "map Some outs @ map (write_frame ff) (queued_frames s') = map (write_frame ff) kept"
    "lg_dropped (fst s') = of_nat (length fs - length kept)"
    using log_run_conserves [OF assms(2) conjunct1 [OF init]]
    unfolding fst_conv e conjunct2 [OF conjunct2 [OF init]] append_Nil add_0_left
    by (elim exE conjE)
  have "length (queued_frames s') < Suc 15"
    using k(1) chan_len_less [of "lg_chan (fst s')"] by (auto simp: log_ok_def link_ok_def room_def chan_contents_def)
  then show ?thesis using k(2-4) by (intro exI [of _ kept]) (simp add: dropped_frames_def)
qed

theorem log_drops_are_counted_witness:
  "\<exists>fs outs s' kept. Log.log_run (\<lambda>_ :: unit. []) (log_init log_boot, demo_boot)
      [Push 0 5 Info ''up {}'' (U32 7) NoArg, Drain 0] fs outs s' \<and> subseq kept fs \<and>
    map Some outs @ map (write_frame (\<lambda>_. [])) (chan_contents (lg_chan (fst s'))) = map (write_frame (\<lambda>_. [])) kept"
proof -
  have w: "wk_ok demo_boot" by (simp add: demo_boot_def wk_ok_boot)
  have "log_ok (log_init log_boot :: unit log, demo_boot)" using log_ok_init [OF w] by blast
  then obtain fs outs s' where r: "Log.log_run (\<lambda>_ :: unit. []) (log_init log_boot, demo_boot)
      [Push 0 5 Info ''up {}'' (U32 7) NoArg, Drain 0] fs outs s'"
    using log_run_total by blast
  from log_drops_are_counted [OF w r] r show ?thesis by blast
qed

text \<open>
  The loop that searches a message for its next placeholder is the one-pass substitution:
  each pair of braces is replaced by the next of the two arguments, and is left alone when
  that is absent or there are no more.
\<close>
theorem interpolation_substitutes:
  "write_interpolated ff msg args = substitute ff args msg"
  by (simp add: write_interpolated_def interpolate_substitute)

theorem interpolation_substitutes_witness:
  "write_interpolated (\<lambda>_ :: unit. []) ''a={} b={} c={}'' [U32 12, Str ''x''] = ''a=12 b=x c={}''"
  unfolding interpolation_substitutes by code_simp

end
