(* ===== verification/Pmp.thy ===== *)
theory Pmp
  imports Bytes Stack_Pool
begin

text \<open>
  The stack guards of the RISC-V port (\<open>rivet-arch-riscv/src/pmp.rs\<close>): the physical memory
  protection registers, the grain probe, the guard entries and the catch-all entry. The
  registers follow the privileged specification: the write to an address register or a
  configuration byte of a locked entry is ignored, and so is the write to the address register
  below a locked range entry. The value the probe reads back is an argument.
\<close>

section \<open>The registers\<close>

record pmp =
  pmpaddr :: "u32 list"
  pmpcfg :: "u8 list"
  grain :: u32

definition locked :: "pmp \<Rightarrow> nat \<Rightarrow> bool" where
  "locked p i \<longleftrightarrow> i < 16 \<and> bit (pmpcfg p ! i) 7"

text \<open>The address-matching mode, bits 3 and 4 of the configuration byte.\<close>

datatype amode = OFF | TOR | NA4 | NAPOT

definition mode :: "pmp \<Rightarrow> nat \<Rightarrow> amode" where
  "mode p i = [OFF, TOR, NA4, NAPOT] ! unat (take_bit 2 (drop_bit 3 (pmpcfg p ! i)))"

definition pmpaddr_write :: "nat \<Rightarrow> u32 \<Rightarrow> pmp \<Rightarrow> pmp" where
  "pmpaddr_write i v p =
    (if locked p i \<or> (locked p (Suc i) \<and> mode p (Suc i) = TOR) then p
     else p\<lparr>pmpaddr := (pmpaddr p)[i := v]\<rparr>)"

text \<open>Configuration register \<open>j\<close> packs the bytes of the entries \<open>4 j .. 4 j + 3\<close>.\<close>

definition pmpcfg_read :: "nat \<Rightarrow> pmp \<Rightarrow> u32" where
  "pmpcfg_read j p = of_le (take 4 (drop (4 * j) (pmpcfg p)))"

definition pmpcfg_write :: "nat \<Rightarrow> u32 \<Rightarrow> pmp \<Rightarrow> pmp" where
  "pmpcfg_write j v p = p\<lparr>pmpcfg := map (\<lambda>i. if i div 4 = j \<and> \<not> locked p i then to_le 4 v ! (i mod 4)
     else pmpcfg p ! i) [0..<16]\<rparr>"

section \<open>The driver\<close>

definition NAPOT_GUARD_CFG :: u8 where "NAPOT_GUARD_CFG = 0x98"
definition TOR_ALLOW_CFG :: u8 where "TOR_ALLOW_CFG = 0x8F"
definition DESIRED_GUARD_ONE_BITS :: nat where "DESIRED_GUARD_ONE_BITS = 3"

text \<open>At reset every entry is off, and the grain has not been probed.\<close>

definition pmp_boot :: pmp where
  "pmp_boot = \<lparr>pmpaddr = replicate 16 0, pmpcfg = replicate 16 0, grain = - 1\<rparr>"

definition trailing_ones :: "u32 \<Rightarrow> nat" where
  "trailing_ones w = trailing_zeros (NOT w)"

definition probe_grain :: "(u32 \<Rightarrow> u32) \<Rightarrow> pmp \<Rightarrow> u32 \<times> pmp" where
  "probe_grain readback p =
    (if grain p \<noteq> - 1 then (grain p, p)
     else let p1 = pmpaddr_write 0 0xFFFFFFFF p;
              ones = trailing_ones (readback (pmpaddr p1 ! 0));
              g = (if 32 \<le> ones then 0 else of_nat ones + 1);
              p2 = pmpaddr_write 0 0 p1
          in (g, p2\<lparr>grain := g\<rparr>))"

text \<open>
  The trailing one bits of a guard's address; both users panic before the probe has run, and
  a shift beyond the word panics.
\<close>

definition one_bits :: "u32 \<Rightarrow> nat" where
  "one_bits g = max DESIRED_GUARD_ONE_BITS (unat g - 1)"

definition probed_guard_size :: "pmp \<Rightarrow> usize option" where
  "probed_guard_size p =
    (if grain p = - 1 \<or> 32 \<le> one_bits (grain p) + 3 then None else Some (push_bit (one_bits (grain p) + 3) 1))"

definition pmpcfg_write_byte :: "nat \<Rightarrow> u8 \<Rightarrow> pmp \<Rightarrow> pmp" where
  "pmpcfg_write_byte i byte p =
    (let shift = (i mod 4) * 8;
         m = push_bit shift 0xFF :: u32;
         value = push_bit shift (ucast byte)
     in if i div 4 < 4 then pmpcfg_write (i div 4) ((pmpcfg_read (i div 4) p AND NOT m) OR value) p else p)"

definition register_guard :: "usize \<Rightarrow> nat \<Rightarrow> pmp \<Rightarrow> pmp option" where
  "register_guard guard_base entry p =
    (if grain p = - 1 then None
     else if 32 \<le> one_bits (grain p) then None
     else let a = drop_bit 2 guard_base OR (push_bit (one_bits (grain p)) 1 - 1)
          in if entry < 15
             then Some (pmpcfg_write_byte entry NAPOT_GUARD_CFG (pmpaddr_write entry a p))
             else Some p)"

definition init_catch_all :: "(u32 \<Rightarrow> u32) \<Rightarrow> pmp \<Rightarrow> pmp" where
  "init_catch_all readback p =
    pmpcfg_write_byte 15 TOR_ALLOW_CFG (pmpaddr_write 15 0xFFFFFFFF (snd (probe_grain readback p)))"

section \<open>Writing one configuration byte\<close>

lemma byte_of_word: "n < m \<Longrightarrow> to_le m (v :: 'a::len word) ! n = ucast (drop_bit (8 * n) v)"
  by (simp add: to_le_def)

lemma update_byte:
  assumes "length bs = 4" and "k < 4" and "n < 4"
  shows "to_le 4 ((of_le bs AND NOT (push_bit (k * 8) 0xFF)) OR push_bit (k * 8) (ucast (b :: u8)) :: u32) ! n =
    bs[k := b] ! n"
proof (rule bit_word_eqI)
  fix j assume j: "j < LENGTH(8)"
  have m: "(0xFF :: u32) = mask 8" by (simp add: mask_eq_exp_minus_1)
  have d: "(8 * n + j) div 8 = n" "(8 * n + j) mod 8 = j" "8 * n + j < 32" using j assms(3) by auto
  have k: "k * 8 \<le> 8 * n + j \<and> 8 * n + j - k * 8 < 8 \<longleftrightarrow> k = n" using j by auto
  show "bit (to_le 4 ((of_le bs AND NOT (push_bit (k * 8) 0xFF)) OR push_bit (k * 8) (ucast b) :: u32) ! n) j =
      bit (bs[k := b] ! n) j"
    using assms j d k
    by (cases "k = n") (auto simp: byte_of_word m bit_simps bit_of_le add.commute dest: bit_imp_le_length)
qed

lemma pmpcfg_write_byte_eq:
  assumes "length (pmpcfg p) = 16" and "i < 16" and "\<not> locked p i"
  shows "pmpcfg_write_byte i b p = p\<lparr>pmpcfg := (pmpcfg p)[i := b]\<rparr>"
proof -
  let ?bs = "take 4 (drop (4 * (i div 4)) (pmpcfg p))"
  let ?v = "(pmpcfg_read (i div 4) p AND NOT (push_bit (i mod 4 * 8) 0xFF)) OR push_bit (i mod 4 * 8) (ucast b)"
  have d: "i div 4 \<le> 3" using assms(2) by linarith
  have l: "length ?bs = 4" using d assms(1) by simp
  have bs: "?bs ! (j mod 4) = pmpcfg p ! j" if "j < 16" "j div 4 = i div 4" for j
  proof -
    have "4 * (i div 4) + j mod 4 = j" using mult_div_mod_eq [of 4 j] that(2) by simp
    then show ?thesis using d assms(1) by simp
  qed
  have n: "(if j div 4 = i div 4 \<and> \<not> locked p j then to_le 4 ?v ! (j mod 4) else pmpcfg p ! j) =
      (pmpcfg p)[i := b] ! j" if j: "j < 16" for j
  proof (cases "j div 4 = i div 4")
    case same: True
    have "to_le 4 ?v ! (j mod 4) = ?bs[i mod 4 := b] ! (j mod 4)"
      unfolding pmpcfg_read_def by (rule update_byte [OF l]) simp_all
    also have "\<dots> = (if i mod 4 = j mod 4 then b else pmpcfg p ! j)"
      using bs [OF j same] l by (simp add: nth_list_update)
    also have "i mod 4 = j mod 4 \<longleftrightarrow> i = j" using same by (metis mult_div_mod_eq)
    finally have t: "to_le 4 ?v ! (j mod 4) = (if i = j then b else pmpcfg p ! j)" .
    show ?thesis unfolding t using j assms same by (cases "i = j") simp_all
  next
    case False
    then show ?thesis by auto
  qed
  have "map (\<lambda>j. if j div 4 = i div 4 \<and> \<not> locked p j then to_le 4 ?v ! (j mod 4) else pmpcfg p ! j) [0..<16] =
      (pmpcfg p)[i := b]"
    by (rule nth_equalityI) (use assms(1) n in \<open>simp_all only: length_map length_upt length_list_update nth_map nth_upt, simp_all\<close>)
  moreover have "i div 4 < 4" using d by simp
  ultimately show ?thesis by (simp add: pmpcfg_write_byte_def pmpcfg_write_def Let_def)
qed

section \<open>What the registers deny\<close>

text \<open>
  The check of the specification, for one byte address and machine mode: the first matching
  entry decides, an unlocked entry does not bind machine mode, and no match allows. An address
  register holds address bits 2 and up; a naturally aligned region of \<open>2 ^ (k + 3)\<close> bytes has
  \<open>k\<close> trailing ones. \<open>G\<close> is the grain of the hardware, whose low address bits read as ones.
\<close>

definition napot_addr :: "nat \<Rightarrow> u32 \<Rightarrow> u32" where
  "napot_addr G w = w OR mask (G - 1)"

definition pmp_matches :: "nat \<Rightarrow> pmp \<Rightarrow> usize \<Rightarrow> nat \<Rightarrow> bool" where
  "pmp_matches G p a i =
    (if mode p i = TOR
     then (i = 0 \<or> unat (pmpaddr p ! (i - 1) AND NOT (mask G)) * 4 \<le> unat a) \<and>
       unat a < unat (pmpaddr p ! i AND NOT (mask G)) * 4
     else if mode p i = NA4 then unat a div 4 = unat (pmpaddr p ! i)
     else if mode p i = NAPOT
     then (let w = napot_addr G (pmpaddr p ! i); k = trailing_ones w
           in unat a div 2 ^ (k + 3) = unat w div 2 ^ (k + 1))
     else False)"

definition pmp_denies :: "nat \<Rightarrow> pmp \<Rightarrow> usize \<Rightarrow> bool" where
  "pmp_denies G p a =
    (case find (pmp_matches G p a) [0..<16] of
       None \<Rightarrow> False
     | Some i \<Rightarrow> locked p i \<and> take_bit 3 (pmpcfg p ! i) \<noteq> 7)"

text \<open>A guard entry denies exactly its aligned region, when the hardware grain is no wider.\<close>

lemma trailing_ones_eqI: "k < 32 \<Longrightarrow> \<not> bit w k \<Longrightarrow> (\<And>j. j < k \<Longrightarrow> bit w j) \<Longrightarrow> trailing_ones w = k"
  unfolding trailing_ones_def by (rule trailing_zeros_eqI) (auto simp: bit_not_iff)

definition guard_addr :: "nat \<Rightarrow> usize \<Rightarrow> u32" where
  "guard_addr k gb = drop_bit 2 gb OR mask k"

lemma napot_guard:
  assumes al: "unat gb mod 2 ^ (k + 3) = 0" and k: "k < 29" and G: "G - 1 \<le> k"
  shows "napot_addr G (guard_addr k gb) = guard_addr k gb" "trailing_ones (guard_addr k gb) = k"
    "unat (guard_addr k gb) div 2 ^ (k + 1) = unat gb div 2 ^ (k + 3)"
proof -
  have b: "bit (guard_addr k gb) i \<longleftrightarrow> i < k \<or> bit gb (i + 2)" for i
    using k by (auto simp: guard_addr_def bit_simps)
  show "napot_addr G (guard_addr k gb) = guard_addr k gb"
    unfolding napot_addr_def by (rule bit_word_eqI) (use G in \<open>auto simp: b bit_or_iff bit_mask_iff\<close>)
  show "trailing_ones (guard_addr k gb) = k"
    by (rule trailing_ones_eqI) (use k aligned_low_bits [OF al, of "k + 2"] in \<open>auto simp: b\<close>)
  have "drop_bit (k + 1) (guard_addr k gb) = drop_bit (k + 3) gb"
    by (rule bit_word_eqI) (auto simp: bit_drop_bit_eq b ac_simps numeral_eq_Suc)
  then show "unat (guard_addr k gb) div 2 ^ (k + 1) = unat gb div 2 ^ (k + 3)"
    by (metis unat_drop_bit)
qed

text \<open>
  The registers after the catch-all and the registration of guards at \<open>gs\<close>, in order. Entry 14
  takes its configuration byte but not its address: entry 15 is a locked range entry, so the
  address register below it is frozen at zero.
\<close>

definition guards_set :: "nat \<Rightarrow> usize list \<Rightarrow> pmp \<Rightarrow> bool" where
  "guards_set k gs p \<longleftrightarrow> length (pmpaddr p) = 16 \<and> length (pmpcfg p) = 16 \<and>
     grain p \<noteq> - 1 \<and> one_bits (grain p) = k \<and>
     pmpcfg p ! 15 = 0x8F \<and> pmpaddr p ! 15 = 0xFFFFFFFF \<and> pmpaddr p ! 14 = 0 \<and>
     (\<forall>i < 15. pmpcfg p ! i = (if i < length gs then 0x98 else 0)) \<and>
     (\<forall>i < 14. i < length gs \<longrightarrow> pmpaddr p ! i = guard_addr k (gs ! i))"

lemma cfg_facts:
  "pmpcfg p ! i = 0x98 \<Longrightarrow> i < 16 \<Longrightarrow> locked p i \<and> mode p i = NAPOT \<and> take_bit 3 (pmpcfg p ! i) \<noteq> 7"
  "pmpcfg p ! i = 0x8F \<Longrightarrow> i < 16 \<Longrightarrow> locked p i \<and> mode p i = TOR \<and> take_bit 3 (pmpcfg p ! i) = 7"
  "pmpcfg p ! i = 0 \<Longrightarrow> i < 16 \<Longrightarrow> \<not> locked p i \<and> mode p i = OFF"
proof -
  have w: "bit (0x98 :: u8) 7" "take_bit 2 (drop_bit 3 (0x98 :: u8)) = 3" "take_bit 3 (0x98 :: u8) = 0"
    "bit (0x8F :: u8) 7" "take_bit 2 (drop_bit 3 (0x8F :: u8)) = 1" "take_bit 3 (0x8F :: u8) = 7"
    by code_simp+
  show "pmpcfg p ! i = 0x98 \<Longrightarrow> i < 16 \<Longrightarrow> locked p i \<and> mode p i = NAPOT \<and> take_bit 3 (pmpcfg p ! i) \<noteq> 7"
    "pmpcfg p ! i = 0x8F \<Longrightarrow> i < 16 \<Longrightarrow> locked p i \<and> mode p i = TOR \<and> take_bit 3 (pmpcfg p ! i) = 7"
    "pmpcfg p ! i = 0 \<Longrightarrow> i < 16 \<Longrightarrow> \<not> locked p i \<and> mode p i = OFF"
    by (simp_all add: locked_def mode_def w)
qed

lemma guards_set_register:
  assumes gs: "guards_set k gs p" and k: "k < 29"
  shows "register_guard gb (length gs) p =
      Some (if length gs < 14 then p\<lparr>pmpaddr := (pmpaddr p)[length gs := guard_addr k gb],
                                   pmpcfg := (pmpcfg p)[length gs := 0x98]\<rparr>
            else if length gs = 14 then p\<lparr>pmpcfg := (pmpcfg p)[14 := 0x98]\<rparr> else p)"
    (is ?eq) and "\<exists>p'. register_guard gb (length gs) p = Some p' \<and> guards_set k (gs @ [gb]) p'" (is ?set)
proof -
  let ?n = "length gs"
  have g: "grain p \<noteq> - 1" "one_bits (grain p) = k" using gs by (simp_all add: guards_set_def)
  have m: "drop_bit 2 gb OR 2 ^ k - 1 = guard_addr k gb"
    by (simp add: guard_addr_def mask_eq_exp_minus_1)
  have c15: "locked p 15" "mode p 15 = TOR"
    using cfg_facts(2) [of p 15] gs by (simp_all add: guards_set_def)
  have off: "\<not> locked p i \<and> mode p i = OFF" if "i < 15" "?n \<le> i" for i
    using cfg_facts(3) [of p i] gs that by (simp add: guards_set_def)
  have w: "pmpcfg_write_byte ?n NAPOT_GUARD_CFG (p\<lparr>pmpaddr := as\<rparr>) = p\<lparr>pmpaddr := as, pmpcfg := (pmpcfg p)[?n := 0x98]\<rparr>"
    if "?n < 15" for as
    using pmpcfg_write_byte_eq [of "p\<lparr>pmpaddr := as\<rparr>" ?n] gs off [OF that] that
    by (simp add: guards_set_def locked_def NAPOT_GUARD_CFG_def)
  consider "?n < 14" | "?n = 14" | "15 \<le> ?n" by linarith
  then show e: ?eq
  proof cases
    case 1
    then have "pmpaddr_write ?n (guard_addr k gb) p = p\<lparr>pmpaddr := (pmpaddr p)[?n := guard_addr k gb]\<rparr>"
      using off [of ?n] off [of "Suc ?n"] by (simp add: pmpaddr_write_def)
    then show ?thesis using 1 w k by (simp add: register_guard_def g m)
  next
    case 2
    then have "pmpaddr_write ?n (guard_addr k gb) p = p" using c15 by (simp add: pmpaddr_write_def)
    then show ?thesis using 2 w [of "pmpaddr p"] k by (simp add: register_guard_def g m)
  qed (use k in \<open>simp add: register_guard_def g Let_def\<close>)
  show ?set
    unfolding e using gs by (auto simp: guards_set_def nth_append nth_list_update less_Suc_eq)
qed

lemma guards_set_init:
  "guards_set (one_bits (fst (probe_grain readback pmp_boot))) [] (init_catch_all readback pmp_boot)"
proof -
  have l: "\<not> locked pmp_boot i" for i by (simp add: locked_def pmp_boot_def)
  obtain g where g: "fst (probe_grain readback pmp_boot) = g" by blast
  have n: "g \<noteq> - 1"
  proof -
    have "unat (of_nat n :: u32) = n" if "n < 32" for n using that by (simp add: unat_of_nat take_bit_nat_eq_self)
    then have "unat (of_nat n + 1 :: u32) \<le> 32" if "n < 32" for n using that by (simp add: unat_word_ariths)
    then have "unat g \<le> 32" using g by (auto simp: probe_grain_def pmp_boot_def Let_def)
    moreover have "\<not> unat (- 1 :: u32) \<le> 32"
    proof -
      have e: "(- 1 :: u32) = 0xFFFFFFFF" by simp
      show ?thesis unfolding e by simp
    qed
    ultimately show ?thesis by blast
  qed
  have "(replicate 16 (0 :: u32))[0 := 0] = replicate 16 0" by (simp add: numeral_eq_Suc)
  then have "snd (probe_grain readback pmp_boot) = pmp_boot\<lparr>grain := g\<rparr>"
    using l g by (auto simp: probe_grain_def pmpaddr_write_def Let_def pmp_boot_def locked_def)
  then have i: "init_catch_all readback pmp_boot =
      pmp_boot\<lparr>grain := g, pmpaddr := (replicate 16 0)[15 := 0xFFFFFFFF], pmpcfg := (replicate 16 0)[15 := 0x8F]\<rparr>"
    using pmpcfg_write_byte_eq [of "pmp_boot\<lparr>grain := g, pmpaddr := (replicate 16 0)[15 := 0xFFFFFFFF]\<rparr>" 15]
    by (simp add: init_catch_all_def pmpaddr_write_def locked_def pmp_boot_def TOR_ALLOW_CFG_def)
  show ?thesis unfolding i g guards_set_def using n by (simp add: pmp_boot_def nth_list_update)
qed

text \<open>What such registers deny.\<close>

definition guard_covers :: "nat \<Rightarrow> usize list \<Rightarrow> usize \<Rightarrow> nat \<Rightarrow> bool" where
  "guard_covers k gs a i \<longleftrightarrow> i < length gs \<and> i < 14 \<and> unat (gs ! i) \<le> unat a \<and> unat a < unat (gs ! i) + 2 ^ (k + 3)"

lemma find_append: "find P (xs @ ys) = (case find P xs of None \<Rightarrow> find P ys | Some x \<Rightarrow> Some x)"
  by (induction xs) simp_all

lemma find_deny:
  assumes "\<forall>i < 15. P i \<longrightarrow> D i" and "P 15" and "\<not> D 15"
  shows "(case find P [0..<16] of None \<Rightarrow> False | Some i \<Rightarrow> D i) \<longleftrightarrow> (\<exists>i < 15. P i)"
proof -
  have s: "[0..<16] = [0..<15] @ [15 :: nat]" by (simp add: upt_rec)
  show ?thesis
  proof (cases "find P [0..<15]")
    case None
    then have "\<not> (\<exists>i < 15. P i)" by (simp add: find_None_iff)
    moreover have "find P [0..<16] = Some 15" using None assms(2) unfolding s find_append None by simp
    ultimately show ?thesis using assms(3) by simp
  next
    case (Some i)
    then have i: "i < 15" "P i" by (auto simp: find_Some_iff)
    have "find P [0..<16] = Some i" using Some unfolding s by (simp add: find_append)
    then show ?thesis using assms(1) i by auto
  qed
qed

lemma catch_all_matches:
  assumes gs: "guards_set k gs p" and k: "k < 29" and G: "G - 1 \<le> k" and tor: "mode p 15 = TOR"
  shows "pmp_matches G p a 15"
proof -
  have e: "(0xFFFFFFFF :: u32) = - 1" by simp
  have "bit (- 1 AND NOT (mask G) :: u32) 31" using G k by (simp add: bit_simps)
  then have "drop_bit 31 (- 1 AND NOT (mask G) :: u32) \<noteq> 0" by (auto simp: bit_iff_odd_drop_bit)
  then have "unat (- 1 AND NOT (mask G) :: u32) div 2 ^ 31 \<noteq> 0"
    unfolding unat_drop_bit [symmetric] by (simp add: unat_eq_0)
  then have "2 ^ 31 \<le> unat (- 1 AND NOT (mask G) :: u32)" by (simp add: div_eq_0_iff)
  then have "unat a < unat (- 1 AND NOT (mask G) :: u32) * 4" using unsigned_less [of a, where 'a = nat] by simp
  then show ?thesis using gs tor unfolding e [symmetric] by (simp add: pmp_matches_def guards_set_def)
qed

text \<open>The entry before the last has lost its address and covers the bottom of memory only.\<close>

lemma entry_14_matches_low:
  assumes "mode p 14 = NAPOT" "pmpaddr p ! 14 = 0" and k: "k < 29" and G: "G - 1 \<le> k" and low: "2 ^ (G + 3) \<le> unat a"
  shows "\<not> pmp_matches G p a 14"
proof -
  have "trailing_ones (napot_addr G 0) = G - 1"
    by (rule trailing_ones_eqI) (use G k in \<open>auto simp: napot_addr_def bit_mask_iff\<close>)
  moreover have "unat (napot_addr G 0) div 2 ^ (G - 1 + 1) = 0"
  proof -
    have "drop_bit (G - 1 + 1) (napot_addr G 0) = 0"
      by (rule bit_word_eqI) (auto simp: napot_addr_def bit_simps)
    then show ?thesis by (metis unat_drop_bit unsigned_0)
  qed
  moreover have "2 ^ (G - 1 + 3) \<le> unat a" using low by (rule order.trans [rotated]) (simp add: power_increasing)
  ultimately show ?thesis by (simp add: pmp_matches_def assms(1,2) Let_def div_eq_0_iff)
qed

lemma guards_deny:
  assumes gs: "guards_set k gs p" and al: "\<forall>g \<in> set gs. unat g mod 2 ^ (k + 3) = 0"
    and k: "k < 29" and G: "G - 1 \<le> k" and low: "2 ^ (G + 3) \<le> unat a"
  shows "pmp_denies G p a \<longleftrightarrow> (\<exists>i. guard_covers k gs a i)"
proof -
  have c15: "locked p 15" "mode p 15 = TOR" "take_bit 3 (pmpcfg p ! 15) = 7"
    using cfg_facts(2) [of p 15] gs by (simp_all add: guards_set_def)
  have m15: "pmp_matches G p a 15" by (rule catch_all_matches [OF gs k G c15(2)])
  have m: "pmp_matches G p a i \<longleftrightarrow> guard_covers k gs a i" if i: "i < 15" for i
  proof -
    consider "length gs \<le> i" | "i < length gs" "i < 14" | "i < length gs" "i = 14" using i by linarith
    then show ?thesis
    proof cases
      case 1
      then show ?thesis using cfg_facts(3) [of p i] gs i by (simp add: guards_set_def pmp_matches_def guard_covers_def)
    next
      case 2
      have a: "unat (gs ! i) mod 2 ^ (k + 3) = 0" using al 2 by simp
      have md: "mode p i = NAPOT" "pmpaddr p ! i = guard_addr k (gs ! i)"
        using cfg_facts(1) [of p i] gs i 2 by (simp_all add: guards_set_def)
      have "pmp_matches G p a i \<longleftrightarrow> unat a div 2 ^ (k + 3) = unat (gs ! i) div 2 ^ (k + 3)"
        using napot_guard [OF a k G] by (simp add: pmp_matches_def md Let_def)
      also have "\<dots> \<longleftrightarrow> unat (gs ! i) \<le> unat a \<and> unat a < unat (gs ! i) + 2 ^ (k + 3)"
        by (rule same_block) (use a in simp_all)
      finally show ?thesis using 2 by (simp add: guard_covers_def)
    next
      case 3
      have md: "mode p 14 = NAPOT" "pmpaddr p ! 14 = 0"
        using cfg_facts(1) [of p 14] gs 3 by (simp_all add: guards_set_def)
      have "\<not> pmp_matches G p a 14" by (rule entry_14_matches_low [OF md k G low])
      then show ?thesis using 3 by (simp add: guard_covers_def)
    qed
  qed
  have d: "locked p i \<and> take_bit 3 (pmpcfg p ! i) \<noteq> 7" if "i < 15" "pmp_matches G p a i" for i
    using that m [OF that(1)] cfg_facts(1) [of p i] gs by (simp add: guard_covers_def guards_set_def)
  have "pmp_denies G p a \<longleftrightarrow> (\<exists>i < 15. pmp_matches G p a i)"
    unfolding pmp_denies_def by (rule find_deny) (use d m15 c15 in auto)
  also have "\<dots> \<longleftrightarrow> (\<exists>i < 15. guard_covers k gs a i)" using m by blast
  also have "\<dots> \<longleftrightarrow> (\<exists>i. guard_covers k gs a i)"
  proof -
    have "guard_covers k gs a i \<Longrightarrow> i < 15" for i by (simp add: guard_covers_def)
    then show ?thesis by blast
  qed
  finally show ?thesis .
qed

section \<open>The stack pool with its guards\<close>

text \<open>
  \<open>alloc_stack\<close> asks the port for the guard size and registers the guard of every stack it
  carves; a stack that is handed out again keeps the guard it has.
\<close>

definition alloc_guarded :: "usize \<Rightarrow> usize \<Rightarrow> usize \<Rightarrow> pool \<times> pmp \<Rightarrow> (usize option \<times> pool \<times> pmp) option" where
  "alloc_guarded base len sz x = do {
     guard \<leftarrow> probed_guard_size (snd x);
     (case alloc_stack guard base len sz (fst x) of
        (None, s) \<Rightarrow> Some (None, s, snd x)
      | (Some (b, None), s) \<Rightarrow> Some (Some b, s, snd x)
      | (Some (b, Some (gb, e)), s) \<Rightarrow> do {
          p \<leftarrow> register_guard gb (unat e) (snd x);
          Some (Some b, s, p)
        })
   }"

inductive guard_reach :: "(u32 \<Rightarrow> u32) \<Rightarrow> usize \<Rightarrow> usize \<Rightarrow> pool \<Rightarrow> pmp \<Rightarrow> region list \<Rightarrow> bool"
  for readback base len where
  boot: "guard_reach readback base len pool_boot (init_catch_all readback pmp_boot) []"
| alloc: "guard_reach readback base len s p live \<Longrightarrow> probed_guard_size p = Some guard \<Longrightarrow>
    pool_args guard base len sz \<Longrightarrow> alloc_guarded base len sz (s, p) = Some (Some b, s', p') \<Longrightarrow>
    guard_reach readback base len s' p' ((b, sz) # live)"
| release: "guard_reach readback base len s p live \<Longrightarrow> (b, sz) \<in> set live \<Longrightarrow>
    guard_reach readback base len (release_stack base len b sz s) p (remove1 (b, sz) live)"

text \<open>
  The stacks carved so far, oldest first, each above its guard and above all earlier stacks.
\<close>

definition carved_ok :: "nat \<Rightarrow> usize \<Rightarrow> pool \<Rightarrow> region list \<Rightarrow> region list \<Rightarrow> bool" where
  "carved_ok gsz base s live cs \<longleftrightarrow> unat (alloc_count s) = length cs \<and> length cs \<le> unat (next_off s) \<and>
     (\<forall>r \<in> set cs. unat base + gsz \<le> unat (fst r) \<and> unat (fst r) mod gsz = 0 \<and>
        unat (fst r) + unat (snd r) \<le> pool_end base s) \<and>
     sorted_wrt (\<lambda>r q. unat (fst r) + unat (snd r) + gsz \<le> unat (fst q)) cs \<and>
     set (live @ free_regions base s) \<subseteq> set cs"

definition guards_of :: "nat \<Rightarrow> region list \<Rightarrow> usize list" where
  "guards_of gsz cs = map (\<lambda>r. fst r - of_nat gsz) cs"

definition guarded :: "usize \<Rightarrow> usize \<Rightarrow> pool \<Rightarrow> pmp \<Rightarrow> region list \<Rightarrow> region list \<Rightarrow> bool" where
  "guarded base len s p live cs \<longleftrightarrow> (let k = one_bits (grain p) in k < 29 \<and> pool_inv base len s live \<and>
     guards_set k (guards_of (2 ^ (k + 3)) cs) p \<and> carved_ok (2 ^ (k + 3)) base s live cs)"

lemma one_bits_probe: "one_bits (fst (probe_grain readback pmp_boot)) < 29 \<Longrightarrow>
    guarded base len pool_boot (init_catch_all readback pmp_boot) [] []"
  using guards_set_init [of readback] pool_inv_boot [of base len]
  by (auto simp: guarded_def Let_def guards_of_def carved_ok_def pool_boot_def free_regions_def guards_set_def)

lemma probed_guard_size_pow:
  assumes "guards_set k gs p" and "k < 29"
  shows "probed_guard_size p = Some (2 ^ (k + 3))" "unat (2 ^ (k + 3) :: usize) = 2 ^ (k + 3)"
  using assms unat_exp_u32 [of "k + 3"]
  by (simp_all add: guards_set_def probed_guard_size_def push_bit_eq_mult)

lemma carve_count: "carve guard base len sz s = (Some x, s') \<Longrightarrow> alloc_count s' = alloc_count s + 1"
  by (auto simp: carve_def Let_def split: if_splits)

lemma release_frame:
  assumes "pool_inv base len s live"
  shows "alloc_count (release_stack base len b sz s) = alloc_count s"
    "next_off (release_stack base len b sz s) = next_off s"
    "set (free_regions base (release_stack base len b sz s)) \<subseteq> insert (b, sz) (set (free_regions base s))"
  using assms free_regions_push [of s base "b - base" sz]
  by (auto simp: release_stack_def free_push_def Let_def pool_inv_def)

lemma carve_keeps_carved:
  assumes inv: "pool_inv base len s live" and args: "pool_args guard base len sz"
    and cs: "carved_ok (unat guard) base s live cs"
    and c: "carve guard base len sz s = (Some (b, Some (gb, e)), s')"
  shows "carved_ok (unat guard) base s' ((b, sz) # live) (cs @ [(b, sz)])" "gb = b - guard" "unat e = length cs"
proof -
  have nx: "unat (next_off s) \<le> unat len" using inv by (simp add: pool_inv_def)
  obtain n g where n: "n < 31" "sz = 2 ^ n" "g \<le> n" "guard = 2 ^ g" using args by (auto simp: pool_args_def)
  then have dv: "unat guard dvd unat sz" "0 < unat sz" by (simp_all add: unat_exp_u32 le_imp_power_dvd)
  have room: "unat base + unat len + 1 < 2 ^ 32" using args dv(2) unfolding pool_args_def by linarith
  obtain top where t: "pool_end base s + unat guard \<le> top" "unat sz dvd top" "unat b = top"
    "gb = b - guard" "e = alloc_count s" "top + unat sz \<le> unat base + unat len" "pool_end base s' = top + unat sz"
    "free_count s' = free_count s" "free_entries s' = free_entries s"
    using carve_spec [OF args nx] c by auto
  show "gb = b - guard" "unat e = length cs" using t(4,5) cs by (simp_all add: carved_ok_def)
  have fr: "free_regions base s' = free_regions base s" by (simp add: free_regions_def t)
  have al: "unat b mod unat guard = 0" using dvd_trans [OF dv(1) t(2)] t(3) by simp
  have end_s: "pool_end base s = unat base + unat (next_off s)" "pool_end base s' = unat base + unat (next_off s')"
    by (simp_all add: pool_end_def)
  have l: "length cs \<le> unat (next_off s)" "unat (alloc_count s) = length cs" using cs by (simp_all add: carved_ok_def)
  have "unat (alloc_count s') = Suc (length cs)"
    unfolding carve_count [OF c] using l nx room by (subst unat_add_small) simp_all
  moreover have "Suc (length cs) \<le> unat (next_off s')" using l end_s t dv(2) by linarith
  moreover have "\<forall>r \<in> set (cs @ [(b, sz)]). unat base + unat guard \<le> unat (fst r) \<and>
      unat (fst r) mod unat guard = 0 \<and> unat (fst r) + unat (snd r) \<le> pool_end base s'"
    using cs al t(1,3,7) end_s by (fastforce simp: carved_ok_def)
  moreover have "sorted_wrt (\<lambda>r q. unat (fst r) + unat (snd r) + unat guard \<le> unat (fst q)) (cs @ [(b, sz)])"
    using cs t(1,3) by (fastforce simp: carved_ok_def sorted_wrt_append)
  ultimately show "carved_ok (unat guard) base s' ((b, sz) # live) (cs @ [(b, sz)])"
    using cs by (auto simp: carved_ok_def fr)
qed

lemma guarded_alloc:
  assumes g: "guarded base len s p live cs" and pg: "probed_guard_size p = Some guard"
    and args: "pool_args guard base len sz" and al: "alloc_guarded base len sz (s, p) = Some (Some b, s', p')"
  shows "\<exists>cs'. guarded base len s' p' ((b, sz) # live) cs'"
proof -
  define k where "k = one_bits (grain p)"
  have k: "k < 29" "pool_inv base len s live" "guards_set k (guards_of (2 ^ (k + 3)) cs) p"
    "carved_ok (2 ^ (k + 3)) base s live cs" using g by (simp_all add: guarded_def k_def Let_def)
  have gd: "guard = 2 ^ (k + 3)" "unat guard = 2 ^ (k + 3)"
    using probed_guard_size_pow [OF k(3,1)] pg by simp_all
  from alloc_cases [OF k(2), of guard sz] show ?thesis
  proof (elim disjE exE conjE)
    assume c: "alloc_stack guard base len sz s = carve guard base len sz s"
    obtain gb e where r: "carve guard base len sz s = (Some (b, Some (gb, e)), s')"
      "register_guard gb (unat e) p = Some p'"
      using al by (auto simp: alloc_guarded_def pg c carve_def Let_def split: if_splits bind_splits option.splits prod.splits)
    note cc = carve_keeps_carved [OF k(2) args, unfolded gd(2), OF k(4) r(1)]
    have inv: "pool_inv base len s' ((b, sz) # live)"
      by (rule alloc_keeps [OF k(2) args]) (simp add: c r(1))
    have "length (guards_of (2 ^ (k + 3)) cs) = unat e" by (simp add: guards_of_def cc)
    then have gs: "guards_set k (guards_of (2 ^ (k + 3)) (cs @ [(b, sz)])) p'"
      using guards_set_register(2) [OF k(3,1), of gb] r(2) by (simp add: guards_of_def cc gd)
    then have "one_bits (grain p') = k" by (simp add: guards_set_def)
    then show ?thesis using inv gs cc(1) k(1) by (auto simp: guarded_def Let_def)
  next
    fix n off
    assume n: "free_count s = Suc n" "free_entries s ! n = (off, sz)"
      "alloc_stack guard base len sz s = (Some (base + off, None), s\<lparr>free_count := n\<rparr>)"
    have b: "b = base + off" "s' = s\<lparr>free_count := n\<rparr>" "p' = p"
      using al by (simp_all add: alloc_guarded_def pg n(3))
    have inv: "pool_inv base len s' ((b, sz) # live)" by (rule alloc_keeps [OF k(2) args]) (simp add: n(3) b)
    have fr: "free_regions base s = free_regions base s' @ [(b, sz)]"
      using free_regions_pop [of s n base] k(2) n b by (simp add: pool_inv_def)
    have "carved_ok (2 ^ (k + 3)) base s' ((b, sz) # live) cs"
      using k(4) by (auto simp: carved_ok_def fr b pool_end_def)
    then show ?thesis using inv k(1,3) b(3) by (auto simp: guarded_def Let_def k_def)
  qed
qed

lemma guarded_release:
  assumes g: "guarded base len s p live cs" and r: "(b, sz) \<in> set live" and ov: "unat base + unat len < 2 ^ 32"
  shows "guarded base len (release_stack base len b sz s) p (remove1 (b, sz) live) cs"
proof -
  let ?k = "one_bits (grain p)"
  have k: "pool_inv base len s live" "carved_ok (2 ^ (?k + 3)) base s live cs"
    using g by (simp_all add: guarded_def Let_def)
  note f = release_frame [OF k(1), of b sz]
  have "set (remove1 (b, sz) live @ free_regions base (release_stack base len b sz s)) \<subseteq>
      set (live @ free_regions base s)"
    using f(3) r set_remove1_subset [of "(b, sz)" live] by auto
  then have "carved_ok (2 ^ (?k + 3)) base (release_stack base len b sz s) (remove1 (b, sz) live) cs"
    using k(2) unfolding carved_ok_def pool_end_def f(1,2) by blast
  then show ?thesis
    using g release_keeps [OF pool_inv_to_front [OF k(1) r] ov] by (simp add: guarded_def Let_def)
qed

lemma guard_reach_guarded:
  assumes "guard_reach readback base len s p live" and ov: "unat base + unat len < 2 ^ 32"
    and "one_bits (fst (probe_grain readback pmp_boot)) < 29"
  shows "\<exists>cs. guarded base len s p live cs"
  using assms(1)
proof (induction rule: guard_reach.induct)
  case boot
  then show ?case using one_bits_probe [OF assms(3)] by blast
next
  case (alloc s p live guard sz b s' p')
  then show ?case using guarded_alloc by blast
next
  case (release s p live b sz)
  then show ?case using guarded_release [OF _ _ ov] by blast
qed

text \<open>
  The denied addresses from the pool on up are the guards of the first fourteen stacks carved:
  so stacks in use are accessible, and nothing guards a fifteenth.
\<close>

lemma guarded_denies:
  assumes g: "guarded base len s p live cs" and G: "G - 1 \<le> one_bits (grain p)"
    and low: "2 ^ (G + 3) \<le> unat base" and a: "unat base \<le> unat a"
  shows "pmp_denies G p a \<longleftrightarrow> (\<exists>i < length cs. i < 14 \<and>
    unat (fst (cs ! i)) \<le> unat a + 2 ^ (one_bits (grain p) + 3) \<and> unat a < unat (fst (cs ! i)))"
proof -
  define k where "k = one_bits (grain p)"
  define gsz :: nat where "gsz = 2 ^ (k + 3)"
  have k: "k < 29" "guards_set k (guards_of gsz cs) p" "carved_ok gsz base s live cs"
    using g by (simp_all add: guarded_def k_def gsz_def Let_def)
  have gz: "unat (of_nat gsz :: usize) = gsz" using unat_exp_u32 [of "k + 3"] k(1) by (simp add: gsz_def)
  have gi: "guards_of gsz cs ! i = fst (cs ! i) - of_nat gsz \<and> unat (fst (cs ! i) - of_nat gsz) = unat (fst (cs ! i)) - gsz \<and>
      gsz \<le> unat (fst (cs ! i)) \<and> unat (fst (cs ! i)) mod gsz = 0" if i: "i < length cs" for i
  proof -
    have c: "unat base + gsz \<le> unat (fst (cs ! i))" "unat (fst (cs ! i)) mod gsz = 0"
      using k(3) nth_mem [OF i] unfolding carved_ok_def by blast+
    then have "of_nat gsz \<le> fst (cs ! i)" unfolding word_le_nat_alt gz by linarith
    then show ?thesis using c i unat_sub [of "of_nat gsz" "fst (cs ! i)"] gz by (simp add: guards_of_def)
  qed
  have al: "\<forall>x \<in> set (guards_of gsz cs). unat x mod 2 ^ (k + 3) = 0"
  proof
    fix x assume "x \<in> set (guards_of gsz cs)"
    then obtain i where "i < length cs" "x = guards_of gsz cs ! i" by (auto simp: in_set_conv_nth guards_of_def)
    then have "unat x mod gsz = 0" using gi [of i] le_mod_geq [of gsz "unat (fst (cs ! i))"] by simp
    then show "unat x mod 2 ^ (k + 3) = 0" by (simp add: gsz_def)
  qed
  have "pmp_denies G p a \<longleftrightarrow> (\<exists>i. guard_covers k (guards_of gsz cs) a i)"
    by (rule guards_deny [OF k(2) al k(1)]) (use G low a in \<open>simp_all add: k_def\<close>)
  moreover have "guard_covers k (guards_of gsz cs) a i \<longleftrightarrow> i < length cs \<and> i < 14 \<and>
      unat (fst (cs ! i)) \<le> unat a + gsz \<and> unat a < unat (fst (cs ! i))" for i
    using gi [of i] by (auto simp: guard_covers_def guards_of_def gsz_def [symmetric])
  ultimately show ?thesis by (simp add: gsz_def k_def)
qed

lemma guarded_carved:
  assumes "guarded base len s p live cs"
  shows "i < j \<Longrightarrow> j < length cs \<Longrightarrow>
      unat (fst (cs ! i)) + unat (snd (cs ! i)) + 2 ^ (one_bits (grain p) + 3) \<le> unat (fst (cs ! j))"
    "i < length cs \<Longrightarrow> unat base + 2 ^ (one_bits (grain p) + 3) \<le> unat (fst (cs ! i))"
    "unat (alloc_count s) = length cs"
proof -
  have c: "carved_ok (2 ^ (one_bits (grain p) + 3)) base s live cs" using assms by (simp add: guarded_def Let_def)
  show "i < j \<Longrightarrow> j < length cs \<Longrightarrow>
      unat (fst (cs ! i)) + unat (snd (cs ! i)) + 2 ^ (one_bits (grain p) + 3) \<le> unat (fst (cs ! j))"
    using c unfolding carved_ok_def sorted_wrt_iff_nth_less by blast
  show "i < length cs \<Longrightarrow> unat base + 2 ^ (one_bits (grain p) + 3) \<le> unat (fst (cs ! i))"
    using c nth_mem [of i cs] unfolding carved_ok_def by blast
  show "unat (alloc_count s) = length cs" using c unfolding carved_ok_def by blast
qed

lemma guarded_live:
  assumes "guarded base len s p live cs" and "r \<in> set live"
  shows "\<exists>i < length cs. cs ! i = r"
proof -
  have "set live \<subseteq> set cs" using assms(1) by (simp add: guarded_def carved_ok_def Let_def)
  then have "r \<in> set cs" using assms(2) by (rule subsetD)
  then show ?thesis unfolding in_set_conv_nth by blast
qed

lemma guards_protect:
  assumes g: "guarded base len s p live cs" and G: "G - 1 \<le> one_bits (grain p)"
    and low: "2 ^ (G + 3) \<le> unat base" and b: "(b, sz) \<in> set live"
  shows "unat b \<le> unat a \<Longrightarrow> unat a < unat b + unat sz \<Longrightarrow> \<not> pmp_denies G p a"
    "unat (alloc_count s) \<le> 14 \<Longrightarrow> unat b \<le> unat a + 2 ^ (one_bits (grain p) + 3) \<Longrightarrow> unat a < unat b \<Longrightarrow>
      pmp_denies G p a"
proof -
  obtain j where j: "j < length cs" "cs ! j = (b, sz)" using guarded_live [OF g b] by blast
  note lo = guarded_carved(2) [OF g j(1), unfolded j(2) fst_conv]
  show "\<not> pmp_denies G p a" if a: "unat b \<le> unat a" "unat a < unat b + unat sz"
  proof -
    have "False" if i: "i < length cs" "unat (fst (cs ! i)) \<le> unat a + 2 ^ (one_bits (grain p) + 3)"
      "unat a < unat (fst (cs ! i))" for i
      using i a j guarded_carved(1) [OF g, of i j] guarded_carved(1) [OF g, of j i]
      by (cases i j rule: linorder_cases) auto
    then show ?thesis using guarded_denies [OF g G low] lo a by fastforce
  qed
  show "pmp_denies G p a" if "unat (alloc_count s) \<le> 14"
    "unat b \<le> unat a + 2 ^ (one_bits (grain p) + 3)" "unat a < unat b"
  proof -
    have "j < 14" using that j guarded_carved(3) [OF g] by simp
    moreover have "unat base \<le> unat a" using lo that by linarith
    ultimately show ?thesis using guarded_denies [OF g G low] j that by auto
  qed
qed

lemma later_guards_missing:
  assumes g: "guarded base len s p live cs" and G: "G - 1 \<le> one_bits (grain p)"
    and low: "2 ^ (G + 3) \<le> unat base" and i: "14 \<le> i" "i < length cs"
    and a: "unat (fst (cs ! i)) \<le> unat a + 2 ^ (one_bits (grain p) + 3)" "unat a < unat (fst (cs ! i))"
  shows "\<not> pmp_denies G p a"
proof -
  have "False" if "j < 14" "unat a < unat (fst (cs ! j))" for j
    using that i a guarded_carved(1) [OF g, of j i] by simp
  then show ?thesis using guarded_denies [OF g G low] guarded_carved(2) [OF g i(2)] a by fastforce
qed

section \<open>What the probe sees\<close>

text \<open>
  Entry 0 is off when it is probed, and in that mode the specification has the low address bits
  below the grain read as zeros: the trailing ones the code counts are 32 or none, never the grain.
\<close>

lemma probe_is_blind:
  assumes "G < 32"
  shows "fst (probe_grain (\<lambda>w. w AND NOT (mask G)) pmp_boot) = (if G = 0 then 0 else 1)"
    "probed_guard_size (init_catch_all (\<lambda>w. w AND NOT (mask G)) pmp_boot) = Some 64"
proof -
  let ?w = "0xFFFFFFFF AND NOT (mask G) :: u32"
  have e: "(0xFFFFFFFF :: u32) = - 1" by simp
  have "trailing_ones ?w = (if G = 0 then 32 else 0)"
  proof (cases "G = 0")
    case True
    then show ?thesis unfolding e by (simp add: trailing_ones_def trailing_zeros_def takeWhile_eq_all_conv [THEN iffD2])
  next
    case False
    then show ?thesis unfolding e by (simp add: bit_simps trailing_ones_eqI [of 0])
  qed
  then show p: "fst (probe_grain (\<lambda>w. w AND NOT (mask G)) pmp_boot) = (if G = 0 then 0 else 1)"
    by (simp add: probe_grain_def pmpaddr_write_def pmp_boot_def locked_def Let_def)
  have "one_bits (if G = 0 then 0 else 1) = 3" by (simp add: one_bits_def DESIRED_GUARD_ONE_BITS_def)
  then show "probed_guard_size (init_catch_all (\<lambda>w. w AND NOT (mask G)) pmp_boot) = Some 64"
    using probed_guard_size_pow(1) [OF guards_set_init [of "\<lambda>w. w AND NOT (mask G)"]] by (simp add: p)
qed

end
