(* ===== verification/Riscv_Context.thy ===== *)
theory Riscv_Context
  imports Stack_Pool
begin

text \<open>
  Saving and restoring a task on RV32 (the assembly and \<open>init_task_stack\<close> of
  \<open>rivet-arch-riscv/src/lib.rs\<close>). Instructions act on the registers \<open>x0 .. x31\<close>, a memory of
  words and the four control registers the code uses; a code fragment is the list of its
  instructions.
\<close>

section \<open>The machine\<close>

record rv32 =
  gpr :: "nat \<Rightarrow> u32"
  ram :: "u32 \<Rightarrow> u32"
  mepc :: u32
  mscratch :: u32
  mstatus :: u32
  mhartid :: u32

datatype instr = Addi nat nat u32 | Sw nat u32 | Lw nat u32 | Mv nat nat | Li nat u32 | Slli nat nat nat
  | Sub nat nat nat | Csrr_mepc nat | Csrw_mepc nat | Csrr_mhartid nat | Csrw_mscratch nat
  | Csrrw_mscratch nat nat | Csrs_mstatus nat

abbreviation (input) RA :: nat where "RA \<equiv> 1"
abbreviation (input) SP :: nat where "SP \<equiv> 2"
abbreviation (input) T0 :: nat where "T0 \<equiv> 5"
abbreviation (input) T1 :: nat where "T1 \<equiv> 6"
abbreviation (input) S0 :: nat where "S0 \<equiv> 8"
abbreviation (input) S1 :: nat where "S1 \<equiv> 9"
abbreviation (input) A0 :: nat where "A0 \<equiv> 10"

text \<open>\<open>Sw r off\<close> and \<open>Lw r off\<close> are relative to \<open>sp\<close>, as all of the code's are.\<close>

fun rv_step :: "instr \<Rightarrow> rv32 \<Rightarrow> rv32" where
  "rv_step (Addi d r v) s = s\<lparr>gpr := (gpr s)(d := gpr s r + v)\<rparr>"
| "rv_step (Sw r off) s = s\<lparr>ram := (ram s)(gpr s SP + off := gpr s r)\<rparr>"
| "rv_step (Lw d off) s = s\<lparr>gpr := (gpr s)(d := ram s (gpr s SP + off))\<rparr>"
| "rv_step (Mv d r) s = s\<lparr>gpr := (gpr s)(d := gpr s r)\<rparr>"
| "rv_step (Li d v) s = s\<lparr>gpr := (gpr s)(d := v)\<rparr>"
| "rv_step (Slli d r n) s = s\<lparr>gpr := (gpr s)(d := push_bit n (gpr s r))\<rparr>"
| "rv_step (Sub d r q) s = s\<lparr>gpr := (gpr s)(d := gpr s r - gpr s q)\<rparr>"
| "rv_step (Csrr_mepc d) s = s\<lparr>gpr := (gpr s)(d := mepc s)\<rparr>"
| "rv_step (Csrw_mepc r) s = s\<lparr>mepc := gpr s r\<rparr>"
| "rv_step (Csrr_mhartid d) s = s\<lparr>gpr := (gpr s)(d := mhartid s)\<rparr>"
| "rv_step (Csrw_mscratch r) s = s\<lparr>mscratch := gpr s r\<rparr>"
| "rv_step (Csrrw_mscratch d r) s = s\<lparr>gpr := (gpr s)(d := mscratch s), mscratch := gpr s r\<rparr>"
| "rv_step (Csrs_mstatus r) s = s\<lparr>mstatus := mstatus s OR gpr s r\<rparr>"

definition rv_exec :: "instr list \<Rightarrow> rv32 \<Rightarrow> rv32" where
  "rv_exec code s = foldl (\<lambda>s i. rv_step i s) s code"

section \<open>The code\<close>

text \<open>
  The slots of the 128 byte frame: \<open>ra\<close>, \<open>t0\<close> to \<open>t2\<close>, \<open>s0\<close>, \<open>s1\<close>, \<open>a0\<close> to \<open>a7\<close>, \<open>s2\<close> to \<open>s11\<close>,
  \<open>t3\<close> to \<open>t6\<close>, in the order of the stores; the program counter follows at 112.
\<close>

definition frame_slots :: "(nat \<times> u32) list" where
  "frame_slots = [(1, 0), (5, 4), (6, 8), (7, 12), (8, 16), (9, 20), (10, 24), (11, 28), (12, 32), (13, 36),
     (14, 40), (15, 44), (16, 48), (17, 52), (18, 56), (19, 60), (20, 64), (21, 68), (22, 72), (23, 76),
     (24, 80), (25, 84), (26, 88), (27, 92), (28, 96), (29, 100), (30, 104), (31, 108)]"

definition trap_entry :: "instr list" where
  "trap_entry = [Addi SP SP (- 128)] @ map (\<lambda>(r, off). Sw r off) frame_slots @
     [Csrr_mepc T0, Sw T0 112, Mv A0 SP, Csrrw_mscratch SP SP]"

text \<open>After the handler, which returns the frame to resume in \<open>a0\<close>.\<close>

definition trap_return :: "u32 \<Rightarrow> instr list" where
  "trap_return isr_stack_top = [Csrr_mhartid T1, Slli T1 T1 11, Li T0 isr_stack_top, Sub T1 T0 T1,
     Csrw_mscratch T1, Mv SP A0]"

definition trap_resume :: "instr list" where
  "trap_resume = [Lw T0 112, Csrw_mepc T0, Li T0 0x1880, Csrs_mstatus T0] @
     map (\<lambda>(r, off). Lw r off) frame_slots @ [Addi SP SP 128]"

definition ISR_STACK_PER_HART :: usize where "ISR_STACK_PER_HART = 2048"

definition isr_stack_top_for :: "u32 \<Rightarrow> u32 \<Rightarrow> u32" where
  "isr_stack_top_for isr_stack_top hart = isr_stack_top - hart * ISR_STACK_PER_HART"

definition MIN_TASK_STACK :: usize where "MIN_TASK_STACK = 128 + 128"

definition frame_start :: "usize \<Rightarrow> usize \<Rightarrow> usize" where
  "frame_start stack_ptr stack_len = (stack_ptr + stack_len - 32 * 4) AND NOT (16 - 1)"

definition init_task_stack :: "usize \<Rightarrow> usize \<Rightarrow> usize \<Rightarrow> usize \<Rightarrow> usize \<Rightarrow> (u32 \<Rightarrow> u32) \<Rightarrow> usize \<times> (u32 \<Rightarrow> u32)" where
  "init_task_stack trampoline stack_ptr stack_len entry_fn arg m =
    (let f = frame_start stack_ptr stack_len;
         m1 = foldl (\<lambda>m i. m(f + 4 * of_nat i := 0)) m [0..<32]
     in (f, m1(f + 16 := arg, f + 20 := entry_fn, f + 112 := trampoline)))"

text \<open>The trampoline before its call of \<open>s1\<close>.\<close>

definition ptask_trampoline :: "instr list" where
  "ptask_trampoline = [Mv A0 S0]"

text \<open>
  Masking interrupts: only the enable bit of \<open>mstatus\<close> is saved and restored. \<open>arch_init\<close> starts
  a hart with interrupts masked and its own ISR stack.
\<close>

definition MIE :: u32 where "MIE = 8"

definition irq_save :: "rv32 \<Rightarrow> usize \<times> rv32" where
  "irq_save s = (if mstatus s AND MIE \<noteq> 0 then 1 else 0, s\<lparr>mstatus := mstatus s AND NOT MIE\<rparr>)"

definition irq_restore :: "usize \<Rightarrow> rv32 \<Rightarrow> rv32" where
  "irq_restore token s = (if token \<noteq> 0 then s\<lparr>mstatus := mstatus s OR MIE\<rparr> else s)"

definition arch_init :: "u32 \<Rightarrow> rv32 \<Rightarrow> rv32" where
  "arch_init isr_stack_top s = s\<lparr>mstatus := mstatus s AND NOT MIE,
     mscratch := isr_stack_top_for isr_stack_top (mhartid s)\<rparr>"

section \<open>Running straight-line code\<close>

lemma exec_Nil [simp]: "rv_exec [] s = s"
  by (simp add: rv_exec_def)

lemma exec_Cons [simp]: "rv_exec (i # code) s = rv_exec code (rv_step i s)"
  by (simp add: rv_exec_def)

lemma exec_append [simp]: "rv_exec (c @ d) s = rv_exec d (rv_exec c s)"
  by (simp add: rv_exec_def)

definition slots_ok :: "(nat \<times> u32) list \<Rightarrow> bool" where
  "slots_ok sl \<longleftrightarrow> distinct (map fst sl) \<and> distinct (map snd sl) \<and> (\<forall>x \<in> set sl. fst x \<noteq> SP \<and> snd x \<noteq> 112)"

lemma frame_slots_ok: "slots_ok frame_slots"
  by (simp add: slots_ok_def frame_slots_def)

text \<open>Storing a list of slots changes their words only.\<close>

lemma exec_stores:
  assumes "slots_ok sl"
  shows "rv_exec (map (\<lambda>(r, off). Sw r off) sl) s = s\<lparr>ram := \<lambda>a. case map_of (map (\<lambda>(r, off). (gpr s SP + off, gpr s r)) sl) a of
    None \<Rightarrow> ram s a | Some v \<Rightarrow> v\<rparr>"
  using assms
proof (induction sl arbitrary: s)
  case (Cons x sl)
  obtain r off where x: "x = (r, off)" by fastforce
  have "slots_ok sl" and off: "off \<notin> snd ` set sl" using Cons.prems by (auto simp: slots_ok_def x)
  note ih = Cons.IH [OF this(1), of "rv_step (Sw r off) s"]
  have n: "map_of (map (\<lambda>(r, off). (gpr s SP + off, gpr s r)) sl) (gpr s SP + off) = None"
    using off by (force simp: map_of_eq_None_iff)
  show ?case using ih n by (simp add: x fun_eq_iff split: option.splits)
qed simp

lemma exec_loads:
  assumes "slots_ok sl"
  shows "rv_exec (map (\<lambda>(r, off). Lw r off) sl) s = s\<lparr>gpr := \<lambda>q. case map_of sl q of
    None \<Rightarrow> gpr s q | Some off \<Rightarrow> ram s (gpr s SP + off)\<rparr>"
  using assms
proof (induction sl arbitrary: s)
  case (Cons x sl)
  obtain r off where x: "x = (r, off)" by fastforce
  have ok: "slots_ok sl" and r: "r \<notin> fst ` set sl" "r \<noteq> SP" using Cons.prems by (auto simp: slots_ok_def x)
  have n: "map_of sl r = None" using r by (simp add: map_of_eq_None_iff)
  show ?case using Cons.IH [OF ok, of "rv_step (Lw r off) s"] n r(2) by (simp add: x fun_eq_iff split: option.splits)
qed simp

section \<open>A frame holds a context\<close>

definition frame_holds :: "u32 \<Rightarrow> (nat \<Rightarrow> u32) \<Rightarrow> u32 \<Rightarrow> (u32 \<Rightarrow> u32) \<Rightarrow> bool" where
  "frame_holds f r pc m \<longleftrightarrow> (\<forall>(q, off) \<in> set frame_slots. m (f + off) = r q) \<and> m (f + 112) = pc"

definition in_frame :: "u32 \<Rightarrow> u32 \<Rightarrow> bool" where
  "in_frame f a \<longleftrightarrow> (\<exists>i < 32. a = f + 4 * of_nat i)"

lemma slot_in_frame: "(q, off) \<in> set frame_slots \<Longrightarrow> in_frame f (f + off)" "in_frame f (f + 112)"
proof -
  have l: "map snd frame_slots = map (\<lambda>i. 4 * of_nat i) [0..<28]" by (simp add: frame_slots_def upt_rec)
  have "\<exists>i < 32. snd x = 4 * of_nat i" if "x \<in> set frame_slots" for x
  proof -
    have "snd x \<in> set (map (\<lambda>i. 4 * of_nat i) [0..<28])" unfolding l [symmetric] using that by simp
    then obtain i where "i < 28" "snd x = 4 * of_nat i" by auto
    then show ?thesis by (intro exI [of _ i]) simp
  qed
  then show "(q, off) \<in> set frame_slots \<Longrightarrow> in_frame f (f + off)" by (force simp: in_frame_def)
  show "in_frame f (f + 112)" by (auto simp: in_frame_def intro!: exI [of _ 28])
qed

lemma frame_holds_cong:
  "frame_holds f r pc m \<Longrightarrow> (\<And>a. in_frame f a \<Longrightarrow> m' a = m a) \<Longrightarrow> frame_holds f r pc m'"
  by (auto simp: frame_holds_def slot_in_frame)

lemma map_of_shift:
  "distinct (map snd sl) \<Longrightarrow> (q, off) \<in> set sl \<Longrightarrow> map_of (map (\<lambda>(r, off). (f + off, g r)) sl) (f + off) = Some (g q)"
  for f :: u32
proof -
  assume d: "distinct (map snd sl)" and m: "(q, off) \<in> set sl"
  have "distinct (map fst (map (\<lambda>(r, off). (f + off, g r)) sl))"
    using d by (induction sl) force+
  moreover have "(f + off, g q) \<in> set (map (\<lambda>(r, off). (f + off, g r)) sl)" using m by force
  ultimately show ?thesis by (rule map_of_is_SomeI)
qed

text \<open>The entry saves the interrupted context below the task's stack pointer.\<close>

lemma trap_entry_state:
  fixes s :: rv32
  defines "f \<equiv> gpr s 2 - 128"
  shows "frame_holds f (gpr s) (mepc s) (ram (rv_exec trap_entry s))"
    "\<not> in_frame f a \<Longrightarrow> ram (rv_exec trap_entry s) a = ram s a"
    "gpr (rv_exec trap_entry s) 10 = f" "gpr (rv_exec trap_entry s) 2 = mscratch s"
    "mscratch (rv_exec trap_entry s) = f" "mhartid (rv_exec trap_entry s) = mhartid s"
proof -
  define g where "g = (gpr s)(2 := gpr s 2 - 128)"
  have g: "g 2 = f" "q \<noteq> 2 \<Longrightarrow> g q = gpr s q" for q by (simp_all add: g_def f_def)
  have e: "rv_exec trap_entry s = s\<lparr>gpr := g(5 := mepc s, 10 := f, 2 := mscratch s), mscratch := f,
      ram := (\<lambda>a. case map_of (map (\<lambda>(r, off). (f + off, g r)) frame_slots) a of
        None \<Rightarrow> ram s a | Some v \<Rightarrow> v)(f + 112 := mepc s)\<rparr>"
  proof -
    have a: "rv_exec [Addi 2 2 (- 128)] s = s\<lparr>gpr := g\<rparr>" by (simp add: g_def)
    show ?thesis unfolding trap_entry_def exec_append a exec_stores [OF frame_slots_ok] by (simp add: g fun_upd_twist cong: option.case_cong)
  qed
  have sl: "x \<in> set frame_slots \<Longrightarrow> fst x \<noteq> 2 \<and> snd x \<noteq> 112" for x
    using frame_slots_ok by (auto simp: slots_ok_def)
  have d: "distinct (map snd frame_slots)" using frame_slots_ok by (simp add: slots_ok_def)
  show "frame_holds f (gpr s) (mepc s) (ram (rv_exec trap_entry s))"
    unfolding frame_holds_def e using map_of_shift [OF d, of _ _ f g] sl by (fastforce simp: g)
  show "ram (rv_exec trap_entry s) a = ram s a" if a: "\<not> in_frame f a"
  proof -
    have "map_of (map (\<lambda>(r, off). (f + off, g r)) frame_slots) a = None"
      using a slot_in_frame(1) by (force simp: map_of_eq_None_iff)
    then show ?thesis using a slot_in_frame(2) [of f] by (auto simp: e)
  qed
  show "gpr (rv_exec trap_entry s) 10 = f" "gpr (rv_exec trap_entry s) 2 = mscratch s"
    "mscratch (rv_exec trap_entry s) = f" "mhartid (rv_exec trap_entry s) = mhartid s"
    by (simp_all add: e)
qed

text \<open>The return selects the frame and the ISR stack of the hart; the resume loads the context.\<close>

lemma trap_return_state:
  "rv_exec (trap_return isr_top) s = s\<lparr>gpr := (gpr s)(5 := isr_top, 6 := isr_stack_top_for isr_top (mhartid s), 2 := gpr s 10),
     mscratch := isr_stack_top_for isr_top (mhartid s)\<rparr>"
  by (simp add: trap_return_def isr_stack_top_for_def ISR_STACK_PER_HART_def push_bit_eq_mult fun_upd_twist)

definition saved_regs :: "nat set" where
  "saved_regs = insert 1 ({5..<32})"

lemma frame_slots_regs: "fst ` set frame_slots = saved_regs"
proof -
  have "map fst frame_slots = 1 # [5..<32]" by (simp add: frame_slots_def upt_rec)
  then have "set (map fst frame_slots) = set (1 # [5..<32])" by (rule arg_cong)
  then show ?thesis by (simp only: set_map list.set set_upt saved_regs_def)
qed

lemma trap_resume_state:
  assumes h: "frame_holds f r pc (ram s)" and f: "gpr s 2 = f"
  shows "q \<in> saved_regs \<Longrightarrow> gpr (rv_exec trap_resume s) q = r q" "gpr (rv_exec trap_resume s) 2 = f + 128"
    "q \<notin> insert 2 saved_regs \<Longrightarrow> gpr (rv_exec trap_resume s) q = gpr s q"
    "mepc (rv_exec trap_resume s) = pc" "mscratch (rv_exec trap_resume s) = mscratch s"
    "ram (rv_exec trap_resume s) = ram s" "mstatus (rv_exec trap_resume s) = mstatus s OR 0x1880"
proof -
  define g where "g = (gpr s)(5 := 0x1880)"
  have g: "g 2 = f" "q \<noteq> 5 \<Longrightarrow> g q = gpr s q" for q by (simp_all add: g_def f)
  have a: "rv_exec [Lw 5 112, Csrw_mepc 5, Li 5 0x1880, Csrs_mstatus 5] s =
      s\<lparr>gpr := g, mepc := pc, mstatus := mstatus s OR 0x1880\<rparr>"
    using h by (simp add: g_def f frame_holds_def)
  have e: "rv_exec trap_resume s = s\<lparr>gpr := (\<lambda>q. case map_of frame_slots q of None \<Rightarrow> g q | Some off \<Rightarrow> ram s (f + off))
      (2 := f + 128), mepc := pc, mstatus := mstatus s OR 0x1880\<rparr>"
  proof -
    have "map_of frame_slots 2 = None" by (simp add: frame_slots_def)
    then show ?thesis unfolding trap_resume_def exec_append a exec_loads [OF frame_slots_ok]
      by (simp add: g cong: option.case_cong)
  qed
  show "gpr (rv_exec trap_resume s) q = r q" if q: "q \<in> saved_regs"
  proof -
    obtain off where m: "(q, off) \<in> set frame_slots" using q by (force simp: frame_slots_regs [symmetric])
    have "map_of frame_slots q = Some off"
      using m frame_slots_ok by (simp add: slots_ok_def map_of_is_SomeI)
    moreover have "q \<noteq> 2" using q by (auto simp: saved_regs_def)
    ultimately show ?thesis using h m by (auto simp: e frame_holds_def)
  qed
  show "gpr (rv_exec trap_resume s) q = gpr s q" if q: "q \<notin> insert 2 saved_regs"
  proof -
    have "map_of frame_slots q = None" using q by (simp add: map_of_eq_None_iff frame_slots_regs)
    moreover have "q \<noteq> 5" using q by (auto simp: saved_regs_def)
    ultimately show ?thesis using q by (simp add: e g)
  qed
  show "gpr (rv_exec trap_resume s) 2 = f + 128" "mepc (rv_exec trap_resume s) = pc"
    "mscratch (rv_exec trap_resume s) = mscratch s" "ram (rv_exec trap_resume s) = ram s"
    "mstatus (rv_exec trap_resume s) = mstatus s OR 0x1880"
    by (simp_all add: e)
qed

section \<open>The first frame of a task\<close>

lemma zero_words:
  "foldl (\<lambda>m i. m(f + 4 * of_nat i := 0)) m is = (\<lambda>a. if \<exists>i \<in> set is. a = f + 4 * of_nat i then 0 else m a)"
  for m :: "u32 \<Rightarrow> u32"
  by (induction "is" arbitrary: m) (auto simp: fun_eq_iff)

lemma init_task_stack_frame:
  fixes stack_ptr stack_len :: usize
  assumes "MIN_TASK_STACK \<le> stack_len" and "unat stack_ptr + unat stack_len < 2 ^ 32"
  defines "f \<equiv> frame_start stack_ptr stack_len"
  shows "unat stack_ptr + 112 < unat f" "unat f + 128 \<le> unat stack_ptr + unat stack_len" "unat f mod 16 = 0"
proof -
  let ?x = "stack_ptr + stack_len - 128"
  have l: "256 \<le> unat stack_len" using assms(1) by (simp add: MIN_TASK_STACK_def word_le_nat_alt)
  have t: "unat (stack_ptr + stack_len) = unat stack_ptr + unat stack_len" using assms(2) by (simp add: unat_word_ariths)
  have x: "unat ?x = unat stack_ptr + unat stack_len - 128"
    using l t by (subst unat_sub) (simp_all add: word_le_nat_alt)
  have m: "(16 - 1 :: usize) = mask 4" by (simp add: mask_eq_exp_minus_1)
  have f: "unat f = unat ?x - unat ?x mod 16" unfolding f_def frame_start_def m using unat_and_not_mask [of ?x 4] by simp
  have "unat ?x mod 16 < 16" by simp
  then show "unat stack_ptr + 112 < unat f" "unat f + 128 \<le> unat stack_ptr + unat stack_len"
    using f x l by linarith+
  show "unat f mod 16 = 0" unfolding f by (simp add: minus_mod_eq_mult_div)
qed

lemma init_task_stack_holds:
  fixes m :: "u32 \<Rightarrow> u32" and arg entry_fn :: usize
  defines "r \<equiv> (\<lambda>_. 0)(8 := arg, 9 := entry_fn)"
  assumes "init_task_stack trampoline stack_ptr stack_len entry_fn arg m = (f, m')"
  shows "frame_holds f r trampoline m'" "\<not> in_frame f a \<Longrightarrow> m' a = m a"
proof -
  have f: "f = frame_start stack_ptr stack_len"
    "m' = (\<lambda>a. if \<exists>i \<in> set [0..<32]. a = f + 4 * of_nat i then 0 else m a)(f + 16 := arg, f + 20 := entry_fn, f + 112 := trampoline)"
    using assms(2) by (auto simp: init_task_stack_def zero_words Let_def)
  have inf: "(\<exists>i \<in> set [0..<32]. a = f + 4 * of_nat i) \<longleftrightarrow> in_frame f a" for a by (auto simp: in_frame_def)
  have off: "off = 16 \<longleftrightarrow> q = 8" "off = 20 \<longleftrightarrow> q = 9" if "(q, off) \<in> set frame_slots" for q off
    using that by (auto simp: frame_slots_def)
  have "off \<noteq> 112" if "(q, off) \<in> set frame_slots" for q off
    using that frame_slots_ok by (auto simp: slots_ok_def)
  then show "frame_holds f r trampoline m'"
    unfolding frame_holds_def f(2) inf r_def using slot_in_frame(1) off by fastforce
  have "in_frame f (f + 16)" "in_frame f (f + 20)" "in_frame f (f + 112)"
    by (auto simp: in_frame_def intro: exI [of _ 4] exI [of _ 5] exI [of _ 28])
  then show "\<not> in_frame f a \<Longrightarrow> m' a = m a" unfolding f(2) inf by auto
qed

section \<open>Round trips\<close>

text \<open>
  Whatever happens between the save and the resume, as long as the frame is left alone, the
  registers, the stack pointer and the program counter come back, and \<open>mscratch\<close> is the top of
  the ISR stack of the hart that resumes.
\<close>

lemma context_round_trip:
  fixes s s2 :: rv32 and isr_top :: u32
  assumes f: "gpr s2 10 = gpr s 2 - 128"
    and fr: "\<And>a. in_frame (gpr s 2 - 128) a \<Longrightarrow> ram s2 a = ram (rv_exec trap_entry s) a"
    and fixed: "gpr s2 0 = gpr s 0" "gpr s2 3 = gpr s 3" "gpr s2 4 = gpr s 4"
  defines "s3 \<equiv> rv_exec (trap_return isr_top @ trap_resume) s2"
  shows "q < 32 \<Longrightarrow> gpr s3 q = gpr s q" "mepc s3 = mepc s" "mscratch s3 = isr_stack_top_for isr_top (mhartid s2)"
    "mstatus s3 = mstatus s2 OR 0x1880" "ram s3 = ram s2"
proof -
  define s1 where "s1 = rv_exec (trap_return isr_top) s2"
  have s1: "gpr s1 2 = gpr s 2 - 128" "ram s1 = ram s2" "mstatus s1 = mstatus s2"
    "mscratch s1 = isr_stack_top_for isr_top (mhartid s2)" "q \<in> {0, 3, 4} \<Longrightarrow> gpr s1 q = gpr s q" for q
    using f fixed by (auto simp: s1_def trap_return_state)
  have h: "frame_holds (gpr s 2 - 128) (gpr s) (mepc s) (ram s1)"
    unfolding s1(2) by (rule frame_holds_cong [OF trap_entry_state(1)]) (rule fr)
  have s3: "s3 = rv_exec trap_resume s1" by (simp add: s3_def s1_def)
  note r = trap_resume_state [OF h s1(1), folded s3]
  show "gpr s3 q = gpr s q" if "q < 32"
  proof -
    have "q \<in> saved_regs \<or> q = 2 \<or> q \<in> {0, 3, 4} \<and> q \<notin> insert 2 saved_regs"
      using that by (auto simp: saved_regs_def)
    then show ?thesis using r(1-3) s1(5) by auto
  qed
  show "mepc s3 = mepc s" "mscratch s3 = isr_stack_top_for isr_top (mhartid s2)" "mstatus s3 = mstatus s2 OR 0x1880"
    "ram s3 = ram s2" using r(4-7) s1 by simp_all
qed

text \<open>The first resume of a new task.\<close>

lemma first_run:
  assumes i: "init_task_stack trampoline stack_ptr stack_len entry_fn arg m = (f, m')"
    and s: "gpr s 2 = f" "ram s = m'"
  defines "s1 \<equiv> rv_exec trap_resume s"
  shows "mepc s1 = trampoline" "gpr s1 2 = f + 128" "gpr s1 9 = entry_fn"
    "gpr (rv_exec ptask_trampoline s1) 10 = arg" "gpr (rv_exec ptask_trampoline s1) 9 = entry_fn"
proof -
  note h = init_task_stack_holds(1) [OF i, folded s(2)]
  note r = trap_resume_state [OF h s(1), folded s1_def]
  have "8 \<in> saved_regs" "9 \<in> saved_regs" by (simp_all add: saved_regs_def)
  then show "mepc s1 = trampoline" "gpr s1 2 = f + 128" "gpr s1 9 = entry_fn"
    "gpr (rv_exec ptask_trampoline s1) 10 = arg" "gpr (rv_exec ptask_trampoline s1) 9 = entry_fn"
    using r by (simp_all add: ptask_trampoline_def)
qed

section \<open>Masking nests\<close>

abbreviation interrupts_on :: "rv32 \<Rightarrow> bool" where
  "interrupts_on s \<equiv> bit (mstatus s) 3"

lemma mie_bit: "w AND MIE \<noteq> 0 \<longleftrightarrow> bit w 3" "bit (w AND NOT MIE) i \<longleftrightarrow> bit w i \<and> i \<noteq> 3"
  "bit (w OR MIE) i \<longleftrightarrow> bit w i \<or> i = 3" for w :: u32
proof -
  have m: "MIE = shl1 3" by (simp add: MIE_def shl1_def)
  show "w AND MIE \<noteq> 0 \<longleftrightarrow> bit w 3" unfolding m by (auto simp: u32_neq_0_iff bit_and_iff)
  show "bit (w AND NOT MIE) i \<longleftrightarrow> bit w i \<and> i \<noteq> 3" unfolding m by (rule bit_clear_bit')
  show "bit (w OR MIE) i \<longleftrightarrow> bit w i \<or> i = 3" unfolding m by (auto simp: bit_or_iff)
qed

text \<open>
  A section that ends masked, as nested ones do, gives back the enable bit it found and keeps
  every other bit it has changed.
\<close>

lemma irq_nesting:
  assumes "irq_save s = (token, s1)" and "\<not> interrupts_on s2"
  shows "\<not> interrupts_on s1" "interrupts_on (irq_restore token s2) = interrupts_on s"
    "i \<noteq> 3 \<Longrightarrow> bit (mstatus (irq_restore token s2)) i = bit (mstatus s2) i"
  using assms by (auto simp: irq_save_def irq_restore_def mie_bit split: if_splits)

end
