(* ===== verification/Clint.thy ===== *)
theory Clint
  imports Watchdog
begin

text \<open>
  The CLINT driver of the RISC-V port (\<open>rivet-arch-riscv/src/clint.rs\<close>): tear-free access to the
  64-bit timer through 32-bit registers, the periodic tick and the software interrupts. The
  counter advances while the driver runs: \<open>clk n\<close> is its value at bus access \<open>n\<close>, and every
  function returns the number of the next access.
\<close>

section \<open>State\<close>

record clint =
  clint_base :: usize
  mtime_hz :: u64
  tick_period :: u64
  mtimecmp_prev :: u64
  mtimecmp :: u64
  msip :: "u32 list"
  mie_mtimer :: bool
  mie_msoft :: bool

definition clint_configure :: "usize \<Rightarrow> u64 \<Rightarrow> clint \<Rightarrow> clint" where
  "clint_configure base hz c = c\<lparr>clint_base := base, mtime_hz := hz\<rparr>"

text \<open>The register addresses; the use of an unconfigured base panics.\<close>

definition mmio_base :: "clint \<Rightarrow> usize option" where
  "mmio_base c = (if clint_base c = 0 then None else Some (clint_base c))"

definition mtime_lo :: "clint \<Rightarrow> usize option" where
  "mtime_lo c = map_option (\<lambda>b. b + 0xBFF8) (mmio_base c)"

definition mtime_hi :: "clint \<Rightarrow> usize option" where
  "mtime_hi c = map_option (\<lambda>b. b + 0xBFF8 + 4) (mmio_base c)"

definition mtimecmp_lo :: "clint \<Rightarrow> usize option" where
  "mtimecmp_lo c = map_option (\<lambda>b. b + 0x4000) (mmio_base c)"

definition mtimecmp_hi :: "clint \<Rightarrow> usize option" where
  "mtimecmp_hi c = map_option (\<lambda>b. b + 0x4000 + 4) (mmio_base c)"

definition msip_for :: "nat \<Rightarrow> clint \<Rightarrow> usize option" where
  "msip_for hart c = map_option (\<lambda>b. b + 0 + of_nat hart * 4) (mmio_base c)"

section \<open>The counter\<close>

definition hi32 :: "u64 \<Rightarrow> u32" where "hi32 t = ucast (drop_bit 32 t)"
definition lo32 :: "u64 \<Rightarrow> u32" where "lo32 t = ucast t"
definition join64 :: "u32 \<Rightarrow> u32 \<Rightarrow> u64" where "join64 hi lo = push_bit 32 (ucast hi) OR ucast lo"

partial_function (option) read_mtime :: "(nat \<Rightarrow> u64) \<Rightarrow> nat \<Rightarrow> (u64 \<times> nat) option" where
  "read_mtime clk n =
    (let hi = hi32 (clk n); lo = lo32 (clk (n + 1)); hi2 = hi32 (clk (n + 2))
     in if hi = hi2 then Some (join64 hi lo, n + 3) else read_mtime clk (n + 3))"

text \<open>The three stores to the compare register of hart 0, as the values it holds in turn.\<close>

definition cmp_lo_write :: "u32 \<Rightarrow> u64 \<Rightarrow> u64" where "cmp_lo_write v r = join64 (hi32 r) v"
definition cmp_hi_write :: "u32 \<Rightarrow> u64 \<Rightarrow> u64" where "cmp_hi_write v r = join64 v (lo32 r)"

definition write_mtimecmp :: "u64 \<Rightarrow> u64 \<Rightarrow> u64 list" where
  "write_mtimecmp val r =
    (let r1 = cmp_lo_write 0xFFFFFFFF r;
         r2 = cmp_hi_write (hi32 val) r1;
         r3 = cmp_lo_write (lo32 val) r2
     in [r1, r2, r3])"

definition now_micros :: "(nat \<Rightarrow> u64) \<Rightarrow> nat \<Rightarrow> clint \<Rightarrow> (u64 \<times> nat) option" where
  "now_micros clk n c = do {
     (t, n1) \<leftarrow> read_mtime clk n;
     (if mtime_hz c = 0 then None else Some (of_nat (unat t * 1000000 div unat (mtime_hz c)), n1))
   }"

section \<open>The tick\<close>

text \<open>Rust's checked \<open>+\<close> on \<open>u64\<close>.\<close>

definition add64 :: "u64 \<Rightarrow> u64 \<Rightarrow> u64 option" where
  "add64 a b = (if unat a + unat b < 2 ^ 64 then Some (a + b) else None)"

definition arm :: "u64 \<Rightarrow> clint \<Rightarrow> clint" where
  "arm val c = c\<lparr>mtimecmp := last (write_mtimecmp val (mtimecmp c)), mtimecmp_prev := val\<rparr>"

definition tick_start :: "(nat \<Rightarrow> u64) \<Rightarrow> nat \<Rightarrow> u32 \<Rightarrow> clint \<Rightarrow> (clint \<times> nat) option" where
  "tick_start clk n tick_hz c =
    (if tick_hz = 0 then None
     else do {
       let period = mtime_hz c div ucast tick_hz;
       (t, n1) \<leftarrow> read_mtime clk n;
       first \<leftarrow> add64 t period;
       Some ((arm first (c\<lparr>tick_period := period\<rparr>))\<lparr>mie_mtimer := True, mie_msoft := True\<rparr>, n1)
     })"

definition rearm :: "u64 \<Rightarrow> clint \<Rightarrow> clint option" where
  "rearm t c = do {
     from_now \<leftarrow> add64 t (tick_period c);
     Some (arm (max (mtimecmp_prev c + tick_period c) from_now) c)
   }"

text \<open>
  The timer interrupt; the first result tells whether the watchdog reset the board, and then
  nothing further runs. The watchdog's own reading of the clock is \<open>wd_now\<close>.
\<close>

definition on_timer_irq :: "(nat \<Rightarrow> u64) \<Rightarrow> nat \<Rightarrow> nat \<Rightarrow> sw_watchdog \<Rightarrow> u32 \<Rightarrow> u64 \<Rightarrow> clint \<times> kernel
    \<Rightarrow> (bool \<times> clint \<times> kernel) option" where
  "on_timer_irq clk n h w checkin_timeout wd_now x = do {
     (reset, k) \<leftarrow> watchdog_on_tick w checkin_timeout wd_now (snd x);
     (if reset then Some (True, fst x, k)
      else do {
        (us, n1) \<leftarrow> now_micros clk n (fst x);
        k1 \<leftarrow> poll_timers h us k;
        (t, n2) \<leftarrow> read_mtime clk n1;
        c \<leftarrow> rearm t (fst x);
        Some (False, c, k1)
      })
   }"

section \<open>Software interrupts\<close>

definition write_msip :: "nat \<Rightarrow> u32 \<Rightarrow> clint \<Rightarrow> clint option" where
  "write_msip hart v c = (case msip_for hart c of None \<Rightarrow> None | Some _ \<Rightarrow> Some (c\<lparr>msip := (msip c)[hart := v]\<rparr>))"

definition request_reschedule :: "nat \<Rightarrow> clint \<Rightarrow> clint option" where
  "request_reschedule mhartid c = write_msip mhartid 1 c"

definition request_reschedule_on :: "nat \<Rightarrow> clint \<Rightarrow> clint option" where
  "request_reschedule_on hart c = write_msip hart 1 c"

definition ack_soft_irq :: "nat \<Rightarrow> clint \<Rightarrow> clint option" where
  "ack_soft_irq mhartid c = write_msip mhartid 0 c"

section \<open>Halves of a 64-bit register\<close>

lemma hi_lo_join64 [simp]: "hi32 (join64 hi lo) = hi" "lo32 (join64 hi lo) = lo"
  by (rule bit_word_eqI; auto simp: hi32_def lo32_def join64_def bit_simps dest: bit_imp_le_length)+

lemma join64_hi_lo [simp]: "join64 (hi32 t) (lo32 t) = t"
  by (rule bit_word_eqI) (auto simp: hi32_def lo32_def join64_def bit_simps)

lemma unat_join: "unat (join64 hi lo) = unat hi * 2 ^ 32 + unat lo"
proof -
  have "join64 hi lo = push_bit 32 (ucast hi) + ucast lo"
    unfolding join64_def by (rule disjunctive_add_eq_or [symmetric])
      (auto simp: bit_eq_iff bit_and_iff bit_push_bit_iff bit_ucast_iff dest: bit_imp_le_length)
  also have "\<dots> = of_nat (unat hi * 2 ^ 32 + unat lo)" by (simp add: push_bit_eq_mult)
  finally have "unat (join64 hi lo) = (unat hi * 2 ^ 32 + unat lo) mod 2 ^ 64"
    by (simp only: unat_of_nat take_bit_eq_mod) simp
  also have "\<dots> = unat hi * 2 ^ 32 + unat lo"
    using unsigned_less [of hi, where 'a = nat] unsigned_less [of lo, where 'a = nat] by (intro mod_less) simp
  finally show ?thesis .
qed

lemma unat_split: "unat t = unat (hi32 t) * 2 ^ 32 + unat (lo32 t)"
  using unat_join [of "hi32 t" "lo32 t"] by simp

lemma low_less: "unat (lo32 t) < 2 ^ 32"
  using unsigned_less [of "lo32 t", where 'a = nat] by simp

lemma high_div: "unat (hi32 t) = unat t div 2 ^ 32"
  unfolding unat_split [of t] using low_less [of t] by simp

section \<open>Reading without tearing\<close>

lemma same_high:
  assumes "unat a \<le> unat b" and "unat b \<le> unat c" and "hi32 a = hi32 c"
  shows "join64 (hi32 a) (lo32 b) = b"
proof -
  have "unat (hi32 a) \<le> unat (hi32 b)" "unat (hi32 b) \<le> unat (hi32 c)"
    unfolding high_div using assms(1,2) by (simp_all add: div_le_mono)
  then have "hi32 a = hi32 b" using assms(3) by (simp add: word_unat_eq_iff)
  then show ?thesis by simp
qed

text \<open>
  The loop ends in its first or second round when six accesses take less than a wrap of the low
  word, and its result is the counter at the middle access of that round.
\<close>

lemma read_mtime_ok:
  assumes mono: "\<forall>m < 5. unat (clk (n + m)) \<le> unat (clk (Suc (n + m)))"
    and slow: "unat (clk (n + 5)) < unat (clk n) + 2 ^ 32"
  shows "read_mtime clk n = Some (clk (n + 1), n + 3) \<or> read_mtime clk n = Some (clk (n + 4), n + 6)"
proof (cases "hi32 (clk n) = hi32 (clk (n + 2))")
  case True
  then have "join64 (hi32 (clk n)) (lo32 (clk (n + 1))) = clk (n + 1)"
    using same_high [of "clk n" "clk (n + 1)" "clk (n + 2)"] spec [OF mono, of 0] spec [OF mono, of 1] by simp
  then show ?thesis using True by (subst read_mtime.simps) (simp add: Let_def)
next
  case False
  have le: "unat (clk n) \<le> unat (clk (n + 2))" "unat (clk (n + 2)) \<le> unat (clk (n + 3))"
    "unat (clk (n + 3)) \<le> unat (clk (n + 4))" "unat (clk (n + 4)) \<le> unat (clk (n + 5))"
    using spec [OF mono, of 0] spec [OF mono, of 1] spec [OF mono, of 2] spec [OF mono, of 3] spec [OF mono, of 4]
    by (simp_all add: numeral_eq_Suc)
  have h: "unat (hi32 (clk n)) < unat (hi32 (clk (n + 2)))"
    using False div_le_mono [OF le(1), of "2 ^ 32"] by (simp add: high_div word_unat_eq_iff)
  have "hi32 (clk (n + 3)) = hi32 (clk (n + 5))"
  proof (rule ccontr)
    assume "hi32 (clk (n + 3)) \<noteq> hi32 (clk (n + 5))"
    then have "unat (hi32 (clk (n + 3))) < unat (hi32 (clk (n + 5)))"
      using div_le_mono [OF order.trans [OF le(3,4)], of "2 ^ 32"] by (simp add: high_div word_unat_eq_iff)
    moreover have "unat (hi32 (clk (n + 2))) \<le> unat (hi32 (clk (n + 3)))"
      unfolding high_div using le(2) by (rule div_le_mono)
    ultimately have "unat (hi32 (clk n)) + 2 \<le> unat (hi32 (clk (n + 5)))" using h by linarith
    then show False using slow unat_split [of "clk n"] unat_split [of "clk (n + 5)"] low_less [of "clk n"] by simp
  qed
  moreover from this have "join64 (hi32 (clk (n + 3))) (lo32 (clk (n + 4))) = clk (n + 4)"
    using same_high le(3,4) by blast
  ultimately have "read_mtime clk (n + 3) = Some (clk (n + 4), n + 6)"
    by (subst read_mtime.simps) (simp add: Let_def add.commute [of _ n])
  then show ?thesis using False by (subst (2) read_mtime.simps) (simp add: Let_def)
qed

section \<open>Writing without a spurious match\<close>

lemma write_mtimecmp_safe:
  "last (write_mtimecmp val r) = val" "\<forall>x \<in> set (write_mtimecmp val r). unat (min r val) \<le> unat x"
proof -
  show "last (write_mtimecmp val r) = val"
    by (simp add: write_mtimecmp_def cmp_lo_write_def cmp_hi_write_def Let_def)
  have l: "unat (lo32 t) \<le> unat (0xFFFFFFFF :: u32)" for t using low_less [of t] by simp
  have "unat r \<le> unat (join64 (hi32 r) 0xFFFFFFFF)" "unat val \<le> unat (join64 (hi32 val) 0xFFFFFFFF)"
    using unat_split [of r] unat_split [of val] l [of r] l [of val] by (simp_all add: unat_join)
  then show "\<forall>x \<in> set (write_mtimecmp val r). unat (min r val) \<le> unat x"
    by (auto simp: write_mtimecmp_def cmp_lo_write_def cmp_hi_write_def Let_def min_def word_le_nat_alt)
qed

section \<open>The period of the tick\<close>

lemma add64_Some: "add64 a b = Some s \<longleftrightarrow> unat a + unat b < 2 ^ 64 \<and> s = a + b"
  by (auto simp: add64_def)

lemma unat_add64: "add64 a b = Some s \<Longrightarrow> unat s = unat a + unat b"
  by (auto simp: add64_Some unat_word_ariths)

text \<open>
  Once the counter has reached the compare value, the time that is armed next is a period after
  the reading of the counter, whatever the previous compare value was.
\<close>

lemma rearm_from_now:
  assumes "mtimecmp_prev c \<le> t" and "unat t + unat (tick_period c) < 2 ^ 64"
  shows "rearm t c = Some (arm (t + tick_period c) c)"
proof -
  have "unat (mtimecmp_prev c) \<le> unat t" using assms(1) by (simp add: word_le_nat_alt)
  then have "mtimecmp_prev c + tick_period c \<le> t + tick_period c"
    using assms(2) by (simp add: word_le_nat_alt unat_word_ariths)
  then show ?thesis using assms(2) by (simp add: rearm_def add64_def max_def)
qed

text \<open>A run of tick interrupts, each with its reading of the counter.\<close>

fun tick_times :: "u64 list \<Rightarrow> clint \<Rightarrow> clint option" where
  "tick_times [] c = Some c"
| "tick_times (t # ts) c = rearm t c \<bind> tick_times ts"

text \<open>How late each interrupt read the counter after its compare value.\<close>

fun lateness :: "nat \<Rightarrow> nat \<Rightarrow> nat list \<Rightarrow> nat list" where
  "lateness period due_at [] = []"
| "lateness period due_at (t # ts) = (t - due_at) # lateness period (t + period) ts"

fun all_due :: "nat \<Rightarrow> nat \<Rightarrow> nat list \<Rightarrow> bool" where
  "all_due period due_at [] = True"
| "all_due period due_at (t # ts) = (due_at \<le> t \<and> t + period < 2 ^ 64 \<and> all_due period (t + period) ts)"

lemma arm_fields [simp]:
  "tick_period (arm v c) = tick_period c" "mtimecmp_prev (arm v c) = v" "mtimecmp (arm v c) = v"
  by (simp_all add: arm_def write_mtimecmp_safe)

lemma tick_times_drift:
  assumes "all_due (unat (tick_period c)) (unat (mtimecmp_prev c)) (map unat ts)" and "mtimecmp c = mtimecmp_prev c"
  shows "\<exists>c'. tick_times ts c = Some c' \<and> mtimecmp c' = mtimecmp_prev c' \<and>
    unat (mtimecmp c') = unat (mtimecmp c) + length ts * unat (tick_period c) +
      sum_list (lateness (unat (tick_period c)) (unat (mtimecmp c)) (map unat ts))"
  using assms
proof (induction ts arbitrary: c)
  case (Cons t ts)
  have t: "mtimecmp_prev c \<le> t" "unat t + unat (tick_period c) < 2 ^ 64"
    using Cons.prems by (simp_all add: word_le_nat_alt)
  let ?c = "arm (t + tick_period c) c"
  have u: "unat (t + tick_period c) = unat t + unat (tick_period c)" using t(2) by (simp add: unat_word_ariths)
  have "all_due (unat (tick_period ?c)) (unat (mtimecmp_prev ?c)) (map unat ts)" using Cons.prems u by simp
  from Cons.IH [OF this] obtain c' where c': "tick_times ts ?c = Some c'" "mtimecmp c' = mtimecmp_prev c'"
    "unat (mtimecmp c') = unat (mtimecmp ?c) + length ts * unat (tick_period ?c) +
      sum_list (lateness (unat (tick_period ?c)) (unat (mtimecmp ?c)) (map unat ts))" by auto
  have "unat (mtimecmp c) \<le> unat t" using t(1) Cons.prems(2) by (simp add: word_le_nat_alt)
  then show ?case using c' u by (simp add: rearm_from_now [OF t])
qed simp

end
