(* ===== verification/Plic.thy ===== *)
theory Plic
  imports Irq
begin

text \<open>
  The PLIC driver of the RISC-V port (\<open>rivet-arch-riscv/src/plic.rs\<close>): per-source priorities and
  enable bits of the one context used, and the claim protocol. The source the controller answers
  a claim with is an argument; completions are collected in order.
\<close>

section \<open>State and operations\<close>

record plic =
  plic_base :: usize
  priority_regs :: "u32 list"
  enable_regs :: "u32 list"
  threshold :: u32
  completed_sources :: "u32 list"
  mie_mext :: bool

definition plic_boot :: plic where
  "plic_boot = \<lparr>plic_base = 0, priority_regs = replicate 1024 0, enable_regs = replicate 32 0,
     threshold = 0, completed_sources = [], mie_mext = False\<rparr>"

text \<open>The register addresses; the use of an unconfigured base panics.\<close>

definition plic_mmio :: "plic \<Rightarrow> usize option" where
  "plic_mmio p = (if plic_base p = 0 then None else Some (plic_base p))"

definition priority_reg :: "u32 \<Rightarrow> plic \<Rightarrow> usize option" where
  "priority_reg source p = map_option (\<lambda>b. b + 0 + 4 * source) (plic_mmio p)"

definition enable_reg :: "u32 \<Rightarrow> plic \<Rightarrow> usize option" where
  "enable_reg source p = map_option (\<lambda>b. b + 0x2000 + 0 * 0x80 + 4 * (source div 32)) (plic_mmio p)"

definition threshold_reg :: "plic \<Rightarrow> usize option" where
  "threshold_reg p = map_option (\<lambda>b. b + 0x200000 + 0 * 0x1000 + 0) (plic_mmio p)"

definition claim_complete_reg :: "plic \<Rightarrow> usize option" where
  "claim_complete_reg p = map_option (\<lambda>b. b + 0x200000 + 0 * 0x1000 + 4) (plic_mmio p)"

definition plic_configure :: "usize \<Rightarrow> plic \<Rightarrow> plic option" where
  "plic_configure base p = do {
     let p1 = p\<lparr>plic_base := base\<rparr>;
     _ \<leftarrow> threshold_reg p1;
     Some (p1\<lparr>threshold := 0, mie_mext := True\<rparr>)
   }"

definition source_bit :: "u32 \<Rightarrow> u32" where
  "source_bit n = push_bit (unat n mod 32) 1"

definition plic_enable :: "u32 \<Rightarrow> plic \<Rightarrow> plic option" where
  "plic_enable n p = do {
     _ \<leftarrow> priority_reg n p;
     let p1 = p\<lparr>priority_regs := (priority_regs p)[unat n := 1]\<rparr>;
     _ \<leftarrow> enable_reg n p1;
     Some (p1\<lparr>enable_regs := upd_at (unat n div 32) (\<lambda>w. w OR source_bit n) (enable_regs p1)\<rparr>)
   }"

definition plic_disable :: "u32 \<Rightarrow> plic \<Rightarrow> plic option" where
  "plic_disable n p = do {
     _ \<leftarrow> enable_reg n p;
     Some (p\<lparr>enable_regs := upd_at (unat n div 32) (\<lambda>w. w AND NOT (source_bit n)) (enable_regs p)\<rparr>)
   }"

definition plic_set_priority :: "u32 \<Rightarrow> u8 \<Rightarrow> plic \<Rightarrow> plic option" where
  "plic_set_priority n prio p = do {
     _ \<leftarrow> priority_reg n p;
     Some (p\<lparr>priority_regs := (priority_regs p)[unat n := ucast prio]\<rparr>)
   }"

definition claim_dispatch_complete :: "bool \<Rightarrow> u32 \<Rightarrow> irqs \<Rightarrow> plic \<Rightarrow> (irq_action list \<times> plic) option" where
  "claim_dispatch_complete trace source tbl p = do {
     _ \<leftarrow> claim_complete_reg p;
     (if source = 0 then Some ([], p)
      else Some (dispatch trace source tbl, p\<lparr>completed_sources := completed_sources p @ [source]\<rparr>))
   }"

section \<open>The set of enabled sources\<close>

definition plic_ok :: "plic \<Rightarrow> bool" where
  "plic_ok p \<longleftrightarrow> plic_base p \<noteq> 0 \<and> length (priority_regs p) = 1024 \<and> length (enable_regs p) = 32"

definition enabled_sources :: "plic \<Rightarrow> u32 set" where
  "enabled_sources p = {n. unat n < 1024 \<and> bit (enable_regs p ! (unat n div 32)) (unat n mod 32)}"

lemma bit_source_bit [simp]: "bit (source_bit n) i \<longleftrightarrow> i = unat n mod 32"
  by (auto simp: source_bit_def bit_exp_iff possible_bit_def)

lemma same_source: "unat m div 32 = unat n div 32 \<Longrightarrow> unat m mod 32 = unat n mod 32 \<longleftrightarrow> m = n"
  for m n :: u32
  by (metis mult_div_mod_eq word_unat_eq_iff)

lemma plic_enable_spec:
  assumes ok: "plic_ok p" and n: "unat n < 1024"
  shows "\<exists>p'. plic_enable n p = Some p' \<and> plic_ok p' \<and> enabled_sources p' = insert n (enabled_sources p) \<and>
    priority_regs p' = (priority_regs p)[unat n := 1]"
proof -
  have l: "unat m div 32 < length (enable_regs p)" if "unat m < 1024" for m :: u32
    using ok that by (simp add: plic_ok_def less_mult_imp_div_less)
  have "bit (upd_at (unat n div 32) (\<lambda>w. w OR source_bit n) (enable_regs p) ! (unat m div 32)) (unat m mod 32) \<longleftrightarrow>
      m = n \<or> bit (enable_regs p ! (unat m div 32)) (unat m mod 32)" if "unat m < 1024" for m
    using l [OF that] same_source [of m n] by (auto simp: nth_upd_at bit_or_iff)
  then show ?thesis using ok n
    by (auto simp: plic_enable_def plic_ok_def priority_reg_def enable_reg_def plic_mmio_def enabled_sources_def)
qed

lemma plic_disable_spec:
  assumes ok: "plic_ok p"
  shows "\<exists>p'. plic_disable n p = Some p' \<and> plic_ok p' \<and> enabled_sources p' = enabled_sources p - {n} \<and>
    priority_regs p' = priority_regs p"
proof -
  have l: "unat m div 32 < length (enable_regs p)" if "unat m < 1024" for m :: u32
    using ok that by (simp add: plic_ok_def less_mult_imp_div_less)
  have "bit (upd_at (unat n div 32) (\<lambda>w. w AND NOT (source_bit n)) (enable_regs p) ! (unat m div 32)) (unat m mod 32) \<longleftrightarrow>
      m \<noteq> n \<and> bit (enable_regs p ! (unat m div 32)) (unat m mod 32)" if "unat m < 1024" for m
    using l [OF that] same_source [of m n] by (auto simp: nth_upd_at bit_and_iff bit_not_iff)
  then show ?thesis using ok
    by (auto simp: plic_disable_def plic_ok_def enable_reg_def plic_mmio_def enabled_sources_def)
qed

text \<open>A claimed source is completed once, after its handler; a spurious claim does nothing.\<close>

lemma claim_spec:
  assumes "plic_ok p"
  shows "claim_dispatch_complete trace source tbl p =
    Some (if source = 0 then ([], p)
          else (dispatch trace source tbl, p\<lparr>completed_sources := completed_sources p @ [source]\<rparr>))"
  using assms by (simp add: claim_dispatch_complete_def claim_complete_reg_def plic_mmio_def plic_ok_def)

end
