(* ===== verification/Tick_Trace.thy ===== *)
theory Tick_Trace
  imports Tick_Spec Trace Latency
begin

text \<open>
  The entry point of the tick (\<open>on_tick\<close> of \<open>rivet/src/preempt/mod.rs\<close>): the locked decision,
  then, with the instrumentation features on, its latency, the trace of the switch it made and
  the periodic announcements. The decision itself is read off as a value of its own.
\<close>

section \<open>The decision as a value\<close>

datatype decision = Stay | Fault_now fault_info | Switch_now nat nat | Index_panic

definition tick_decision :: "nat \<Rightarrow> readings \<Rightarrow> (usize \<Rightarrow> u8) \<Rightarrow> usize \<Rightarrow> kernel \<Rightarrow> decision \<times> kernel" where
  "tick_decision h rd mem interrupted_sp k =
    (case current h k of
       None \<Rightarrow> (Stay, k)
     | Some running \<Rightarrow>
         (case schedule (store_sp running interrupted_sp k) of
            (None, k1) \<Rightarrow> (Stay, k1)
          | (Some candidate, k1) \<Rightarrow>
              (let me = get_task running k1;
                   fault = (\<lambda>fk addr. Fault_now \<lparr>fault_task = Some running, fault_kind = fk,
                       fault_address = addr, fault_pc = 0\<rparr>)
               in (if (case me of None \<Rightarrow> False | Some t \<Rightarrow> watermark_lost mem t)
                   then fault StackOverflow (stack_base (the me))
                   else if map_option state_of me = Some Running \<and>
                           check_budget running (r_live rd) (r_total rd) (r_us rd) k1
                   then fault BudgetExceeded 0
                   else if (case me of None \<Rightarrow> True | Some t \<Rightarrow> state_of t = Blocked)
                   then (if candidate = running then Stay else Switch_now running candidate)
                   else (case should_preempt candidate running k1 of
                           None \<Rightarrow> Index_panic
                         | Some False \<Rightarrow> Stay
                         | Some True \<Rightarrow> Switch_now running candidate), k1))))"

definition carry_out :: "nat \<Rightarrow> readings \<Rightarrow> (usize \<Rightarrow> u8) \<Rightarrow> usize \<Rightarrow> decision \<times> kernel \<Rightarrow> (outcome \<times> kernel) option" where
  "carry_out h rd mem interrupted_sp = (\<lambda>(d, k). case d of
     Stay \<Rightarrow> Some (Resume interrupted_sp, k)
   | Fault_now info \<Rightarrow> on_fault h mem info k
   | Switch_now running candidate \<Rightarrow> switch_to h running candidate (r_switch rd) k
   | Index_panic \<Rightarrow> None)"

lemma on_tick_locked_decides:
  "on_tick_locked h rd mem s k = carry_out h rd mem s (tick_decision h rd mem s k)"
  by (simp add: on_tick_locked_def tick_decision_def carry_out_def Let_def split: option.splits prod.splits bool.splits)

section \<open>The instrumented tick\<close>

record instruments =
  in_tracer :: tracer
  in_hist :: histograms
  pending_ctx_switch :: u32
  reannounce_tick :: u32

definition instruments_boot :: instruments where
  "instruments_boot = \<lparr>in_tracer = tracer_boot, in_hist = hist_boot, pending_ctx_switch = - 1, reannounce_tick = 0\<rparr>"

record features =
  trace_on :: bool
  hist_on :: bool

text \<open>The pair a switch leaves behind for the tracing that follows the critical section.\<close>

definition pack_switch :: "nat \<Rightarrow> nat \<Rightarrow> u32" where
  "pack_switch running candidate = push_bit 16 (of_nat running) OR of_nat candidate"

definition note_switch :: "decision \<Rightarrow> instruments \<Rightarrow> instruments" where
  "note_switch d s = (case d of
     Switch_now running candidate \<Rightarrow> s\<lparr>pending_ctx_switch := pack_switch running candidate\<rparr>
   | _ \<Rightarrow> s)"

definition trace_switch :: "nat \<Rightarrow> u64 \<Rightarrow> instruments \<Rightarrow> instruments option" where
  "trace_switch h now s =
    (let packed = pending_ctx_switch s; s1 = s\<lparr>pending_ctx_switch := - 1\<rparr>
     in if packed = - 1 then Some s1
        else do {
          tr \<leftarrow> context_switch h now (ucast (drop_bit 16 packed)) (ucast (packed AND 0xFFFF)) 0 (in_tracer s1);
          Some (s1\<lparr>in_tracer := tr\<rparr>)
        })"

definition reannounce :: "nat \<Rightarrow> u64 \<Rightarrow> kernel \<Rightarrow> instruments \<Rightarrow> instruments option" where
  "reannounce h now k s =
    (let n = reannounce_tick s; s1 = s\<lparr>reannounce_tick := n + 1\<rparr>
     in if unat n mod 2000 = 0
        then do {
          tr \<leftarrow> reannounce_all_tasks h now k (in_tracer s1);
          tr1 \<leftarrow> reannounce_stream_header h now tr;
          Some (s1\<lparr>in_tracer := tr1\<rparr>)
        }
        else Some s1)"

definition on_tick :: "features \<Rightarrow> nat \<Rightarrow> readings \<Rightarrow> u64 \<Rightarrow> u64 \<Rightarrow> (usize \<Rightarrow> u8) \<Rightarrow> usize \<Rightarrow> kernel \<times> instruments
    \<Rightarrow> (outcome \<times> kernel \<times> instruments) option" where
  "on_tick ft h rd cycles now mem interrupted_sp x = do {
     let d = fst (tick_decision h rd mem interrupted_sp (fst x));
     (result, k) \<leftarrow> on_tick_locked h rd mem interrupted_sp (fst x);
     let s = (if trace_on ft then note_switch d (snd x) else snd x);
     (case result of
        Halted \<Rightarrow> Some (Halted, k, s)
      | Resume _ \<Rightarrow> do {
          let s1 = (if hist_on ft then s\<lparr>in_hist := latency_record DispatchDecision cycles (in_hist s)\<rparr> else s);
          s2 \<leftarrow> (if trace_on ft then trace_switch h now s1 \<bind> reannounce h now k else Some s1);
          Some (result, k, s2)
        })
   }"

section \<open>Instrumentation does not interfere\<close>

lemma ucast_of_nat_u16 [simp]: "(ucast (of_nat n :: u32) :: u16) = of_nat n"
  by (rule bit_word_eqI) (simp add: bit_simps)

lemma pack_switch_fields:
  assumes "running < 2 ^ 16" and "candidate < 2 ^ 16"
  shows "drop_bit 16 (pack_switch running candidate) = of_nat running"
    "pack_switch running candidate AND 0xFFFF = of_nat candidate"
proof -
  have m: "(0xFFFF :: u32) = mask 16" by (simp add: mask_eq_exp_minus_1)
  have small: "i < 16" if "n < 2 ^ 16" "bit (n :: nat) i" for n i
  proof -
    have "take_bit 16 n = n" by (rule take_bit_nat_eq_self) (rule that(1))
    then show ?thesis using that(2) by (metis bit_take_bit_iff)
  qed
  show "drop_bit 16 (pack_switch running candidate) = of_nat running"
    by (rule bit_word_eqI) (auto simp: pack_switch_def bit_simps dest: small [OF assms(1)] small [OF assms(2)])
  show "pack_switch running candidate AND 0xFFFF = of_nat candidate"
    unfolding m by (rule bit_word_eqI) (auto simp: pack_switch_def bit_simps dest: small [OF assms(2)])
qed

text \<open>The switch the decision names is the one the kernel makes.\<close>

lemma decision_switch:
  assumes g: "good k" and h: "h < max_harts k" and d: "fst (tick_decision h rd mem s k) = Switch_now a b"
    and t: "on_tick_locked h rd mem s k = Some (r, k')"
  shows "current h k = Some a" "current h k' = Some b" "a < max_ptasks k" "b < max_ptasks k"
    "a \<noteq> b" "r \<noteq> Halted"
proof -
  obtain i c k1 where i: "current h k = Some i" "schedule (store_sp i s k) = (Some c, k1)"
    using d by (auto simp: tick_decision_def Let_def split: option.splits prod.splits)
  have g1: "good (store_sp i s k)" using g by (rule good_store_sp)
  have k1: "k1 = store_sp i s k" using schedule_eq [OF goodD(2) [OF g1]] i(2) by simp
  have ab: "a = i" "b = c" "a \<noteq> b"
    using d i by (auto simp: tick_decision_def should_preempt_def Let_def
        split: option.splits prod.splits if_splits bool.splits)
  have "snd (tick_decision h rd mem s k) = k1" using i by (simp add: tick_decision_def Let_def)
  then have "tick_decision h rd mem s k = (Switch_now a b, k1)" using d by (metis prod.collapse)
  then have sw: "switch_to h a b (r_switch rd) k1 = Some (r, k')"
    using t by (simp add: on_tick_locked_decides carry_out_def)
  have c: "fst (schedule (store_sp i s k)) = Some c" using i(2) by simp
  note bd = best_readyD [OF goodD(2) [OF g1] schedule_ok_Some [OF goodD(2) [OF g1] c]]
  have "task_live (store_sp i s k) c" using bd by (auto simp: task_live_def queueable_def)
  from switch_to_eq [OF g1 this, of h i "r_switch rd"] have r: "r \<noteq> Halted" "k' = switched h i c (r_switch rd) (store_sp i s k)"
    using sw by (auto simp: k1 ab)
  show "current h k = Some a" "a \<noteq> b" "r \<noteq> Halted" using i ab r by simp_all
  show "current h k' = Some b" using h by (simp add: current_def r ab)
  have "Some i \<in> set (current_ids k)" using i(1) h by (metis current_def nth_mem)
  then show "a < max_ptasks k" using goodD(1) [OF g] ab by (simp add: wf_def)
  show "b < max_ptasks k" using bd(2) ab by simp
qed

lemma trace_switch_sent:
  assumes "sent fs (in_tracer s)"
  shows "\<exists>s'. trace_switch h now s = Some s' \<and> pending_ctx_switch s' = - 1 \<and> reannounce_tick s' = reannounce_tick s \<and>
    in_hist s' = in_hist s \<and> (\<exists>sw. sent (fs @ sw) (in_tracer s') \<and> map decode_event sw =
      (if pending_ctx_switch s = - 1 then []
       else [Some (Switched (ucast (drop_bit 16 (pending_ctx_switch s)))
               (ucast (pending_ctx_switch s AND 0xFFFF)) 0)]))"
proof (cases "pending_ctx_switch s = - 1")
  case True
  then show ?thesis using assms by (auto simp: trace_switch_def Let_def intro: exI [of _ "[]"])
next
  case False
  let ?a = "ucast (drop_bit 16 (pending_ctx_switch s))" and ?b = "ucast (pending_ctx_switch s AND 0xFFFF)"
  obtain tr f where f: "context_switch h now ?a ?b 0 (in_tracer s) = Some tr" "sent (fs @ [f]) tr"
    "decode_event f = Some (Switched ?a ?b 0)"
    using trace_emit_sent [OF assms, of h now "Switched ?a ?b 0"] by auto
  then show ?thesis using False by (auto simp: trace_switch_def Let_def intro!: exI [of _ "[f]"])
qed

lemma stream_header_sent:
  assumes "sent fs tr"
  shows "\<exists>tr' hs. reannounce_stream_header h now tr = Some tr' \<and> sent (fs @ hs) tr' \<and> length hs \<le> 1"
proof (cases "cached_cpu_hz tr = 0")
  case True
  then show ?thesis using assms by (auto simp: reannounce_stream_header_def intro: exI [of _ "[]"])
next
  case False
  obtain tr' f where "trace_emit h now (Header (cached_cpu_hz tr) (cached_max_harts tr)) tr = Some tr'"
    "sent (fs @ [f]) tr'"
    using trace_emit_sent [OF assms, of h now "Header (cached_cpu_hz tr) (cached_max_harts tr)"] by auto
  then show ?thesis using False by (auto simp: reannounce_stream_header_def intro!: exI [of _ "[f]"])
qed

lemma reannounce_sent:
  assumes s: "sent fs (in_tracer s)" and k: "max_ptasks k \<le> 32"
  shows "\<exists>s'. reannounce h now k s = Some s' \<and> pending_ctx_switch s' = pending_ctx_switch s \<and>
    in_hist s' = in_hist s \<and> reannounce_tick s' = reannounce_tick s + 1 \<and>
    (\<exists>ann. sent (fs @ ann) (in_tracer s') \<and> (unat (reannounce_tick s) mod 2000 \<noteq> 0 \<longrightarrow> ann = []))"
proof (cases "unat (reannounce_tick s) mod 2000 = 0")
  case False
  then show ?thesis using s by (auto simp: reannounce_def Let_def)
next
  case True
  have "\<forall>i \<in> set [0..<max_ptasks k]. i < 2 ^ 16" using k by auto
  from announce_sent [OF s this, of h now k]
  obtain tr as where a: "reannounce_all_tasks h now k (in_tracer s) = Some tr" "sent (fs @ as) tr"
    unfolding reannounce_all_tasks_def by blast
  obtain tr' hs where b: "reannounce_stream_header h now tr = Some tr'" "sent ((fs @ as) @ hs) tr'"
    using stream_header_sent [OF a(2)] by blast
  then show ?thesis using True a(1) by (auto simp: reannounce_def Let_def)
qed

text \<open>
  The instrumented tick decides what the bare one does, and the trace names the switch it made.
\<close>

lemma on_tick_spec:
  assumes g: "good k" and h: "h < max_harts k" and s: "sent fs (in_tracer s)" "pending_ctx_switch s = - 1"
  shows "\<exists>r k' s'. on_tick_locked h rd mem sp0 k = Some (r, k') \<and>
    on_tick ft h rd cycles now mem sp0 (k, s) = Some (r, k', s') \<and> pending_ctx_switch s' = - 1 \<and>
    (\<exists>sw ann. sent (fs @ sw @ ann) (in_tracer s') \<and>
      map decode_event sw = (case fst (tick_decision h rd mem sp0 k) of
        Switch_now a b \<Rightarrow> if trace_on ft then [Some (Switched (of_nat a) (of_nat b) 0)] else [] | _ \<Rightarrow> []) \<and>
      (trace_on ft \<and> unat (reannounce_tick s) mod 2000 = 0 \<or> ann = []))"
proof -
  obtain r k' where t: "on_tick_locked h rd mem sp0 k = Some (r, k')" "good k'" using tick_good [OF g h] by blast
  let ?d = "fst (tick_decision h rd mem sp0 k)"
  define s1 where "s1 = (let s0 = (if trace_on ft then note_switch ?d s else s)
    in if hist_on ft then s0\<lparr>in_hist := latency_record DispatchDecision cycles (in_hist s0)\<rparr> else s0)"
  have f1: "in_tracer s1 = in_tracer s" "reannounce_tick s1 = reannounce_tick s"
    "pending_ctx_switch s1 = (case ?d of Switch_now a b \<Rightarrow> if trace_on ft then pack_switch a b else - 1 | _ \<Rightarrow> - 1)"
    using s(2) by (auto simp: s1_def note_switch_def Let_def split: decision.splits)
  have sw: "a < 2 ^ 16 \<and> b < 2 ^ 16 \<and> r \<noteq> Halted" if "?d = Switch_now a b" for a b
    using decision_switch [OF g h that t(1)] good_wf(2) [OF g] by auto
  have ne: "pack_switch a b \<noteq> - 1" if "?d = Switch_now a b" for a b
  proof
    assume "pack_switch a b = - 1"
    then have "(of_nat b :: u32) = 0xFFFF" using pack_switch_fields(2) [of a b] sw [OF that] by simp
    then have "unat (of_nat b :: u32) = 0xFFFF" by simp
    moreover have "b < 32" using decision_switch(4) [OF g h that t(1)] good_wf(2) [OF g] by simp
    ultimately show False by (simp add: unat_of_nat take_bit_nat_eq_self)
  qed
  show ?thesis
  proof (cases "r = Halted \<or> \<not> trace_on ft")
    case True
    define s' where "s' = (if r = Halted then (if trace_on ft then note_switch ?d s else s) else s1)"
    have o: "on_tick ft h rd cycles now mem sp0 (k, s) = Some (r, k', s')"
      using True t(1) by (cases r) (auto simp: on_tick_def Let_def s1_def s'_def)
    have n: "r = Halted \<Longrightarrow> note_switch ?d s = s" "\<And>a b. ?d = Switch_now a b \<Longrightarrow> \<not> trace_on ft"
      using sw True by (auto simp: note_switch_def split: decision.splits)
    then have f: "in_tracer s' = in_tracer s" "pending_ctx_switch s' = - 1"
      using f1 s(2) True by (auto simp: s'_def split: decision.splits)
    have "\<exists>sw ann. sent (fs @ sw @ ann) (in_tracer s') \<and>
      map decode_event sw = (case ?d of
        Switch_now a b \<Rightarrow> if trace_on ft then [Some (Switched (of_nat a) (of_nat b) 0)] else [] | _ \<Rightarrow> []) \<and>
      (trace_on ft \<and> unat (reannounce_tick s) mod 2000 = 0 \<or> ann = [])"
      by (intro exI [of _ "[]"]) (use s f n in \<open>auto split: decision.splits\<close>)
    then show ?thesis by (intro exI [of _ r] exI [of _ k'] exI [of _ s'] conjI t(1) o f(2))
  next
    case False
    obtain s2 sw where s2: "trace_switch h now s1 = Some s2" "pending_ctx_switch s2 = - 1"
      "reannounce_tick s2 = reannounce_tick s1" "sent (fs @ sw) (in_tracer s2)"
      "map decode_event sw = (if pending_ctx_switch s1 = - 1 then []
       else [Some (Switched (ucast (drop_bit 16 (pending_ctx_switch s1))) (ucast (pending_ctx_switch s1 AND 0xFFFF)) 0)])"
      using trace_switch_sent [of fs s1 h now] s(1) f1(1) by auto
    obtain s3 ann where s3: "reannounce h now k' s2 = Some s3" "pending_ctx_switch s3 = pending_ctx_switch s2"
      "sent ((fs @ sw) @ ann) (in_tracer s3)" "unat (reannounce_tick s2) mod 2000 \<noteq> 0 \<longrightarrow> ann = []"
      using reannounce_sent [OF s2(4) good_wf(2) [OF t(2)], of h now] by blast
    have "on_tick ft h rd cycles now mem sp0 (k, s) = Some (r, k', s3)"
      using False t(1) s2(1) s3(1) by (cases r) (auto simp: on_tick_def Let_def s1_def)
    moreover have "map decode_event sw = (case ?d of Switch_now a b \<Rightarrow>
        if trace_on ft then [Some (Switched (of_nat a) (of_nat b) 0)] else [] | _ \<Rightarrow> [])"
      using False s2(5) ne sw pack_switch_fields
      by (auto simp: f1(3) split: decision.splits)
    moreover have "sent (fs @ sw @ ann) (in_tracer s3)" "pending_ctx_switch s3 = - 1"
      "trace_on ft \<and> unat (reannounce_tick s) mod 2000 = 0 \<or> ann = []"
      using s2 s3 f1(2) False by auto
    ultimately show ?thesis
      by (intro exI [of _ r] exI [of _ k'] exI [of _ s3] exI [of _ sw] exI [of _ ann] conjI t(1))
  qed
qed

end
