(* ===== verification/Riscv_Trap.thy ===== *)
theory Riscv_Trap
  imports Clint Plic Tick_Trace
begin

text \<open>
  The trap handler of the RISC-V port (\<open>rivet_trap_handler_rust\<close> of
  \<open>rivet-arch-riscv/src/lib.rs\<close>) with the CLINT and the PLIC: it dispatches on the cause, and
  returns the stack pointer to resume. What a trap reads from the hardware is an argument.
\<close>

section \<open>State and operations\<close>

datatype trap_cause = Interrupt nat | Exception nat

record rv_kernel =
  rk_kernel :: kernel
  rk_instr :: instruments
  rk_clint :: clint
  rk_plic :: plic
  rk_irqs :: irqs
  rk_calls :: "irq_action list"

record trap_inputs =
  ti_clk :: "nat \<Rightarrow> u64"
  ti_access :: nat
  ti_wd :: sw_watchdog
  ti_timeout :: u32
  ti_wd_now :: u64
  ti_entry_cycles :: u64
  ti_cycles :: u64
  ti_now :: u64
  ti_readings :: readings
  ti_mem :: "usize \<Rightarrow> u8"
  ti_claim :: u32
  ti_mepc :: usize
  ti_mtval :: usize

text \<open>The latency of the entry is recorded before the decision.\<close>

definition reschedule :: "features \<Rightarrow> nat \<Rightarrow> trap_inputs \<Rightarrow> usize \<Rightarrow> rv_kernel \<Rightarrow> (outcome \<times> rv_kernel) option" where
  "reschedule ft h ti interrupted_sp s = do {
     let ins = (if hist_on ft
                then (rk_instr s)\<lparr>in_hist := latency_record IrqEntry (ti_entry_cycles ti) (in_hist (rk_instr s))\<rparr>
                else rk_instr s);
     (r, k, ins1) \<leftarrow> on_tick ft h (ti_readings ti) (ti_cycles ti) (ti_now ti) (ti_mem ti) interrupted_sp
                       (rk_kernel s, ins);
     Some (r, s\<lparr>rk_kernel := k, rk_instr := ins1\<rparr>)
   }"

definition trap_fault :: "nat \<Rightarrow> nat \<Rightarrow> trap_inputs \<Rightarrow> kernel \<Rightarrow> fault_info" where
  "trap_fault h code ti k = \<lparr>fault_task = current h k,
     fault_kind = (if code = 1 then InstructionAccess else if code = 5 then LoadAccess else StoreAccess),
     fault_address = ti_mtval ti, fault_pc = ti_mepc ti\<rparr>"

definition trap_handler :: "features \<Rightarrow> nat \<Rightarrow> trap_inputs \<Rightarrow> trap_cause \<Rightarrow> usize \<Rightarrow> rv_kernel \<Rightarrow> (outcome \<times> rv_kernel) option" where
  "trap_handler ft h ti cause interrupted_sp s = (case cause of
     Interrupt code \<Rightarrow>
       (if code = 7 then do {
          (reset, c, k) \<leftarrow> on_timer_irq (ti_clk ti) (ti_access ti) h (ti_wd ti) (ti_timeout ti) (ti_wd_now ti)
                             (rk_clint s, rk_kernel s);
          (if reset then Some (Halted, s\<lparr>rk_clint := c, rk_kernel := k\<rparr>)
           else reschedule ft h ti interrupted_sp (s\<lparr>rk_clint := c, rk_kernel := k\<rparr>))
        }
        else if code = 3 then do {
          c \<leftarrow> ack_soft_irq h (rk_clint s);
          reschedule ft h ti interrupted_sp (s\<lparr>rk_clint := c\<rparr>)
        }
        else if code = 11 then do {
          (acts, p) \<leftarrow> claim_dispatch_complete (trace_on ft) (ti_claim ti) (rk_irqs s) (rk_plic s);
          Some (Resume interrupted_sp, s\<lparr>rk_plic := p, rk_calls := rk_calls s @ acts\<rparr>)
        }
        else Some (Resume interrupted_sp, s))
   | Exception code \<Rightarrow>
       (if code \<in> {1, 5, 7}
        then do {
          (r, k) \<leftarrow> on_fault h (ti_mem ti) (trap_fault h code ti (rk_kernel s)) (rk_kernel s);
          Some (r, s\<lparr>rk_kernel := k\<rparr>)
        }
        else None))"

section \<open>What a poll of the timers leaves alone\<close>

lemma scan_timers_frame:
  "scan_timers is now woke k = Some (w, k') \<Longrightarrow> tasks k' = tasks k \<and> current_ids k' = current_ids k"
proof (induction "is" arbitrary: k woke)
  case (Cons i "is")
  then show ?case by (auto simp: mark_ready_def Let_def split: if_splits bind_splits option.splits)
qed simp

lemma unblock_tasks:
  assumes "good k" and "unblock h i k = Some k'"
  shows "current_ids k' = current_ids k" "ptask_deadlines k' = ptask_deadlines k"
    "map (\<lambda>t. t\<lparr>raw_state := READY\<rparr>) (tasks k') = map (\<lambda>t. t\<lparr>raw_state := READY\<rparr>) (tasks k)"
    "j \<noteq> i \<Longrightarrow> tasks k' ! j = tasks k ! j" "good k'"
  using assms unblock_good [OF assms(1), of h i]
  by (auto simp: unblock_wf goodD enqueue_def wake_other_harts_def set_ready_words_def upd_task_def map_upd_at
      split: if_splits)

lemma scan_ptasks_frame:
  "scan_ptasks is h now woke k = Some (w, k') \<Longrightarrow> good k \<Longrightarrow> current_ids k' = current_ids k \<and>
    map (\<lambda>t. t\<lparr>raw_state := READY\<rparr>) (tasks k') = map (\<lambda>t. t\<lparr>raw_state := READY\<rparr>) (tasks k) \<and>
    (\<forall>j. \<not> expired now (ptask_deadlines k ! j) \<longrightarrow> tasks k' ! j = tasks k ! j)"
proof (induction "is" arbitrary: k woke)
  case (Cons i "is")
  show ?case
  proof (cases "expired now (ptask_deadlines k ! i)")
    case False
    then show ?thesis using Cons by simp
  next
    case True
    let ?k0 = "k\<lparr>ptask_deadlines := (ptask_deadlines k)[i := 0]\<rparr>"
    obtain k1 where k1: "unblock h i ?k0 = Some k1" "scan_ptasks is h now True k1 = Some (w, k')"
      using Cons.prems(1) True by (auto split: bind_splits)
    have g0: "good ?k0" using Cons.prems(2) by simp
    note u = unblock_tasks [OF g0 k1(1)]
    have "\<not> expired now (ptask_deadlines k1 ! j)" if "\<not> expired now (ptask_deadlines k ! j)" for j
      using that u(2) True by (cases "j = i") (auto simp: nth_list_update expired_def)
    then have "tasks k' ! j = tasks k ! j" if "\<not> expired now (ptask_deadlines k ! j)" for j
      using that Cons.IH [OF k1(2) u(5)] u(4) [of j] True by (cases "j = i") auto
    then show ?thesis using Cons.IH [OF k1(2) u(5)] u(1,3) by simp
  qed
qed simp

lemma poll_timers_frame:
  assumes g: "good k" and t: "timers_ok k" and p: "poll_timers h now k = Some k'"
  shows "current_ids k' = current_ids k" "max_ptasks k' = max_ptasks k"
    "map (\<lambda>t. t\<lparr>raw_state := READY\<rparr>) (tasks k') = map (\<lambda>t. t\<lparr>raw_state := READY\<rparr>) (tasks k)"
    "\<not> expired now (ptask_deadlines k ! j) \<Longrightarrow> tasks k' ! j = tasks k ! j"
proof -
  let ?is = "[0..<length (timer_slots k)]"
  have pre: "distinct ?is" "\<forall>i \<in> set ?is. i < length (timer_slots k)" by auto
  obtain w k1 where r: "scan_timers ?is now False k = Some (w, k1)" "good k1"
    "tasks k1 = tasks k" "ptask_deadlines k1 = ptask_deadlines k"
    using scan_timers_spec [OF pre t g, of now False] by blast
  have c1: "current_ids k1 = current_ids k" using scan_timers_frame [OF r(1)] by simp
  define k2 where "k2 = (if w then broadcast_reschedule h k1 else k1)"
  have k2: "good k2" "tasks k2 = tasks k" "ptask_deadlines k2 = ptask_deadlines k" "current_ids k2 = current_ids k"
    using r c1 by (simp_all add: k2_def broadcast_reschedule_def)
  obtain w2 k3 where s: "scan_ptasks [0..<length (ptask_deadlines k2)] h now False k2 = Some (w2, k3)"
    "k' = (if w2 then broadcast_reschedule h k3 else k3)"
    using p r(1) by (auto simp: poll_timers_def poll_ptask_deadlines_def k2_def [symmetric] split: bind_splits)
  have f: "tasks k' = tasks k3" "current_ids k' = current_ids k3"
    by (simp_all add: s(2) broadcast_reschedule_def)
  note sp = scan_ptasks_frame [OF s(1) k2(1)]
  show "current_ids k' = current_ids k"
    "map (\<lambda>t. t\<lparr>raw_state := READY\<rparr>) (tasks k') = map (\<lambda>t. t\<lparr>raw_state := READY\<rparr>) (tasks k)"
    "\<not> expired now (ptask_deadlines k ! j) \<Longrightarrow> tasks k' ! j = tasks k ! j"
    using sp k2 by (simp_all add: f)
  from this(2) show "max_ptasks k' = max_ptasks k" by (rule map_eq_imp_length_eq)
qed

lemma same_but_state:
  assumes "map (\<lambda>t. t\<lparr>raw_state := READY\<rparr>) ts' = map (\<lambda>t. t\<lparr>raw_state := READY\<rparr>) ts" and "j < length ts"
  shows "effective_priority (ts' ! j) = effective_priority (ts ! j)" "sp (ts' ! j) = sp (ts ! j)"
proof -
  have "(ts' ! j)\<lparr>raw_state := READY\<rparr> = (ts ! j)\<lparr>raw_state := READY\<rparr>"
    using assms map_eq_imp_length_eq [OF assms(1)] by (metis nth_map)
  then have "effective_priority ((ts' ! j)\<lparr>raw_state := READY\<rparr>) = effective_priority ((ts ! j)\<lparr>raw_state := READY\<rparr>)"
    "sp ((ts' ! j)\<lparr>raw_state := READY\<rparr>) = sp ((ts ! j)\<lparr>raw_state := READY\<rparr>)" by simp_all
  then show "effective_priority (ts' ! j) = effective_priority (ts ! j)" "sp (ts' ! j) = sp (ts ! j)" by simp_all
qed

section \<open>The timer interrupt\<close>

lemma watchdog_silent: "watchdog_on_tick w timeout now k = Some (False, k1) \<Longrightarrow> k1 = k"
proof -
  have sc: "scan_checkins is t n k = Some (False, k1) \<Longrightarrow> k1 = k" for "is" t n
    by (induction "is" t n k rule: scan_checkins.induct) (auto simp: Let_def split: if_splits bind_splits)
  assume "watchdog_on_tick w timeout now k = Some (False, k1)"
  then show ?thesis
    using sc by (auto simp: watchdog_on_tick_def wdt_check_def check_task_checkins_def split: if_splits)
qed

lemma on_timer_irq_spec:
  assumes g: "good k" and t: "timers_ok k" and w: "watchdog_on_tick w timeout wd_now k = Some (False, k0)"
    and us: "now_micros clk n c = Some (us, n1)" and rd: "read_mtime clk n1 = Some (tm, n2)"
    and due: "mtimecmp_prev c \<le> tm" "unat tm + unat (tick_period c) < 2 ^ 64"
  shows "\<exists>k1. poll_timers h us k = Some k1 \<and> polled us k k1 \<and>
    on_timer_irq clk n h w timeout wd_now (c, k) = Some (False, arm (tm + tick_period c) c, k1)"
proof -
  obtain k1 where k1: "poll_timers h us k = Some k1" "polled us k k1" using poll_timers_spec [OF g t] by blast
  then show ?thesis
    using w watchdog_silent [OF w] us rd rearm_from_now [OF due] by (simp add: on_timer_irq_def)
qed

text \<open>
  From a running task: the interrupt expires what is due, arms the next tick and resumes a task
  that no due sleeper outranks.
\<close>

lemma timer_trap_spec:
  fixes s :: rv_kernel and ti :: trap_inputs
  defines "k \<equiv> rk_kernel s"
  assumes g: "good k" and t: "timers_ok k" and h: "h < max_harts k" and r: "runs h k i"
    and awake: "\<not> expired us (ptask_deadlines k ! i)"
    and w: "watchdog_on_tick (ti_wd ti) (ti_timeout ti) (ti_wd_now ti) k = Some (False, k0)"
    and us: "now_micros (ti_clk ti) (ti_access ti) (rk_clint s) = Some (us, n1)"
    and rd: "read_mtime (ti_clk ti) n1 = Some (tm, n2)"
    and due: "mtimecmp_prev (rk_clint s) \<le> tm" "unat tm + unat (tick_period (rk_clint s)) < 2 ^ 64"
    and ins: "sent fs (in_tracer (rk_instr s))" "pending_ctx_switch (rk_instr s) = - 1"
    and nf: "\<And>k1. poll_timers h us k = Some k1 \<Longrightarrow> \<not> tick_faults i (ti_readings ti) (ti_mem ti) (store_sp i sp0 k1)"
  shows "\<exists>res s' c. trap_handler ft h ti (Interrupt 7) sp0 s = Some (res, s') \<and> runs h (rk_kernel s') c \<and>
    good (rk_kernel s') \<and> mtimecmp (rk_clint s') = tm + tick_period (rk_clint s) \<and>
    (\<forall>j < length (ptask_deadlines k). expired us (ptask_deadlines k ! j) \<and> task_live k j \<longrightarrow>
       effective_priority (tasks k ! j) \<le> effective_priority (tasks k ! c)) \<and>
    res = Resume (if c = i then sp0 else sp (tasks k ! c))"
proof -
  obtain k1 where k1: "poll_timers h us k = Some k1" "polled us k k1"
    "on_timer_irq (ti_clk ti) (ti_access ti) h (ti_wd ti) (ti_timeout ti) (ti_wd_now ti) (rk_clint s, k) =
      Some (False, arm (tm + tick_period (rk_clint s)) (rk_clint s), k1)"
    using on_timer_irq_spec [OF g t w us rd due] by blast
  note fr = poll_timers_frame [OF g t k1(1)]
  have g1: "good k1" and rdy: "\<And>j. task_ready k1 j \<longleftrightarrow> task_ready k j \<or>
      (j < length (ptask_deadlines k) \<and> expired us (ptask_deadlines k ! j) \<and> task_live k j)"
    using k1(2) by (auto simp: polled_def)
  have ti: "tasks k1 ! i = tasks k ! i" by (rule fr(4)) (rule awake)
  have r1: "runs h k1 i" using r fr(1,2) ti by (simp add: runs_def current_def task_live_def)
  let ?ins = "if hist_on ft then (rk_instr s)\<lparr>in_hist := latency_record IrqEntry (ti_entry_cycles ti) (in_hist (rk_instr s))\<rparr>
    else rk_instr s"
  have ins1: "sent fs (in_tracer ?ins)" "pending_ctx_switch ?ins = - 1" using ins by simp_all
  obtain res k2 ins2 where o: "on_tick_locked h (ti_readings ti) (ti_mem ti) sp0 k1 = Some (res, k2)"
    "on_tick ft h (ti_readings ti) (ti_cycles ti) (ti_now ti) (ti_mem ti) sp0 (k1, ?ins) = Some (res, k2, ins2)"
    using on_tick_spec [OF g1 _ ins1] h fr(1) by metis
  have h1: "h < max_harts k1" using h fr(1) by simp
  have g2: "good k2" using tick_good [OF g1 h1, of "ti_readings ti" "ti_mem ti" sp0] o(1) by auto
  obtain c where c: "runs h k2 c" "c = i \<longrightarrow> res = Resume sp0"
    "c \<noteq> i \<longrightarrow> best_ready k1 c \<and> res = Resume (sp (tasks k1 ! c))"
    "\<forall>j. queued k1 j \<longrightarrow> effective_priority (tasks k1 ! j) \<le> effective_priority (tasks k1 ! c)"
    using tick_runs_highest [OF g1 _ r1 nf [OF k1(1)] o(1)] h fr(1) by metis
  have cl: "c < max_ptasks k"
    using c(3) best_readyD(2) [OF goodD(2) [OF g1], of c] r fr(2) by (cases "c = i") (auto simp: runs_def task_live_def)
  have top: "effective_priority (tasks k ! j) \<le> effective_priority (tasks k ! c)"
    if j: "j < length (ptask_deadlines k)" "expired us (ptask_deadlines k ! j)" "task_live k j" for j
  proof -
    have "task_ready k1 j" using rdy j by blast
    then have "queued k1 j" by (rule task_ready_queued [OF g1])
    moreover have "j < max_ptasks k" using j(3) by (simp add: task_live_def)
    ultimately show ?thesis using c(4) same_but_state(1) [OF fr(3)] cl by metis
  qed
  have res: "res = Resume (if c = i then sp0 else sp (tasks k ! c))"
    using c(2,3) same_but_state(2) [OF fr(3) cl] by auto
  let ?s = "s\<lparr>rk_clint := arm (tm + tick_period (rk_clint s)) (rk_clint s), rk_kernel := k2, rk_instr := ins2\<rparr>"
  have "trap_handler ft h ti (Interrupt 7) sp0 s = Some (res, ?s)"
    using k1(3) o(2) by (cases "hist_on ft") (simp_all add: trap_handler_def reschedule_def k_def)
  then show ?thesis using c(1) g2 top res by (intro exI [of _ res] exI [of _ ?s] exI [of _ c]) auto
qed

end
