(* ===== verification/Props_Ports.thy ===== *)
theory Props_Ports
  imports Pmp Riscv_Context Riscv_Trap Demo
begin

text \<open>The properties of the processor ports.\<close>

section \<open>Stack guards\<close>




section \<open>Context switches\<close>



text \<open>
  C33: the frame \<open>init_task_stack\<close> builds on a stack of at least the minimal size is a context: it
  lies inside the stack, clear of its lowest word, is 16-byte aligned, and resuming it starts
  the trampoline, which calls the task's entry with its argument.
\<close>
theorem initial_frame_is_a_context:
  assumes "MIN_TASK_STACK \<le> stack_len" and "unat stack_ptr + unat stack_len < 2 ^ 32"
    and "init_task_stack trampoline stack_ptr stack_len entry_fn arg m = (f, m')"
    and "gpr s 2 = f" and "ram s = m'"
  shows "unat f mod 16 = 0 \<and> unat f + 128 \<le> unat stack_ptr + unat stack_len \<and>
    (\<forall>a. m' a \<noteq> m a \<longrightarrow> unat stack_ptr + 4 \<le> unat a \<and> unat a < unat stack_ptr + unat stack_len) \<and>
    mepc (rv_exec trap_resume s) = trampoline \<and> gpr (rv_exec trap_resume s) 2 = f + 128 \<and>
    gpr (rv_exec ptask_trampoline (rv_exec trap_resume s)) 10 = arg \<and>
    gpr (rv_exec ptask_trampoline (rv_exec trap_resume s)) 9 = entry_fn"
proof -
  have f: "f = frame_start stack_ptr stack_len" using assms(3) by (auto simp: init_task_stack_def Let_def)
  note b = init_task_stack_frame [OF assms(1,2), folded f]
  have "unat stack_ptr + 4 \<le> unat a \<and> unat a < unat stack_ptr + unat stack_len" if ne: "m' a \<noteq> m a" for a
  proof -
    obtain i :: nat where i: "i < 32" "a = f + 4 * of_nat i"
      using init_task_stack_holds(2) [OF assms(3), of a] ne unfolding in_frame_def by blast
    have o: "unat (of_nat (4 * i) :: usize) = 4 * i" unfolding unat_of_nat by (rule mod_less) (use i(1) in simp)
    have e: "a = f + of_nat (4 * i)" using i(2) by simp
    have "unat f + unat (of_nat (4 * i) :: usize) < 2 ^ 32" unfolding o using i(1) b(2) assms(2) by linarith
    then have "unat a = unat f + 4 * i" using unat_add_small [of f "of_nat (4 * i)"] o unfolding e by simp
    then show ?thesis using b(1,2) i(1) by linarith
  qed
  then show ?thesis using b first_run [OF assms(3-5)] by auto
qed

theorem initial_frame_is_a_context_witness:
  "let (f, m') = init_task_stack 0x80 0x2000 512 0x400 0x99 (\<lambda>_. 0xAAAAAAAA);
       s = \<lparr>gpr = (\<lambda>_. 0)(2 := f), ram = m', mepc = 0, mscratch = 0, mstatus = 0, mhartid = 0\<rparr>
   in mepc (rv_exec trap_resume s) = 0x80 \<and> gpr (rv_exec ptask_trampoline (rv_exec trap_resume s)) 10 = 0x99"
proof -
  obtain f m' where i: "init_task_stack 0x80 0x2000 512 0x400 0x99 (\<lambda>_. 0xAAAAAAAA) = (f, m')" by fastforce
  let ?s = "\<lparr>gpr = (\<lambda>_. 0)(2 := f), ram = m', mepc = 0, mscratch = 0, mstatus = 0, mhartid = 0\<rparr>"
  have "MIN_TASK_STACK \<le> 512" "unat (0x2000 :: usize) + unat (512 :: usize) < 2 ^ 32" "gpr ?s 2 = f" "ram ?s = m'"
    by (simp_all add: MIN_TASK_STACK_def)
  from initial_frame_is_a_context [OF this(1,2) i this(3,4)] show ?thesis by (simp add: i Let_def)
qed

section \<open>The tick\<close>

text \<open>
  The timer is read without tearing: when six bus accesses take less than a wrap of its low
  word the reading loop ends in its first or second round, with a value the counter had during
  the call. And while the compare register is rewritten it never holds an earlier time than
  both the old and the new one, so no spurious tick fires.
\<close>
theorem timer_access_is_tear_free:
  assumes "\<forall>m < 5. unat (clk (n + m)) \<le> unat (clk (Suc (n + m)))"
    and "unat (clk (n + 5)) < unat (clk n) + 2 ^ 32"
  shows "(\<exists>m n'. read_mtime clk n = Some (clk m, n') \<and> n \<le> m \<and> m < n' \<and> n' \<le> n + 6) \<and>
    last (write_mtimecmp val old) = val \<and>
    (\<forall>x \<in> set (write_mtimecmp val old). unat (min old val) \<le> unat x)"
proof -
  have "\<exists>m n'. read_mtime clk n = Some (clk m, n') \<and> n \<le> m \<and> m < n' \<and> n' \<le> n + 6"
    using read_mtime_ok [OF assms]
  proof
    assume "read_mtime clk n = Some (clk (n + 1), n + 3)"
    then show ?thesis by (intro exI [of _ "n + 1"] exI [of _ "n + 3"]) simp
  next
    assume "read_mtime clk n = Some (clk (n + 4), n + 6)"
    then show ?thesis by (intro exI [of _ "n + 4"] exI [of _ "n + 6"]) simp
  qed
  then show ?thesis using write_mtimecmp_safe by blast
qed

theorem timer_access_is_tear_free_witness:
  "\<exists>m n'. read_mtime (\<lambda>n. 0xFFFFFFFE + of_nat n) 0 = Some (0xFFFFFFFE + of_nat m, n')"
proof -
  let ?clk = "\<lambda>n. 0xFFFFFFFE + of_nat n :: u64"
  have "\<forall>m < 5. unat (?clk (0 + m)) \<le> unat (?clk (Suc (0 + m)))"
  proof (intro allI impI)
    fix m :: nat assume "m < 5"
    then consider "m = 0" | "m = 1" | "m = 2" | "m = 3" | "m = 4" by linarith
    then show "unat (?clk (0 + m)) \<le> unat (?clk (Suc (0 + m)))" by cases simp_all
  qed
  moreover have "unat (?clk (0 + 5)) < unat (?clk 0) + 2 ^ 32" by simp
  ultimately show ?thesis using timer_access_is_tear_free [of ?clk 0] by blast
qed

text \<open>
  Although the next tick is computed from the previous compare value, its maximum with the
  present always wins: after any run of tick interrupts the compare value has advanced by one
  period and by the lateness of the interrupt for each of them, so the cadence drifts.
\<close>
theorem tick_cadence_drifts:
  assumes "all_due (unat (tick_period c)) (unat (mtimecmp_prev c)) (map unat ts)"
    and "mtimecmp c = mtimecmp_prev c"
  shows "\<exists>c'. tick_times ts c = Some c' \<and>
    unat (mtimecmp c') = unat (mtimecmp c) + length ts * unat (tick_period c) +
      sum_list (lateness (unat (tick_period c)) (unat (mtimecmp c)) (map unat ts))"
  using tick_times_drift [OF assms] by blast

theorem tick_cadence_drifts_witness:
  "\<exists>c'. tick_times [1010, 2030] \<lparr>clint_base = 0x2000000, mtime_hz = 1000000, tick_period = 1000,
      mtimecmp_prev = 1000, mtimecmp = 1000, msip = [0], mie_mtimer = True, mie_msoft = True\<rparr> = Some c' \<and>
    unat (mtimecmp c') = 3030"
  using tick_cadence_drifts [of "\<lparr>clint_base = 0x2000000, mtime_hz = 1000000, tick_period = 1000,
      mtimecmp_prev = 1000, mtimecmp = 1000, msip = [0], mie_mtimer = True, mie_msoft = True\<rparr>" "[1010, 2030]"]
  by simp

text \<open>
  The instrumented tick decides and changes the kernel exactly as the bare one, and with
  tracing on the stream gains one switch event for each switch between tasks and none
  otherwise, naming the task that was current before and the one that is current after.
\<close>
theorem tracing_does_not_interfere:
  assumes "good k" and "h < max_harts k" and "sent fs (in_tracer s)" and "pending_ctx_switch s = - 1"
  shows "\<exists>r k' s' sw ann. on_tick_locked h rd mem sp0 k = Some (r, k') \<and>
    on_tick ft h rd cycles now mem sp0 (k, s) = Some (r, k', s') \<and> pending_ctx_switch s' = - 1 \<and>
    sent (fs @ sw @ ann) (in_tracer s') \<and>
    (case fst (tick_decision h rd mem sp0 k) of
       Switch_now a b \<Rightarrow> current h k = Some a \<and> current h k' = Some b \<and> a \<noteq> b \<and>
         map decode_event sw = (if trace_on ft then [Some (Switched (of_nat a) (of_nat b) 0)] else [])
     | _ \<Rightarrow> sw = []) \<and>
    (trace_on ft \<and> unat (reannounce_tick s) mod 2000 = 0 \<or> ann = [])"
proof -
  obtain r k' s' sw ann where o: "on_tick_locked h rd mem sp0 k = Some (r, k')"
    "on_tick ft h rd cycles now mem sp0 (k, s) = Some (r, k', s')" "pending_ctx_switch s' = - 1"
    "sent (fs @ sw @ ann) (in_tracer s')"
    "map decode_event sw = (case fst (tick_decision h rd mem sp0 k) of
        Switch_now a b \<Rightarrow> if trace_on ft then [Some (Switched (of_nat a) (of_nat b) 0)] else [] | _ \<Rightarrow> [])"
    "trace_on ft \<and> unat (reannounce_tick s) mod 2000 = 0 \<or> ann = []"
    using on_tick_spec [OF assms, of rd mem sp0 ft cycles now] by (elim exE conjE) (rule that)
  have "case fst (tick_decision h rd mem sp0 k) of
       Switch_now a b \<Rightarrow> current h k = Some a \<and> current h k' = Some b \<and> a \<noteq> b \<and>
         map decode_event sw = (if trace_on ft then [Some (Switched (of_nat a) (of_nat b) 0)] else [])
     | _ \<Rightarrow> sw = []"
    using o(5) decision_switch [OF assms(1,2) _ o(1)] by (auto split: decision.splits)
  then show ?thesis using o by (intro exI conjI)
qed

theorem tracing_does_not_interfere_witness:
  "\<exists>r k' s'. on_tick \<lparr>trace_on = True, hist_on = True\<rparr> 0 demo_rd 7 9 demo_mem 0x2000 (demo_run, instruments_boot) =
      Some (r, k', s') \<and> on_tick_locked 0 demo_rd demo_mem 0x2000 demo_run = Some (r, k')"
proof -
  have "sent [] (in_tracer instruments_boot)" "pending_ctx_switch instruments_boot = - 1"
    by (simp_all add: instruments_boot_def sent_boot)
  moreover have "0 < max_harts demo_run" by (simp add: demo_run_facts)
  ultimately show ?thesis
    using tracing_does_not_interfere [OF reach_good [OF reach_run], of 0 "[]" instruments_boot demo_rd demo_mem "0x2000"
      "\<lparr>trace_on = True, hist_on = True\<rparr>" 7 9] by blast
qed

section \<open>The timer interrupt\<close>

text \<open>
  C30: a timer trap taken in a running task, with no watchdog reset, no stack or budget fault and
  no wrap of the compare value, always returns to a running task: every sleeper whose deadline
  has passed has been woken, no such sleeper outranks the task that is resumed, the compare
  register is one period ahead of the counter, and the stack pointer returned is the one the
  resumed task was interrupted with.
\<close>
theorem timer_trap_serves_due_sleepers:
  fixes s :: rv_kernel and ti :: trap_inputs
  assumes "good (rk_kernel s)" and "timers_ok (rk_kernel s)" and "h < max_harts (rk_kernel s)"
    and "runs h (rk_kernel s) i" and "\<not> expired us (ptask_deadlines (rk_kernel s) ! i)"
    and "watchdog_on_tick (ti_wd ti) (ti_timeout ti) (ti_wd_now ti) (rk_kernel s) = Some (False, k0)"
    and "now_micros (ti_clk ti) (ti_access ti) (rk_clint s) = Some (us, n1)"
    and "read_mtime (ti_clk ti) n1 = Some (tm, n2)"
    and "mtimecmp_prev (rk_clint s) \<le> tm" and "unat tm + unat (tick_period (rk_clint s)) < 2 ^ 64"
    and "sent fs (in_tracer (rk_instr s))" and "pending_ctx_switch (rk_instr s) = - 1"
    and "\<And>k1. poll_timers h us (rk_kernel s) = Some k1 \<Longrightarrow>
      \<not> tick_faults i (ti_readings ti) (ti_mem ti) (store_sp i sp0 k1)"
  shows "\<exists>res s' c. trap_handler ft h ti (Interrupt 7) sp0 s = Some (res, s') \<and> runs h (rk_kernel s') c \<and>
    good (rk_kernel s') \<and> mtimecmp (rk_clint s') = tm + tick_period (rk_clint s) \<and>
    (\<forall>j < length (ptask_deadlines (rk_kernel s)).
       expired us (ptask_deadlines (rk_kernel s) ! j) \<and> task_live (rk_kernel s) j \<longrightarrow>
       effective_priority (tasks (rk_kernel s) ! j) \<le> effective_priority (tasks (rk_kernel s) ! c)) \<and>
    res = Resume (if c = i then sp0 else sp (tasks (rk_kernel s) ! c))"
  using timer_trap_spec [OF assms(1-13)] .

definition demo_trap :: trap_inputs where
  "demo_trap = \<lparr>ti_clk = (\<lambda>_. 2000), ti_access = 0, ti_wd = \<lparr>wd_period_us = 0, wd_deadline_us = 0\<rparr>,
     ti_timeout = 0, ti_wd_now = 0, ti_entry_cycles = 0, ti_cycles = 0, ti_now = 0, ti_readings = demo_rd,
     ti_mem = demo_mem, ti_claim = 0, ti_mepc = 0, ti_mtval = 0\<rparr>"

definition demo_hart :: rv_kernel where
  "demo_hart = \<lparr>rk_kernel = smp_asleep, rk_instr = instruments_boot,
     rk_clint = \<lparr>clint_base = 0x2000000, mtime_hz = 1000000, tick_period = 1000, mtimecmp_prev = 1500,
       mtimecmp = 1500, msip = [0, 0], mie_mtimer = True, mie_msoft = True\<rparr>,
     rk_plic = plic_boot, rk_irqs = irq_boot demo_config, rk_calls = []\<rparr>"

theorem timer_trap_serves_due_sleepers_witness:
  "\<exists>res s'. trap_handler \<lparr>trace_on = True, hist_on = True\<rparr> 1 demo_trap (Interrupt 7) 0x5000 demo_hart = Some (res, s') \<and>
    mtimecmp (rk_clint s') = 3000 \<and> good (rk_kernel s')"
proof -
  have k: "good (rk_kernel demo_hart)" "timers_ok (rk_kernel demo_hart)"
    using reach_asleep by (simp_all add: demo_hart_def reach_good reach_timers)
  have f: "1 < max_harts (rk_kernel demo_hart)" "runs 1 (rk_kernel demo_hart) 1"
    "\<not> expired 2000 (ptask_deadlines (rk_kernel demo_hart) ! 1)"
    "watchdog_on_tick (ti_wd demo_trap) (ti_timeout demo_trap) (ti_wd_now demo_trap) (rk_kernel demo_hart) =
      Some (False, rk_kernel demo_hart)"
    "\<not> tick_faults 1 (ti_readings demo_trap) (ti_mem demo_trap)
       (store_sp 1 0x5000 (the (poll_timers 1 2000 (rk_kernel demo_hart))))"
    by code_simp+
  have r: "read_mtime (ti_clk demo_trap) n = Some (2000, n + 3)" for n
    by (subst read_mtime.simps) (simp add: demo_trap_def hi32_def lo32_def join64_def)
  have us: "now_micros (ti_clk demo_trap) (ti_access demo_trap) (rk_clint demo_hart) = Some (2000, 3)"
    using r [of 0] by (simp add: now_micros_def demo_trap_def demo_hart_def)
  have i: "sent [] (in_tracer (rk_instr demo_hart))" "pending_ctx_switch (rk_instr demo_hart) = - 1"
    "mtimecmp_prev (rk_clint demo_hart) \<le> 2000"
    "unat (2000 :: u64) + unat (tick_period (rk_clint demo_hart)) < 2 ^ 64"
    "tick_period (rk_clint demo_hart) = 1000"
    by (simp_all add: demo_hart_def instruments_boot_def sent_boot)
  have nf: "\<not> tick_faults 1 (ti_readings demo_trap) (ti_mem demo_trap) (store_sp 1 0x5000 k1)"
    if "poll_timers 1 2000 (rk_kernel demo_hart) = Some k1" for k1
    using f(5) that by simp
  from timer_trap_serves_due_sleepers [OF k f(1-4) us r i(3,4,1,2) nf] i(5) show ?thesis by fastforce
qed

end
