(* ===== verification/Mpu.thy ===== *)
theory Mpu
  imports Stack_Pool
begin

text \<open>
  Stack isolation of the Cortex-M port (\<open>rivet-arch-cortex-m/src/mpu.rs\<close>): region 6 denies the
  whole stack pool, region 7 allows the stack of the running task and wins where they overlap.
  The registers of the memory protection unit follow the ARMv7-M architecture.
\<close>

section \<open>The registers\<close>

record mpu =
  mpu_ctrl :: u32
  mpu_rnr :: u32
  mpu_rbar :: "u32 list"
  mpu_rasr :: "u32 list"

text \<open>Eight regions, all disabled at reset.\<close>

definition mpu_reset :: mpu where
  "mpu_reset = \<lparr>mpu_ctrl = 0, mpu_rnr = 0, mpu_rbar = replicate 8 0, mpu_rasr = replicate 8 0\<rparr>"

definition rnr_write :: "u32 \<Rightarrow> mpu \<Rightarrow> mpu" where
  "rnr_write v m = m\<lparr>mpu_rnr := v\<rparr>"

text \<open>With its VALID bit a base address names its region, and selects it.\<close>

definition rbar_write :: "u32 \<Rightarrow> mpu \<Rightarrow> mpu" where
  "rbar_write v m =
    (let m1 = (if bit v 4 then m\<lparr>mpu_rnr := v AND 0xF\<rparr> else m)
     in m1\<lparr>mpu_rbar := (mpu_rbar m1)[unat (mpu_rnr m1) := v AND NOT 0x1F]\<rparr>)"

definition rasr_write :: "u32 \<Rightarrow> mpu \<Rightarrow> mpu" where
  "rasr_write v m = m\<lparr>mpu_rasr := (mpu_rasr m)[unat (mpu_rnr m) := v]\<rparr>"

section \<open>The driver\<close>

definition RASR_XN :: u32 where "RASR_XN = 0x10000000"
definition RASR_AP_NO_ACCESS :: u32 where "RASR_AP_NO_ACCESS = 0"
definition RASR_AP_RW :: u32 where "RASR_AP_RW = 0x3000000"
definition RASR_ENABLE :: u32 where "RASR_ENABLE = 1"
definition RBAR_VALID :: u32 where "RBAR_VALID = 0x10"
definition POOL_DENY_REGION :: u32 where "POOL_DENY_REGION = 6"
definition CURRENT_STACK_REGION :: u32 where "CURRENT_STACK_REGION = 7"

definition is_power_of_two :: "usize \<Rightarrow> bool" where
  "is_power_of_two w \<longleftrightarrow> w \<noteq> 0 \<and> w AND (w - 1) = 0"

text \<open>The size field of an odd size underflows.\<close>

definition write_region :: "u32 \<Rightarrow> usize \<Rightarrow> usize \<Rightarrow> u32 \<Rightarrow> bool \<Rightarrow> mpu \<Rightarrow> mpu option" where
  "write_region region base sz ap xn m =
    (if trailing_zeros sz = 0 then None
     else let size_field = of_nat (trailing_zeros sz - 1) :: u32;
              m1 = rnr_write region m;
              m2 = rbar_write (base OR RBAR_VALID OR region) m1
          in Some (rasr_write ((if xn then RASR_XN else 0) OR ap OR push_bit 1 size_field OR RASR_ENABLE) m2))"

definition mpu_init :: "usize \<Rightarrow> usize \<Rightarrow> mpu \<Rightarrow> mpu option" where
  "mpu_init base len m =
    (if \<not> is_power_of_two len then None
     else do {
       m1 \<leftarrow> write_region POOL_DENY_REGION base len RASR_AP_NO_ACCESS True m;
       Some (m1\<lparr>mpu_ctrl := 5\<rparr>)
     })"

definition set_current_stack :: "usize \<Rightarrow> usize \<Rightarrow> mpu \<Rightarrow> mpu option" where
  "set_current_stack base sz m =
    (if base = 0 then Some m
     else if \<not> is_power_of_two sz then None
     else write_region CURRENT_STACK_REGION base sz RASR_AP_RW True m)"

definition disable_for_scope :: "mpu \<Rightarrow> u32 \<times> mpu" where
  "disable_for_scope m = (mpu_ctrl m, m\<lparr>mpu_ctrl := mpu_ctrl m AND NOT 1\<rparr>)"

definition restore_after_scope :: "u32 \<Rightarrow> mpu \<Rightarrow> mpu" where
  "restore_after_scope saved m = m\<lparr>mpu_ctrl := saved\<rparr>"

definition allow_scratch :: "mpu \<Rightarrow> mpu" where
  "allow_scratch m = rasr_write 0 (rnr_write POOL_DENY_REGION m)"

definition clear_scratch :: "usize \<Rightarrow> usize \<Rightarrow> mpu \<Rightarrow> mpu option" where
  "clear_scratch base len m = write_region POOL_DENY_REGION base len RASR_AP_NO_ACCESS True m"

section \<open>What the unit allows\<close>

text \<open>
  The check for a privileged access, as all code here is: of the enabled regions that contain
  the address the highest decides; with none, the background map if it is enabled (bit 2). The
  subregion bits, which the code leaves clear, are not interpreted.
\<close>

datatype access = Fetch | Load | Store

definition region_match :: "mpu \<Rightarrow> usize \<Rightarrow> nat \<Rightarrow> bool" where
  "region_match m a i \<longleftrightarrow> bit (mpu_rasr m ! i) 0 \<and>
     (let sz = 2 ^ (unat (take_bit 5 (drop_bit 1 (mpu_rasr m ! i))) + 1)
      in unat a div sz = unat (mpu_rbar m ! i) div sz)"

definition permits :: "u32 \<Rightarrow> access \<Rightarrow> bool" where
  "permits rasr acc =
    (let ap = unat (take_bit 3 (drop_bit 24 rasr))
     in case acc of
          Load \<Rightarrow> ap \<notin> {0, 4}
        | Store \<Rightarrow> ap \<in> {1, 2, 3}
        | Fetch \<Rightarrow> ap \<notin> {0, 4} \<and> \<not> bit rasr 28)"

definition mpu_allows :: "mpu \<Rightarrow> access \<Rightarrow> usize \<Rightarrow> bool" where
  "mpu_allows m acc a =
    (if \<not> bit (mpu_ctrl m) 0 then True
     else case find (region_match m a) (rev [0..<8]) of
            Some i \<Rightarrow> permits (mpu_rasr m ! i) acc
          | None \<Rightarrow> bit (mpu_ctrl m) 2)"

section \<open>One region\<close>

lemma power_of_two_exp:
  assumes "n < 32"
  shows "is_power_of_two (2 ^ n)" "trailing_zeros (2 ^ n) = n"
proof -
  have b: "bit (2 ^ n :: u32) j \<longleftrightarrow> j = n" for j using assms by (auto simp: bit_exp_iff)
  show "trailing_zeros (2 ^ n) = n" by (rule trailing_zeros_eqI) (simp_all add: b)
  have nz: "(2 ^ n :: u32) \<noteq> 0" using assms b [of n] by auto
  have m: "(2 ^ n :: u32) - 1 = mask n" by (simp add: mask_eq_exp_minus_1)
  have "(2 ^ n :: u32) AND mask n = 0" by (rule bit_word_eqI) (auto simp: b bit_and_iff bit_mask_iff)
  then show "is_power_of_two (2 ^ n)" using nz by (simp add: is_power_of_two_def m)
qed

definition rasr_of :: "nat \<Rightarrow> u32 \<Rightarrow> u32" where
  "rasr_of n ap = RASR_XN OR ap OR push_bit 1 (of_nat (n - 1)) OR RASR_ENABLE"

lemma rasr_fields_check:
  "\<forall>n \<in> set [1..<32]. bit (rasr_of n 0) 0 \<and> take_bit 5 (drop_bit 1 (rasr_of n 0)) = of_nat (n - 1) \<and>
     take_bit 3 (drop_bit 24 (rasr_of n 0)) = 0 \<and> bit (rasr_of n 0) 28"
  "\<forall>n \<in> set [1..<32]. bit (rasr_of n RASR_AP_RW) 0 \<and>
     take_bit 5 (drop_bit 1 (rasr_of n RASR_AP_RW)) = of_nat (n - 1) \<and>
     take_bit 3 (drop_bit 24 (rasr_of n RASR_AP_RW)) = 3 \<and> bit (rasr_of n RASR_AP_RW) 28"
  by code_simp+

definition region_is :: "mpu \<Rightarrow> nat \<Rightarrow> region \<Rightarrow> u32 \<Rightarrow> bool" where
  "region_is m i r ap \<longleftrightarrow> (\<exists>n \<in> {5..<32}. unat (snd r) = 2 ^ n \<and> unat (fst r) mod 2 ^ n = 0 \<and>
     mpu_rbar m ! i = fst r \<and> mpu_rasr m ! i = rasr_of n ap)"

lemma region_is_match:
  assumes r: "region_is m i (b, sz) ap" and ap: "ap \<in> {RASR_AP_NO_ACCESS, RASR_AP_RW}"
  shows "region_match m a i \<longleftrightarrow> unat b \<le> unat a \<and> unat a < unat b + unat sz"
    "permits (mpu_rasr m ! i) acc \<longleftrightarrow> ap = RASR_AP_RW \<and> acc \<noteq> Fetch"
proof -
  obtain n where n: "5 \<le> n" "n < 32" "unat sz = 2 ^ n" "unat b mod 2 ^ n = 0" "mpu_rbar m ! i = b"
    "mpu_rasr m ! i = rasr_of n ap"
    using r by (auto simp: region_is_def)
  have s: "n \<in> set [1..<32]" using n by simp
  have u: "unat (of_nat (n - 1) :: u32) = n - 1" unfolding unat_of_nat by (rule mod_less) (use n in simp)
  have f: "bit (rasr_of n ap) 0" "take_bit 5 (drop_bit 1 (rasr_of n ap)) = of_nat (n - 1)" "bit (rasr_of n ap) 28"
    using ap bspec [OF rasr_fields_check(1) s] bspec [OF rasr_fields_check(2) s]
    by (auto simp: RASR_AP_NO_ACCESS_def)
  have t: "take_bit 3 (drop_bit 24 (rasr_of n ap)) = (if ap = RASR_AP_RW then 3 else 0)"
    using ap bspec [OF rasr_fields_check(1) s] bspec [OF rasr_fields_check(2) s]
    by (auto simp: RASR_AP_NO_ACCESS_def RASR_AP_RW_def)
  have "n - 1 + 1 = n" using n by simp
  then have "region_match m a i \<longleftrightarrow> unat a div 2 ^ n = unat b div 2 ^ n"
    using n f u by (simp add: region_match_def Let_def)
  also have "\<dots> \<longleftrightarrow> unat b \<le> unat a \<and> unat a < unat b + 2 ^ n" by (rule same_block) (use n in simp_all)
  finally show "region_match m a i \<longleftrightarrow> unat b \<le> unat a \<and> unat a < unat b + unat sz" using n by simp
  show "permits (mpu_rasr m ! i) acc \<longleftrightarrow> ap = RASR_AP_RW \<and> acc \<noteq> Fetch"
    unfolding n(6) permits_def t using f by (auto simp: Let_def split: access.splits)
qed

lemma aligned_base:
  assumes al: "unat (base :: usize) mod 2 ^ n = 0" and n: "5 \<le> n" and r: "r < 16"
  shows "bit (base OR RBAR_VALID OR r) 4" "(base OR RBAR_VALID OR r) AND 0xF = r"
    "(base OR RBAR_VALID OR r) AND NOT 0x1F = base"
proof -
  have low: "\<not> bit base i" if "i < 5" for i using aligned_low_bits [OF al] that n by simp
  have v: "bit RBAR_VALID i \<longleftrightarrow> i = 4" for i
  proof -
    have e: "RBAR_VALID = 2 ^ 4" by (simp add: RBAR_VALID_def)
    show ?thesis unfolding e by (subst bit_exp_iff) auto
  qed
  have rr: "\<not> bit r i" if "4 \<le> i" for i
  proof -
    have e: "take_bit 4 (unat r) = unat r" by (rule take_bit_nat_eq_self) (use r in \<open>simp add: word_less_nat_alt\<close>)
    have "\<not> bit (take_bit 4 (unat r)) i" using that by (simp add: bit_take_bit_iff)
    then show ?thesis unfolding e by (simp add: bit_unsigned_iff bit_imp_le_length)
  qed
  have low': "5 \<le> i" if "bit base i" for i using low [of i] that by (meson not_less)
  have rr': "i < 4" if "bit r i" for i using rr [of i] that by (meson not_less)
  have m: "(0xF :: u32) = mask 4" "(0x1F :: u32) = mask 5" by (simp_all add: mask_eq_exp_minus_1)
  show "bit (base OR RBAR_VALID OR r) 4" by (simp add: bit_or_iff v)
  show "(base OR RBAR_VALID OR r) AND 0xF = r"
    unfolding m by (rule bit_word_eqI) (use low rr' in \<open>auto simp: bit_or_iff bit_and_iff bit_mask_iff v\<close>)
  show "(base OR RBAR_VALID OR r) AND NOT 0x1F = base"
    unfolding m by (rule bit_word_eqI)
      (use low' rr in \<open>auto simp: bit_or_iff bit_and_iff bit_not_iff bit_mask_iff v not_less\<close>)
qed

lemma write_region_eq:
  assumes "unat base mod 2 ^ n = 0" and "5 \<le> n" and "n < 32" and "r < 8" and "sz = 2 ^ n"
  shows "write_region r base sz ap True m = Some (m\<lparr>mpu_rnr := r, mpu_rbar := (mpu_rbar m)[unat r := base],
    mpu_rasr := (mpu_rasr m)[unat r := rasr_of n ap]\<rparr>)"
proof -
  have "r < 16" using assms(4) by (simp add: word_less_nat_alt)
  note a = aligned_base [OF assms(1,2) this]
  show ?thesis using assms(2) a power_of_two_exp(2) [OF assms(3)]
    by (simp add: write_region_def Let_def assms(5) rasr_write_def rbar_write_def rnr_write_def rasr_of_def)
qed

section \<open>Runs of the driver\<close>

text \<open>
  The spawn of a task opens a scratch window, initialises the frame with the unit disabled,
  and closes the window.
\<close>

definition spawn_window :: "usize \<Rightarrow> usize \<Rightarrow> mpu \<Rightarrow> mpu option" where
  "spawn_window base len m =
    (let (saved, m2) = disable_for_scope (allow_scratch m)
     in clear_scratch base len (restore_after_scope saved m2))"

text \<open>The states of the unit between the uses of its driver, with the stack it allows.\<close>

inductive mpu_run :: "usize \<Rightarrow> usize \<Rightarrow> mpu \<Rightarrow> region option \<Rightarrow> bool" for base len where
  init: "mpu_init base len mpu_reset = Some m \<Longrightarrow> mpu_run base len m None"
| switch: "mpu_run base len m cur \<Longrightarrow> size_aligned (b, sz) \<Longrightarrow> 32 \<le> unat sz \<Longrightarrow> b \<noteq> 0 \<Longrightarrow>
    set_current_stack b sz m = Some m' \<Longrightarrow> mpu_run base len m' (Some (b, sz))"
| no_stack: "mpu_run base len m cur \<Longrightarrow> set_current_stack 0 sz m = Some m' \<Longrightarrow> mpu_run base len m' cur"
| spawn: "mpu_run base len m cur \<Longrightarrow> spawn_window base len m = Some m' \<Longrightarrow> mpu_run base len m' cur"

text \<open>The linker aligns the pool to its size, a power of two.\<close>

definition pool_linked :: "usize \<Rightarrow> usize \<Rightarrow> bool" where
  "pool_linked base len \<longleftrightarrow> (\<exists>n \<in> {5..<32}. len = 2 ^ n \<and> unat base mod 2 ^ n = 0)"

definition isolating :: "usize \<Rightarrow> usize \<Rightarrow> mpu \<Rightarrow> region option \<Rightarrow> bool" where
  "isolating base len m cur \<longleftrightarrow> mpu_ctrl m = 5 \<and> length (mpu_rbar m) = 8 \<and> length (mpu_rasr m) = 8 \<and>
     (\<forall>i < 6. mpu_rasr m ! i = 0) \<and> region_is m 6 (base, len) RASR_AP_NO_ACCESS \<and>
     (case cur of None \<Rightarrow> mpu_rasr m ! 7 = 0 | Some r \<Rightarrow> region_is m 7 r RASR_AP_RW)"

lemma region_isI:
  "unat base mod 2 ^ n = 0 \<Longrightarrow> n \<in> {5..<32} \<Longrightarrow> sz = 2 ^ n \<Longrightarrow> mpu_rbar m ! i = base \<Longrightarrow>
   mpu_rasr m ! i = rasr_of n ap \<Longrightarrow> region_is m i (base, sz) ap"
  unfolding region_is_def by (intro bexI [of _ n]) (simp_all add: unat_exp_u32)

lemma region_is_cong:
  "mpu_rbar m' ! i = mpu_rbar m ! i \<Longrightarrow> mpu_rasr m' ! i = mpu_rasr m ! i \<Longrightarrow> region_is m' i = region_is m i"
  by (simp add: fun_eq_iff region_is_def)

lemma deny_pool:
  assumes "pool_linked base len"
  shows "\<exists>n. region_is m' 6 (base, len) RASR_AP_NO_ACCESS = (mpu_rbar m' ! 6 = base \<and> mpu_rasr m' ! 6 = rasr_of n RASR_AP_NO_ACCESS) \<and>
    write_region POOL_DENY_REGION base len RASR_AP_NO_ACCESS True m = Some (m\<lparr>mpu_rnr := 6,
      mpu_rbar := (mpu_rbar m)[6 := base], mpu_rasr := (mpu_rasr m)[6 := rasr_of n RASR_AP_NO_ACCESS]\<rparr>)"
proof -
  obtain n where n: "n \<in> {5..<32}" "len = 2 ^ n" "unat base mod 2 ^ n = 0"
    using assms by (auto simp: pool_linked_def)
  have "k = n" if "unat len = 2 ^ k" for k using that n by (simp add: unat_exp_u32)
  then have "region_is m' 6 (base, len) RASR_AP_NO_ACCESS = (mpu_rbar m' ! 6 = base \<and> mpu_rasr m' ! 6 = rasr_of n RASR_AP_NO_ACCESS)"
    using n by (auto simp: region_is_def unat_exp_u32)
  moreover have "(6 :: u32) < 8" by simp
  ultimately show ?thesis
    using write_region_eq [OF n(3) _ _ _ n(2), of 6] n(1) by (auto simp: POOL_DENY_REGION_def)
qed

lemma init_isolating:
  assumes "pool_linked base len" and "mpu_init base len mpu_reset = Some m"
  shows "isolating base len m None"
proof -
  obtain n where n: "region_is m 6 (base, len) RASR_AP_NO_ACCESS = (mpu_rbar m ! 6 = base \<and> mpu_rasr m ! 6 = rasr_of n RASR_AP_NO_ACCESS)"
    "write_region POOL_DENY_REGION base len RASR_AP_NO_ACCESS True mpu_reset = Some (mpu_reset\<lparr>mpu_rnr := 6,
      mpu_rbar := (mpu_rbar mpu_reset)[6 := base], mpu_rasr := (mpu_rasr mpu_reset)[6 := rasr_of n RASR_AP_NO_ACCESS]\<rparr>)"
    using deny_pool [OF assms(1)] by blast
  have "m = mpu_reset\<lparr>mpu_ctrl := 5, mpu_rnr := 6, mpu_rbar := (replicate 8 0)[6 := base],
      mpu_rasr := (replicate 8 0)[6 := rasr_of n RASR_AP_NO_ACCESS]\<rparr>"
    using assms(2) n(2) by (auto simp: mpu_init_def mpu_reset_def split: if_splits)
  then show ?thesis unfolding isolating_def n(1) by (simp add: mpu_reset_def)
qed

lemma spawn_window_eq:
  assumes "pool_linked base len" and i: "isolating base len m cur"
  shows "spawn_window base len m = Some (m\<lparr>mpu_rnr := 6\<rparr>)"
proof -
  let ?m = "restore_after_scope (mpu_ctrl m) (snd (disable_for_scope (allow_scratch m)))"
  obtain n where n: "region_is m 6 (base, len) RASR_AP_NO_ACCESS = (mpu_rbar m ! 6 = base \<and> mpu_rasr m ! 6 = rasr_of n RASR_AP_NO_ACCESS)"
    "write_region POOL_DENY_REGION base len RASR_AP_NO_ACCESS True ?m = Some (?m\<lparr>mpu_rnr := 6,
      mpu_rbar := (mpu_rbar ?m)[6 := base], mpu_rasr := (mpu_rasr ?m)[6 := rasr_of n RASR_AP_NO_ACCESS]\<rparr>)"
    using deny_pool [OF assms(1)] by blast
  have "mpu_rbar m ! 6 = base" "mpu_rasr m ! 6 = rasr_of n RASR_AP_NO_ACCESS" using i n(1) by (simp_all add: isolating_def)
  then have "(mpu_rbar m)[6 := base] = mpu_rbar m" "(mpu_rasr m)[6 := rasr_of n RASR_AP_NO_ACCESS] = mpu_rasr m"
    by (metis list_update_id)+
  then show ?thesis
    using n(2) by (simp add: spawn_window_def clear_scratch_def disable_for_scope_def restore_after_scope_def
        allow_scratch_def rasr_write_def rnr_write_def POOL_DENY_REGION_def)
qed

lemma switch_isolating:
  assumes i: "isolating base len m cur" and a: "size_aligned (b, sz)" "32 \<le> unat sz" "b \<noteq> 0"
    and s: "set_current_stack b sz m = Some m'"
  shows "isolating base len m' (Some (b, sz))"
proof -
  obtain n where n: "n < 31" "unat sz = 2 ^ n" "unat b mod 2 ^ n = 0" using a(1) by (auto simp: size_aligned_def)
  have n5: "5 \<le> n"
  proof (rule ccontr)
    assume "\<not> 5 \<le> n"
    then have "(2 :: nat) ^ n < 2 ^ 5" by (intro power_strict_increasing) simp_all
    then show False using a(2) n(2) by simp
  qed
  have sz: "sz = 2 ^ n" using n unat_exp_u32 [of n] by (simp add: word_unat_eq_iff)
  have "(7 :: u32) < 8" by simp
  then have m': "m' = m\<lparr>mpu_rnr := 7, mpu_rbar := (mpu_rbar m)[7 := b], mpu_rasr := (mpu_rasr m)[7 := rasr_of n RASR_AP_RW]\<rparr>"
    using s a(3) power_of_two_exp(1) [of n] write_region_eq [OF n(3) n5 _ _ sz, of 7 RASR_AP_RW m] n(1)
    by (simp add: set_current_stack_def CURRENT_STACK_REGION_def sz)
  have l: "length (mpu_rbar m) = 8" "length (mpu_rasr m) = 8" using i by (simp_all add: isolating_def)
  have "region_is m' 7 (b, sz) RASR_AP_RW"
    by (rule region_isI [OF n(3) _ sz]) (use n(1) n5 l in \<open>simp_all add: m'\<close>)
  moreover have "region_is m' 6 = region_is m 6" by (rule region_is_cong) (simp_all add: m')
  ultimately show ?thesis using i l unfolding isolating_def by (simp add: m')
qed

lemma mpu_run_isolating:
  assumes "mpu_run base len m cur" and "pool_linked base len"
  shows "isolating base len m cur"
  using assms(1)
proof (induction rule: mpu_run.induct)
  case (spawn m cur m')
  then have "m' = m\<lparr>mpu_rnr := 6\<rparr>" using spawn_window_eq [OF assms(2)] by fastforce
  moreover have "region_is (m\<lparr>mpu_rnr := 6\<rparr>) i = region_is m i" for i by (rule region_is_cong) simp_all
  ultimately show ?case using spawn.IH by (cases cur) (simp_all add: isolating_def)
next
  case (no_stack m cur sz m')
  then show ?case by (simp add: set_current_stack_def)
qed (use assms(2) init_isolating switch_isolating in \<open>blast+\<close>)

text \<open>What an isolating unit allows.\<close>

lemma regions_down: "rev [0..<8] = [7, 6, 5, 4, 3, 2, 1, 0 :: nat]"
  by (simp add: upt_rec)

lemma isolating_allows:
  assumes i: "isolating base len m cur"
  shows "mpu_allows m acc a \<longleftrightarrow>
    (case cur of
       Some (b, sz) \<Rightarrow> (if unat b \<le> unat a \<and> unat a < unat b + unat sz then acc \<noteq> Fetch
         else \<not> (unat base \<le> unat a \<and> unat a < unat base + unat len))
     | None \<Rightarrow> \<not> (unat base \<le> unat a \<and> unat a < unat base + unat len))"
proof -
  have off: "\<not> region_match m a j" if "mpu_rasr m ! j = 0" for j using that by (simp add: region_match_def)
  have low: "\<not> region_match m a j" if "j < 6" for j using i off that by (simp add: isolating_def)
  have r6: "region_is m 6 (base, len) RASR_AP_NO_ACCESS" and c: "mpu_ctrl m = 5" using i by (simp_all add: isolating_def)
  have ap: "RASR_AP_NO_ACCESS \<noteq> RASR_AP_RW" by (simp add: RASR_AP_NO_ACCESS_def RASR_AP_RW_def)
  note m6 = region_is_match [OF r6]
  have bits: "bit (5 :: u32) 0" "bit (5 :: u32) 2" by simp_all
  have f: "find (region_match m a) (rev [0..<8]) =
      (if region_match m a 7 then Some 7 else if region_match m a 6 then Some 6 else None)"
    using low by (simp add: regions_down)
  show ?thesis
  proof (cases cur)
    case None
    then have "\<not> region_match m a 7" using i off by (simp add: isolating_def)
    then show ?thesis using None m6 f c ap bits by (simp add: mpu_allows_def)
  next
    case (Some r)
    obtain b sz where r: "r = (b, sz)" by fastforce
    have "region_is m 7 (b, sz) RASR_AP_RW" using i Some r by (simp add: isolating_def)
    note m7 = region_is_match [OF this]
    show ?thesis using Some r m6 m7 f c ap bits by (simp add: mpu_allows_def)
  qed
qed

text \<open>While a window is open the whole pool can be written.\<close>

lemma scratch_allows:
  assumes i: "isolating base len m cur" and acc: "acc \<noteq> Fetch"
  shows "mpu_allows (allow_scratch m) acc a"
proof -
  let ?m = "allow_scratch m"
  have m: "?m = m\<lparr>mpu_rnr := 6, mpu_rasr := (mpu_rasr m)[6 := 0]\<rparr>"
    by (simp add: allow_scratch_def rasr_write_def rnr_write_def POOL_DENY_REGION_def)
  have l: "length (mpu_rasr m) = 8" and c: "mpu_ctrl ?m = 5" using i by (simp_all add: isolating_def m)
  have "\<not> region_match ?m a j" if "j < 7" for j
  proof -
    have "mpu_rasr ?m ! j = 0" using i l that by (cases "j = 6") (simp_all add: isolating_def m)
    then show ?thesis by (simp add: region_match_def)
  qed
  then have f: "find (region_match ?m a) (rev [0..<8]) = (if region_match ?m a 7 then Some 7 else None)"
    by (simp add: regions_down)
  have "permits (mpu_rasr ?m ! 7) acc" if "region_match ?m a 7"
  proof (cases cur)
    case None
    then show ?thesis using i that l by (simp add: isolating_def region_match_def m)
  next
    case (Some r)
    then have "region_is ?m 7 (fst r, snd r) RASR_AP_RW"
      using i l by (simp add: isolating_def m region_is_def)
    then show ?thesis using region_is_match(2) acc by blast
  qed
  moreover have "bit (5 :: u32) 2" by simp
  ultimately show ?thesis using f c by (simp add: mpu_allows_def)
qed

text \<open>Two stacks in use share no byte.\<close>

lemma sorted_wrt_pair:
  "sorted_wrt R xs \<Longrightarrow> x \<in> set xs \<Longrightarrow> y \<in> set xs \<Longrightarrow> x \<noteq> y \<Longrightarrow> R x y \<or> R y x"
  by (induction xs) auto

lemma live_apart:
  assumes "pool_inv base len s live" and "(b, sz) \<in> set live" and "(b', sz') \<in> set live" and "(b', sz') \<noteq> (b, sz)"
    and "unat b' \<le> unat a" and "unat a < unat b' + unat sz'"
  shows "\<not> (unat b \<le> unat a \<and> unat a < unat b + unat sz)" "unat base \<le> unat a" "unat a < unat base + unat len"
proof -
  have "sorted_wrt apart live" and w: "within base s (b', sz')" and n: "unat (next_off s) \<le> unat len"
    using assms(1,3) by (auto simp: pool_inv_def sorted_wrt_append)
  then have "apart (b, sz) (b', sz') \<or> apart (b', sz') (b, sz)" using sorted_wrt_pair assms(2-4) by metis
  then show "\<not> (unat b \<le> unat a \<and> unat a < unat b + unat sz)" using assms(5,6) by (auto simp: apart_def)
  show "unat base \<le> unat a" "unat a < unat base + unat len"
    using w n assms(5,6) by (auto simp: within_def pool_end_def)
qed

end
