(* ===== verification/Arm_Context.thy ===== *)
theory Arm_Context
  imports Mpu
begin

text \<open>
  Saving and restoring a task on Cortex-M: the PendSV handler of ARMv7-M
  (\<open>rivet-arch-cortex-m/src/lib.rs\<close>) and the one of ARMv6-M, whose load and store multiple reach
  only the low registers (\<open>rivet-arch-cortex-m0/src/lib.rs\<close>), with the first frame and the start
  of the first task. Exception entry and return stack eight words on the process stack as the
  architecture defines them.
\<close>

section \<open>The machine\<close>

text \<open>Registers 0 to 12 and 14, the link register; a memory of words.\<close>

record arm =
  greg :: "nat \<Rightarrow> u32"
  words :: "u32 \<Rightarrow> u32"
  psp :: u32
  msp :: u32
  arm_pc :: u32
  xpsr :: u32

datatype thumb = Push nat | Pop nat | Sub_sp u32 | Add_sp u32 | Mrs_psp nat | Msr_psp nat
  | Subs nat u32 | Adds nat u32 | Mov_reg nat nat | Stmia bool nat "nat list" | Ldmia bool nat "nat list"

abbreviation (input) LR :: nat where "LR \<equiv> 14"

fun store_multi :: "u32 \<Rightarrow> (nat \<Rightarrow> u32) \<Rightarrow> nat list \<Rightarrow> (u32 \<Rightarrow> u32) \<Rightarrow> u32 \<Rightarrow> u32" where
  "store_multi a g [] m = m"
| "store_multi a g (q # qs) m = store_multi (a + 4) g qs (m(a := g q))"

fun load_multi :: "u32 \<Rightarrow> (u32 \<Rightarrow> u32) \<Rightarrow> nat list \<Rightarrow> (nat \<Rightarrow> u32) \<Rightarrow> nat \<Rightarrow> u32" where
  "load_multi a m [] g = g"
| "load_multi a m (q # qs) g = load_multi (a + 4) m qs (g(q := m a))"

text \<open>The flag of a load or store multiple is its write-back of the base register.\<close>

fun t_step :: "thumb \<Rightarrow> arm \<Rightarrow> arm" where
  "t_step (Push q) s = s\<lparr>msp := msp s - 4, words := (words s)(msp s - 4 := greg s q)\<rparr>"
| "t_step (Pop q) s = s\<lparr>greg := (greg s)(q := words s (msp s)), msp := msp s + 4\<rparr>"
| "t_step (Sub_sp n) s = s\<lparr>msp := msp s - n\<rparr>"
| "t_step (Add_sp n) s = s\<lparr>msp := msp s + n\<rparr>"
| "t_step (Mrs_psp q) s = s\<lparr>greg := (greg s)(q := psp s)\<rparr>"
| "t_step (Msr_psp q) s = s\<lparr>psp := greg s q\<rparr>"
| "t_step (Subs q n) s = s\<lparr>greg := (greg s)(q := greg s q - n)\<rparr>"
| "t_step (Adds q n) s = s\<lparr>greg := (greg s)(q := greg s q + n)\<rparr>"
| "t_step (Mov_reg d q) s = s\<lparr>greg := (greg s)(d := greg s q)\<rparr>"
| "t_step (Stmia wb b qs) s = s\<lparr>words := store_multi (greg s b) (greg s) qs (words s),
     greg := (if wb then (greg s)(b := greg s b + 4 * of_nat (length qs)) else greg s)\<rparr>"
| "t_step (Ldmia wb b qs) s = (let a = greg s b; g = load_multi a (words s) qs (greg s)
     in s\<lparr>greg := (if wb then g(b := a + 4 * of_nat (length qs)) else g)\<rparr>)"

definition t_exec :: "thumb list \<Rightarrow> arm \<Rightarrow> arm" where
  "t_exec code s = foldl (\<lambda>s i. t_step i s) s code"

text \<open>
  An exception taken from a task: the frame is aligned to eight bytes, bit 9 of the stacked
  status tells whether a word was skipped, and the link register gets the code that returns to
  the process stack.
\<close>

definition EXC_RETURN :: u32 where "EXC_RETURN = 0xFFFFFFFD"

definition hw_slots :: "nat list" where "hw_slots = [0, 1, 2, 3, 12, 14]"

definition exception_entry :: "arm \<Rightarrow> arm" where
  "exception_entry s =
    (let f = (psp s - 32) AND NOT 4;
         x = (if bit (psp s) 2 then xpsr s OR 0x200 else xpsr s AND NOT 0x200)
     in s\<lparr>words := (store_multi f (greg s) hw_slots (words s))(f + 24 := arm_pc s, f + 28 := x),
          psp := f, greg := (greg s)(LR := EXC_RETURN)\<rparr>)"

definition exception_return :: "arm \<Rightarrow> arm" where
  "exception_return s =
    (let f = psp s; x = words s (f + 28)
     in s\<lparr>greg := load_multi f (words s) hw_slots (greg s), arm_pc := words s (f + 24) AND NOT 1,
          xpsr := x AND NOT 0x200, psp := (f + 32) OR (if bit x 9 then 4 else 0)\<rparr>)"

section \<open>The code\<close>

definition pendsv_save :: "thumb list" where
  "pendsv_save = [Push LR, Sub_sp 4, Mrs_psp 0, Subs 0 32, Stmia False 0 [4, 5, 6, 7, 8, 9, 10, 11]]"

definition pendsv_restore :: "thumb list" where
  "pendsv_restore = [Ldmia False 0 [4, 5, 6, 7, 8, 9, 10, 11], Adds 0 32, Msr_psp 0, Add_sp 4, Pop LR]"

definition pendsv_save_m0 :: "thumb list" where
  "pendsv_save_m0 = [Push LR, Sub_sp 4, Mrs_psp 0, Subs 0 32, Stmia True 0 [4, 5, 6, 7],
     Mov_reg 4 8, Mov_reg 5 9, Mov_reg 6 10, Mov_reg 7 11, Stmia True 0 [4, 5, 6, 7], Subs 0 32]"

definition pendsv_restore_m0 :: "thumb list" where
  "pendsv_restore_m0 = [Adds 0 16, Ldmia True 0 [4, 5, 6, 7], Mov_reg 8 4, Mov_reg 9 5, Mov_reg 10 6,
     Mov_reg 11 7, Subs 0 32, Ldmia True 0 [4, 5, 6, 7], Adds 0 16, Msr_psp 0, Add_sp 4, Pop 3, Mov_reg LR 3]"

text \<open>A memory fault keeps no registers of the faulting task and resumes another task's frame.\<close>

definition memmanage_enter :: "thumb list" where
  "memmanage_enter = [Push LR, Mrs_psp 0]"

definition memmanage_leave :: "thumb list" where
  "memmanage_leave = [Ldmia False 0 [4, 5, 6, 7, 8, 9, 10, 11], Adds 0 32, Msr_psp 0, Pop LR]"

definition ARM_MIN_TASK_STACK :: usize where "ARM_MIN_TASK_STACK = 64 + 64"

definition arm_frame_start :: "usize \<Rightarrow> usize \<Rightarrow> usize" where
  "arm_frame_start base len = (base + len - 16 * 4) AND NOT (16 - 1)"

definition init_task_stack_impl :: "usize \<Rightarrow> usize \<Rightarrow> usize \<Rightarrow> usize \<Rightarrow> usize \<Rightarrow> (u32 \<Rightarrow> u32) \<Rightarrow> usize \<times> (u32 \<Rightarrow> u32)" where
  "init_task_stack_impl task_exit base len entry_fn arg m =
    (let f = arm_frame_start base len;
         m1 = foldl (\<lambda>m i. m(f + 4 * of_nat i := 0)) m [0..<16]
     in (f, m1(f + 32 := arg, f + 52 := task_exit, f + 56 := entry_fn, f + 60 := 0x01000000)))"

text \<open>
  The supervisor call that builds a frame: its arguments are the stacked registers of the
  caller, on whichever stack the exception used, and its result goes there.
\<close>

definition svc_frame :: "arm \<Rightarrow> u32" where
  "svc_frame s = (if greg s LR AND 0xFF = 0xFD then psp s else msp s)"

definition svc_core :: "usize \<Rightarrow> usize \<Rightarrow> (u32 \<Rightarrow> u32) \<times> mpu \<Rightarrow> (u32 \<Rightarrow> u32) \<times> mpu" where
  "svc_core task_exit frame x =
    (let m = fst x;
         (saved, mp) = disable_for_scope (snd x);
         (f, m1) = init_task_stack_impl task_exit (m frame) (m (frame + 4)) (m (frame + 8)) (m (frame + 12)) m
     in (m1(frame := f), restore_after_scope saved mp))"

text \<open>The jump to the first task does not load the link register.\<close>

definition start_first_task :: "usize \<Rightarrow> arm \<Rightarrow> arm" where
  "start_first_task f s = s\<lparr>psp := f, arm_pc := words s (f + 56) AND NOT 1,
     greg := (greg s)(2 := 2, 0 := words s (f + 32))\<rparr>"

text \<open>Interrupts are masked by one bit; the token tells whether they were on.\<close>

definition primask_save :: "bool \<Rightarrow> usize \<times> bool" where
  "primask_save masked = (if masked then 0 else 1, True)"

definition primask_restore :: "usize \<Rightarrow> bool \<Rightarrow> bool" where
  "primask_restore token masked = (if token \<noteq> 0 then False else masked)"

section \<open>The two cores\<close>

lemma texec_Nil [simp]: "t_exec [] s = s"
  by (simp add: t_exec_def)

lemma texec_Cons [simp]: "t_exec (i # code) s = t_exec code (t_step i s)"
  by (simp add: t_exec_def)

text \<open>Both save the same frame; ARMv6-M has used the registers it has already saved.\<close>

lemma save_m0_eq:
  "t_exec pendsv_save_m0 s = (t_exec pendsv_save s)
    \<lparr>greg := (greg (t_exec pendsv_save s))(4 := greg s 8, 5 := greg s 9, 6 := greg s 10, 7 := greg s 11)\<rparr>"
  by (simp add: pendsv_save_def pendsv_save_m0_def fun_upd_twist add.commute)

lemma restore_m0_eq:
  "t_exec pendsv_restore_m0 s = (t_exec pendsv_restore s)\<lparr>greg := (greg (t_exec pendsv_restore s))(3 := words s (msp s + 4))\<rparr>"
  by (simp add: pendsv_restore_def pendsv_restore_m0_def fun_upd_twist Let_def add.commute)

lemma return_m0_eq:
  "exception_return (t_exec pendsv_restore_m0 s) = exception_return (t_exec pendsv_restore s)"
  unfolding restore_m0_eq by (simp add: exception_return_def Let_def hw_slots_def fun_upd_twist)

section \<open>A frame holds a context\<close>

definition arm_frame :: "u32 \<Rightarrow> (nat \<Rightarrow> u32) \<Rightarrow> u32 \<Rightarrow> u32 \<Rightarrow> (u32 \<Rightarrow> u32) \<Rightarrow> bool" where
  "arm_frame f g pc x m \<longleftrightarrow>
     m f = g 4 \<and> m (f + 4) = g 5 \<and> m (f + 8) = g 6 \<and> m (f + 12) = g 7 \<and>
     m (f + 16) = g 8 \<and> m (f + 20) = g 9 \<and> m (f + 24) = g 10 \<and> m (f + 28) = g 11 \<and>
     m (f + 32) = g 0 \<and> m (f + 36) = g 1 \<and> m (f + 40) = g 2 \<and> m (f + 44) = g 3 \<and>
     m (f + 48) = g 12 \<and> m (f + 52) = g 14 \<and> m (f + 56) = pc \<and> m (f + 60) = x"

definition in_arm_frame :: "u32 \<Rightarrow> u32 \<Rightarrow> bool" where
  "in_arm_frame f a \<longleftrightarrow> a - f \<in> {0, 4, 8, 12, 16, 20, 24, 28, 32, 36, 40, 44, 48, 52, 56, 60}"

lemma in_arm_frame_offset: "in_arm_frame f (f + n) \<longleftrightarrow> n \<in> {0, 4, 8, 12, 16, 20, 24, 28, 32, 36, 40, 44, 48, 52, 56, 60}"
  by (simp add: in_arm_frame_def)

lemma arm_frame_cong:
  assumes "arm_frame f g pc x m" and "\<And>a. in_arm_frame f a \<Longrightarrow> m' a = m a"
  shows "arm_frame f g pc x m'"
proof -
  have e: "m' (f + n) = m (f + n)" if "n \<in> {0, 4, 8, 12, 16, 20, 24, 28, 32, 36, 40, 44, 48, 52, 56, 60}" for n
    using assms(2) that by (simp add: in_arm_frame_offset)
  have "m' f = m f" using e [of 0] by simp
  then show ?thesis using assms(1) e unfolding arm_frame_def by simp
qed

text \<open>Where the frame of an interrupted task ends up, below its stack pointer.\<close>

definition saved_at :: "arm \<Rightarrow> u32" where
  "saved_at s = ((psp s - 32) AND NOT 4) - 32"

definition stacked_status :: "arm \<Rightarrow> u32" where
  "stacked_status s = (if bit (psp s) 2 then xpsr s OR 0x200 else xpsr s AND NOT 0x200)"

lemma pendsv_saves:
  assumes "\<not> in_arm_frame (saved_at s) (msp s - 4)"
  shows "arm_frame (saved_at s) (greg s) (arm_pc s) (stacked_status s) (words (t_exec pendsv_save (exception_entry s)))"
    "greg (t_exec pendsv_save (exception_entry s)) 0 = saved_at s"
    "words (t_exec pendsv_save (exception_entry s)) (msp s - 4) = EXC_RETURN"
    "msp (t_exec pendsv_save (exception_entry s)) = msp s - 8"
    "a \<noteq> msp s - 4 \<Longrightarrow> \<not> in_arm_frame (saved_at s) a \<Longrightarrow> words (t_exec pendsv_save (exception_entry s)) a = words s a"
proof -
  define f where "f = saved_at s"
  define q where "q = msp s - 4"
  have f: "(psp s - 32) AND NOT 4 = f + 32" by (simp add: f_def saved_at_def)
  have q: "\<not> in_arm_frame f q" using assms by (simp add: f_def q_def)
  then have nq: "f + n \<noteq> q" if "n \<in> {0, 4, 8, 12, 16, 20, 24, 28, 32, 36, 40, 44, 48, 52, 56, 60}" for n
  proof -
    have "in_arm_frame f (f + n)" using that by (simp only: in_arm_frame_offset)
    then show ?thesis using q by metis
  qed
  have nf: "f \<noteq> q" using nq [of 0] by simp
  define m where "m = (words s)(f + 32 := greg s 0, f + 36 := greg s 1, f + 40 := greg s 2, f + 44 := greg s 3,
    f + 48 := greg s 12, f + 52 := greg s 14, f + 56 := arm_pc s, f + 60 := stacked_status s, q := EXC_RETURN,
    f := greg s 4, f + 4 := greg s 5, f + 8 := greg s 6, f + 12 := greg s 7,
    f + 16 := greg s 8, f + 20 := greg s 9, f + 24 := greg s 10, f + 28 := greg s 11)"
  have e: "t_exec pendsv_save (exception_entry s) = s\<lparr>words := m, psp := f + 32, msp := msp s - 8,
      greg := (greg s)(14 := EXC_RETURN, 0 := f)\<rparr>"
  proof -
    have "exception_entry s = s\<lparr>words := (words s)(f + 32 := greg s 0, f + 36 := greg s 1, f + 40 := greg s 2,
        f + 44 := greg s 3, f + 48 := greg s 12, f + 52 := greg s 14, f + 56 := arm_pc s, f + 60 := stacked_status s),
        psp := f + 32, greg := (greg s)(14 := EXC_RETURN)\<rparr>"
      unfolding exception_entry_def f stacked_status_def [symmetric] Let_def by (simp add: hw_slots_def add.commute)
    then show ?thesis by (simp add: pendsv_save_def m_def q_def fun_upd_twist add.commute)
  qed
  show "arm_frame f (greg s) (arm_pc s) (stacked_status s) (words (t_exec pendsv_save (exception_entry s)))"
    unfolding e arm_frame_def by (simp add: m_def nq nf)
  show "words (t_exec pendsv_save (exception_entry s)) q = EXC_RETURN"
    unfolding e using nq nq [symmetric] nf by (simp add: m_def)
  show "words (t_exec pendsv_save (exception_entry s)) a = words s a" if "a \<noteq> q" "\<not> in_arm_frame f a"
  proof -
    have "a \<noteq> f + n" if "n \<in> {0, 4, 8, 12, 16, 20, 24, 28, 32, 36, 40, 44, 48, 52, 56, 60}" for n
    proof -
      have "in_arm_frame f (f + n)" using that by (simp only: in_arm_frame_offset)
      then show ?thesis using \<open>\<not> in_arm_frame f a\<close> by metis
    qed
    moreover from this [of 0] have "a \<noteq> f" by simp
    ultimately show ?thesis unfolding e using that(1) by (simp add: m_def)
  qed
  show "greg (t_exec pendsv_save (exception_entry s)) 0 = f" "msp (t_exec pendsv_save (exception_entry s)) = msp s - 8"
    by (simp_all add: e)
qed

text \<open>The restore and the return from the exception load a frame.\<close>

definition context_regs :: "nat set" where
  "context_regs = {0, 1, 2, 3, 4, 5, 6, 7, 8, 9, 10, 11, 12, 14}"

lemma or_4:
  assumes "\<not> bit y 2"
  shows "y OR 4 = y + (4 :: u32)"
proof (rule disjunctive_add_eq_or [symmetric])
  have e: "(4 :: u32) = 2 ^ 2" by simp
  have b: "bit (4 :: u32) i \<longleftrightarrow> i = 2" for i unfolding e by (subst bit_exp_iff) auto
  have "\<not> bit (y AND 4) i" for i unfolding bit_and_iff b using assms by blast
  then show "y AND 4 = 0" unfolding bit_eq_iff bit_0_eq by blast
qed

lemma pendsv_restores:
  assumes h: "arm_frame f g pc x (words s)" and f: "greg s 0 = f" and al: "\<not> bit (f + 64) 2"
  defines "s1 \<equiv> t_exec pendsv_restore s" and "s2 \<equiv> exception_return (t_exec pendsv_restore s)"
  shows "q \<in> context_regs \<Longrightarrow> greg s2 q = g q" "arm_pc s2 = pc AND NOT 1" "xpsr s2 = x AND NOT 0x200"
    "psp s2 = f + 64 + (if bit x 9 then 4 else 0)" "msp s2 = msp s + 8" "greg s1 14 = words s (msp s + 4)"
    "words s2 = words s"
proof -
  have m: "words s f = g 4" "words s (f + 4) = g 5" "words s (f + 8) = g 6" "words s (f + 12) = g 7"
    "words s (f + 16) = g 8" "words s (f + 20) = g 9" "words s (f + 24) = g 10" "words s (f + 28) = g 11"
    "words s (f + 32) = g 0" "words s (f + 36) = g 1" "words s (f + 40) = g 2" "words s (f + 44) = g 3"
    "words s (f + 48) = g 12" "words s (f + 52) = g 14" "words s (f + 56) = pc" "words s (f + 60) = x"
    using h by (simp_all add: arm_frame_def)
  have s1: "s1 = s\<lparr>greg := (greg s)(4 := g 4, 5 := g 5, 6 := g 6, 7 := g 7, 8 := g 8, 9 := g 9, 10 := g 10, 11 := g 11,
      0 := f + 32, 14 := words s (msp s + 4)), psp := f + 32, msp := msp s + 8\<rparr>"
    by (simp add: s1_def pendsv_restore_def Let_def f m fun_upd_twist add.commute)
  have d: "(f + 64) OR 4 = f + 64 + 4"
    using or_4 [OF al] .
  have s2: "s2 = s\<lparr>greg := (greg s1)(0 := g 0, 1 := g 1, 2 := g 2, 3 := g 3, 12 := g 12, 14 := g 14),
      arm_pc := pc AND NOT 1, xpsr := x AND NOT 0x200, psp := f + 64 + (if bit x 9 then 4 else 0), msp := msp s + 8\<rparr>"
  proof -
    note swap = add.commute [of f]
    show ?thesis unfolding s2_def s1_def [symmetric] using d [unfolded swap]
      by (simp add: exception_return_def s1 Let_def hw_slots_def m [unfolded swap] swap)
  qed
  have g2: "greg s2 = (greg s)(4 := g 4, 5 := g 5, 6 := g 6, 7 := g 7, 8 := g 8, 9 := g 9, 10 := g 10, 11 := g 11,
      14 := words s (msp s + 4), 0 := g 0, 1 := g 1, 2 := g 2, 3 := g 3, 12 := g 12, 14 := g 14)"
    by (simp add: s2 s1 fun_upd_twist)
  show "greg s2 q = g q" if "q \<in> context_regs"
    using that unfolding context_regs_def g2 by (elim insertE emptyE; hypsubst) simp_all
  show "arm_pc s2 = pc AND NOT 1" "xpsr s2 = x AND NOT 0x200"
    "psp s2 = f + 64 + (if bit x 9 then 4 else 0)" "msp s2 = msp s + 8" "greg s1 14 = words s (msp s + 4)"
    "words s2 = words s"
    by (simp_all add: s2 s1)
qed

section \<open>Round trips\<close>

lemma bit_2_add:
  assumes "take_bit 5 n = (0 :: u32)"
  shows "bit (y + n) 2 \<longleftrightarrow> bit y 2"
proof -
  have "unat (take_bit 5 n) = unat n mod 32" unfolding unsigned_take_bit_eq by (simp add: take_bit_eq_mod)
  then have n: "unat n mod 32 = 0" using assms by simp
  have "unat (y + n) mod 32 = (unat y + unat n) mod 2 ^ 32 mod 32" unfolding unat_word_ariths by simp
  also have "\<dots> = (unat y + unat n) mod 32" by (rule mod_mod_cancel) simp
  also have "\<dots> = (unat y mod 32 + unat n mod 32) mod 32" by (rule mod_add_eq [symmetric])
  also have "\<dots> = unat y mod 32" using n by simp
  finally have "take_bit 5 (unat (y + n)) = take_bit 5 (unat y)" by (simp add: take_bit_eq_mod)
  then have "unat (take_bit 5 (y + n)) = unat (take_bit 5 y)" unfolding unsigned_take_bit_eq .
  then have "take_bit 5 (y + n) = take_bit 5 y" by (simp add: word_unat_eq_iff)
  then have "bit (take_bit 5 (y + n)) 2 = bit (take_bit 5 y) 2" by (rule arg_cong)
  then show ?thesis by (simp add: bit_take_bit_iff)
qed

lemma clear_4: "(y :: u32) AND NOT 4 = (if bit y 2 then y - 4 else y)" "\<not> bit (y AND NOT 4) 2"
proof -
  have e: "(4 :: u32) = 2 ^ 2" by simp
  have b: "bit (4 :: u32) i \<longleftrightarrow> i = 2" for i unfolding e by (subst bit_exp_iff) auto
  show n: "\<not> bit (y AND NOT 4) 2" unfolding bit_and_iff bit_not_iff b by blast
  have "(y AND NOT 4) OR 4 = y" if "bit y 2"
  proof (rule bit_word_eqI)
    fix i assume "i < LENGTH(32)"
    then show "bit (y AND NOT 4 OR 4) i = bit y i" unfolding bit_or_iff bit_and_iff bit_not_iff b using that by auto
  qed
  then have s: "y AND NOT 4 = y - 4" if "bit y 2" using or_4 [OF n] that by (metis add_diff_cancel_right')
  have "y AND NOT 4 = y" if "\<not> bit y 2"
  proof (rule bit_word_eqI)
    fix i assume "i < LENGTH(32)"
    then show "bit (y AND NOT 4) i = bit y i" unfolding bit_and_iff bit_not_iff b using that by auto
  qed
  then show "y AND NOT 4 = (if bit y 2 then y - 4 else y)" using s by presburger
qed

lemma saved_at_back:
  shows "saved_at s + 64 + (if bit (psp s) 2 then 4 else 0) = psp s" and "\<not> bit (saved_at s + 64) 2"
proof -
  have t: "take_bit 5 (32 :: u32) = 0" by simp
  have p: "bit (psp s - 32) 2 \<longleftrightarrow> bit (psp s) 2" using bit_2_add [OF t, of "psp s - 32"] by simp
  have e: "saved_at s + 64 = ((psp s - 32) AND NOT 4) + 32" unfolding saved_at_def by simp
  show "\<not> bit (saved_at s + 64) 2" unfolding e bit_2_add [OF t] by (rule clear_4(2))
  show "saved_at s + 64 + (if bit (psp s) 2 then 4 else 0) = psp s" unfolding e clear_4(1) p by simp
qed

text \<open>The stacked status and program counter give the interrupted ones back.\<close>

lemma bit_9: "bit (0x200 :: u32) i \<longleftrightarrow> i = 9"
proof -
  have e: "(0x200 :: u32) = 2 ^ 9" by simp
  show ?thesis unfolding e by (subst bit_exp_iff) auto
qed

lemma even_pc: "\<not> bit pc 0 \<Longrightarrow> pc AND NOT 1 = (pc :: u32)"
proof (rule bit_word_eqI)
  fix i assume "\<not> bit pc 0" "i < LENGTH(32)"
  then show "bit (pc AND NOT 1) i = bit pc i" unfolding bit_and_iff bit_not_iff bit_1_iff by (cases "i = 0") auto
qed

lemma stacked_status_back:
  assumes "\<not> bit (xpsr s) 9"
  shows "stacked_status s AND NOT 0x200 = xpsr s" "bit (stacked_status s) 9 \<longleftrightarrow> bit (psp s) 2"
proof -
  show "bit (stacked_status s) 9 \<longleftrightarrow> bit (psp s) 2"
    unfolding stacked_status_def
    by (cases "bit (psp s) 2") (simp_all only: if_True if_False bit_or_iff bit_and_iff bit_not_iff bit_9, simp_all)
  show "stacked_status s AND NOT 0x200 = xpsr s"
  proof (rule bit_word_eqI)
    fix i assume "i < LENGTH(32)"
    then show "bit (stacked_status s AND NOT 0x200) i = bit (xpsr s) i"
      unfolding stacked_status_def using assms
      by (cases "bit (psp s) 2") (simp_all only: if_True if_False bit_or_iff bit_and_iff bit_not_iff bit_9, auto)
  qed
qed

text \<open>
  Whatever runs between the save and the restore of a frame, on either core, the task gets its
  context back.
\<close>

lemma arm_round_trip:
  fixes s s2 :: arm
  assumes sep: "\<not> in_arm_frame (saved_at s) (msp s - 4)"
    and f: "greg s2 0 = saved_at s"
    and fr: "\<And>a. in_arm_frame (saved_at s) a \<Longrightarrow> words s2 a = words (t_exec pendsv_save (exception_entry s)) a"
    and even: "\<not> bit (arm_pc s) 0" and x9: "\<not> bit (xpsr s) 9"
  defines "s3 \<equiv> exception_return (t_exec pendsv_restore s2)"
  shows "q \<in> context_regs \<Longrightarrow> greg s3 q = greg s q" "psp s3 = psp s" "arm_pc s3 = arm_pc s" "xpsr s3 = xpsr s"
    "msp s3 = msp s2 + 8" "words s3 = words s2"
proof -
  have h: "arm_frame (saved_at s) (greg s) (arm_pc s) (stacked_status s) (words s2)"
    by (rule arm_frame_cong [OF pendsv_saves(1) [OF sep]]) (rule fr)
  note r = pendsv_restores [OF h f saved_at_back(2), folded s3_def]
  note st = stacked_status_back [OF x9]
  show "greg s3 q = greg s q" if "q \<in> context_regs" using r(1) that .
  show "psp s3 = psp s" unfolding r(4) st by (rule saved_at_back(1))
  show "msp s3 = msp s2 + 8" "words s3 = words s2" by (rule r)+
  show "arm_pc s3 = arm_pc s" unfolding r(2) by (rule even_pc [OF even])
  show "xpsr s3 = xpsr s" unfolding r(3) by (rule st)
qed

section \<open>The first frame\<close>

lemma arm_frame_start_bounds:
  fixes base len :: usize
  assumes "ARM_MIN_TASK_STACK \<le> len" and "unat base + unat len < 2 ^ 32"
  defines "f \<equiv> arm_frame_start base len"
  shows "unat base + 48 < unat f" "unat f + 64 \<le> unat base + unat len" "unat f mod 16 = 0" "\<not> bit (f + 64) 2"
proof -
  let ?x = "base + len - 64"
  have l: "128 \<le> unat len" using assms(1) by (simp add: ARM_MIN_TASK_STACK_def word_le_nat_alt)
  have t: "unat (base + len) = unat base + unat len" using assms(2) by (simp add: unat_word_ariths)
  have x: "unat ?x = unat base + unat len - 64" using l t by (subst unat_sub) (simp_all add: word_le_nat_alt)
  have m: "(16 - 1 :: usize) = mask 4" by (simp add: mask_eq_exp_minus_1)
  have f: "unat f = unat ?x - unat ?x mod 16"
    unfolding f_def arm_frame_start_def m using unat_and_not_mask [of ?x 4] by simp
  have "unat ?x mod 16 < 16" by simp
  then show "unat base + 48 < unat f" "unat f + 64 \<le> unat base + unat len" using f x l by linarith+
  show a: "unat f mod 16 = 0" unfolding f by (simp add: minus_mod_eq_mult_div)
  have "take_bit 5 (64 :: u32) = 0" by simp
  moreover have "\<not> bit f 2" by (rule aligned_low_bits [of _ 4]) (use a in simp_all)
  ultimately show "\<not> bit (f + 64) 2" using bit_2_add by blast
qed

lemma zero_frame:
  "foldl (\<lambda>m i. m(f + 4 * of_nat i := 0)) m [0..<16] =
    (\<lambda>a. if in_arm_frame f a then 0 else m a)" for m :: "u32 \<Rightarrow> u32"
proof -
  have z: "foldl (\<lambda>m i. m(f + 4 * of_nat i := 0)) m is = (\<lambda>a. if \<exists>i \<in> set is. a = f + 4 * of_nat i then 0 else m a)" for "is"
    by (induction "is" arbitrary: m) (auto simp: fun_eq_iff)
  have l: "map (\<lambda>i. 4 * of_nat i) [0..<16] = [0, 4, 8, 12, 16, 20, 24, 28, 32, 36, 40, 44, 48, 52, 56, 60 :: u32]"
    by (simp add: upt_rec)
  have "(\<exists>i \<in> set [0..<16]. a = f + 4 * of_nat i) \<longleftrightarrow> a - f \<in> set (map (\<lambda>i. 4 * of_nat i) [0..<16])" for a
    by (auto simp: algebra_simps image_iff)
  then have "(\<exists>i \<in> set [0..<16]. a = f + 4 * of_nat i) \<longleftrightarrow> in_arm_frame f a" for a
    unfolding l in_arm_frame_def by simp
  then show ?thesis unfolding z by (simp add: fun_eq_iff)
qed

lemma init_frame_holds:
  assumes "init_task_stack_impl task_exit base len entry_fn arg m = (f, m')"
  shows "f = arm_frame_start base len" "arm_frame f ((\<lambda>_. 0)(0 := arg, 14 := task_exit)) entry_fn 0x01000000 m'"
    "\<not> in_arm_frame f a \<Longrightarrow> m' a = m a"
proof -
  have f: "f = arm_frame_start base len"
    "m' = (\<lambda>a. if in_arm_frame f a then 0 else m a)(f + 32 := arg, f + 52 := task_exit, f + 56 := entry_fn, f + 60 := 0x01000000)"
    using assms by (auto simp: init_task_stack_impl_def zero_frame Let_def)
  show "f = arm_frame_start base len" by (rule f)
  have i: "in_arm_frame f f" using in_arm_frame_offset [of f 0] by simp
  show "arm_frame f ((\<lambda>_. 0)(0 := arg, 14 := task_exit)) entry_fn 0x01000000 m'"
    unfolding arm_frame_def f(2) using i by (simp add: in_arm_frame_offset)
  show "m' a = m a" if n: "\<not> in_arm_frame f a"
  proof -
    have "a \<noteq> f + n" if "n \<in> {32, 52, 56, 60}" for n
      using n that in_arm_frame_offset [of f n] by auto
    then show ?thesis unfolding f(2) using n by simp
  qed
qed

text \<open>Resumed, the frame starts the entry with its argument, and returning from it exits the task.\<close>

lemma arm_first_run:
  assumes i: "init_task_stack_impl task_exit base len entry_fn arg m = (f, m')"
    and len: "ARM_MIN_TASK_STACK \<le> len" "unat base + unat len < 2 ^ 32"
    and s: "greg s 0 = f" "words s = m'"
  defines "s1 \<equiv> exception_return (t_exec pendsv_restore s)"
  shows "arm_pc s1 = entry_fn AND NOT 1" "greg s1 0 = arg" "greg s1 14 = task_exit" "psp s1 = f + 64"
proof -
  have al: "\<not> bit (f + 64) 2" using arm_frame_start_bounds(4) [OF len] init_frame_holds(1) [OF i] by simp
  note r = pendsv_restores [OF init_frame_holds(2) [OF i, folded s(2)] s(1) al, folded s1_def]
  have e: "(0x01000000 :: u32) = 2 ^ 24" by simp
  have "\<not> bit (0x01000000 :: u32) 9" unfolding e by (subst bit_exp_iff) simp
  then show "psp s1 = f + 64" unfolding r(4) by simp
  show "arm_pc s1 = entry_fn AND NOT 1" by (rule r(2))
  show "greg s1 0 = arg" "greg s1 14 = task_exit" using r(1) [of 0] r(1) [of 14] by (simp_all add: context_regs_def)
qed

text \<open>
  Started as the first task, the same frame leaves the link register of the caller: a return
  from its entry does not exit the task.
\<close>

lemma first_task_return_address:
  "greg (start_first_task f s) 14 = greg s 14" "psp (start_first_task f s) = f"
  by (simp_all add: start_first_task_def)

text \<open>The supervisor call hands the frame back in the stacked register 0 and keeps the unit on.\<close>

lemma svc_core_spec:
  assumes "init_task_stack_impl task_exit (m frame) (m (frame + 4)) (m (frame + 8)) (m (frame + 12)) m = (f, m')"
  shows "svc_core task_exit frame (m, mp) = (m'(frame := f), mp)"
  using assms by (simp add: svc_core_def disable_for_scope_def restore_after_scope_def)

end
