(* ===== verification/Arm_Kernel.thy ===== *)
theory Arm_Kernel
  imports Arm_Context Tick_Trace
begin

text \<open>
  The exceptions of the Cortex-M ports around the kernel: PendSV, which saves the interrupted
  task, asks the kernel what to run and restores it (\<open>PendSV\<close> and \<open>rivet_pendsv_rust\<close> of
  \<open>rivet-arch-cortex-m/src/lib.rs\<close> and \<open>rivet-arch-cortex-m0/src/lib.rs\<close>), with the protection unit
  switched on the way, and the memory fault (\<open>mpu.rs\<close>). The handler's calls clobber the registers
  the calling convention leaves them; its own stack is not represented below the words it pushed.
\<close>

section \<open>State\<close>

record arm_inputs =
  ai_core_m0 :: bool
  ai_now :: u32
  ai_cycles :: u64
  ai_trace_now :: u64
  ai_readings :: readings
  ai_clobber :: "nat \<Rightarrow> u32"
  ai_cfsr :: u32
  ai_mmfar :: u32

record arm_kernel =
  ak_cpu :: arm
  ak_kernel :: kernel
  ak_instr :: instruments
  ak_mpu :: mpu
  ak_requested_at :: u32
  ak_pendsv :: bool

section \<open>Operations\<close>

text \<open>Memory as the kernel reads it, byte by byte, in little-endian order.\<close>

definition bytes_of :: "(u32 \<Rightarrow> u32) \<Rightarrow> usize \<Rightarrow> u8" where
  "bytes_of m a = ucast (drop_bit (8 * (unat a mod 4)) (m (a - of_nat (unat a mod 4))))"

definition arm_request_reschedule :: "features \<Rightarrow> arm_inputs \<Rightarrow> arm_kernel \<Rightarrow> arm_kernel" where
  "arm_request_reschedule ft ai s =
    (if hist_on ft then s\<lparr>ak_requested_at := ai_now ai, ak_pendsv := True\<rparr> else s\<lparr>ak_pendsv := True\<rparr>)"

text \<open>
  The kernel's calls of \<open>on_switch_to\<close> are in its log; ARMv6-M has no protection unit.
\<close>

definition arm_on_switch_to :: "bool \<Rightarrow> usize \<Rightarrow> usize \<Rightarrow> mpu \<Rightarrow> mpu option" where
  "arm_on_switch_to m0 base sz m = (if m0 then Some m else set_current_stack base sz m)"

primrec arm_switch_all :: "bool \<Rightarrow> (usize \<times> usize) list \<Rightarrow> mpu \<Rightarrow> mpu option" where
  "arm_switch_all m0 [] m = Some m"
| "arm_switch_all m0 (r # rs) m = do { m1 \<leftarrow> arm_on_switch_to m0 (fst r) (snd r) m; arm_switch_all m0 rs m1 }"

definition new_switches :: "kernel \<Rightarrow> kernel \<Rightarrow> (usize \<times> usize) list" where
  "new_switches k k' = switch_calls (drop (length (events k)) (events k'))"

definition rivet_pendsv_rust :: "features \<Rightarrow> arm_inputs \<Rightarrow> usize \<Rightarrow> arm_kernel \<Rightarrow> (outcome \<times> arm_kernel) option" where
  "rivet_pendsv_rust ft ai interrupted_sp s = do {
     let ins = (if hist_on ft
       then (ak_instr s)\<lparr>in_hist := latency_record IrqEntry (ucast (ai_now ai - ak_requested_at s)) (in_hist (ak_instr s))\<rparr>
       else ak_instr s);
     (res, k, ins1) \<leftarrow> on_tick ft 0 (ai_readings ai) (ai_cycles ai) (ai_trace_now ai) (bytes_of (words (ak_cpu s)))
                         interrupted_sp (ak_kernel s, ins);
     m \<leftarrow> arm_switch_all (ai_core_m0 ai) (new_switches (ak_kernel s) k) (ak_mpu s);
     Some (res, s\<lparr>ak_kernel := k, ak_instr := ins1, ak_mpu := m\<rparr>)
   }"

text \<open>A call from an exception handler: the result comes back in register 0.\<close>

definition after_call :: "(nat \<Rightarrow> u32) \<Rightarrow> u32 \<Rightarrow> arm \<Rightarrow> arm" where
  "after_call clobber r s =
    s\<lparr>greg := (\<lambda>q. if q = 0 then r else if q \<in> {1, 2, 3, 12, 14} then clobber q else greg s q)\<rparr>"

definition save_code :: "bool \<Rightarrow> thumb list" where
  "save_code m0 = (if m0 then pendsv_save_m0 else pendsv_save)"

definition restore_code :: "bool \<Rightarrow> thumb list" where
  "restore_code m0 = (if m0 then pendsv_restore_m0 else pendsv_restore)"

text \<open>\<open>None\<close> in the first component: the fault policy has stopped the system.\<close>

definition pendsv :: "features \<Rightarrow> arm_inputs \<Rightarrow> arm_kernel \<Rightarrow> (arm option \<times> arm_kernel) option" where
  "pendsv ft ai s = do {
     let c1 = t_exec (save_code (ai_core_m0 ai)) (exception_entry (ak_cpu s));
     (res, s1) \<leftarrow> rivet_pendsv_rust ft ai (greg c1 0) (s\<lparr>ak_cpu := c1, ak_pendsv := False\<rparr>);
     (case res of
        Halted \<Rightarrow> Some (None, s1)
      | Resume next_sp \<Rightarrow>
          let c2 = exception_return (t_exec (restore_code (ai_core_m0 ai)) (after_call (ai_clobber ai) next_sp c1))
          in Some (Some c2, s1\<lparr>ak_cpu := c2\<rparr>))
   }"

definition rivet_memmanage_rust :: "arm_inputs \<Rightarrow> usize \<Rightarrow> arm_kernel \<Rightarrow> (outcome \<times> arm_kernel) option" where
  "rivet_memmanage_rust ai faulted_sp s =
    (let k = ak_kernel s; m = words (ak_cpu s);
         fault_pc = (if faulted_sp \<noteq> 0 then m (faulted_sp + 24) else 0);
         task_id = current 0 k;
         k1 = (case task_id of None \<Rightarrow> k | Some i \<Rightarrow> store_sp i faulted_sp k);
         info = \<lparr>fault_task = task_id, fault_kind = MemManage (ai_cfsr ai),
           fault_address = (if ai_cfsr ai AND push_bit 7 1 \<noteq> 0 then ai_mmfar ai else 0), fault_pc = fault_pc\<rparr>
     in do {
       (res, k2) \<leftarrow> on_fault 0 (bytes_of m) info k1;
       mp \<leftarrow> arm_switch_all False (new_switches k k2) (ak_mpu s);
       Some (res, s\<lparr>ak_kernel := k2, ak_mpu := mp\<rparr>)
     })"

definition memmanage :: "arm_inputs \<Rightarrow> arm_kernel \<Rightarrow> (arm option \<times> arm_kernel) option" where
  "memmanage ai s = do {
     let c1 = t_exec memmanage_enter (exception_entry (ak_cpu s));
     (res, s1) \<leftarrow> rivet_memmanage_rust ai (greg c1 0) (s\<lparr>ak_cpu := c1\<rparr>);
     (case res of
        Halted \<Rightarrow> Some (None, s1)
      | Resume next_sp \<Rightarrow>
          let c2 = exception_return (t_exec memmanage_leave (after_call (ai_clobber ai) next_sp c1))
          in Some (Some c2, s1\<lparr>ak_cpu := c2\<rparr>))
   }"

section \<open>Where frames lie\<close>

text \<open>
  Live tasks have stacks of their own among those in use; the frame of a task that does not run
  lies in its stack, aligned.
\<close>

definition frame_room :: "kernel \<Rightarrow> nat \<Rightarrow> usize \<Rightarrow> bool" where
  "frame_room k j f \<longleftrightarrow> unat (stack_base (tasks k ! j)) \<le> unat f \<and>
     unat f + 64 \<le> unat (stack_base (tasks k ! j)) + unat (stack_size (tasks k ! j)) \<and> \<not> bit (f + 64) 2"

definition stacks_owned :: "region list \<Rightarrow> kernel \<Rightarrow> bool" where
  "stacks_owned live k \<longleftrightarrow>
     (\<forall>j. task_live k j \<longrightarrow> (stack_base (tasks k ! j), stack_size (tasks k ! j)) \<in> set live) \<and>
     (\<forall>j j'. task_live k j \<longrightarrow> task_live k j' \<longrightarrow> j \<noteq> j' \<longrightarrow>
       (stack_base (tasks k ! j), stack_size (tasks k ! j)) \<noteq> (stack_base (tasks k ! j'), stack_size (tasks k ! j')))"

definition frames_kept :: "kernel \<Rightarrow> bool" where
  "frames_kept k \<longleftrightarrow> (\<forall>j. task_live k j \<longrightarrow> current 0 k \<noteq> Some j \<longrightarrow> frame_room k j (sp (tasks k ! j)))"

lemma in_frame_bounds:
  assumes "in_arm_frame f a" and "unat f + 64 < 2 ^ 32"
  shows "unat f \<le> unat a" "unat a < unat f + 64"
proof -
  obtain n where n: "n \<in> {0, 4, 8, 12, 16, 20, 24, 28, 32, 36, 40, 44, 48, 52, 56, 60 :: u32}" "a = f + n"
    using assms(1) unfolding in_arm_frame_def by (metis add_diff_cancel_left' diff_add_cancel add.commute)
  then have l: "unat n \<le> 60" by auto
  then have "unat a = unat f + unat n" using n(2) assms(2) by (simp add: unat_word_ariths)
  then show "unat f \<le> unat a" "unat a < unat f + 64" using l by simp_all
qed

lemma frame_in_stack:
  assumes "pool_inv base len s live" and "unat base + unat len < 2 ^ 32" and "stacks_owned live k" and "task_live k j"
    and "frame_room k j f" and "in_arm_frame f a"
  shows "unat (stack_base (tasks k ! j)) \<le> unat a" "unat a < unat (stack_base (tasks k ! j)) + unat (stack_size (tasks k ! j))"
proof -
  have "(stack_base (tasks k ! j), stack_size (tasks k ! j)) \<in> set live" using assms(3,4) by (simp add: stacks_owned_def)
  then have "within base s (stack_base (tasks k ! j), stack_size (tasks k ! j))" "unat (next_off s) \<le> unat len"
    using assms(1) by (auto simp: pool_inv_def)
  then have "unat (stack_base (tasks k ! j)) + unat (stack_size (tasks k ! j)) < 2 ^ 32"
    using assms(2) by (auto simp: within_def pool_end_def)
  moreover have r: "unat (stack_base (tasks k ! j)) \<le> unat f"
    "unat f + 64 \<le> unat (stack_base (tasks k ! j)) + unat (stack_size (tasks k ! j))"
    using assms(5) by (simp_all add: frame_room_def)
  ultimately have "unat f + 64 < 2 ^ 32" by linarith
  note b = in_frame_bounds [OF assms(6) this]
  show "unat (stack_base (tasks k ! j)) \<le> unat a" "unat a < unat (stack_base (tasks k ! j)) + unat (stack_size (tasks k ! j))"
    using b r by linarith+
qed

text \<open>Frames of two tasks share no word, and the handler's stack, outside the pool, is apart from both.\<close>

lemma frames_apart:
  assumes p: "pool_inv base len s live" "unat base + unat len < 2 ^ 32" "stacks_owned live k"
    and i: "task_live k i" "frame_room k i f" "in_arm_frame f a"
    and j: "task_live k j" "frame_room k j f'" "in_arm_frame f' a"
  shows "i = j"
proof (rule ccontr)
  assume "i \<noteq> j"
  then have ne: "(stack_base (tasks k ! j), stack_size (tasks k ! j)) \<noteq> (stack_base (tasks k ! i), stack_size (tasks k ! i))"
    and l: "(stack_base (tasks k ! i), stack_size (tasks k ! i)) \<in> set live"
      "(stack_base (tasks k ! j), stack_size (tasks k ! j)) \<in> set live"
    using p(3) i(1) j(1) by (auto simp: stacks_owned_def)
  show False
    using live_apart(1) [OF p(1) l ne frame_in_stack [OF p j]] frame_in_stack [OF p i] by blast
qed

lemma frame_in_pool:
  assumes p: "pool_inv base len s live" "unat base + unat len < 2 ^ 32" "stacks_owned live k"
    and i: "task_live k i" "frame_room k i f" "in_arm_frame f a"
  shows "unat base \<le> unat a" "unat a < unat base + unat len"
proof -
  have "(stack_base (tasks k ! i), stack_size (tasks k ! i)) \<in> set live" using p(3) i(1) by (simp add: stacks_owned_def)
  then have "within base s (stack_base (tasks k ! i), stack_size (tasks k ! i))" "unat (next_off s) \<le> unat len"
    using p(1) by (auto simp: pool_inv_def)
  then show "unat base \<le> unat a" "unat a < unat base + unat len"
    using frame_in_stack [OF p i] by (auto simp: within_def pool_end_def)
qed

section \<open>A PendSV is a context switch\<close>

definition stack_of :: "kernel \<Rightarrow> nat \<Rightarrow> region" where
  "stack_of k j = (stack_base (tasks k ! j), stack_size (tasks k ! j))"

text \<open>The state between exceptions: task \<open>i\<close> runs, the other tasks' frames are kept.\<close>

definition arm_inv :: "bool \<Rightarrow> usize \<Rightarrow> usize \<Rightarrow> pool \<Rightarrow> region list \<Rightarrow> nat \<Rightarrow> arm_kernel \<Rightarrow> bool" where
  "arm_inv m0 base len ps live i s \<longleftrightarrow>
     good (ak_kernel s) \<and> current 0 (ak_kernel s) = Some i \<and> task_live (ak_kernel s) i \<and>
     pool_inv base len ps live \<and> unat base + unat len < 2 ^ 32 \<and> 0 < unat base \<and> (\<forall>r \<in> set live. size_aligned r) \<and>
     stacks_owned live (ak_kernel s) \<and> frames_kept (ak_kernel s) \<and>
     (m0 \<or> mpu_run base len (ak_mpu s) (Some (stack_of (ak_kernel s) i)))"

lemma set_current_stack_ok:
  assumes a: "size_aligned (b, sz)" and sz: "32 \<le> unat sz"
  shows "\<exists>m'. set_current_stack b sz m = Some m'"
proof -
  obtain n where n: "n < 31" "unat sz = 2 ^ n" "unat b mod 2 ^ n = 0" using a by (auto simp: size_aligned_def)
  have e: "sz = 2 ^ n" using n unat_exp_u32 [of n] by (simp add: word_unat_eq_iff)
  have n5: "5 \<le> n"
  proof (rule ccontr)
    assume "\<not> 5 \<le> n"
    then have "(2 :: nat) ^ n < 2 ^ 5" by (intro power_strict_increasing) simp_all
    then show False using sz n(2) by simp
  qed
  have "(7 :: u32) < 8" by simp
  then show ?thesis
    using power_of_two_exp(1) [of n] write_region_eq [OF n(3) n5 _ _ e, of 7 RASR_AP_RW m] n(1)
    by (simp add: set_current_stack_def CURRENT_STACK_REGION_def e)
qed

lemma new_switches_append: "events k' = events k @ es \<Longrightarrow> new_switches k k' = switch_calls es"
  by (simp add: new_switches_def)

lemma protect_spec:
  assumes m: "m0 \<or> mpu_run base len m (Some (stack_of k i))"
    and ev: "new_switches k k' = (if c = i then [] else [stack_of k c])" and same: "stack_of k' c = stack_of k c"
    and r: "size_aligned (stack_of k c)" "32 \<le> unat (snd (stack_of k c))" "fst (stack_of k c) \<noteq> 0"
  shows "\<exists>m'. arm_switch_all m0 (new_switches k k') m = Some m' \<and> (m0 \<or> mpu_run base len m' (Some (stack_of k' c)))"
proof (cases "c = i \<or> m0")
  case True
  then show ?thesis using m ev same by (auto simp: arm_on_switch_to_def)
next
  case False
  obtain b sz where st: "stack_of k c = (b, sz)" by fastforce
  obtain m' where "set_current_stack b sz m = Some m'" using set_current_stack_ok [of b sz m] r st by auto
  then show ?thesis using False m ev same r mpu_run.switch [of base len m "Some (stack_of k i)" b sz m'] st
    by (simp add: arm_on_switch_to_def)
qed

text \<open>The call keeps the pushed words and puts the result where the restore expects it.\<close>

lemma after_call_eq [simp]:
  "greg (after_call cl r s) 0 = r" "words (after_call cl r s) = words s" "msp (after_call cl r s) = msp s"
  by (simp_all add: after_call_def)

lemma save_code_eq:
  "words (t_exec (save_code m0) s) = words (t_exec pendsv_save s)" "msp (t_exec (save_code m0) s) = msp (t_exec pendsv_save s)"
  "greg (t_exec (save_code m0) s) 0 = greg (t_exec pendsv_save s) 0"
  by (simp_all add: save_code_def save_m0_eq)

lemma restore_code_eq: "exception_return (t_exec (restore_code m0) s) = exception_return (t_exec pendsv_restore s)"
  by (simp add: restore_code_def return_m0_eq)

definition same_context :: "arm \<Rightarrow> arm \<Rightarrow> bool" where
  "same_context s s' \<longleftrightarrow> (\<forall>q \<in> context_regs. greg s' q = greg s q) \<and> psp s' = psp s \<and> arm_pc s' = arm_pc s \<and> xpsr s' = xpsr s"

text \<open>A processor state that continues the frame kept at \<open>f\<close> in memory \<open>m\<close>.\<close>

definition continues :: "u32 \<Rightarrow> (u32 \<Rightarrow> u32) \<Rightarrow> arm \<Rightarrow> bool" where
  "continues f m s' \<longleftrightarrow> (\<forall>g pc x. arm_frame f g pc x m \<longrightarrow>
     (\<forall>q \<in> context_regs. greg s' q = g q) \<and> arm_pc s' = pc AND NOT 1 \<and> xpsr s' = x AND NOT 0x200 \<and>
     psp s' = f + 64 + (if bit x 9 then 4 else 0))"

lemma pendsv_rust_spec:
  assumes inv: "arm_inv (ai_core_m0 ai) base len ps live i s"
    and nf: "\<not> tick_faults i (ai_readings ai) (bytes_of (words (ak_cpu s))) (store_sp i f (ak_kernel s))"
    and ins: "sent fs (in_tracer (ak_instr s))" "pending_ctx_switch (ak_instr s) = - 1"
    and room: "frame_room (ak_kernel s) i f"
  shows "\<exists>c s'. rivet_pendsv_rust ft ai f s = Some (Resume (if c = i then f else sp (tasks (ak_kernel s) ! c)), s') \<and>
    arm_inv (ai_core_m0 ai) base len ps live c s' \<and> (c \<noteq> i \<longrightarrow> queued (ak_kernel s) c) \<and> ak_cpu s' = ak_cpu s \<and>
    task_live (ak_kernel s) c \<and> sp (tasks (ak_kernel s') ! i) = f \<and>
    (\<forall>j. task_live (ak_kernel s') j = task_live (ak_kernel s) j \<and>
      (j \<noteq> i \<longrightarrow> task_live (ak_kernel s) j \<longrightarrow> sp (tasks (ak_kernel s') ! j) = sp (tasks (ak_kernel s) ! j)))"
proof -
  let ?k = "ak_kernel s" and ?mem = "bytes_of (words (ak_cpu s))"
  define ins1 where "ins1 = (if hist_on ft
       then (ak_instr s)\<lparr>in_hist := latency_record IrqEntry (ucast (ai_now ai - ak_requested_at s)) (in_hist (ak_instr s))\<rparr>
       else ak_instr s)"
  have i1: "sent fs (in_tracer ins1)" "pending_ctx_switch ins1 = - 1" using ins by (simp_all add: ins1_def)
  have g: "good ?k" and cur: "current 0 ?k = Some i" and live: "task_live ?k i" and pool: "pool_inv base len ps live"
    and own: "stacks_owned live ?k" and kept: "frames_kept ?k" and al: "\<forall>r \<in> set live. size_aligned r"
    and m: "ai_core_m0 ai \<or> mpu_run base len (ak_mpu s) (Some (stack_of ?k i))" and b0: "0 < unat base"
    using inv by (simp_all add: arm_inv_def)
  have h: "0 < max_harts ?k" using goodD(1) [OF g] by (simp add: wf_def)
  obtain res c k' where t: "on_tick_locked 0 (ai_readings ai) ?mem f ?k = Some (res, k')" "good k'" "task_live k' c"
    "current_ids k' = (current_ids ?k)[0 := Some c]" "res = Resume (if c = i then f else sp (tasks ?k ! c))"
    "c \<noteq> i \<longrightarrow> queued ?k c" "max_ptasks k' = max_ptasks ?k"
    "\<forall>j < max_ptasks ?k. sp (tasks k' ! j) = (if j = i then f else sp (tasks ?k ! j)) \<and> task_live k' j = task_live ?k j"
    "\<forall>j < max_ptasks ?k. stack_base (tasks k' ! j) = stack_base (tasks ?k ! j) \<and> stack_size (tasks k' ! j) = stack_size (tasks ?k ! j)"
    "\<exists>es. events k' = events ?k @ es \<and>
      switch_calls es = (if c = i then [] else [(stack_base (tasks ?k ! c), stack_size (tasks ?k ! c))])"
    using tick_saves [OF g h cur live nf] by blast
  obtain ins' where o: "on_tick ft 0 (ai_readings ai) (ai_cycles ai) (ai_trace_now ai) ?mem f (?k, ins1) = Some (res, k', ins')"
    using on_tick_spec [OF g h i1, of "ai_readings ai" ?mem f ft "ai_cycles ai" "ai_trace_now ai"] t(1) by auto
  have lv: "task_live k' j = task_live ?k j" for j using t(7,8) by (cases "j < max_ptasks ?k") (simp_all add: task_live_def)
  have lm: "j < max_ptasks ?k" if "task_live ?k j" for j using that by (simp add: task_live_def)
  have so: "stack_of k' j = stack_of ?k j" if "task_live ?k j" for j using t(9) lm [OF that] by (simp add: stack_of_def)
  have cl: "task_live ?k c" using t(3) lv by simp
  have cc: "current 0 k' = Some c" using t(4) h by (simp add: current_def)
  have sw: "new_switches ?k k' = (if c = i then [] else [stack_of ?k c])"
    using t(10) new_switches_append unfolding stack_of_def by metis
  have room_c: "frame_room ?k c (if c = i then f else sp (tasks ?k ! c))"
    using room kept cl cur by (auto simp: frames_kept_def)
  have inl: "stack_of ?k c \<in> set live" using own cl by (simp add: stacks_owned_def stack_of_def)
  then have w: "unat base \<le> unat (fst (stack_of ?k c))" and "size_aligned (stack_of ?k c)"
    using al pool by (simp_all add: pool_inv_def within_def)
  moreover have "fst (stack_of ?k c) \<noteq> 0" using w b0 by auto
  moreover have "64 \<le> unat (snd (stack_of ?k c))" using room_c by (simp add: frame_room_def stack_of_def)
  ultimately obtain m' where m': "arm_switch_all (ai_core_m0 ai) (new_switches ?k k') (ak_mpu s) = Some m'"
    "ai_core_m0 ai \<or> mpu_run base len m' (Some (stack_of k' c))"
    using protect_spec [OF m sw so [OF cl]] by auto
  have run: "rivet_pendsv_rust ft ai f s = Some (res, s\<lparr>ak_kernel := k', ak_instr := ins', ak_mpu := m'\<rparr>)"
    using o m'(1) by (simp add: rivet_pendsv_rust_def ins1_def [symmetric] Let_def)
  have "stacks_owned live k'" using own lv so by (simp add: stacks_owned_def stack_of_def)
  moreover have "frames_kept k'" unfolding frames_kept_def
  proof (intro allI impI)
    fix j assume j: "task_live k' j" "current 0 k' \<noteq> Some j"
    then have jl: "task_live ?k j" using lv by simp
    have "frame_room ?k j (sp (tasks k' ! j))"
      using t(8) lm [OF jl] room kept jl cur by (cases "j = i") (simp_all add: frames_kept_def)
    then show "frame_room k' j (sp (tasks k' ! j))" using so [OF jl] by (simp add: frame_room_def stack_of_def)
  qed
  ultimately have "arm_inv (ai_core_m0 ai) base len ps live c (s\<lparr>ak_kernel := k', ak_instr := ins', ak_mpu := m'\<rparr>)"
    using inv t(2,3) cc m'(2) by (simp add: arm_inv_def)
  then show ?thesis using run t(5,6,8) lm live lv cl by fastforce
qed

lemma restore_continues:
  assumes "greg s 0 = f" and "\<not> bit (f + 64) 2"
  shows "continues f (words s) (exception_return (t_exec pendsv_restore s))"
  unfolding continues_def using pendsv_restores(1-4) [OF _ assms] by blast

lemma continues_cong:
  assumes "\<And>a. in_arm_frame f a \<Longrightarrow> m' a = m a"
  shows "continues f m' s \<longleftrightarrow> continues f m s"
proof -
  have "arm_frame f g pc x m' \<longleftrightarrow> arm_frame f g pc x m" for g pc x
    using arm_frame_cong [of f g pc x m m'] arm_frame_cong [of f g pc x m' m] assms by auto
  then show ?thesis by (simp add: continues_def)
qed

lemma saved_continues:
  assumes "arm_frame (saved_at s) (greg s) (arm_pc s) (stacked_status s) m" and "continues (saved_at s) m s'"
    and "\<not> bit (arm_pc s) 0" and "\<not> bit (xpsr s) 9"
  shows "same_context s s'"
proof -
  have "(\<forall>q \<in> context_regs. greg s' q = greg s q) \<and> arm_pc s' = arm_pc s AND NOT 1 \<and>
      xpsr s' = stacked_status s AND NOT 0x200 \<and> psp s' = saved_at s + 64 + (if bit (stacked_status s) 9 then 4 else 0)"
    using assms(1,2) unfolding continues_def by blast
  then show ?thesis
    unfolding same_context_def stacked_status_back [OF assms(4)] even_pc [OF assms(3)] saved_at_back(1) by blast
qed

text \<open>
  The interrupted task is saved so that whoever continues its frame has its context; the chosen
  task continues its own, and no other frame changes.
\<close>

lemma pendsv_spec:
  assumes inv: "arm_inv (ai_core_m0 ai) base len ps live i s"
    and room: "frame_room (ak_kernel s) i (saved_at (ak_cpu s))"
    and stk: "\<not> (unat base \<le> unat (msp (ak_cpu s) - 4) \<and> unat (msp (ak_cpu s) - 4) < unat base + unat len)"
    and pc: "\<not> bit (arm_pc (ak_cpu s)) 0" and x9: "\<not> bit (xpsr (ak_cpu s)) 9"
    and nf: "\<not> tick_faults i (ai_readings ai) (bytes_of (words (t_exec pendsv_save (exception_entry (ak_cpu s)))))
      (store_sp i (saved_at (ak_cpu s)) (ak_kernel s))"
    and ins: "sent fs (in_tracer (ak_instr s))" "pending_ctx_switch (ak_instr s) = - 1"
  shows "\<exists>c s'. pendsv ft ai s = Some (Some (ak_cpu s'), s') \<and> arm_inv (ai_core_m0 ai) base len ps live c s' \<and>
    (c \<noteq> i \<longrightarrow> queued (ak_kernel s) c) \<and> msp (ak_cpu s') = msp (ak_cpu s) \<and>
    (if c = i then same_context (ak_cpu s) (ak_cpu s')
     else continues (sp (tasks (ak_kernel s) ! c)) (words (ak_cpu s)) (ak_cpu s') \<and>
       (\<forall>s2. continues (sp (tasks (ak_kernel s') ! i)) (words (ak_cpu s')) s2 \<longrightarrow> same_context (ak_cpu s) s2)) \<and>
    (\<forall>j s2. task_live (ak_kernel s) j \<longrightarrow> j \<noteq> i \<longrightarrow>
      continues (sp (tasks (ak_kernel s') ! j)) (words (ak_cpu s')) s2 =
      continues (sp (tasks (ak_kernel s) ! j)) (words (ak_cpu s)) s2)"
proof -
  let ?k = "ak_kernel s" and ?s = "ak_cpu s"
  define f where "f = saved_at ?s"
  define c1 where "c1 = t_exec (save_code (ai_core_m0 ai)) (exception_entry ?s)"
  have live: "task_live ?k i" and pool: "pool_inv base len ps live" "unat base + unat len < 2 ^ 32" "stacks_owned live ?k"
    and kept: "frames_kept ?k" and cur: "current 0 ?k = Some i"
    using inv by (simp_all add: arm_inv_def)
  have sep: "\<not> in_arm_frame (saved_at ?s) (msp ?s - 4)"
    using frame_in_pool [OF pool live room] stk by blast
  note saves = pendsv_saves [OF sep, folded f_def]
  have c1: "words c1 = words (t_exec pendsv_save (exception_entry ?s))" "msp c1 = msp ?s - 8" "greg c1 0 = f"
    using saves(2,4) by (simp_all add: c1_def save_code_eq)
  have other: "words c1 a = words ?s a" if j: "task_live ?k j" "j \<noteq> i" "in_arm_frame (sp (tasks ?k ! j)) a" for j a
  proof -
    have rj: "frame_room ?k j (sp (tasks ?k ! j))" using kept j cur by (simp add: frames_kept_def)
    have "a \<noteq> msp ?s - 4" using frame_in_pool [OF pool j(1) rj j(3)] stk by blast
    moreover have "\<not> in_arm_frame f a"
      using frames_apart [OF pool live room _ j(1) rj j(3)] j(2) unfolding f_def by blast
    ultimately show ?thesis unfolding c1(1) by (rule saves(5))
  qed
  let ?s1 = "s\<lparr>ak_cpu := c1, ak_pendsv := False\<rparr>"
  have i1: "arm_inv (ai_core_m0 ai) base len ps live i ?s1" "frame_room (ak_kernel ?s1) i f"
    "sent fs (in_tracer (ak_instr ?s1))" "pending_ctx_switch (ak_instr ?s1) = - 1"
    using inv room ins by (simp_all add: arm_inv_def f_def)
  have e1: "ak_kernel ?s1 = ?k" "ak_cpu ?s1 = c1" by simp_all
  have nf1: "\<not> tick_faults i (ai_readings ai) (bytes_of (words (ak_cpu ?s1))) (store_sp i f (ak_kernel ?s1))"
    using nf by (simp add: c1(1) f_def)
  obtain c s1 where r: "rivet_pendsv_rust ft ai f ?s1 = Some (Resume (if c = i then f else sp (tasks ?k ! c)), s1)"
    "arm_inv (ai_core_m0 ai) base len ps live c s1" "c \<noteq> i \<longrightarrow> queued ?k c" "ak_cpu s1 = c1" "task_live ?k c"
    "sp (tasks (ak_kernel s1) ! i) = f"
    "\<forall>j. task_live (ak_kernel s1) j = task_live ?k j \<and>
      (j \<noteq> i \<longrightarrow> task_live ?k j \<longrightarrow> sp (tasks (ak_kernel s1) ! j) = sp (tasks ?k ! j))"
    using pendsv_rust_spec [OF i1(1) nf1 i1(3,4,2), of ft] unfolding e1 by blast
  define nsp where "nsp = (if c = i then f else sp (tasks ?k ! c))"
  let ?b = "after_call (ai_clobber ai) nsp c1"
  define c2 where "c2 = exception_return (t_exec (restore_code (ai_core_m0 ai)) ?b)"
  have run: "pendsv ft ai s = Some (Some c2, s1\<lparr>ak_cpu := c2\<rparr>)"
    using r(1) unfolding pendsv_def c1_def [symmetric] Let_def c1(3) by (simp add: c2_def nsp_def)
  have al: "\<not> bit (nsp + 64) 2"
    using kept cur r(5) saved_at_back(2) [of ?s] by (auto simp: nsp_def f_def frames_kept_def frame_room_def)
  have c2: "continues nsp (words c1) c2" "words c2 = words c1" "msp c2 = msp ?s"
  proof -
    have "continues nsp (words ?b) (exception_return (t_exec pendsv_restore ?b))"
      by (rule restore_continues [OF _ al]) simp
    then show "continues nsp (words c1) c2" by (simp add: c2_def restore_code_eq)
    show "words c2 = words c1" "msp c2 = msp ?s"
      unfolding c2_def restore_code_eq by (simp_all add: exception_return_def pendsv_restore_def Let_def c1(2))
  qed
  have saved: "same_context ?s s2" if "continues f (words c1) s2" for s2
    using saved_continues [of ?s "words c1"] saves(1) that pc x9 unfolding f_def [symmetric] c1(1) by blast
  have keep: "continues (sp (tasks ?k ! j)) (words c1) s2 = continues (sp (tasks ?k ! j)) (words ?s) s2"
    if "task_live ?k j" "j \<noteq> i" for j s2 using other [OF that] by (rule continues_cong)
  have "arm_inv (ai_core_m0 ai) base len ps live c (s1\<lparr>ak_cpu := c2\<rparr>)" using r(2) by (simp add: arm_inv_def)
  then show ?thesis
    using run r(3,5-7) c2 saved keep
    by (intro exI [of _ c] exI [of _ "s1\<lparr>ak_cpu := c2\<rparr>"]) (simp add: nsp_def split: if_splits)
qed

end
