(* ===== verification/Systick.thy ===== *)
theory Systick
  imports Watchdog
begin

text \<open>
  The tick source of the Cortex-M ports (\<open>rivet-arch-cortex-m/src/systick.rs\<close> and, line for line
  the same, \<open>rivet-arch-cortex-m0/src/systick.rs\<close>): a 32-bit count of ticks, converted to
  microseconds at the interface, and a reading with the resolution of the down-counter.
\<close>

section \<open>State and operations\<close>

record systick =
  system_ticks :: u32
  tick_period_us :: u32
  syst_csr :: u32
  syst_rvr :: u32
  syst_cvr :: u32
  pendsv_set :: bool

definition systick_boot :: systick where
  "systick_boot = \<lparr>system_ticks = 0, tick_period_us = 1000, syst_csr = 0, syst_rvr = 0, syst_cvr = 0,
     pendsv_set = False\<rparr>"

text \<open>The reload register has 24 bits, and any write to the counter clears it.\<close>

definition systick_init :: "u32 \<Rightarrow> u32 \<Rightarrow> systick \<Rightarrow> systick option" where
  "systick_init reload_ticks period s =
    (if reload_ticks = 0 then None
     else Some (s\<lparr>tick_period_us := period, syst_csr := 0, syst_rvr := take_bit 24 (reload_ticks - 1), syst_cvr := 0\<rparr>))"

definition systick_enable :: "systick \<Rightarrow> systick" where
  "systick_enable s = s\<lparr>syst_csr := push_bit 0 1 OR push_bit 1 1 OR push_bit 2 1\<rparr>"

definition systick_reload :: "u32 \<Rightarrow> systick \<Rightarrow> systick" where
  "systick_reload ticks s = s\<lparr>syst_rvr := take_bit 24 ticks, syst_cvr := 0\<rparr>"

definition seed_ticks :: "u32 \<Rightarrow> systick \<Rightarrow> systick" where
  "seed_ticks v s = s\<lparr>system_ticks := v\<rparr>"

definition systick_now :: "systick \<Rightarrow> u64" where
  "systick_now s = ucast (system_ticks s) * ucast (tick_period_us s)"

text \<open>
  The exception handler: the counter is advanced before the addition that overflows. The first
  result tells whether the watchdog reset the board.
\<close>

definition systick_handler :: "nat \<Rightarrow> sw_watchdog \<Rightarrow> u32 \<Rightarrow> u64 \<Rightarrow> systick \<times> kernel
    \<Rightarrow> (bool \<times> systick \<times> kernel) option" where
  "systick_handler h w checkin_timeout wd_now x =
    (let s = fst x; old = system_ticks s; s1 = s\<lparr>system_ticks := old + 1\<rparr>
     in if old = - 1 then None
        else do {
          let tick = old + 1;
          (reset, k) \<leftarrow> watchdog_on_tick w checkin_timeout wd_now (snd x);
          (if reset then Some (True, s1, k)
           else do {
             k1 \<leftarrow> poll_timers h (ucast tick * ucast (tick_period_us s1)) k;
             Some (False, s1\<lparr>pendsv_set := True\<rparr>, k1)
           })
        })"

text \<open>
  The precise reading: \<open>ticks n\<close> and \<open>cvr n\<close> are the count and the down-counter at access \<open>n\<close>.
\<close>

definition precise_value :: "u32 \<Rightarrow> u32 \<Rightarrow> systick \<Rightarrow> u64" where
  "precise_value t0 cvr s =
    (let rvr = syst_rvr s;
         period_us = ucast (tick_period_us s) :: u64;
         elapsed = ucast (if cvr \<le> rvr then rvr - cvr else 0) :: u64;
         frac_us = elapsed * period_us div (ucast rvr + 1)
     in ucast t0 * period_us + frac_us)"

partial_function (option) now_micros_precise :: "(nat \<Rightarrow> u32) \<Rightarrow> (nat \<Rightarrow> u32) \<Rightarrow> systick \<Rightarrow> nat \<Rightarrow> (u64 \<times> nat) option" where
  "now_micros_precise ticks cvr s n =
    (if ticks n \<noteq> ticks (n + 2) then now_micros_precise ticks cvr s (n + 3)
     else Some (precise_value (ticks n) (cvr (n + 1)) s, n + 3))"

section \<open>Arithmetic\<close>

lemma mul_u32_bound: "unat (a :: u32) * unat (b :: u32) < 2 ^ 64"
proof -
  have "unat a < 2 ^ 32" "unat b < 2 ^ 32"
    using unsigned_less [of a, where 'a = nat] unsigned_less [of b, where 'a = nat] by simp_all
  then have "unat a * unat b < 2 ^ 32 * 2 ^ 32" by (intro mult_strict_mono) simp_all
  then show ?thesis by simp
qed

lemma unat_mul_u32: "unat (ucast a * ucast b :: u64) = unat a * unat b" for a b :: u32
  using mul_u32_bound [of a b] by (simp add: unat_word_ariths unat_ucast_u64)

lemma systick_now_eq: "unat (systick_now s) = unat (system_ticks s) * unat (tick_period_us s)"
  unfolding systick_now_def by (rule unat_mul_u32)

lemma precise_value_eq:
  "unat (precise_value t0 cvr s) = unat t0 * unat (tick_period_us s) +
    (unat (syst_rvr s) - unat cvr) * unat (tick_period_us s) div (unat (syst_rvr s) + 1)"
proof -
  define e :: u32 where "e = (if cvr \<le> syst_rvr s then syst_rvr s - cvr else 0)"
  let ?R = "unat (syst_rvr s)" and ?p = "unat (tick_period_us s)"
  have e: "unat e = ?R - unat cvr" by (auto simp: e_def unat_sub word_le_nat_alt)
  have r: "unat (ucast (syst_rvr s) + 1 :: u64) = ?R + 1"
    using unsigned_less [of "syst_rvr s", where 'a = nat] by (simp add: unat_word_ariths unat_ucast_u64)
  have f: "unat (ucast e * ucast (tick_period_us s) div (ucast (syst_rvr s) + 1) :: u64) = unat e * ?p div (?R + 1)"
    by (simp only: unat_div unat_mul_u32 r)
  have "unat e * ?p \<le> ?R * ?p" using e by (intro mult_right_mono) simp_all
  also have "\<dots> \<le> (?R + 1) * ?p" by simp
  finally have "unat e * ?p div (?R + 1) \<le> ?p" by (metis Suc_eq_plus1 div_le_mono nonzero_mult_div_cancel_left nat.distinct(1))
  moreover have "unat t0 * ?p \<le> (2 ^ 32 - 1) * (2 ^ 32 - 1)" "?p \<le> 2 ^ 32 - 1"
  proof -
    have b: "unat t0 \<le> 2 ^ 32 - 1" "?p \<le> 2 ^ 32 - 1"
      using unsigned_less [of t0, where 'a = nat] unsigned_less [of "tick_period_us s", where 'a = nat] by simp_all
    then show "unat t0 * ?p \<le> (2 ^ 32 - 1) * (2 ^ 32 - 1)" by (rule mult_le_mono)
    show "?p \<le> 2 ^ 32 - 1" by (rule b(2))
  qed
  ultimately have "unat t0 * ?p + unat e * ?p div (?R + 1) < 2 ^ 64" by simp
  then have b: "unat (ucast t0 * ucast (tick_period_us s) :: u64) +
      unat (ucast e * ucast (tick_period_us s) div (ucast (syst_rvr s) + 1) :: u64) < 2 ^ 64"
    unfolding f unat_mul_u32 .
  have "unat (x + y) = unat x + unat y" if "unat x + unat y < 2 ^ 64" for x y :: u64
    using that by (simp add: unat_word_ariths)
  from this [OF b] show ?thesis unfolding f unat_mul_u32 e precise_value_def Let_def e_def [symmetric] .
qed

section \<open>The tick\<close>

lemma systick_handler_spec:
  assumes g: "good k" and t: "timers_ok k" and n: "system_ticks s \<noteq> - 1"
    and w: "watchdog_on_tick w timeout wd_now k = Some (False, k)"
  shows "\<exists>k1. systick_handler h w timeout wd_now (s, k) =
      Some (False, s\<lparr>system_ticks := system_ticks s + 1, pendsv_set := True\<rparr>, k1) \<and>
    polled (systick_now (s\<lparr>system_ticks := system_ticks s + 1\<rparr>)) k k1"
proof -
  obtain k1 where "poll_timers h (systick_now (s\<lparr>system_ticks := system_ticks s + 1\<rparr>)) k = Some k1"
    "polled (systick_now (s\<lparr>system_ticks := system_ticks s + 1\<rparr>)) k k1"
    using poll_timers_spec [OF g t] by blast
  then show ?thesis using n w by (auto simp: systick_handler_def systick_now_def Let_def)
qed

text \<open>
  The count panics at its end when overflow checks are on; a build without them restarts from
  zero, and no deadline beyond the last representable time is ever reached.
\<close>

lemma systick_wrap: "system_ticks s = - 1 \<Longrightarrow> systick_handler h w timeout wd_now (s, k) = None"
  by (simp add: systick_handler_def)

lemma systick_horizon: "unat (systick_now s) \<le> (2 ^ 32 - 1) * unat (tick_period_us s)"
  using unsigned_less [of "system_ticks s", where 'a = nat] by (simp add: systick_now_eq)

section \<open>The precise clock\<close>

text \<open>
  Against a counter \<open>c\<close> of clock cycles whose ticks are all counted in time, a reading is the
  time of its middle access, rounded down.
\<close>

definition counted :: "(nat \<Rightarrow> nat) \<Rightarrow> systick \<Rightarrow> (nat \<Rightarrow> u32) \<Rightarrow> (nat \<Rightarrow> u32) \<Rightarrow> bool" where
  "counted c s ticks cvr \<longleftrightarrow> (\<forall>n. c n \<le> c (Suc n) \<and>
     unat (ticks n) = c n div (unat (syst_rvr s) + 1) \<and>
     unat (cvr n) = unat (syst_rvr s) - c n mod (unat (syst_rvr s) + 1))"

lemma precise_at:
  assumes c: "counted c s ticks cvr" and e: "ticks n = ticks (n + 2)"
  shows "unat (precise_value (ticks n) (cvr (n + 1)) s) = c (n + 1) * unat (tick_period_us s) div (unat (syst_rvr s) + 1)"
proof -
  let ?R = "unat (syst_rvr s) + 1" and ?p = "unat (tick_period_us s)"
  have m: "c n \<le> c (n + 1)" "c (n + 1) \<le> c (n + 2)"
    using c by (simp_all add: counted_def numeral_eq_Suc)
  have t: "unat (ticks m) = c m div ?R" for m using c by (simp add: counted_def)
  have "unat (ticks n) = unat (ticks (n + 2))" using e by simp
  then have "c n div ?R = c (n + 2) div ?R" unfolding t .
  then have d: "c n div ?R = c (n + 1) div ?R"
    using div_le_mono [OF m(1), of ?R] div_le_mono [OF m(2), of ?R] by linarith
  have v: "unat (cvr (n + 1)) = unat (syst_rvr s) - c (n + 1) mod ?R" using c by (simp add: counted_def)
  have "c (n + 1) mod ?R \<le> unat (syst_rvr s)" using mod_less_divisor [of ?R "c (n + 1)"] by simp
  then have el: "unat (syst_rvr s) - unat (cvr (n + 1)) = c (n + 1) mod ?R" using v by simp
  have "c (n + 1) * ?p = (c (n + 1) div ?R) * ?p * ?R + (c (n + 1) mod ?R) * ?p"
  proof -
    have "c (n + 1) = c (n + 1) div ?R * ?R + c (n + 1) mod ?R" by (rule div_mult_mod_eq [symmetric])
    then have "c (n + 1) * ?p = (c (n + 1) div ?R * ?R + c (n + 1) mod ?R) * ?p" by (rule arg_cong)
    also have "\<dots> = (c (n + 1) div ?R) * ?p * ?R + (c (n + 1) mod ?R) * ?p" by (simp only: algebra_simps)
    finally show ?thesis .
  qed
  moreover have "(a * ?R + b) div ?R = a + b div ?R" for a b :: nat by (rule div_mult_self3) simp
  ultimately have "c (n + 1) * ?p div ?R = c (n + 1) div ?R * ?p + (c (n + 1) mod ?R) * ?p div ?R" by metis
  then show ?thesis unfolding precise_value_eq el t d by simp
qed

lemma precise_ok:
  assumes c: "counted c s ticks cvr" and slow: "c (n + 5) < c n + (unat (syst_rvr s) + 1)"
  shows "\<exists>m n' v. now_micros_precise ticks cvr s n = Some (v, n') \<and> n \<le> m \<and> m < n' \<and> n' \<le> n + 6 \<and>
    unat v = c m * unat (tick_period_us s) div (unat (syst_rvr s) + 1)"
proof (cases "ticks n = ticks (n + 2)")
  case True
  have "now_micros_precise ticks cvr s n = Some (precise_value (ticks n) (cvr (n + 1)) s, n + 3)"
    using True by (subst now_micros_precise.simps) simp
  then show ?thesis
    by (intro exI [of _ "n + 1"] exI [of _ "n + 3"] exI [of _ "precise_value (ticks n) (cvr (n + 1)) s"] conjI precise_at [OF c True])
      simp_all
next
  case False
  let ?R = "unat (syst_rvr s) + 1"
  have t: "unat (ticks m) = c m div ?R" for m using c by (simp add: counted_def)
  have step: "c m \<le> c (Suc m)" for m using c by (simp add: counted_def)
  have mono: "c m \<le> c (m + j)" for m j by (induction j) (auto intro: order.trans step)
  have "c n div ?R \<noteq> c (n + 2) div ?R" using False t by (metis word_unat_eq_iff)
  then have h: "c n div ?R < c (n + 2) div ?R" using div_le_mono [OF mono [of n 2], of ?R] by linarith
  have "c (n + 5) div ?R \<le> (c n + ?R) div ?R" using slow by (intro div_le_mono) simp
  also have "\<dots> = c n div ?R + 1" by (rule div_add_self2) simp
  finally have up: "c (n + 5) div ?R \<le> c n div ?R + 1" .
  have "c (n + 2) \<le> c (n + 3)" "c (n + 3) \<le> c (n + 5)"
    using mono [of "n + 2" 1] mono [of "n + 3" 2] by (simp_all add: numeral_eq_Suc)
  then have le: "c (n + 2) div ?R \<le> c (n + 3) div ?R" "c (n + 3) div ?R \<le> c (n + 5) div ?R"
    using div_le_mono by blast+
  have "c (n + 3) div ?R = c (n + 5) div ?R" using h up le by linarith
  then have e: "ticks (n + 3) = ticks (n + 3 + 2)" using t by (simp add: word_unat_eq_iff add.commute)
  have "now_micros_precise ticks cvr s (n + 3) = Some (precise_value (ticks (n + 3)) (cvr (n + 3 + 1)) s, n + 3 + 3)"
    using e by (subst now_micros_precise.simps) simp
  then have "now_micros_precise ticks cvr s n = Some (precise_value (ticks (n + 3)) (cvr (n + 3 + 1)) s, n + 6)"
    using False by (subst now_micros_precise.simps) (simp add: add.assoc)
  moreover have "unat (precise_value (ticks (n + 3)) (cvr (n + 3 + 1)) s) = c (n + 4) * unat (tick_period_us s) div ?R"
  proof -
    have e4: "n + 3 + 1 = n + 4" by simp
    show ?thesis using precise_at [OF c e] by (simp only: e4)
  qed
  ultimately show ?thesis
    by (intro exI [of _ "n + 4"] exI [of _ "n + 6"] exI [of _ "precise_value (ticks (n + 3)) (cvr (n + 3 + 1)) s"] conjI) simp_all
qed

text \<open>
  With the tick interrupt masked across a reload of the down-counter both reads of the count
  agree and the clock goes back by a period.
\<close>

lemma precise_goes_back:
  "precise_value 5 0 (systick_boot\<lparr>syst_rvr := 999\<rparr>) = 5999"
  "now_micros_precise (\<lambda>_. 5) (\<lambda>_. 999) (systick_boot\<lparr>syst_rvr := 999\<rparr>) 0 = Some (5000, 3)"
proof -
  have v: "precise_value 5 cvr (systick_boot\<lparr>syst_rvr := 999\<rparr>) = 5000 + ucast (if cvr \<le> 999 then 999 - cvr else 0) * 1000 div 1000" for cvr
    by (simp add: precise_value_def systick_boot_def Let_def)
  show "precise_value 5 0 (systick_boot\<lparr>syst_rvr := 999\<rparr>) = 5999" unfolding v by simp
  show "now_micros_precise (\<lambda>_. 5) (\<lambda>_. 999) (systick_boot\<lparr>syst_rvr := 999\<rparr>) 0 = Some (5000, 3)"
    by (subst now_micros_precise.simps) (simp add: v)
qed

end
