(* ===== verification/Nvic.thy ===== *)
theory Nvic
  imports Irq
begin

text \<open>
  The interrupt controller of the Cortex-M ports (\<open>rivet-arch-cortex-m/src/nvic.rs\<close>,
  \<open>rivet-arch-cortex-m0/src/nvic.rs\<close>). The set and clear registers act on the written ones only;
  priorities are bytes on ARMv7-M and packed four to a word on ARMv6-M. The numbers of registers
  are those of the processor.
\<close>

section \<open>State and operations\<close>

record nvic =
  nv_enabled :: "u32 list"
  nv_pending :: "u32 list"
  nv_ipr :: "u8 list"
  nv_ipr_words :: "u32 list"

definition irq_bit :: "u32 \<Rightarrow> u32" where
  "irq_bit n = push_bit (unat n mod 32) 1"

definition nvic_enable :: "u32 \<Rightarrow> nvic \<Rightarrow> nvic option" where
  "nvic_enable n s = (if unat n div 32 < length (nv_enabled s)
     then Some (s\<lparr>nv_enabled := upd_at (unat n div 32) (\<lambda>w. w OR irq_bit n) (nv_enabled s)\<rparr>) else None)"

definition nvic_disable :: "u32 \<Rightarrow> nvic \<Rightarrow> nvic option" where
  "nvic_disable n s = (if unat n div 32 < length (nv_enabled s)
     then Some (s\<lparr>nv_enabled := upd_at (unat n div 32) (\<lambda>w. w AND NOT (irq_bit n)) (nv_enabled s)\<rparr>) else None)"

definition nvic_pend :: "u32 \<Rightarrow> nvic \<Rightarrow> nvic option" where
  "nvic_pend n s = (if unat n div 32 < length (nv_pending s)
     then Some (s\<lparr>nv_pending := upd_at (unat n div 32) (\<lambda>w. w OR irq_bit n) (nv_pending s)\<rparr>) else None)"

definition nvic_set_priority :: "u32 \<Rightarrow> u8 \<Rightarrow> nvic \<Rightarrow> nvic option" where
  "nvic_set_priority n priority s = (if unat n < length (nv_ipr s)
     then Some (s\<lparr>nv_ipr := (nv_ipr s)[unat n := priority]\<rparr>) else None)"

definition nvic_set_priority_m0 :: "u32 \<Rightarrow> u8 \<Rightarrow> nvic \<Rightarrow> nvic option" where
  "nvic_set_priority_m0 n priority s = (if unat n div 4 < length (nv_ipr_words s)
     then let shift = (unat n mod 4) * 8;
              word = nv_ipr_words s ! (unat n div 4) AND NOT (push_bit shift 0xFF);
              word1 = word OR push_bit shift (ucast priority)
          in Some (s\<lparr>nv_ipr_words := (nv_ipr_words s)[unat n div 4 := word1]\<rparr>)
     else None)"

text \<open>The reset of all priorities to the lowest.\<close>

definition floor_priorities :: "nvic \<Rightarrow> nvic" where
  "floor_priorities s = s\<lparr>nv_ipr := map (\<lambda>_. 0xFF) (nv_ipr s)\<rparr>"

definition floor_priorities_m0 :: "nvic \<Rightarrow> nvic" where
  "floor_priorities_m0 s = s\<lparr>nv_ipr_words := map (\<lambda>_. 0xFFFFFFFF) (nv_ipr_words s)\<rparr>"

text \<open>The active exception, when it is an interrupt.\<close>

definition rivet_irq_handler :: "bool \<Rightarrow> nat option \<Rightarrow> irqs \<Rightarrow> irq_action list" where
  "rivet_irq_handler trace active tbl = (case active of None \<Rightarrow> [] | Some irqn \<Rightarrow> dispatch trace (of_nat irqn) tbl)"

section \<open>One interrupt at a time\<close>

definition enabled_irqs :: "nvic \<Rightarrow> u32 set" where
  "enabled_irqs s = {n. unat n div 32 < length (nv_enabled s) \<and> bit (nv_enabled s ! (unat n div 32)) (unat n mod 32)}"

lemma bit_irq_bit [simp]: "bit (irq_bit n) i \<longleftrightarrow> i = unat n mod 32"
  by (auto simp: irq_bit_def bit_exp_iff possible_bit_def)

lemma same_irq: "unat m div d = unat n div d \<Longrightarrow> unat m mod d = unat n mod d \<longleftrightarrow> m = n" for m n :: u32
  by (metis mult_div_mod_eq word_unat_eq_iff)

lemma nvic_enable_spec:
  assumes "unat n div 32 < length (nv_enabled s)"
  shows "\<exists>s'. nvic_enable n s = Some s' \<and> enabled_irqs s' = insert n (enabled_irqs s)"
    "\<exists>s'. nvic_disable n s = Some s' \<and> enabled_irqs s' = enabled_irqs s - {n}"
proof -
  have "bit (upd_at (unat n div 32) (\<lambda>w. w OR irq_bit n) (nv_enabled s) ! (unat m div 32)) (unat m mod 32) \<longleftrightarrow>
      m = n \<or> bit (nv_enabled s ! (unat m div 32)) (unat m mod 32)"
    if "unat m div 32 < length (nv_enabled s)" for m
    using that same_irq [of m 32 n] by (auto simp: nth_upd_at bit_or_iff)
  then show "\<exists>s'. nvic_enable n s = Some s' \<and> enabled_irqs s' = insert n (enabled_irqs s)"
    using assms by (auto simp: nvic_enable_def enabled_irqs_def)
  have "bit (upd_at (unat n div 32) (\<lambda>w. w AND NOT (irq_bit n)) (nv_enabled s) ! (unat m div 32)) (unat m mod 32) \<longleftrightarrow>
      m \<noteq> n \<and> bit (nv_enabled s ! (unat m div 32)) (unat m mod 32)"
    if "unat m div 32 < length (nv_enabled s)" for m
    using that same_irq [of m 32 n] by (auto simp: nth_upd_at bit_and_iff bit_not_iff)
  then show "\<exists>s'. nvic_disable n s = Some s' \<and> enabled_irqs s' = enabled_irqs s - {n}"
    using assms by (auto simp: nvic_disable_def enabled_irqs_def)
qed

text \<open>The byte of a packed priority, and the other bytes are kept.\<close>

definition priority_m0 :: "u32 \<Rightarrow> nvic \<Rightarrow> u8" where
  "priority_m0 n s = ucast (drop_bit ((unat n mod 4) * 8) (nv_ipr_words s ! (unat n div 4)))"

lemma byte_patch:
  assumes "i < 4" and "j < 4"
  shows "(ucast (drop_bit (j * 8) ((w AND NOT (push_bit (i * 8) 0xFF)) OR push_bit (i * 8) (ucast (b :: u8)))) :: u8) =
    (if i = j then b else ucast (drop_bit (j * 8) (w :: u32)))"
proof (rule bit_word_eqI)
  fix n assume n: "n < LENGTH(8)"
  have m: "(0xFF :: u32) = mask 8" by (simp add: mask_eq_exp_minus_1)
  have d: "i * 8 \<le> j * 8 + n \<and> j * 8 + n - i * 8 < 8 \<longleftrightarrow> i = j" "j * 8 + n < 32" using assms n by auto
  show "bit (ucast (drop_bit (j * 8) ((w AND NOT (push_bit (i * 8) 0xFF)) OR push_bit (i * 8) (ucast b))) :: u8) n =
      bit (if i = j then b else ucast (drop_bit (j * 8) w)) n"
    using n d by (cases "i = j") (auto simp: m bit_simps dest: bit_imp_le_length)
qed

lemma nvic_set_priority_m0_spec:
  assumes "unat n div 4 < length (nv_ipr_words s)"
  shows "\<exists>s'. nvic_set_priority_m0 n p s = Some s' \<and>
    (\<forall>m. unat m div 4 < length (nv_ipr_words s) \<longrightarrow> priority_m0 m s' = (if m = n then p else priority_m0 m s))"
proof -
  let ?w = "(nv_ipr_words s ! (unat n div 4) AND NOT (push_bit (unat n mod 4 * 8) 0xFF)) OR
    push_bit (unat n mod 4 * 8) (ucast p)"
  let ?s = "s\<lparr>nv_ipr_words := (nv_ipr_words s)[unat n div 4 := ?w]\<rparr>"
  have "priority_m0 m ?s = (if m = n then p else priority_m0 m s)"
    if "unat m div 4 < length (nv_ipr_words s)" for m
  proof (cases "unat m div 4 = unat n div 4")
    case True
    have "priority_m0 m ?s = ucast (drop_bit (unat m mod 4 * 8) ?w)"
      using True assms by (simp add: priority_m0_def)
    also have "\<dots> = (if unat n mod 4 = unat m mod 4 then p
        else ucast (drop_bit (unat m mod 4 * 8) (nv_ipr_words s ! (unat n div 4))))"
      by (rule byte_patch) simp_all
    finally show ?thesis using same_irq [OF True] True by (auto simp: priority_m0_def)
  next
    case False
    then show ?thesis by (auto simp: priority_m0_def)
  qed
  moreover have "nvic_set_priority_m0 n p s = Some ?s" using assms by (simp add: nvic_set_priority_m0_def Let_def)
  ultimately show ?thesis by blast
qed

end
