(* ===== verification/Xtensa_Timer.thy ===== *)
theory Xtensa_Timer
  imports Watchdog
begin

text \<open>
  The tick of the Xtensa port (\<open>rivet-arch-xtensa/src/timer.rs\<close>): a 32-bit cycle counter that
  wraps, a compare register that matches it for equality, and a nudge to the other harts every
  32 ticks. The counter's value at the access is an argument.
\<close>

section \<open>State and operations\<close>

record ccount_timer =
  cpu_hz :: u32
  xt_period :: u32
  ccompare_prev :: u32
  ccompare1 :: u32
  broadcast_tick :: u32
  intenable :: u32

definition TIMER1_MASK :: u32 where "TIMER1_MASK = push_bit 15 1"
definition SOFTWARE1_MASK :: u32 where "SOFTWARE1_MASK = push_bit 29 1"
definition BROADCAST_EVERY :: nat where "BROADCAST_EVERY = 32"

definition xt_configure :: "u32 \<Rightarrow> ccount_timer \<Rightarrow> ccount_timer" where
  "xt_configure hz s = s\<lparr>cpu_hz := hz\<rparr>"

text \<open>An unconfigured clock and a division by zero panic.\<close>

definition xt_tick_start :: "u32 \<Rightarrow> u32 \<Rightarrow> ccount_timer \<Rightarrow> ccount_timer option" where
  "xt_tick_start ccount tick_hz s =
    (if cpu_hz s = 0 \<or> tick_hz = 0 then None
     else let period = cpu_hz s div tick_hz; first = ccount + period
          in Some (s\<lparr>xt_period := period, ccompare1 := first, ccompare_prev := first,
                    intenable := intenable s OR (TIMER1_MASK OR SOFTWARE1_MASK)\<rparr>))"

definition xt_next :: "u32 \<Rightarrow> ccount_timer \<Rightarrow> u32" where
  "xt_next now s = max (ccompare_prev s + xt_period s) (now + xt_period s)"

definition xt_rearm :: "u32 \<Rightarrow> ccount_timer \<Rightarrow> ccount_timer" where
  "xt_rearm now s = s\<lparr>ccompare1 := xt_next now s, ccompare_prev := xt_next now s\<rparr>"

definition xt_on_timer_irq :: "u32 \<Rightarrow> nat \<Rightarrow> sw_watchdog \<Rightarrow> u32 \<Rightarrow> u64 \<Rightarrow> ccount_timer \<times> kernel
    \<Rightarrow> (bool \<times> ccount_timer \<times> kernel) option" where
  "xt_on_timer_irq now h w checkin_timeout wd_now x = do {
     (reset, k) \<leftarrow> watchdog_on_tick w checkin_timeout wd_now (snd x);
     (if reset then Some (True, fst x, k)
      else let s = xt_rearm now (fst x); n = broadcast_tick s
           in Some (False, s\<lparr>broadcast_tick := n + 1\<rparr>,
                    if unat n mod BROADCAST_EVERY = 0 then broadcast_reschedule h k else k))
   }"

section \<open>When the next match comes\<close>

text \<open>The cycles until the counter next equals a value.\<close>

definition cycles_until :: "u32 \<Rightarrow> u32 \<Rightarrow> nat" where
  "cycles_until v now = unat (v - now)"

lemma xt_next_distance:
  "cycles_until (xt_next now s) now =
    (if ccompare_prev s + xt_period s \<le> now + xt_period s then unat (xt_period s)
     else unat (xt_period s - (now - ccompare_prev s)))"
  by (simp add: cycles_until_def xt_next_def max_def algebra_simps)

lemma unat_diff_cases: "unat (a - b :: u32) = (if unat b \<le> unat a then unat a - unat b else 2 ^ 32 + unat a - unat b)"
  using unsigned_less [of b, where 'a = nat]
  by (auto simp: unat_sub_if')

text \<open>
  The tick is armed within a period exactly when the interrupt was less than a period late or
  the larger of the two words is also the later time.
\<close>

lemma xt_armed_in_time:
  "cycles_until (xt_next now s) now \<le> unat (xt_period s) \<longleftrightarrow>
    unat (now - ccompare_prev s) \<le> unat (xt_period s) \<or>
    ccompare_prev s + xt_period s \<le> now + xt_period s"
proof (cases "ccompare_prev s + xt_period s \<le> now + xt_period s")
  case True
  then show ?thesis by (simp add: xt_next_distance)
next
  case False
  have "unat (now - ccompare_prev s) < 2 ^ 32" using unsigned_less [of "now - ccompare_prev s", where 'a = nat] by simp
  then show ?thesis
    using False unat_diff_cases [of "xt_period s" "now - ccompare_prev s"]
    unfolding xt_next_distance by (simp, linarith)
qed

lemma xt_armed_late:
  assumes "\<not> ccompare_prev s + xt_period s \<le> now + xt_period s"
    and "unat (xt_period s) < unat (now - ccompare_prev s)"
  shows "cycles_until (xt_next now s) now = 2 ^ 32 - (unat (now - ccompare_prev s) - unat (xt_period s))"
  using assms unat_diff_cases [of "xt_period s" "now - ccompare_prev s"]
    unsigned_less [of "now - ccompare_prev s", where 'a = nat] by (simp add: xt_next_distance)

end
