(* ===== verification/Xtensa.thy ===== *)
theory Xtensa
  imports Xtensa_Timer Tick_Trace Irq
begin

text \<open>
  Context switches of the Xtensa port (\<open>rivet-arch-xtensa/src/lib.rs\<close>). A saved context lives in a
  table indexed by task, and the kernel's stack pointer is a cookie: the number of the task when
  its context is saved, or \<open>MAX_PTASKS\<close> plus an index of the bootstrap table when it has never
  run. The context of the run-time crate is its program counter, status and registers, with what
  the code does not touch kept whole; its initial value is an argument.
\<close>

section \<open>State\<close>

record xcontext =
  x_pc :: u32
  x_ps :: u32
  x_a :: "u32 list"
  x_rest :: "u32 list"

record bootstrap =
  bs_stack_base :: usize
  bs_stack_len :: usize
  bs_entry :: usize
  bs_arg :: usize

record xtensa =
  contexts :: "xcontext list"
  bootstraps :: "bootstrap list"
  ba_next :: nat
  ba_free :: "nat list"
  ba_free_len :: nat

definition BOOTSTRAP_HEADROOM :: nat where "BOOTSTRAP_HEADROOM = 4"

definition bootstrap_capacity :: "nat \<Rightarrow> nat" where
  "bootstrap_capacity max_tasks = max_tasks + BOOTSTRAP_HEADROOM"

definition xtensa_boot :: "xcontext \<Rightarrow> nat \<Rightarrow> xtensa" where
  "xtensa_boot new n = \<lparr>contexts = replicate n new,
     bootstraps = replicate (bootstrap_capacity n) \<lparr>bs_stack_base = 0, bs_stack_len = 0, bs_entry = 0, bs_arg = 0\<rparr>,
     ba_next = 0, ba_free = replicate (bootstrap_capacity n) 0, ba_free_len = 0\<rparr>"

section \<open>The bootstrap table\<close>

definition alloc_bootstrap_index :: "xtensa \<Rightarrow> (nat \<times> xtensa) option" where
  "alloc_bootstrap_index x =
    (if 0 < ba_free_len x
     then Some (ba_free x ! (ba_free_len x - 1), x\<lparr>ba_free_len := ba_free_len x - 1\<rparr>)
     else if ba_next x < length (bootstraps x) then Some (ba_next x, x\<lparr>ba_next := ba_next x + 1\<rparr>)
     else None)"

definition free_bootstrap_index :: "nat \<Rightarrow> xtensa \<Rightarrow> xtensa option" where
  "free_bootstrap_index i x =
    (if ba_free_len x < length (ba_free x)
     then Some (x\<lparr>ba_free := (ba_free x)[ba_free_len x := i], ba_free_len := ba_free_len x + 1\<rparr>)
     else None)"

definition encode_bootstrap :: "nat \<Rightarrow> nat \<Rightarrow> usize" where
  "encode_bootstrap max_tasks i = of_nat (max_tasks + i)"

definition decode_bootstrap :: "nat \<Rightarrow> usize \<Rightarrow> nat option" where
  "decode_bootstrap max_tasks cookie = (if max_tasks \<le> unat cookie then Some (unat cookie - max_tasks) else None)"

text \<open>The top of a stack, aligned down; registers 1 to 3 of a fresh context.\<close>

definition aligned_top :: "bootstrap \<Rightarrow> u32" where
  "aligned_top b = (bs_stack_base b + bs_stack_len b) AND NOT 0xF"

definition PS_WOE :: u32 where "PS_WOE = 0x40000"

definition fresh_task_context :: "xcontext \<Rightarrow> u32 \<Rightarrow> bootstrap \<Rightarrow> xcontext" where
  "fresh_task_context new trampoline b = new\<lparr>x_pc := trampoline, x_ps := PS_WOE,
     x_a := (x_a new)[1 := aligned_top b, 2 := bs_arg b, 3 := bs_entry b]\<rparr>"

definition xt_init_task_stack :: "nat \<Rightarrow> usize \<Rightarrow> usize \<Rightarrow> usize \<Rightarrow> usize \<Rightarrow> xtensa \<Rightarrow> (usize \<times> xtensa) option" where
  "xt_init_task_stack max_tasks stack_ptr stack_len entry_fn arg x = do {
     (i, x1) \<leftarrow> alloc_bootstrap_index x;
     Some (encode_bootstrap max_tasks i, x1\<lparr>bootstraps := (bootstraps x1)[i :=
       \<lparr>bs_stack_base = stack_ptr, bs_stack_len = stack_len, bs_entry = entry_fn, bs_arg = arg\<rparr>]\<rparr>)
   }"

text \<open>What the start of the first task jumps with: its stack, argument and entry.\<close>

definition xt_start_first_task :: "nat \<Rightarrow> usize \<Rightarrow> xtensa \<Rightarrow> (u32 \<times> u32 \<times> u32) option" where
  "xt_start_first_task max_tasks cookie x = do {
     i \<leftarrow> decode_bootstrap max_tasks cookie;
     (if i < length (bootstraps x)
      then let b = bootstraps x ! i in Some (aligned_top b, bs_arg b, bs_entry b) else None)
   }"

section \<open>The level 3 interrupt\<close>

definition IPI_MASK :: u32 where "IPI_MASK = push_bit 23 1"
definition PERIPH_MASK :: u32 where "PERIPH_MASK = push_bit 27 1"
definition SCHED_MASK :: u32 where "SCHED_MASK = TIMER1_MASK OR SOFTWARE1_MASK OR IPI_MASK"

record xt_inputs =
  xi_pending :: u32
  xi_ccount :: u32
  xi_wd :: sw_watchdog
  xi_timeout :: u32
  xi_wd_now :: u64
  xi_now_us :: u64
  xi_entry_now :: u32
  xi_cycles :: u64
  xi_trace_now :: u64
  xi_readings :: readings
  xi_mem :: "usize \<Rightarrow> u8"
  xi_new :: xcontext
  xi_trampoline :: u32

record xt_hart =
  xh_timer :: ccount_timer
  xh_software :: bool
  xh_ipi :: bool
  xh_source :: u32
  xh_requested_at :: u32

text \<open>
  From the saved frame to the one that is resumed; \<open>None\<close> in the first component when a fault
  policy has stopped the system.
\<close>

definition xt_switch :: "features \<Rightarrow> nat \<Rightarrow> xt_inputs \<Rightarrow> xcontext \<Rightarrow> xtensa \<times> kernel \<times> instruments
    \<Rightarrow> (xcontext option \<times> xtensa \<times> kernel \<times> instruments) option" where
  "xt_switch ft h xi frame s = (case s of (x, k, ins) \<Rightarrow>
     (case current h k of
        None \<Rightarrow> Some (Some frame, x, k, ins)
      | Some tid \<Rightarrow>
          (if \<not> tid < length (contexts x) then None
           else do {
             let x1 = x\<lparr>contexts := (contexts x)[tid := frame]\<rparr>;
             (res, k1, ins1) \<leftarrow> on_tick ft h (xi_readings xi) (xi_cycles xi) (xi_trace_now xi) (xi_mem xi)
                                  (of_nat tid) (k, ins);
             (case res of
                Halted \<Rightarrow> Some (None, x1, k1, ins1)
              | Resume next_sp \<Rightarrow>
                  (if next_sp = of_nat tid then Some (Some frame, x1, k1, ins1)
                   else if unat next_sp < max_ptasks k1
                   then (if unat next_sp < length (contexts x1)
                         then Some (Some (contexts x1 ! unat next_sp), x1, k1, ins1) else None)
                   else do {
                     i \<leftarrow> decode_bootstrap (max_ptasks k1) next_sp;
                     b \<leftarrow> (if i < length (bootstraps x1) then Some (bootstraps x1 ! i) else None);
                     x2 \<leftarrow> free_bootstrap_index i x1;
                     Some (Some (fresh_task_context (xi_new xi) (xi_trampoline xi) b), x2, k1, ins1)
                   }))
           })))"

definition level_3_interrupt :: "features \<Rightarrow> nat \<Rightarrow> xt_inputs \<Rightarrow> xcontext \<Rightarrow> irqs \<Rightarrow>
    xt_hart \<times> xtensa \<times> kernel \<times> instruments
    \<Rightarrow> (xcontext option \<times> irq_action list \<times> xt_hart \<times> xtensa \<times> kernel \<times> instruments) option" where
  "level_3_interrupt ft h xi frame tbl s = (case s of (ha, x, k, ins) \<Rightarrow> do {
     let pending = xi_pending xi;
     (reset, ha1, k1) \<leftarrow>
       (if pending AND TIMER1_MASK \<noteq> 0
        then do {
          (reset, tm, k1) \<leftarrow> xt_on_timer_irq (xi_ccount xi) h (xi_wd xi) (xi_timeout xi) (xi_wd_now xi) (xh_timer ha, k);
          k2 \<leftarrow> (if reset then Some k1 else poll_timers h (xi_now_us xi) k1);
          Some (reset, ha\<lparr>xh_timer := tm\<rparr>, k2)
        }
        else Some (False, ha, k));
     (if reset then Some (None, [], ha1, x, k1, ins)
      else do {
        let soft = pending AND SOFTWARE1_MASK \<noteq> 0;
        let ha2 = (if soft then ha1\<lparr>xh_software := False\<rparr> else ha1);
        let ins1 = (if soft \<and> hist_on ft
              then ins\<lparr>in_hist := latency_record IrqEntry (ucast (xi_entry_now xi - xh_requested_at ha)) (in_hist ins)\<rparr>
              else ins);
        let ha3 = (if pending AND IPI_MASK \<noteq> 0 then ha2\<lparr>xh_ipi := False\<rparr> else ha2);
        (if pending AND PERIPH_MASK \<noteq> 0
         then Some (Some frame, if xh_source ha3 \<noteq> - 1 then dispatch (trace_on ft) (xh_source ha3) tbl else [],
                    ha3, x, k1, ins1)
         else if pending AND SCHED_MASK = 0 then Some (Some frame, [], ha3, x, k1, ins1)
         else do {
           (f, x1, k2, ins2) \<leftarrow> xt_switch ft h xi frame (x, k1, ins1);
           Some (f, [], ha3, x1, k2, ins2)
         })
      })
   })"

text \<open>
  A pending peripheral line hides the request to reschedule: it is acknowledged and dropped.
\<close>

lemma peripheral_drops_reschedule:
  assumes "xi_pending xi = PERIPH_MASK OR SOFTWARE1_MASK"
  shows "\<exists>acts ins'. level_3_interrupt ft h xi frame tbl (ha, x, k, ins) =
    Some (Some frame, acts, ha\<lparr>xh_software := False\<rparr>, x, k, ins')"
proof -
  have m: "xi_pending xi AND TIMER1_MASK = 0" "xi_pending xi AND SOFTWARE1_MASK \<noteq> 0"
    "xi_pending xi AND IPI_MASK = 0" "xi_pending xi AND PERIPH_MASK \<noteq> 0"
    unfolding assms by (simp_all add: TIMER1_MASK_def SOFTWARE1_MASK_def IPI_MASK_def PERIPH_MASK_def)
  show ?thesis by (simp add: level_3_interrupt_def m Let_def)
qed

text \<open>Without one, and without a timer match, any other reason to reschedule reaches the switch.\<close>

lemma level_3_reschedules:
  assumes "xi_pending xi AND TIMER1_MASK = 0" and "xi_pending xi AND PERIPH_MASK = 0" and "xi_pending xi AND SCHED_MASK \<noteq> 0"
    and "sent fs (in_tracer ins)" and "pending_ctx_switch ins = - 1"
  shows "\<exists>ins1 ha1. level_3_interrupt ft h xi frame tbl (ha, x, k, ins) =
      (do { (f, x1, k2, ins2) \<leftarrow> xt_switch ft h xi frame (x, k, ins1); Some (f, [], ha1, x1, k2, ins2) }) \<and>
    sent fs (in_tracer ins1) \<and> pending_ctx_switch ins1 = - 1"
proof -
  define ha1 where "ha1 = (if xi_pending xi AND SOFTWARE1_MASK \<noteq> 0 then ha\<lparr>xh_software := False\<rparr> else ha)"
  define ins1 where "ins1 = (if xi_pending xi AND SOFTWARE1_MASK \<noteq> 0 \<and> hist_on ft
    then ins\<lparr>in_hist := latency_record IrqEntry (ucast (xi_entry_now xi - xh_requested_at ha)) (in_hist ins)\<rparr> else ins)"
  have "level_3_interrupt ft h xi frame tbl (ha, x, k, ins) =
      (do { (f, x1, k2, ins2) \<leftarrow> xt_switch ft h xi frame (x, k, ins1);
        Some (f, [], if xi_pending xi AND IPI_MASK \<noteq> 0 then ha1\<lparr>xh_ipi := False\<rparr> else ha1, x1, k2, ins2) })"
    by (simp only: level_3_interrupt_def prod.case assms(1-3) Let_def if_False if_True simp_thms refl bind.bind_lunit
        ha1_def [symmetric] ins1_def [symmetric])
  moreover have "sent fs (in_tracer ins1)" "pending_ctx_switch ins1 = - 1" using assms(4,5) by (simp_all add: ins1_def)
  ultimately show ?thesis by blast
qed

section \<open>Cookies and contexts agree\<close>

definition free_indices :: "xtensa \<Rightarrow> nat set" where
  "free_indices x = set (take (ba_free_len x) (ba_free x))"

definition table_ok :: "nat \<Rightarrow> xtensa \<Rightarrow> bool" where
  "table_ok n x \<longleftrightarrow> length (contexts x) = n \<and> length (bootstraps x) = bootstrap_capacity n \<and>
     length (ba_free x) = bootstrap_capacity n \<and> ba_free_len x \<le> bootstrap_capacity n \<and>
     ba_next x \<le> bootstrap_capacity n \<and> distinct (take (ba_free_len x) (ba_free x)) \<and>
     free_indices x \<subseteq> {..<ba_next x}"

text \<open>Index \<open>j\<close> of the table is taken by task \<open>i\<close>, which waits for its first dispatch.\<close>

definition takes :: "kernel \<Rightarrow> nat \<Rightarrow> nat \<Rightarrow> bool" where
  "takes k i j \<longleftrightarrow> unat (sp (tasks k ! i)) = max_ptasks k + j"

definition off_hart :: "kernel \<Rightarrow> nat \<Rightarrow> bool" where
  "off_hart k i \<longleftrightarrow> task_live k i \<and> Some i \<notin> set (current_ids k)"

text \<open>
  A task that runs on no hart has its own number as cookie, or an index of the table that is
  neither free nor taken by another such task.
\<close>

definition coherent :: "kernel \<Rightarrow> xtensa \<Rightarrow> bool" where
  "coherent k x \<longleftrightarrow> table_ok (max_ptasks k) x \<and>
     (\<forall>i. off_hart k i \<longrightarrow> unat (sp (tasks k ! i)) = i \<or>
        (\<exists>j < ba_next x. takes k i j \<and> j \<notin> free_indices x)) \<and>
     (\<forall>i i' j. off_hart k i \<longrightarrow> off_hart k i' \<longrightarrow> takes k i j \<longrightarrow> takes k i' j \<longrightarrow> i = i')"

lemma boot_table: "table_ok n (xtensa_boot new n)"
  by (simp add: table_ok_def xtensa_boot_def free_indices_def)

lemma free_space:
  assumes t: "table_ok n x" and j: "j < ba_next x" "j \<notin> free_indices x"
  shows "ba_free_len x < bootstrap_capacity n"
proof -
  have "card (free_indices x) = ba_free_len x"
    using t by (simp add: table_ok_def free_indices_def distinct_card)
  moreover have "free_indices x \<subseteq> {..<ba_next x} - {j}" using t j by (auto simp: table_ok_def)
  then have "card (free_indices x) \<le> card ({..<ba_next x} - {j})" by (intro card_mono) simp_all
  moreover have "card ({..<ba_next x} - {j}) = ba_next x - 1" using j(1) by simp
  ultimately have "ba_free_len x < ba_next x" using j(1) by linarith
  then show ?thesis using t by (simp add: table_ok_def)
qed

lemma free_index_spec:
  assumes t: "table_ok n x" and j: "j < ba_next x" "j \<notin> free_indices x"
  shows "\<exists>x'. free_bootstrap_index j x = Some x' \<and> table_ok n x' \<and> free_indices x' = insert j (free_indices x) \<and>
    ba_next x' = ba_next x \<and> contexts x' = contexts x \<and> bootstraps x' = bootstraps x"
proof -
  note s = free_space [OF t j]
  have l: "length (ba_free x) = bootstrap_capacity n" using t by (simp add: table_ok_def)
  have tk: "take (Suc (ba_free_len x)) ((ba_free x)[ba_free_len x := j]) = take (ba_free_len x) (ba_free x) @ [j]"
    using s l by (simp add: take_Suc_conv_app_nth)
  show ?thesis
    using t j s l by (auto simp: free_bootstrap_index_def table_ok_def free_indices_def tk)
qed

lemma alloc_index_spec:
  assumes t: "table_ok n x" and a: "alloc_bootstrap_index x = Some (j, x')"
  shows "table_ok n x'" "j < ba_next x'" "j \<notin> free_indices x'" "j \<in> free_indices x \<or> j = ba_next x"
    "free_indices x' \<subseteq> free_indices x" "ba_next x \<le> ba_next x'" "j < bootstrap_capacity n"
    "contexts x' = contexts x" "bootstraps x' = bootstraps x"
proof -
  have "table_ok n x' \<and> j < ba_next x' \<and> j \<notin> free_indices x' \<and> (j \<in> free_indices x \<or> j = ba_next x) \<and>
    free_indices x' \<subseteq> free_indices x \<and> ba_next x \<le> ba_next x' \<and> j < bootstrap_capacity n \<and>
    contexts x' = contexts x \<and> bootstraps x' = bootstraps x"
  proof (cases "ba_free_len x")
    case 0
    then show ?thesis using a t by (auto simp: alloc_bootstrap_index_def table_ok_def free_indices_def split: if_splits)
  next
    case (Suc m)
    have x': "j = ba_free x ! m" "x' = x\<lparr>ba_free_len := m\<rparr>" using a Suc by (auto simp: alloc_bootstrap_index_def)
    have tk: "take (Suc m) (ba_free x) = take m (ba_free x) @ [j]"
      using t Suc by (simp add: x' table_ok_def take_Suc_conv_app_nth)
    then have f: "free_indices x = insert j (set (take m (ba_free x)))" by (simp add: free_indices_def Suc)
    have "j < ba_next x" using t f by (auto simp: table_ok_def)
    then show ?thesis using t f tk Suc by (auto simp: x' table_ok_def free_indices_def)
  qed
  then show "table_ok n x'" "j < ba_next x'" "j \<notin> free_indices x'" "j \<in> free_indices x \<or> j = ba_next x"
    "free_indices x' \<subseteq> free_indices x" "ba_next x \<le> ba_next x'" "j < bootstrap_capacity n"
    "contexts x' = contexts x" "bootstraps x' = bootstraps x" by simp_all
qed

text \<open>No other operation of the kernel touches cookies: it can only take tasks off the list.\<close>

lemma coherent_mono:
  assumes co: "coherent k x" and "max_ptasks k' = max_ptasks k"
    and q: "\<And>j. j < max_ptasks k \<Longrightarrow> off_hart k' j \<Longrightarrow> off_hart k j \<and> sp (tasks k' ! j) = sp (tasks k ! j)"
  shows "coherent k' x"
proof -
  have m: "j < max_ptasks k" if "off_hart k' j" for j using that assms(2) by (simp add: off_hart_def task_live_def)
  have t: "off_hart k j" "takes k' j n = takes k j n" if "off_hart k' j" for j n
    using q [OF m [OF that] that] assms(2) by (simp_all add: takes_def)
  have "unat (sp (tasks k' ! j)) = j \<or> (\<exists>m < ba_next x. takes k' j m \<and> m \<notin> free_indices x)" if o: "off_hart k' j" for j
    using co q [OF m [OF o] o] t(2) [OF o] by (auto simp: coherent_def)
  moreover have "j = j'" if "off_hart k' j" "off_hart k' j'" "takes k' j n" "takes k' j' n" for j j' n
    using co t that unfolding coherent_def by blast
  ultimately show ?thesis using co assms(2) unfolding coherent_def by metis
qed

lemma coherent_boot:
  "\<forall>j < max_ptasks k. \<not> used (tasks k ! j) \<Longrightarrow> coherent k (xtensa_boot new (max_ptasks k))"
  using boot_table by (auto simp: coherent_def off_hart_def task_live_def)

section \<open>A switch\<close>

lemma unat_small: "n < 2 ^ 32 \<Longrightarrow> unat (of_nat n :: usize) = n"
  by (simp add: unat_of_nat take_bit_nat_eq_self)

text \<open>
  The context a task off the harts resumes with: the one it was saved with, or a fresh one when it
  has never run.
\<close>

definition context_of :: "xcontext \<Rightarrow> u32 \<Rightarrow> xtensa \<Rightarrow> kernel \<Rightarrow> nat \<Rightarrow> xcontext" where
  "context_of new trampoline x k c =
    (if unat (sp (tasks k ! c)) = c then contexts x ! c
     else fresh_task_context new trampoline (bootstraps x ! (unat (sp (tasks k ! c)) - max_ptasks k)))"

definition resumed :: "xt_inputs \<Rightarrow> xcontext \<Rightarrow> xtensa \<Rightarrow> kernel \<Rightarrow> nat \<Rightarrow> nat \<Rightarrow> xcontext" where
  "resumed xi frame x k i c = (if c = i then frame else context_of (xi_new xi) (xi_trampoline xi) x k c)"

lemma coherent_after:
  assumes co: "coherent k x" and i: "i < max_ptasks k" and cur: "current h k = Some i" and h: "h < max_harts k"
    and ids: "current_ids k' = (current_ids k)[h := Some c]" and mx: "max_ptasks k' = max_ptasks k"
    and cok: "\<forall>j < max_ptasks k. sp (tasks k' ! j) = (if j = i then of_nat i else sp (tasks k ! j)) \<and> task_live k' j = task_live k j"
    and c: "c \<noteq> i \<Longrightarrow> off_hart k c" and mp: "max_ptasks k \<le> 32"
    and x': "table_ok (max_ptasks k) x'" "ba_next x' = ba_next x"
      "\<And>j. j \<in> free_indices x' \<Longrightarrow> j \<in> free_indices x \<or> (c \<noteq> i \<and> takes k c j)"
  shows "coherent k' x'"
proof -
  have ui: "unat (of_nat i :: usize) = i" by (rule unat_small) (use i mp in simp)
  have off: "j \<noteq> c \<and> (j = i \<or> off_hart k j)" if o: "off_hart k' j" for j
  proof -
    have n: "Some j \<notin> set ((current_ids k)[h := Some c])" and l: "task_live k' j" using o by (auto simp: off_hart_def ids)
    have jm: "j < max_ptasks k" using l mx by (simp add: task_live_def)
    have "j \<noteq> c" using n h by (auto simp: set_update_memI)
    moreover have "Some j \<notin> set (current_ids k)" if "j \<noteq> i"
    proof
      assume "Some j \<in> set (current_ids k)"
      then obtain g where g: "g < length (current_ids k)" "current_ids k ! g = Some j" by (auto simp: in_set_conv_nth)
      then have "g \<noteq> h" using cur that by (auto simp: current_def split: if_splits)
      then have "(current_ids k)[h := Some c] ! g = Some j" using g by simp
      then show False using n g by (metis length_list_update nth_mem)
    qed
    ultimately show ?thesis using l jm cok by (auto simp: off_hart_def)
  qed
  have jm: "j < max_ptasks k" if "off_hart k' j" for j using that mx by (simp add: off_hart_def task_live_def)
  have tk: "takes k j m" if "off_hart k' j" "takes k' j m" for j m
  proof -
    have "j \<noteq> i" using that(2) cok i ui mx by (auto simp: takes_def)
    then show ?thesis using that jm [OF that(1)] cok mx by (simp add: takes_def)
  qed
  have "unat (sp (tasks k' ! j)) = j \<or> (\<exists>m < ba_next x'. takes k' j m \<and> m \<notin> free_indices x')" if o: "off_hart k' j" for j
  proof (cases "j = i")
    case True
    then show ?thesis using cok i ui by simp
  next
    case False
    then have oj: "off_hart k j" "j \<noteq> c" using off [OF o] by auto
    have same: "sp (tasks k' ! j) = sp (tasks k ! j)" using cok jm [OF o] False by simp
    show ?thesis
    proof (cases "unat (sp (tasks k ! j)) = j")
      case False
      then obtain m where m: "m < ba_next x" "takes k j m" "m \<notin> free_indices x"
        using co oj by (auto simp: coherent_def)
      have "\<not> takes k c m" if "c \<noteq> i" using co oj c [OF that] m(2) by (auto simp: coherent_def)
      then have "m \<notin> free_indices x'" using x'(3) m(3) by blast
      then show ?thesis using m same x'(2) mx by (auto simp: takes_def)
    qed (simp add: same)
  qed
  moreover have "j = j'" if "off_hart k' j" "off_hart k' j'" "takes k' j m" "takes k' j' m" for j j' m
  proof -
    have ne: "j \<noteq> i" "j' \<noteq> i" using that(3,4) cok i ui mx by (auto simp: takes_def)
    then have "off_hart k j" "off_hart k j'" using off that by auto
    then show ?thesis using co tk that unfolding coherent_def by blast
  qed
  ultimately show ?thesis using x'(1) mx unfolding coherent_def by metis
qed

text \<open>No ready task, and not the interrupted one either, is current on another hart.\<close>

definition exclusive :: "nat \<Rightarrow> kernel \<Rightarrow> bool" where
  "exclusive h k \<longleftrightarrow> (\<forall>g j. g < max_harts k \<longrightarrow> g \<noteq> h \<longrightarrow> current g k = Some j \<longrightarrow>
     \<not> queued k j \<and> current h k \<noteq> Some j)"

lemma exclusive_off_hart:
  assumes e: "exclusive h k" and q: "queued k c" "task_live k c" and c: "current h k \<noteq> Some c"
  shows "off_hart k c"
proof -
  have "Some c \<notin> set (current_ids k)"
  proof
    assume "Some c \<in> set (current_ids k)"
    then obtain g where g: "g < length (current_ids k)" "current_ids k ! g = Some c" by (auto simp: in_set_conv_nth)
    then have "g \<noteq> h" using c by (auto simp: current_def)
    then show False using e g q(1) by (auto simp: exclusive_def current_def)
  qed
  then show ?thesis using q(2) by (simp add: off_hart_def)
qed

lemma xt_switch_spec:
  assumes g: "good k" and h: "h < max_harts k" and cur: "current h k = Some i" and live: "task_live k i"
    and nf: "\<not> tick_faults i (xi_readings xi) (xi_mem xi) (store_sp i (of_nat i) k)"
    and co: "coherent k x" and ex: "exclusive h k"
    and ins: "sent fs (in_tracer ins)" "pending_ctx_switch ins = - 1"
  shows "\<exists>c x' k' ins'. xt_switch ft h xi frame (x, k, ins) = Some (Some (resumed xi frame x k i c), x', k', ins') \<and>
    current h k' = Some c \<and> task_live k' c \<and> good k' \<and> coherent k' x' \<and> contexts x' = (contexts x)[i := frame] \<and>
    bootstraps x' = bootstraps x \<and> (c \<noteq> i \<longrightarrow> queued k c) \<and> max_ptasks k' = max_ptasks k \<and>
    (\<forall>j < max_ptasks k. sp (tasks k' ! j) = (if j = i then of_nat i else sp (tasks k ! j)))"
proof -
  have mp: "max_ptasks k \<le> 32" using good_wf(2) [OF g] .
  have i: "i < max_ptasks k" using live by (simp add: task_live_def)
  have ui: "unat (of_nat i :: usize) = i" by (rule unat_small) (use i mp in simp)
  obtain res c k' where t: "on_tick_locked h (xi_readings xi) (xi_mem xi) (of_nat i) k = Some (res, k')"
    "good k'" "task_live k' c" "current_ids k' = (current_ids k)[h := Some c]"
    "res = Resume (if c = i then of_nat i else sp (tasks k ! c))" "c \<noteq> i \<longrightarrow> queued k c" "max_ptasks k' = max_ptasks k"
    "\<forall>j < max_ptasks k. sp (tasks k' ! j) = (if j = i then of_nat i else sp (tasks k ! j)) \<and> task_live k' j = task_live k j"
    using tick_saves [OF g h cur live nf] by blast
  obtain ins' where o: "on_tick ft h (xi_readings xi) (xi_cycles xi) (xi_trace_now xi) (xi_mem xi) (of_nat i) (k, ins) =
      Some (res, k', ins')"
    using on_tick_spec [OF g h ins, of "xi_readings xi" "xi_mem xi" "of_nat i" ft "xi_cycles xi" "xi_trace_now xi"] t(1) by auto
  have tab: "table_ok (max_ptasks k) x" using co by (simp add: coherent_def)
  let ?x1 = "x\<lparr>contexts := (contexts x)[i := frame]\<rparr>"
  have tab1: "table_ok (max_ptasks k) ?x1" using tab by (simp add: table_ok_def free_indices_def)
  have il: "i < length (contexts x)" using tab i by (simp add: table_ok_def)
  have cl: "task_live k c" "c < max_ptasks k" using t(3,7,8) by (auto simp: task_live_def)
  have coff: "off_hart k c" if "c \<noteq> i"
    by (rule exclusive_off_hart [OF ex]) (use t(6) that cl cur in auto)
  have ch: "current h k' = Some c" using h t(4) by (simp add: current_def)
  note after = coherent_after [OF co i cur h t(4,7,8) coff mp]
  show ?thesis
  proof (cases "c = i \<or> unat (sp (tasks k ! c)) = c")
    case True
    have "coherent k' ?x1" by (rule after) (use tab1 in \<open>simp_all add: free_indices_def\<close>)
    moreover have "xt_switch ft h xi frame (x, k, ins) = Some (Some (resumed xi frame x k i c), ?x1, k', ins')"
      using True cur il o cl ui tab t(5,7)
      by (cases "c = i") (auto simp: xt_switch_def resumed_def context_of_def Let_def table_ok_def word_unat_eq_iff)
    ultimately show ?thesis using ch t(2-4,6-8) by auto
  next
    case False
    then have ci: "c \<noteq> i" and cc: "unat (sp (tasks k ! c)) \<noteq> c" by auto
    obtain j where j: "j < ba_next x" "takes k c j" "j \<notin> free_indices x" using co coff [OF ci] cc by (auto simp: coherent_def)
    have "j < ba_next ?x1" "j \<notin> free_indices ?x1" using j by (simp_all add: free_indices_def)
    from free_index_spec [OF tab1 this] obtain x2 where x2: "free_bootstrap_index j ?x1 = Some x2" "table_ok (max_ptasks k) x2"
      "free_indices x2 = insert j (free_indices x)" "ba_next x2 = ba_next x" "contexts x2 = (contexts x)[i := frame]"
      "bootstraps x2 = bootstraps x" by (auto simp: free_indices_def)
    have u: "unat (sp (tasks k ! c)) = max_ptasks k + j" using j(2) by (simp add: takes_def)
    have jl: "j < length (bootstraps x)" using j(1) tab by (simp add: table_ok_def)
    have ne: "sp (tasks k ! c) \<noteq> of_nat i" using u ui i by (auto simp: word_unat_eq_iff)
    have "coherent k' x2" by (rule after) (use x2 j ci in auto)
    moreover have "xt_switch ft h xi frame (x, k, ins) = Some (Some (resumed xi frame x k i c), x2, k', ins')"
      using cur il o ci cc ne u jl x2(1) t(5,7)
      by (simp add: xt_switch_def resumed_def context_of_def Let_def decode_bootstrap_def)
    ultimately show ?thesis using ch t(2-4,6-8) x2(5,6) by auto
  qed
qed

text \<open>A switch keeps the contexts of the tasks off the harts, the interrupted one's included.\<close>

lemma xt_switch_contexts:
  assumes "max_ptasks k \<le> 32" and "i < max_ptasks k" and "length (contexts x) = max_ptasks k"
    and "contexts x' = (contexts x)[i := frame]" and "bootstraps x' = bootstraps x" and "max_ptasks k' = max_ptasks k"
    and "\<forall>j < max_ptasks k. sp (tasks k' ! j) = (if j = i then of_nat i else sp (tasks k ! j))" and "j < max_ptasks k"
  shows "context_of new tr x' k' j = (if j = i then frame else context_of new tr x k j)"
  using assms unat_small [of i] by (simp add: context_of_def)

section \<open>Spawning\<close>

text \<open>The table is asked before the registry, and keeps an index the registry had no room for.\<close>

definition xt_spawn :: "nat \<Rightarrow> usize \<Rightarrow> usize \<Rightarrow> usize \<Rightarrow> usize \<Rightarrow> nat \<Rightarrow> u8 \<Rightarrow> usize \<Rightarrow> xtensa \<times> kernel
    \<Rightarrow> ((spawn_error + task_handle) \<times> xtensa \<times> kernel) option" where
  "xt_spawn h base sz entry_fn arg priority ret_size drop_fn s = do {
     (cookie, x) \<leftarrow> xt_init_task_stack (max_ptasks (snd s)) base sz entry_fn arg (fst s);
     (r, k) \<leftarrow> spawn h 256 (\<lambda>_ _. cookie) base sz priority ret_size drop_fn (snd s);
     Some (r, x, k)
   }"

lemma spawn_keeps_coherent:
  assumes co: "coherent k x" and tab': "table_ok (max_ptasks k) x'"
    and old: "\<And>i. \<exists>m < ba_next x. takes k i m \<and> m \<notin> free_indices x \<Longrightarrow> \<exists>m < ba_next x'. takes k i m \<and> m \<notin> free_indices x'"
    and k': "max_ptasks k' = max_ptasks k" "current_ids k' = current_ids k" "i < max_ptasks k"
    and u: "unat ck = max_ptasks k + j"
    and all: "\<forall>l < max_ptasks k. sp (tasks k' ! l) = (if l = i then ck else sp (tasks k ! l)) \<and>
      (l \<noteq> i \<longrightarrow> task_live k' l = task_live k l)"
    and j: "j < ba_next x'" "j \<notin> free_indices x'" "j \<in> free_indices x \<or> ba_next x \<le> j"
  shows "coherent k' x'"
proof -
  have lm: "l < max_ptasks k" if "off_hart k' l" for l using that k'(1) by (simp add: off_hart_def task_live_def)
  have off: "off_hart k l" if "off_hart k' l" "l \<noteq> i" for l
    using that all lm [OF that(1)] k'(2) by (simp add: off_hart_def)
  have tki: "takes k' i m \<longleftrightarrow> m = j" for m using u k'(1,3) all by (auto simp: takes_def)
  have tkl: "takes k' l m \<longleftrightarrow> takes k l m" if "off_hart k' l" "l \<noteq> i" for l m
    using that k'(1) all lm [OF that(1)] by (simp add: takes_def)
  have fresh: "\<not> takes k l j" if o: "off_hart k l" for l
  proof
    assume tl: "takes k l j"
    then have "unat (sp (tasks k ! l)) \<noteq> l" using o by (auto simp: takes_def off_hart_def task_live_def)
    then obtain m where "m < ba_next x" "takes k l m" "m \<notin> free_indices x" using co o by (auto simp: coherent_def)
    then show False using tl j(3) by (auto simp: takes_def)
  qed
  have "unat (sp (tasks k' ! l)) = l \<or> (\<exists>m < ba_next x'. takes k' l m \<and> m \<notin> free_indices x')" if o: "off_hart k' l" for l
  proof (cases "l = i")
    case True
    then show ?thesis using tki j(1,2) by auto
  next
    case False
    have "unat (sp (tasks k ! l)) = l \<or> (\<exists>m < ba_next x. takes k l m \<and> m \<notin> free_indices x)"
      using co off [OF o False] by (auto simp: coherent_def)
    then show ?thesis using old [of l] tkl [OF o False] all lm [OF o] False by auto
  qed
  moreover have "l = l'" if "off_hart k' l" "off_hart k' l'" "takes k' l m" "takes k' l' m" for l l' m
    using that tki tkl off fresh co unfolding coherent_def by metis
  ultimately show ?thesis using tab' k'(1) unfolding coherent_def by metis
qed

text \<open>What a spawn does to the cookies, with the index \<open>j\<close> it takes.\<close>

lemma xt_spawn_cases:
  assumes g: "good k" and p: "priority < 32" and m: "table_ok (max_ptasks k) x"
    and s: "xt_spawn h base sz entry_fn arg priority rs df (x, k) = Some (r, x', k')"
  obtains (taken) j x1 where "alloc_bootstrap_index x = Some (j, x1)"
    and "x' = x1\<lparr>bootstraps := (bootstraps x)[j := \<lparr>bs_stack_base = base, bs_stack_len = sz, bs_entry = entry_fn, bs_arg = arg\<rparr>]\<rparr>"
    and "unat (encode_bootstrap (max_ptasks k) j) = max_ptasks k + j"
    and "r = Inl RegistryFull \<and> k' = k \<or>
      (\<exists>i gen. r = Inr \<lparr>handle_id = i, handle_gen = gen\<rparr> \<and> i < max_ptasks k \<and> max_ptasks k' = max_ptasks k \<and>
        current_ids k' = current_ids k \<and> task_live k' i \<and>
        (\<forall>l < max_ptasks k. sp (tasks k' ! l) = (if l = i then encode_bootstrap (max_ptasks k) j else sp (tasks k ! l)) \<and>
          (l \<noteq> i \<longrightarrow> task_live k' l = task_live k l)))"
proof -
  obtain j x1 where a: "alloc_bootstrap_index x = Some (j, x1)"
    and x': "x' = x1\<lparr>bootstraps := (bootstraps x1)[j := \<lparr>bs_stack_base = base, bs_stack_len = sz,
      bs_entry = entry_fn, bs_arg = arg\<rparr>]\<rparr>"
    and sp: "spawn h 256 (\<lambda>_ _. encode_bootstrap (max_ptasks k) j) base sz priority rs df k = Some (r, k')"
    using s by (auto simp: xt_spawn_def xt_init_task_stack_def split: bind_splits)
  note al = alloc_index_spec [OF m a]
  have u: "unat (encode_bootstrap (max_ptasks k) j) = max_ptasks k + j"
    unfolding encode_bootstrap_def
    by (rule unat_small) (use al(7) good_wf(2) [OF g] in \<open>simp add: bootstrap_capacity_def BOOTSTRAP_HEADROOM_def\<close>)
  have sz: "\<not> sz < 256" using sp by (auto simp: spawn_def simp del: not_less split: if_splits)
  from goodD(1) [OF g] p have "r = Inl RegistryFull \<and> k' = k \<or>
      (\<exists>i gen. r = Inr \<lparr>handle_id = i, handle_gen = gen\<rparr> \<and> i < max_ptasks k \<and> max_ptasks k' = max_ptasks k \<and>
        current_ids k' = current_ids k \<and> task_live k' i \<and>
        (\<forall>l < max_ptasks k. sp (tasks k' ! l) = (if l = i then encode_bootstrap (max_ptasks k) j else sp (tasks k ! l)) \<and>
          (l \<noteq> i \<longrightarrow> task_live k' l = task_live k l)))"
  proof (cases rule: register_full_cases [of k priority h "encode_bootstrap (max_ptasks k) j" base sz])
    case full
    then show ?thesis using sp unfolding spawn_def if_not_P [OF sz] Let_def by simp
  next
    case (slot i)
    then show ?thesis using sp unfolding spawn_def if_not_P [OF sz] Let_def
      by (auto simp: get_task_def claim_slot_def claimed_def nth_upd_at task_live_def split: option.splits if_splits)
  qed
  then show ?thesis using that [OF a _ u] x' al(9) by simp
qed

lemma xt_spawn_coherent:
  assumes g: "good k" and p: "priority < 32" and co: "coherent k x"
    and s: "xt_spawn h base sz entry_fn arg priority rs df (x, k) = Some (r, x', k')"
  shows "coherent k' x'"
proof -
  have tab: "table_ok (max_ptasks k) x" using co by (simp add: coherent_def)
  from g p tab s show ?thesis
  proof (cases rule: xt_spawn_cases)
    case (taken j x1)
    note al = alloc_index_spec [OF tab taken(1)]
    have fr: "free_indices x' = free_indices x1" "ba_next x' = ba_next x1" by (simp_all add: taken(2) free_indices_def)
    have tab': "table_ok (max_ptasks k) x'" using al(1,9) by (simp add: taken(2) table_ok_def free_indices_def)
    have old: "\<exists>m < ba_next x'. takes k i m \<and> m \<notin> free_indices x'" if ex: "\<exists>m < ba_next x. takes k i m \<and> m \<notin> free_indices x" for i
    proof -
      obtain m where "m < ba_next x" "takes k i m" "m \<notin> free_indices x" using ex by blast
      then show ?thesis using al(5,6) unfolding fr by (intro exI [of _ m]) auto
    qed
    from taken(4) show ?thesis
    proof (elim disjE exE conjE)
      assume "k' = k"
      then show ?thesis using co tab' old unfolding coherent_def by blast
    next
      fix i gen assume k': "max_ptasks k' = max_ptasks k" "current_ids k' = current_ids k" "i < max_ptasks k"
        and all: "\<forall>l < max_ptasks k. sp (tasks k' ! l) = (if l = i then encode_bootstrap (max_ptasks k) j else sp (tasks k ! l)) \<and>
          (l \<noteq> i \<longrightarrow> task_live k' l = task_live k l)"
      show ?thesis by (rule spawn_keeps_coherent [OF co tab' old k' taken(3) all]) (use al(2-4) fr in auto)
    qed
  qed
qed

text \<open>A spawn gives the new task a fresh context and keeps those of the tasks off the harts.\<close>

lemma xt_spawn_contexts:
  assumes g: "good k" and p: "priority < 32" and co: "coherent k x"
    and s: "xt_spawn h base sz entry_fn arg priority rs df (x, k) = Some (Inr th, x', k')"
  shows "context_of new tr x' k' (handle_id th) =
      fresh_task_context new tr \<lparr>bs_stack_base = base, bs_stack_len = sz, bs_entry = entry_fn, bs_arg = arg\<rparr>"
    "off_hart k l \<Longrightarrow> l \<noteq> handle_id th \<Longrightarrow> context_of new tr x' k' l = context_of new tr x k l"
proof -
  have tab: "table_ok (max_ptasks k) x" using co by (simp add: coherent_def)
  from g p tab s have "context_of new tr x' k' (handle_id th) =
      fresh_task_context new tr \<lparr>bs_stack_base = base, bs_stack_len = sz, bs_entry = entry_fn, bs_arg = arg\<rparr> \<and>
    (off_hart k l \<longrightarrow> l \<noteq> handle_id th \<longrightarrow> context_of new tr x' k' l = context_of new tr x k l)"
  proof (cases rule: xt_spawn_cases)
    case (taken j x1)
    note al = alloc_index_spec [OF tab taken(1)]
    obtain i where i: "handle_id th = i" "i < max_ptasks k" "max_ptasks k' = max_ptasks k"
      "\<forall>l < max_ptasks k. sp (tasks k' ! l) = (if l = i then encode_bootstrap (max_ptasks k) j else sp (tasks k ! l))"
      using taken(4) by auto
    have b: "bootstraps x' = (bootstraps x)[j := \<lparr>bs_stack_base = base, bs_stack_len = sz, bs_entry = entry_fn, bs_arg = arg\<rparr>]"
      "contexts x' = contexts x" "j < length (bootstraps x)"
      using al(7,8) tab by (simp_all add: taken(2) table_ok_def)
    have "context_of new tr x' k' l = context_of new tr x k l" if l: "off_hart k l" "l \<noteq> i"
    proof -
      have lm: "l < max_ptasks k" using l by (simp add: off_hart_def task_live_def)
      have ne: "j \<noteq> unat (sp (tasks k ! l)) - max_ptasks k" if n: "unat (sp (tasks k ! l)) \<noteq> l"
      proof -
        obtain m where "m < ba_next x" "takes k l m" "m \<notin> free_indices x" using co l n by (auto simp: coherent_def)
        then show ?thesis using al(4) by (auto simp: takes_def)
      qed
      show ?thesis using i l lm b ne by (cases "unat (sp (tasks k ! l)) = l") (simp_all add: context_of_def)
    qed
    then show ?thesis using i taken(3) b by (simp add: context_of_def)
  qed
  then show "context_of new tr x' k' (handle_id th) =
      fresh_task_context new tr \<lparr>bs_stack_base = base, bs_stack_len = sz, bs_entry = entry_fn, bs_arg = arg\<rparr>"
    "off_hart k l \<Longrightarrow> l \<noteq> handle_id th \<Longrightarrow> context_of new tr x' k' l = context_of new tr x k l" by simp_all
qed

end
