(* ===== verification/Props_Arch.thy ===== *)
theory Props_Arch
  imports Arm_Kernel Systick Nvic Xtensa Demo
begin

text \<open>The properties of the Cortex-M and Xtensa ports.\<close>

section \<open>Stack isolation on Cortex-M\<close>

text \<open>
  C35: on Cortex-M, whatever stacks are allocated and released and whatever switches and spawns the
  protection unit has seen, the running task can read and write its own stack and everything
  outside the pool, can execute nothing on its stack, and reaches no other byte of the pool, in
  particular no other task's stack.
\<close>
theorem mpu_isolates_stacks:
  assumes "pool_reach guard base len s live" and "unat base + unat len < 2 ^ 32"
    and "pool_linked base len" and "mpu_run base len m (Some (b, sz))" and "(b, sz) \<in> set live"
  shows "(mpu_allows m acc a \<longleftrightarrow>
      (if unat b \<le> unat a \<and> unat a < unat b + unat sz then acc \<noteq> Fetch
       else \<not> (unat base \<le> unat a \<and> unat a < unat base + unat len))) \<and>
    (\<forall>(b', sz') \<in> set live. (b', sz') \<noteq> (b, sz) \<longrightarrow>
      unat b' \<le> unat a \<longrightarrow> unat a < unat b' + unat sz' \<longrightarrow> \<not> mpu_allows m acc a)"
proof -
  have al: "mpu_allows m acc a \<longleftrightarrow>
      (if unat b \<le> unat a \<and> unat a < unat b + unat sz then acc \<noteq> Fetch
       else \<not> (unat base \<le> unat a \<and> unat a < unat base + unat len))" for a
    using isolating_allows [OF mpu_run_isolating [OF assms(4,3)]] by simp
  note live = live_apart [OF pool_reach_inv [OF assms(1,2)] assms(5)]
  have "\<not> mpu_allows m acc a" if "(b', sz') \<in> set live" "(b', sz') \<noteq> (b, sz)" "unat b' \<le> unat a" "unat a < unat b' + unat sz'"
    for b' sz' using live [OF that] al by auto
  then show ?thesis using al by blast
qed

definition demo_stacks :: "pool \<times> pool" where
  "demo_stacks = (let s1 = snd (alloc_stack 32 0x2000 0x2000 1024 pool_boot)
     in (s1, snd (alloc_stack 32 0x2000 0x2000 1024 s1)))"

definition demo_mpu :: "mpu \<times> mpu" where
  "demo_mpu = (let m1 = the (mpu_init 0x2000 0x2000 mpu_reset) in (m1, the (set_current_stack 0x2400 1024 m1)))"

text \<open>The demonstration states of the pool and the unit.\<close>

lemma demo_stacks_ok: "pool_reach 32 0x2000 0x2000 (snd demo_stacks) [(0x2C00, 1024), (0x2400, 1024)]"
  "mpu_run 0x2000 0x2000 (snd demo_mpu) (Some (0x2400, 1024))"
proof -
  have a: "pool_args 32 0x2000 0x2000 1024"
    unfolding pool_args_def by (intro conjI exI [of _ 10] exI [of _ 5]) simp_all
  have f: "alloc_stack 32 0x2000 0x2000 1024 pool_boot = (Some (0x2400, Some (0x23E0, 0)), fst demo_stacks)"
    "alloc_stack 32 0x2000 0x2000 1024 (fst demo_stacks) = (Some (0x2C00, Some (0x2BE0, 1)), snd demo_stacks)"
    "mpu_init 0x2000 0x2000 mpu_reset = Some (fst demo_mpu)"
    "set_current_stack 0x2400 1024 (fst demo_mpu) = Some (snd demo_mpu)"
    by code_simp+
  show "pool_reach 32 0x2000 0x2000 (snd demo_stacks) [(0x2C00, 1024), (0x2400, 1024)]"
    by (rule pool_reach.alloc [OF pool_reach.alloc [OF pool_reach.boot a f(1)] a f(2)])
  have al: "size_aligned (0x2400, 1024)" unfolding size_aligned_def by (intro conjI exI [of _ 10]) simp_all
  show "mpu_run 0x2000 0x2000 (snd demo_mpu) (Some (0x2400, 1024))"
    by (rule mpu_run.switch [OF mpu_run.init [OF f(3)] al _ _ f(4)]) simp_all
qed

theorem mpu_isolates_stacks_witness:
  "mpu_allows (snd demo_mpu) Store 0x2500 \<and> \<not> mpu_allows (snd demo_mpu) Load 0x2D00 \<and>
    mpu_run 0x2000 0x2000 (snd demo_mpu) (Some (0x2400, 1024))"
proof -
  have l: "pool_linked 0x2000 0x2000" unfolding pool_linked_def by (intro bexI [of _ 13]) simp_all
  have "unat (0x2000 :: usize) + unat (0x2000 :: usize) < 2 ^ 32" "(0x2400, 1024) \<in> set [(0x2C00, 1024), (0x2400, 1024 :: usize)]"
    by simp_all
  note i = mpu_isolates_stacks [OF demo_stacks_ok(1) this(1) l demo_stacks_ok(2) this(2)]
  show ?thesis using i [of Store "0x2500"] i [of Load "0x2D00"] demo_stacks_ok(2) by simp
qed

section \<open>Context switches on Cortex-M\<close>

text \<open>
  On both Cortex-M cores, when an exception interrupts a task and PendSV saves it, whatever
  runs until the saved frame is restored, the task gets all its registers, its stack pointer, its
  program counter and its status back. The exception's own stack is apart from the frame; the
  interrupted program counter is even and the status bit the hardware uses for padding is clear,
  as the architecture has them.
\<close>
theorem arm_switch_restores:
  fixes s s2 :: arm
  assumes "(save, restore) \<in> {(pendsv_save, pendsv_restore), (pendsv_save_m0, pendsv_restore_m0)}"
    and "\<not> in_arm_frame (saved_at s) (msp s - 4)"
    and "greg s2 0 = saved_at s"
    and "\<forall>a. in_arm_frame (saved_at s) a \<longrightarrow> words s2 a = words (t_exec save (exception_entry s)) a"
    and "\<not> bit (arm_pc s) 0" and "\<not> bit (xpsr s) 9"
  shows "let s1 = t_exec save (exception_entry s); s3 = exception_return (t_exec restore s2) in
    greg s1 0 = saved_at s \<and> msp s1 = msp s - 8 \<and> words s1 (msp s - 4) = EXC_RETURN \<and>
    (\<forall>q \<in> context_regs. greg s3 q = greg s q) \<and> psp s3 = psp s \<and> arm_pc s3 = arm_pc s \<and> xpsr s3 = xpsr s \<and>
    words s3 = words s2 \<and> msp s3 = msp s2 + 8"
proof -
  have same: "words (t_exec save (exception_entry s)) = words (t_exec pendsv_save (exception_entry s))"
    "greg (t_exec save (exception_entry s)) 0 = greg (t_exec pendsv_save (exception_entry s)) 0"
    "msp (t_exec save (exception_entry s)) = msp (t_exec pendsv_save (exception_entry s))"
    "exception_return (t_exec restore s2) = exception_return (t_exec pendsv_restore s2)"
    using assms(1) by (auto simp: save_m0_eq return_m0_eq)
  have "words s2 a = words (t_exec pendsv_save (exception_entry s)) a" if "in_arm_frame (saved_at s) a" for a
    using assms(4) that same(1) by simp
  note r = arm_round_trip [OF assms(2,3) this assms(5,6)]
  show ?thesis unfolding Let_def same using pendsv_saves(2-4) [OF assms(2)] r by blast
qed

definition demo_arm :: arm where
  "demo_arm = \<lparr>greg = of_nat, words = (\<lambda>_. 0), psp = 0x2004, msp = 0x8000, arm_pc = 0x400, xpsr = 0x01000000\<rparr>"

theorem arm_switch_restores_witness:
  "let s2 = (t_exec pendsv_save_m0 (exception_entry demo_arm))\<lparr>greg := (\<lambda>_. 7)(0 := 0x1FC0)\<rparr>;
       s3 = exception_return (t_exec pendsv_restore_m0 s2)
   in greg s3 9 = 9 \<and> greg s3 14 = 14 \<and> psp s3 = 0x2004 \<and> arm_pc s3 = 0x400"
proof -
  let ?s2 = "(t_exec pendsv_save_m0 (exception_entry demo_arm))\<lparr>greg := (\<lambda>_. 7)(0 := 0x1FC0)\<rparr>"
  have e: "(0x01000000 :: u32) = 2 ^ 24" "(0x400 :: u32) = 2 ^ 10" by simp_all
  have at: "saved_at demo_arm = 0x1FC0" by (simp add: saved_at_def demo_arm_def)
  have c: "\<not> in_arm_frame (saved_at demo_arm) (msp demo_arm - 4)" "greg ?s2 0 = saved_at demo_arm"
    "\<forall>a. in_arm_frame (saved_at demo_arm) a \<longrightarrow> words ?s2 a = words (t_exec pendsv_save_m0 (exception_entry demo_arm)) a"
    unfolding at by (simp_all add: in_arm_frame_def demo_arm_def)
  have b: "\<not> bit (arm_pc demo_arm) 0" "\<not> bit (xpsr demo_arm) 9"
    unfolding demo_arm_def by (simp_all only: arm.select_convs e bit_exp_iff) simp_all
  have "(pendsv_save_m0, pendsv_restore_m0) \<in> {(pendsv_save, pendsv_restore), (pendsv_save_m0, pendsv_restore_m0)}" by simp
  from arm_switch_restores [OF this c b] show ?thesis
    by (simp add: Let_def context_regs_def) (simp add: demo_arm_def)
qed














section \<open>The precise clock of Cortex-M\<close>

text \<open>
  C37: when every tick is counted in time and fewer than a tick's worth of clock cycles pass
  during six register reads, the precise clock returns after at most six of them, and its value
  is the time of one of them, in microseconds rounded down, at the width of the registers.
\<close>
theorem precise_clock_is_a_reading:
  assumes "counted c s ticks cvr" and "c (n + 5) < c n + (unat (syst_rvr s) + 1)"
  shows "\<exists>m n' v. now_micros_precise ticks cvr s n = Some (v, n') \<and> n \<le> m \<and> m < n' \<and> n' \<le> n + 6 \<and>
    unat v = c m * unat (tick_period_us s) div (unat (syst_rvr s) + 1)"
  by (rule precise_ok [OF assms])

theorem precise_clock_is_a_reading_witness:
  "\<exists>m n' v. now_micros_precise (\<lambda>n. of_nat (min (998 + n) 1100 div 1000)) (\<lambda>n. of_nat (999 - min (998 + n) 1100 mod 1000))
      (systick_boot\<lparr>syst_rvr := 999\<rparr>) 0 = Some (v, n') \<and> m < n' \<and> n' \<le> 6 \<and> unat v = min (998 + m) 1100"
proof -
  let ?c = "\<lambda>n. min (998 + n) 1100 :: nat" and ?s = "systick_boot\<lparr>syst_rvr := 999\<rparr>"
  have small: "unat (of_nat x :: u32) = x" if "x \<le> 1100" for x
    unfolding unat_of_nat by (rule mod_less) (use that in simp)
  have "unat (of_nat (?c n div 1000) :: u32) = ?c n div 1000" for n
    by (rule small, rule order.trans [OF div_le_dividend]) simp
  moreover have "unat (of_nat (999 - ?c n mod 1000) :: u32) = 999 - ?c n mod 1000" for n
    by (rule small) simp
  ultimately have "counted ?c ?s (\<lambda>n. of_nat (?c n div 1000)) (\<lambda>n. of_nat (999 - ?c n mod 1000))"
    by (simp add: counted_def min_def)
  from precise_clock_is_a_reading [OF this, of 0] show ?thesis by (auto simp: systick_boot_def)
qed

section \<open>Context switches on Xtensa\<close>












end
