(* ===== verification/Spi.thy ===== *)
theory Spi
  imports Rivet_Base "HOL-Library.Monad_Syntax"
begin

text \<open>
  The SPI driver of the boards with a PL022 controller (\<open>rivet-bsp-support/src/pl022.rs\<close>): polling
  transfers and interrupt-driven ones. The controller is modelled with its two queues of eight
  bytes. How many bytes it moves before an access of the driver is arbitrary (\<open>steps\<close>), and so is
  the device on the bus (\<open>slave\<close>), which answers a byte after all the bytes it has seen. The latch
  between the interrupt and the waiting task is a flag here; the theory \<open>Signal\<close> is about it.
\<close>

section \<open>The controller\<close>

record pl022 =
  tx_fifo :: "u8 list"
  rx_fifo :: "u8 list"
  shifted :: "u8 list"
  rxim :: bool
  latch :: bool
  accesses :: nat
  loopback :: bool

definition FIFO_DEPTH :: nat where "FIFO_DEPTH = 8"

definition spi_init :: "bool \<Rightarrow> pl022 \<Rightarrow> pl022" where
  "spi_init lb d = d\<lparr>loopback := lb\<rparr>"

text \<open>In loopback mode a byte answers itself.\<close>

definition answer :: "(u8 list \<Rightarrow> u8) \<Rightarrow> bool \<Rightarrow> u8 list \<Rightarrow> u8" where
  "answer slave lb bs = (if lb then last bs else slave bs)"

definition shift_one :: "(u8 list \<Rightarrow> u8) \<Rightarrow> pl022 \<Rightarrow> pl022" where
  "shift_one slave d = (case tx_fifo d of
     [] \<Rightarrow> d
   | b # bs \<Rightarrow>
       let seen = shifted d @ [b]
       in d\<lparr>tx_fifo := bs, shifted := seen,
            rx_fifo := (if length (rx_fifo d) < FIFO_DEPTH then rx_fifo d @ [answer slave (loopback d) seen]
                        else rx_fifo d)\<rparr>)"

text \<open>
  The receive interrupt asserts from four bytes on; its handler masks it and fires the latch.
\<close>

definition spi_isr :: "pl022 \<Rightarrow> pl022" where
  "spi_isr d = d\<lparr>rxim := False, latch := True\<rparr>"

definition advance :: "(u8 list \<Rightarrow> u8) \<Rightarrow> (nat \<Rightarrow> nat) \<Rightarrow> pl022 \<Rightarrow> pl022" where
  "advance slave steps d =
    (let d1 = (shift_one slave ^^ steps (accesses d)) d; d2 = d1\<lparr>accesses := accesses d + 1\<rparr>
     in if rxim d2 \<and> 4 \<le> length (rx_fifo d2) then spi_isr d2 else d2)"

section \<open>The driver\<close>

partial_function (option) tx_byte :: "(u8 list \<Rightarrow> u8) \<Rightarrow> (nat \<Rightarrow> nat) \<Rightarrow> u8 \<Rightarrow> pl022 \<Rightarrow> pl022 option" where
  [code]: "tx_byte slave steps b d =
    (let d1 = advance slave steps d
     in if length (tx_fifo d1) < FIFO_DEPTH then Some (d1\<lparr>tx_fifo := tx_fifo d1 @ [b]\<rparr>)
        else tx_byte slave steps b d1)"

partial_function (option) rx_byte_poll :: "(u8 list \<Rightarrow> u8) \<Rightarrow> (nat \<Rightarrow> nat) \<Rightarrow> pl022 \<Rightarrow> (u8 \<times> pl022) option" where
  [code]: "rx_byte_poll slave steps d =
    (let d1 = advance slave steps d
     in if rx_fifo d1 \<noteq> [] then Some (hd (rx_fifo d1), d1\<lparr>rx_fifo := tl (rx_fifo d1)\<rparr>)
        else rx_byte_poll slave steps d1)"

definition transfer_word_sync :: "(u8 list \<Rightarrow> u8) \<Rightarrow> (nat \<Rightarrow> nat) \<Rightarrow> u8 \<Rightarrow> pl022 \<Rightarrow> (u8 \<times> pl022) option" where
  "transfer_word_sync slave steps b d = do { d1 \<leftarrow> tx_byte slave steps b d; rx_byte_poll slave steps d1 }"

text \<open>Reading past the end of the written words sends zeros.\<close>

definition padded :: "nat \<Rightarrow> u8 list \<Rightarrow> u8 list" where
  "padded n ws = take n ws @ replicate (n - length ws) 0"

fun spi_exchange :: "(u8 list \<Rightarrow> u8) \<Rightarrow> (nat \<Rightarrow> nat) \<Rightarrow> u8 list \<Rightarrow> pl022 \<Rightarrow> (u8 list \<times> pl022) option" where
  "spi_exchange slave steps [] d = Some ([], d)"
| "spi_exchange slave steps (w # ws) d = do {
     (x, d1) \<leftarrow> transfer_word_sync slave steps w d;
     (xs, d2) \<leftarrow> spi_exchange slave steps ws d1;
     Some (x # xs, d2)
   }"

text \<open>A transfer fills the read buffer; further answers are dropped.\<close>

definition spi_transfer :: "(u8 list \<Rightarrow> u8) \<Rightarrow> (nat \<Rightarrow> nat) \<Rightarrow> nat \<Rightarrow> u8 list \<Rightarrow> pl022 \<Rightarrow> (u8 list \<times> pl022) option" where
  "spi_transfer slave steps read_len ws d = do {
     (xs, d1) \<leftarrow> spi_exchange slave steps (padded (max read_len (length ws)) ws) d;
     Some (take read_len xs, d1)
   }"

partial_function (option) spi_wait :: "(u8 list \<Rightarrow> u8) \<Rightarrow> (nat \<Rightarrow> nat) \<Rightarrow> pl022 \<Rightarrow> pl022 option" where
  [code]: "spi_wait slave steps d =
    (if latch d then Some (d\<lparr>latch := False\<rparr>) else spi_wait slave steps (advance slave steps d))"

fun tx_all :: "(u8 list \<Rightarrow> u8) \<Rightarrow> (nat \<Rightarrow> nat) \<Rightarrow> u8 list \<Rightarrow> pl022 \<Rightarrow> pl022 option" where
  "tx_all slave steps [] d = Some d"
| "tx_all slave steps (b # bs) d = do { d1 \<leftarrow> tx_byte slave steps b d; tx_all slave steps bs d1 }"

fun rx_all :: "(u8 list \<Rightarrow> u8) \<Rightarrow> (nat \<Rightarrow> nat) \<Rightarrow> nat \<Rightarrow> pl022 \<Rightarrow> (u8 list \<times> pl022) option" where
  "rx_all slave steps 0 d = Some ([], d)"
| "rx_all slave steps (Suc n) d = do {
     (x, d1) \<leftarrow> rx_byte_poll slave steps d;
     (xs, d2) \<leftarrow> rx_all slave steps n d1;
     Some (x # xs, d2)
   }"

definition transfer_chunk_async :: "(u8 list \<Rightarrow> u8) \<Rightarrow> (nat \<Rightarrow> nat) \<Rightarrow> u8 list \<Rightarrow> pl022 \<Rightarrow> (u8 list \<times> pl022) option" where
  "transfer_chunk_async slave steps tx d =
    (if FIFO_DEPTH < length tx then None
     else do {
       d1 \<leftarrow> tx_all slave steps tx (d\<lparr>latch := False, rxim := True\<rparr>);
       d2 \<leftarrow> spi_wait slave steps d1;
       rx_all slave steps (length tx) d2
     })"

function async_exchange :: "(u8 list \<Rightarrow> u8) \<Rightarrow> (nat \<Rightarrow> nat) \<Rightarrow> u8 list \<Rightarrow> pl022 \<Rightarrow> (u8 list \<times> pl022) option" where
  "async_exchange slave steps ws d =
    (if ws = [] then Some ([], d)
     else do {
       (xs, d1) \<leftarrow> transfer_chunk_async slave steps (take FIFO_DEPTH ws) d;
       (ys, d2) \<leftarrow> async_exchange slave steps (drop FIFO_DEPTH ws) d1;
       Some (xs @ ys, d2)
     })"
  by pat_completeness auto
termination by (relation "measure (\<lambda>(_, _, ws, _). length ws)") (auto simp: FIFO_DEPTH_def)

declare async_exchange.simps [simp del]

definition transfer_async :: "(u8 list \<Rightarrow> u8) \<Rightarrow> (nat \<Rightarrow> nat) \<Rightarrow> nat \<Rightarrow> u8 list \<Rightarrow> pl022 \<Rightarrow> (u8 list \<times> pl022) option" where
  "transfer_async slave steps read_len ws d = do {
     (xs, d1) \<leftarrow> async_exchange slave steps (padded (max read_len (length ws)) ws) d;
     Some (take read_len xs, d1)
   }"

text \<open>Reading alone sends zeros, writing alone drops the answers; in place, the answers replace the words.\<close>

definition spi_read :: "(u8 list \<Rightarrow> u8) \<Rightarrow> (nat \<Rightarrow> nat) \<Rightarrow> nat \<Rightarrow> pl022 \<Rightarrow> (u8 list \<times> pl022) option" where
  "spi_read slave steps n d = spi_exchange slave steps (replicate n 0) d"

definition spi_write :: "(u8 list \<Rightarrow> u8) \<Rightarrow> (nat \<Rightarrow> nat) \<Rightarrow> u8 list \<Rightarrow> pl022 \<Rightarrow> pl022 option" where
  "spi_write slave steps ws d = do { (xs, d1) \<leftarrow> spi_exchange slave steps ws d; Some d1 }"

definition transfer_in_place :: "(u8 list \<Rightarrow> u8) \<Rightarrow> (nat \<Rightarrow> nat) \<Rightarrow> u8 list \<Rightarrow> pl022 \<Rightarrow> (u8 list \<times> pl022) option" where
  "transfer_in_place slave steps ws d = spi_exchange slave steps ws d"

definition read_async :: "(u8 list \<Rightarrow> u8) \<Rightarrow> (nat \<Rightarrow> nat) \<Rightarrow> nat \<Rightarrow> pl022 \<Rightarrow> (u8 list \<times> pl022) option" where
  "read_async slave steps n d = transfer_async slave steps n [] d"

definition write_async :: "(u8 list \<Rightarrow> u8) \<Rightarrow> (nat \<Rightarrow> nat) \<Rightarrow> u8 list \<Rightarrow> pl022 \<Rightarrow> pl022 option" where
  "write_async slave steps ws d = do { (xs, d1) \<leftarrow> transfer_async slave steps 0 ws d; Some d1 }"

definition transfer_in_place_async :: "(u8 list \<Rightarrow> u8) \<Rightarrow> (nat \<Rightarrow> nat) \<Rightarrow> u8 list \<Rightarrow> pl022 \<Rightarrow> (u8 list \<times> pl022) option" where
  "transfer_in_place_async slave steps ws d = async_exchange slave steps ws d"

text \<open>The flush waits until nothing is left to send.\<close>

partial_function (option) spi_flush :: "(u8 list \<Rightarrow> u8) \<Rightarrow> (nat \<Rightarrow> nat) \<Rightarrow> pl022 \<Rightarrow> pl022 option" where
  [code]: "spi_flush slave steps d =
    (let d1 = advance slave steps d in if tx_fifo d1 = [] then Some d1 else spi_flush slave steps d1)"

section \<open>What the queues hold\<close>

definition answers :: "(u8 list \<Rightarrow> u8) \<Rightarrow> bool \<Rightarrow> u8 list \<Rightarrow> u8 list" where
  "answers slave lb bs = map (\<lambda>i. answer slave lb (take (Suc i) bs)) [0..<length bs]"

lemma answers_snoc: "answers slave lb (bs @ [b]) = answers slave lb bs @ [answer slave lb (bs @ [b])]"
  by (simp add: answers_def)

lemma answers_take: "n \<le> length bs \<Longrightarrow> answers slave lb (take n bs) = take n (answers slave lb bs)"
  by (simp add: answers_def take_map min_def)

text \<open>The answers to further bytes, in a conversation in which \<open>as\<close> have been sent.\<close>

primrec dialogue :: "(u8 list \<Rightarrow> u8) \<Rightarrow> bool \<Rightarrow> u8 list \<Rightarrow> u8 list \<Rightarrow> u8 list" where
  "dialogue slave lb as [] = []"
| "dialogue slave lb as (b # bs) = answer slave lb (as @ [b]) # dialogue slave lb (as @ [b]) bs"

lemma answers_append: "answers slave lb (as @ bs) = answers slave lb as @ dialogue slave lb as bs"
proof (induction bs arbitrary: as)
  case (Cons b bs)
  then show ?case using Cons [of "as @ [b]"] by (simp add: answers_snoc)
qed simp

lemma dialogue_append: "dialogue slave lb as (bs @ cs) = dialogue slave lb as bs @ dialogue slave lb (as @ bs) cs"
  by (induction bs arbitrary: as) simp_all

lemma length_dialogue [simp]: "length (dialogue slave lb as bs) = length bs"
  by (induction bs arbitrary: as) simp_all

lemma length_answers [simp]: "length (answers slave lb bs) = length bs"
  by (simp add: answers_def)

text \<open>
  All bytes handed to the controller, and of their answers the first \<open>r\<close> taken out: at most eight
  are outstanding, so that no answer is lost.
\<close>

definition spi_ok :: "(u8 list \<Rightarrow> u8) \<Rightarrow> u8 list \<Rightarrow> nat \<Rightarrow> pl022 \<Rightarrow> bool" where
  "spi_ok slave all r d \<longleftrightarrow> shifted d @ tx_fifo d = all \<and> r \<le> length (shifted d) \<and>
     rx_fifo d = drop r (answers slave (loopback d) (shifted d)) \<and> length all \<le> r + FIFO_DEPTH"

lemma shift_one_frame [simp]:
  "loopback (shift_one slave d) = loopback d" "rxim (shift_one slave d) = rxim d"
  "latch (shift_one slave d) = latch d" "accesses (shift_one slave d) = accesses d"
  by (simp_all add: shift_one_def Let_def split: list.split)

lemma shift_one_ok: "spi_ok slave all r d \<Longrightarrow> spi_ok slave all r (shift_one slave d)"
  by (auto simp: spi_ok_def shift_one_def Let_def answers_snoc split: list.split)

lemma shift_many:
  "spi_ok slave all r d \<Longrightarrow> spi_ok slave all r ((shift_one slave ^^ n) d)"
  "loopback ((shift_one slave ^^ n) d) = loopback d" "rxim ((shift_one slave ^^ n) d) = rxim d"
  "latch ((shift_one slave ^^ n) d) = latch d"
  "length (tx_fifo ((shift_one slave ^^ n) d)) = length (tx_fifo d) - n"
proof -
  have one: "length (tx_fifo (shift_one slave d)) = length (tx_fifo d) - 1" for d
    by (simp add: shift_one_def Let_def split: list.split)
  show "spi_ok slave all r d \<Longrightarrow> spi_ok slave all r ((shift_one slave ^^ n) d)"
    by (induction n) (simp_all add: shift_one_ok)
  show "loopback ((shift_one slave ^^ n) d) = loopback d" "rxim ((shift_one slave ^^ n) d) = rxim d"
    "latch ((shift_one slave ^^ n) d) = latch d"
    "length (tx_fifo ((shift_one slave ^^ n) d)) = length (tx_fifo d) - n"
    by (induction n) (simp_all add: one)
qed

lemma advance_ok: "spi_ok slave all r d \<Longrightarrow> spi_ok slave all r (advance slave steps d)"
  using shift_many(1) [of slave all r d "steps (accesses d)"] by (simp add: advance_def spi_isr_def spi_ok_def Let_def)

lemma advance_frame [simp]:
  "loopback (advance slave steps d) = loopback d" "accesses (advance slave steps d) = accesses d + 1"
  "length (tx_fifo (advance slave steps d)) = length (tx_fifo d) - steps (accesses d)"
  by (simp_all add: advance_def Let_def spi_isr_def shift_many)

text \<open>The interrupt stays asserted until it is served, and is served once four answers are there.\<close>

definition armed :: "pl022 \<Rightarrow> bool" where
  "armed d \<longleftrightarrow> latch d \<and> \<not> rxim d \<or> \<not> latch d \<and> rxim d \<and> length (rx_fifo d) < 4"

lemma advance_armed: "rxim d \<or> latch d \<Longrightarrow> \<not> (rxim d \<and> latch d) \<Longrightarrow> armed (advance slave steps d)"
  by (auto simp: advance_def Let_def spi_isr_def armed_def shift_many)

section \<open>Progress\<close>

text \<open>The controller moves a byte again and again.\<close>

definition progress :: "(nat \<Rightarrow> nat) \<Rightarrow> bool" where
  "progress steps \<longleftrightarrow> (\<forall>n. \<exists>m \<ge> n. 0 < steps m)"

lemma ok_lengths:
  "spi_ok slave all r d \<Longrightarrow> length (rx_fifo d) + length (tx_fifo d) + r = length all"
  by (auto simp: spi_ok_def)

lemma tx_byte_ok:
  assumes ok: "spi_ok slave all r d" and room: "length all < r + FIFO_DEPTH"
  shows "\<exists>d'. tx_byte slave steps b d = Some d' \<and> spi_ok slave (all @ [b]) r d' \<and> loopback d' = loopback d \<and>
    (rxim d \<or> latch d \<longrightarrow> \<not> (rxim d \<and> latch d) \<longrightarrow> armed d')"
proof -
  let ?d = "advance slave steps d"
  have ok1: "spi_ok slave all r ?d" by (rule advance_ok [OF ok])
  have "length (tx_fifo ?d) < FIFO_DEPTH" using ok_lengths [OF ok1] room by linarith
  then have "tx_byte slave steps b d = Some (?d\<lparr>tx_fifo := tx_fifo ?d @ [b]\<rparr>)"
    by (subst tx_byte.simps) (simp add: Let_def)
  then show ?thesis using ok1 room advance_armed [of d slave steps] by (simp add: spi_ok_def armed_def)
qed

lemma rx_byte_ok:
  assumes ok: "spi_ok slave all r d" and r: "r < length all" and p: "progress steps"
  shows "\<exists>d'. rx_byte_poll slave steps d = Some (answers slave (loopback d) all ! r, d') \<and>
    spi_ok slave all (Suc r) d' \<and> loopback d' = loopback d"
proof -
  have take: "hd (rx_fifo d1) = answers slave (loopback d) all ! r \<and>
      spi_ok slave all (Suc r) (d1\<lparr>rx_fifo := tl (rx_fifo d1)\<rparr>)"
    if ok1: "spi_ok slave all r d1" and ne: "rx_fifo d1 \<noteq> []" and lb: "loopback d1 = loopback d" for d1
  proof -
    have all: "all = shifted d1 @ tx_fifo d1" and s: "r < length (shifted d1)"
      and x: "rx_fifo d1 = drop r (answers slave (loopback d1) (shifted d1))"
      using ok1 ne by (auto simp: spi_ok_def)
    have "answers slave (loopback d1) (shifted d1) ! r = answers slave (loopback d1) all ! r"
      unfolding all answers_append using s by (simp add: nth_append)
    then have "rx_fifo d1 = answers slave (loopback d) all ! r # drop (Suc r) (answers slave (loopback d1) (shifted d1))"
      using x s lb Cons_nth_drop_Suc [of r "answers slave (loopback d1) (shifted d1)"] by simp
    then have "hd (rx_fifo d1) = answers slave (loopback d) all ! r"
      "tl (rx_fifo d1) = drop (Suc r) (answers slave (loopback d1) (shifted d1))" by simp_all
    then show ?thesis using ok1 s by (simp add: spi_ok_def)
  qed
  have poll: "rx_byte_poll slave steps d1 = (if rx_fifo (advance slave steps d1) = []
      then rx_byte_poll slave steps (advance slave steps d1)
      else Some (hd (rx_fifo (advance slave steps d1)),
        (advance slave steps d1)\<lparr>rx_fifo := tl (rx_fifo (advance slave steps d1))\<rparr>))" for d1
    by (subst rx_byte_poll.simps) (simp add: Let_def)
  obtain m where m: "accesses d \<le> m" "0 < steps m" using p by (auto simp: progress_def)
  have "\<exists>d'. rx_byte_poll slave steps d1 = Some (answers slave (loopback d) all ! r, d') \<and>
      spi_ok slave all (Suc r) d' \<and> loopback d' = loopback d"
    if "accesses d1 + k = m" "spi_ok slave all r d1" "loopback d1 = loopback d" for k d1
    using that
  proof (induction k arbitrary: d1)
    case 0
    let ?d = "advance slave steps d1"
    note ok1 = advance_ok [OF 0(2), of steps]
    have "rx_fifo ?d \<noteq> []"
    proof
      assume "rx_fifo ?d = []"
      then show False using ok_lengths [OF ok1] ok_lengths [OF 0(2)] 0(1) m(2) r by simp
    qed
    with take [OF ok1 this] show ?case unfolding poll [of d1] using 0(3) by simp
  next
    case (Suc k)
    let ?d = "advance slave steps d1"
    note ok1 = advance_ok [OF Suc.prems(2), of steps]
    show ?case
    proof (cases "rx_fifo ?d = []")
      case True
      have "accesses ?d + k = m" using Suc.prems(1) by simp
      from Suc.IH [OF this ok1] True Suc.prems(3) show ?thesis unfolding poll [of d1] by simp
    next
      case False
      with take [OF ok1 False] show ?thesis unfolding poll [of d1] using Suc.prems(3) by simp
    qed
  qed
  from this [of d "m - accesses d"] m(1) ok show ?thesis by simp
qed

section \<open>Transfers\<close>

lemma spi_word_ok:
  assumes ok: "spi_ok slave as (length as) d" and p: "progress steps"
  shows "\<exists>d'. transfer_word_sync slave steps b d = Some (answer slave (loopback d) (as @ [b]), d') \<and>
    spi_ok slave (as @ [b]) (length (as @ [b])) d' \<and> loopback d' = loopback d"
proof -
  have "length as < length as + FIFO_DEPTH" by (simp add: FIFO_DEPTH_def)
  then obtain d1 where d1: "tx_byte slave steps b d = Some d1" "spi_ok slave (as @ [b]) (length as) d1" "loopback d1 = loopback d"
    using tx_byte_ok [OF ok] by blast
  obtain d2 where "rx_byte_poll slave steps d1 = Some (answers slave (loopback d1) (as @ [b]) ! length as, d2)"
    "spi_ok slave (as @ [b]) (Suc (length as)) d2" "loopback d2 = loopback d1"
    using rx_byte_ok [OF d1(2) _ p] by auto
  then show ?thesis using d1 by (simp add: transfer_word_sync_def answers_snoc nth_append)
qed

lemma spi_exchange_ok:
  assumes "spi_ok slave as (length as) d" and p: "progress steps"
  shows "\<exists>d'. spi_exchange slave steps ws d = Some (dialogue slave (loopback d) as ws, d') \<and>
    spi_ok slave (as @ ws) (length (as @ ws)) d' \<and> loopback d' = loopback d"
  using assms(1)
proof (induction ws arbitrary: as d)
  case (Cons w ws)
  obtain d1 where d1: "transfer_word_sync slave steps w d = Some (answer slave (loopback d) (as @ [w]), d1)"
    "spi_ok slave (as @ [w]) (length (as @ [w])) d1" "loopback d1 = loopback d" using spi_word_ok [OF Cons.prems p] by blast
  from Cons.IH [OF d1(2)] d1 show ?case by auto
qed simp

lemma tx_all_ok:
  assumes "spi_ok slave as r d" and "length as + length ws \<le> r + FIFO_DEPTH" and "armed d"
  shows "\<exists>d'. tx_all slave steps ws d = Some d' \<and> spi_ok slave (as @ ws) r d' \<and> loopback d' = loopback d \<and> armed d'"
  using assms
proof (induction ws arbitrary: as d)
  case (Cons w ws)
  have "length as < r + FIFO_DEPTH" using Cons.prems(2) by simp
  then obtain d1 where d1: "tx_byte slave steps w d = Some d1" "spi_ok slave (as @ [w]) r d1" "loopback d1 = loopback d" "armed d1"
    using tx_byte_ok [OF Cons.prems(1), of steps w] Cons.prems(3) by (auto simp: armed_def)
  have "length (as @ [w]) + length ws \<le> r + FIFO_DEPTH" using Cons.prems(2) by simp
  from Cons.IH [OF d1(2) this d1(4)] d1 show ?case by auto
qed simp

lemma rx_all_ok:
  assumes "spi_ok slave all r d" and "r + n \<le> length all" and p: "progress steps"
  shows "\<exists>d'. rx_all slave steps n d = Some (take n (drop r (answers slave (loopback d) all)), d') \<and>
    spi_ok slave all (r + n) d' \<and> loopback d' = loopback d"
  using assms(1,2)
proof (induction n arbitrary: r d)
  case (Suc n)
  have r: "r < length all" using Suc.prems(2) by simp
  obtain d1 where d1: "rx_byte_poll slave steps d = Some (answers slave (loopback d) all ! r, d1)"
    "spi_ok slave all (Suc r) d1" "loopback d1 = loopback d" using rx_byte_ok [OF Suc.prems(1) r p] by blast
  have "drop r (answers slave (loopback d) all) = answers slave (loopback d) all ! r # drop (Suc r) (answers slave (loopback d) all)"
    using r by (simp add: Cons_nth_drop_Suc)
  then show ?case using Suc.IH [OF d1(2)] Suc.prems(2) d1 by auto
qed simp

lemma spi_wait_ok:
  assumes "spi_ok slave all r d" and "armed d" and four: "r + 4 \<le> length all" and p: "progress steps"
  shows "\<exists>d'. spi_wait slave steps d = Some d' \<and> spi_ok slave all r d' \<and> loopback d' = loopback d"
  using assms(1,2)
proof (induction "length (tx_fifo d)" arbitrary: d rule: less_induct)
  case less
  obtain m where m: "accesses d \<le> m" "0 < steps m" using p by (auto simp: progress_def)
  have "\<exists>d'. spi_wait slave steps d1 = Some d' \<and> spi_ok slave all r d' \<and> loopback d' = loopback d"
    if "accesses d1 + k = m" "spi_ok slave all r d1" "armed d1" "loopback d1 = loopback d" "length (tx_fifo d1) \<le> length (tx_fifo d)"
    for k d1
    using that
  proof (induction k arbitrary: d1)
    case (0 d1)
    let ?d = "advance slave steps d1"
    show ?case
    proof (cases "latch d1")
      case True
      then show ?thesis using 0 by (subst spi_wait.simps) (simp add: spi_ok_def)
    next
      case False
      have "armed ?d" by (rule advance_armed) (use 0(3) False in \<open>auto simp: armed_def\<close>)
      moreover have "length (tx_fifo ?d) < length (tx_fifo d)"
        using ok_lengths [OF 0(2)] 0(1,3,5) False four m(2) by (auto simp: armed_def)
      ultimately show ?thesis using less.hyps [of ?d] advance_ok [OF 0(2), of steps] 0(4) False
        by (subst spi_wait.simps) simp
    qed
  next
    case (Suc k d1)
    let ?d = "advance slave steps d1"
    show ?case
    proof (cases "latch d1")
      case True
      then show ?thesis using Suc.prems by (subst spi_wait.simps) (simp add: spi_ok_def)
    next
      case False
      have "armed ?d" by (rule advance_armed) (use Suc.prems(3) False in \<open>auto simp: armed_def\<close>)
      then show ?thesis using Suc.IH [of ?d] advance_ok [OF Suc.prems(2), of steps] Suc.prems False
        by (subst spi_wait.simps) simp
    qed
  qed
  from this [of d "m - accesses d"] less.prems m(1) show ?case by simp
qed

text \<open>With fewer than four answers outstanding the interrupt never comes and the wait never ends.\<close>

lemma spi_wait_short:
  assumes "spi_wait slave steps d = Some d'"
  shows "\<not> (spi_ok slave all r d \<and> length all < r + 4 \<and> rxim d \<and> \<not> latch d)"
proof (rule spi_wait.raw_induct [of "\<lambda>slave steps d y. \<not> (spi_ok slave all r d \<and> length all < r + 4 \<and> rxim d \<and> \<not> latch d)",
    OF _ assms], rule notI)
  fix f slave steps d x
  assume hyp: "\<And>slave steps d y. f slave steps d = Some y \<Longrightarrow>
      \<not> (spi_ok slave all r d \<and> length all < r + 4 \<and> rxim d \<and> \<not> latch d)"
    and run: "(if latch d then Some (d\<lparr>latch := False\<rparr>) else f slave steps (advance slave steps d)) = Some x"
    and inv: "spi_ok slave all r d \<and> length all < r + 4 \<and> rxim d \<and> \<not> latch d"
  let ?d = "advance slave steps d"
  have ok: "spi_ok slave all r ?d" using inv advance_ok by blast
  have "length (rx_fifo ?d) < 4" using ok_lengths [OF ok] inv by linarith
  then have "rxim ?d \<and> \<not> latch ?d"
    using inv by (auto simp: advance_def Let_def spi_isr_def shift_many split: if_splits)
  moreover have "f slave steps ?d = Some x" using run inv by simp
  ultimately show False using hyp ok inv by blast
qed

lemma chunk_ok:
  assumes ok: "spi_ok slave as (length as) d" and n: "4 \<le> length ws" "length ws \<le> FIFO_DEPTH" and p: "progress steps"
  shows "\<exists>d'. transfer_chunk_async slave steps ws d = Some (dialogue slave (loopback d) as ws, d') \<and>
    spi_ok slave (as @ ws) (length (as @ ws)) d' \<and> loopback d' = loopback d"
proof -
  let ?d = "d\<lparr>latch := False, rxim := True\<rparr>"
  have ok0: "spi_ok slave as (length as) ?d" "armed ?d" using ok by (auto simp: spi_ok_def armed_def)
  obtain d1 where d1: "tx_all slave steps ws ?d = Some d1" "spi_ok slave (as @ ws) (length as) d1" "loopback d1 = loopback d" "armed d1"
    using tx_all_ok [OF ok0(1) _ ok0(2), of ws steps] n(2) by auto
  obtain d2 where d2: "spi_wait slave steps d1 = Some d2" "spi_ok slave (as @ ws) (length as) d2" "loopback d2 = loopback d1"
    using spi_wait_ok [OF d1(2,4) _ p] n(1) by auto
  obtain d3 where d3: "rx_all slave steps (length ws) d2 = Some (take (length ws) (drop (length as) (answers slave (loopback d2) (as @ ws))), d3)"
    "spi_ok slave (as @ ws) (length as + length ws) d3" "loopback d3 = loopback d2"
    using rx_all_ok [OF d2(2) _ p, of "length ws"] by auto
  have "\<not> FIFO_DEPTH < length ws" using n(2) by simp
  then show ?thesis using d1 d2 d3 by (simp add: transfer_chunk_async_def answers_append)
qed

lemma chunk_short:
  assumes ok: "spi_ok slave as (length as) d" and n: "length ws < 4"
  shows "transfer_chunk_async slave steps ws d = None"
proof -
  let ?d = "d\<lparr>latch := False, rxim := True\<rparr>"
  have ok0: "spi_ok slave as (length as) ?d" "armed ?d" using ok by (auto simp: spi_ok_def armed_def)
  obtain d1 where d1: "tx_all slave steps ws ?d = Some d1" "spi_ok slave (as @ ws) (length as) d1" "armed d1"
    using tx_all_ok [OF ok0(1) _ ok0(2), of ws steps] n by (auto simp: FIFO_DEPTH_def)
  have inv: "rxim d1 \<and> \<not> latch d1"
    if "tx_all slave steps bs q = Some d1" "spi_ok slave cs (length as) q" "length cs + length bs < length as + 4" "rxim q \<and> \<not> latch q" for bs q cs
    using that
  proof (induction bs arbitrary: q cs)
    case (Cons b bs)
    then obtain q1 where q1: "tx_byte slave steps b q = Some q1" "tx_all slave steps bs q1 = Some d1" by (auto split: bind_splits)
    have r: "length cs < length as + FIFO_DEPTH" using Cons.prems(3) by (simp add: FIFO_DEPTH_def)
    have ok1: "spi_ok slave (cs @ [b]) (length as) q1" "armed q1"
      using tx_byte_ok [OF Cons.prems(2) r, of steps b] q1(1) Cons.prems(4) by auto
    let ?q = "advance slave steps q"
    have ok2: "spi_ok slave cs (length as) ?q" by (rule advance_ok [OF Cons.prems(2)])
    have "length (rx_fifo ?q) < 4" using ok_lengths [OF ok2] Cons.prems(3) by simp
    then have nr: "rxim ?q \<and> \<not> latch ?q"
      using Cons.prems(4) by (auto simp: advance_def Let_def spi_isr_def shift_many split: if_splits)
    have "length (tx_fifo ?q) < FIFO_DEPTH" using ok_lengths [OF ok2] r by linarith
    then have "tx_byte slave steps b q = Some (?q\<lparr>tx_fifo := tx_fifo ?q @ [b]\<rparr>)" by (subst tx_byte.simps) (simp add: Let_def)
    then have "rxim q1 \<and> \<not> latch q1" using nr q1(1) by auto
    then show ?case using Cons.IH [OF q1(2) ok1(1)] Cons.prems(3) by simp
  qed simp
  have "rxim d1 \<and> \<not> latch d1" using inv [OF d1(1) ok0(1)] n by simp
  then have "spi_wait slave steps d1 = None"
    using spi_wait_short [of slave steps d1 _ "as @ ws" "length as"] d1(2) n by (cases "spi_wait slave steps d1") auto
  then show ?thesis using d1(1) by (simp add: transfer_chunk_async_def)
qed

text \<open>The lengths whose every chunk raises the interrupt.\<close>

definition chunks_long :: "nat \<Rightarrow> bool" where
  "chunks_long n \<longleftrightarrow> n mod FIFO_DEPTH = 0 \<or> 4 \<le> n mod FIFO_DEPTH"

lemma async_exchange_ok:
  assumes "spi_ok slave as (length as) d" and "chunks_long (length ws)" and p: "progress steps"
  shows "\<exists>d'. async_exchange slave steps ws d = Some (dialogue slave (loopback d) as ws, d') \<and>
    spi_ok slave (as @ ws) (length (as @ ws)) d' \<and> loopback d' = loopback d"
  using assms(1,2)
proof (induction "length ws" arbitrary: ws as d rule: less_induct)
  case less
  show ?case
  proof (cases "ws = []")
    case True
    then show ?thesis using less.prems by (subst async_exchange.simps) simp
  next
    case False
    let ?c = "take FIFO_DEPTH ws" and ?r = "drop FIFO_DEPTH ws"
    have "4 \<le> length ws"
    proof (cases "length ws < 8")
      case True
      then show ?thesis using less.prems(2) False by (auto simp: chunks_long_def FIFO_DEPTH_def)
    qed simp
    then have n: "4 \<le> length ?c" "length ?c \<le> FIFO_DEPTH" "chunks_long (length ?r)" "length ?r < length ws"
      using less.prems(2) False
      by (auto simp: chunks_long_def FIFO_DEPTH_def min_def le_mod_geq not_le intro: ccontr)
    obtain d1 where d1: "transfer_chunk_async slave steps ?c d = Some (dialogue slave (loopback d) as ?c, d1)"
      "spi_ok slave (as @ ?c) (length (as @ ?c)) d1" "loopback d1 = loopback d" using chunk_ok [OF less.prems(1) n(1,2) p] by blast
    have e: "dialogue slave lb as ws = dialogue slave lb as ?c @ dialogue slave lb (as @ ?c) ?r" for lb
      using dialogue_append [of slave lb as ?c ?r] by simp
    from less.hyps [OF n(4) d1(2) n(3)] show ?thesis using d1 False e by (subst async_exchange.simps) auto
  qed
qed

text \<open>Any other length ends in a chunk that never completes.\<close>

lemma async_exchange_short:
  assumes "spi_ok slave as (length as) d" and "\<not> chunks_long (length ws)" and p: "progress steps"
  shows "async_exchange slave steps ws d = None"
  using assms(1,2)
proof (induction "length ws" arbitrary: ws as d rule: less_induct)
  case less
  let ?c = "take FIFO_DEPTH ws" and ?r = "drop FIFO_DEPTH ws"
  have ne: "ws \<noteq> []" using less.prems(2) by (auto simp: chunks_long_def)
  show ?case
  proof (cases "length ws < 4")
    case True
    then have "transfer_chunk_async slave steps ?c d = None"
      using chunk_short [OF less.prems(1), of ws steps] by (simp add: FIFO_DEPTH_def)
    then show ?thesis using ne by (subst async_exchange.simps) simp
  next
    case False
    have "8 \<le> length ws"
    proof (rule ccontr)
      assume "\<not> 8 \<le> length ws"
      then show False using False less.prems(2) by (simp add: chunks_long_def FIFO_DEPTH_def)
    qed
    then have n: "4 \<le> length ?c" "length ?c \<le> FIFO_DEPTH" "\<not> chunks_long (length ?r)" "length ?r < length ws"
      using less.prems(2) by (simp_all add: chunks_long_def FIFO_DEPTH_def le_mod_geq)
    obtain d1 where d1: "transfer_chunk_async slave steps ?c d = Some (dialogue slave (loopback d) as ?c, d1)"
      "spi_ok slave (as @ ?c) (length (as @ ?c)) d1" using chunk_ok [OF less.prems(1) n(1,2) p] by blast
    from less.hyps [OF n(4) d1(2) n(3)] show ?thesis using d1(1) ne by (subst async_exchange.simps) simp
  qed
qed

text \<open>An idle controller, and what a transfer leaves.\<close>

lemma spi_idle: "spi_ok slave as (length as) d \<longleftrightarrow> shifted d = as \<and> tx_fifo d = [] \<and> rx_fifo d = []"
  by (auto simp: spi_ok_def)

lemma dialogue_loopback: "dialogue slave True as ws = ws"
  by (induction ws arbitrary: as) (simp_all add: answer_def)

lemma length_padded [simp]: "length (padded n ws) = n" if "length ws \<le> n"
  using that by (simp add: padded_def)

lemma bind_take: "do { (xs, d1) \<leftarrow> m; Some (take n xs, d1) } = map_option (apfst (take n)) m" for m :: "(u8 list \<times> pl022) option"
  by (cases m) auto

end
