(* ===== verification/I2c.thy ===== *)
theory I2c
  imports Rivet_Base "HOL-Library.Monad_Syntax" "HOL-Library.Sublist"
begin

text \<open>
  The I2C driver of the STM32F401 board (\<open>rivet-bsp-stm32f401re/src/i2c.rs\<close>), polling and
  interrupt-driven. The controller's answers are arguments: \<open>sr n\<close> is the value of the status
  register at its \<open>n\<close>-th reading, \<open>dr n\<close> the \<open>n\<close>-th byte received. What the driver asks of the bus
  is recorded in order.
\<close>

section \<open>State\<close>

datatype bus_act = Bus_start | Bus_stop | Bus_nack | Bus_send u8 | Clear_errors

record i2c =
  i2_bus :: "bus_act list"
  i2_reads :: nat
  i2_received :: nat
  i2_irq_on :: bool
  i2_freq :: u32
  i2_ccr :: u32
  i2_trise :: u32
  i2_enabled :: bool

datatype i2c_op = I2c_write "u8 list" | I2c_read nat

definition SR1_SB :: u32 where "SR1_SB = push_bit 0 1"
definition SR1_ADDR :: u32 where "SR1_ADDR = push_bit 1 1"
definition SR1_BTF :: u32 where "SR1_BTF = push_bit 2 1"
definition SR1_RXNE :: u32 where "SR1_RXNE = push_bit 6 1"
definition SR1_TXE :: u32 where "SR1_TXE = push_bit 7 1"
definition SR1_AF :: u32 where "SR1_AF = push_bit 10 1"

definition SR1_ERROR_MASK :: u32 where
  "SR1_ERROR_MASK = push_bit 8 1 OR push_bit 9 1 OR SR1_AF OR push_bit 11 1 OR push_bit 14 1"

section \<open>Operations\<close>

definition i2c_init :: "i2c \<Rightarrow> i2c" where
  "i2c_init s = s\<lparr>i2_freq := 16, i2_ccr := 16 * 1000000 div (2 * 100000), i2_trise := 16 + 1, i2_enabled := True\<rparr>"

abbreviation act :: "bus_act \<Rightarrow> i2c \<Rightarrow> i2c" where
  "act a s \<equiv> s\<lparr>i2_bus := i2_bus s @ [a]\<rparr>"

text \<open>One reading of the status register, and a loop that reads it until a flag of interest is set.\<close>

definition read_sr1 :: "(nat \<Rightarrow> u32) \<Rightarrow> i2c \<Rightarrow> u32 \<times> i2c" where
  "read_sr1 sr s = (sr (i2_reads s), s\<lparr>i2_reads := i2_reads s + 1\<rparr>)"

partial_function (option) wait_sr1 :: "(nat \<Rightarrow> u32) \<Rightarrow> u32 \<Rightarrow> i2c \<Rightarrow> (u32 \<times> i2c) option" where
  [code]: "wait_sr1 sr flags s =
    (let (v, s1) = read_sr1 sr s in if v AND flags \<noteq> 0 then Some (v, s1) else wait_sr1 sr flags s1)"

definition clear_addr :: "(nat \<Rightarrow> u32) \<Rightarrow> i2c \<Rightarrow> i2c" where
  "clear_addr sr s = snd (read_sr1 sr s)"

definition i2c_start :: "(nat \<Rightarrow> u32) \<Rightarrow> i2c \<Rightarrow> i2c option" where
  "i2c_start sr s = map_option snd (wait_sr1 sr SR1_SB (act Bus_start s))"

definition send_stop :: "i2c \<Rightarrow> i2c" where
  "send_stop s = act Bus_stop s"

definition address_byte :: "u8 \<Rightarrow> bool \<Rightarrow> u8" where
  "address_byte a rd = push_bit 1 a OR (if rd then 1 else 0)"

text \<open>The first component tells whether the operation succeeded.\<close>

definition send_address :: "(nat \<Rightarrow> u32) \<Rightarrow> u8 \<Rightarrow> bool \<Rightarrow> i2c \<Rightarrow> (bool \<times> i2c) option" where
  "send_address sr a rd s = do {
     (v, s1) \<leftarrow> wait_sr1 sr (SR1_AF OR SR1_ADDR) (act (Bus_send (address_byte a rd)) s);
     (if v AND SR1_AF \<noteq> 0 then Some (False, send_stop (act Clear_errors s1)) else Some (True, clear_addr sr s1))
   }"

fun write_bytes_sync :: "(nat \<Rightarrow> u32) \<Rightarrow> u8 list \<Rightarrow> bool \<Rightarrow> i2c \<Rightarrow> (bool \<times> i2c) option" where
  "write_bytes_sync sr [] is_last_op s = Some (True, if is_last_op then send_stop s else s)"
| "write_bytes_sync sr (b # bs) is_last_op s = do {
     (v, s1) \<leftarrow> wait_sr1 sr (SR1_ERROR_MASK OR (if bs = [] \<and> is_last_op then SR1_BTF else SR1_TXE)) (act (Bus_send b) s);
     (if v AND SR1_ERROR_MASK \<noteq> 0 then Some (False, send_stop (act Clear_errors s1)) else write_bytes_sync sr bs is_last_op s1)
   }"

text \<open>Before the last byte the driver stops acknowledging and asks for the end.\<close>

fun read_bytes_sync :: "(nat \<Rightarrow> u32) \<Rightarrow> (nat \<Rightarrow> u8) \<Rightarrow> nat \<Rightarrow> i2c \<Rightarrow> (u8 list option \<times> i2c) option" where
  "read_bytes_sync sr dr 0 s = Some (Some [], s)"
| "read_bytes_sync sr dr (Suc n) s = do {
     (v, s1) \<leftarrow> wait_sr1 sr (SR1_ERROR_MASK OR SR1_RXNE) (if n = 0 then send_stop (act Bus_nack s) else s);
     (if v AND SR1_ERROR_MASK \<noteq> 0 then Some (None, act Clear_errors s1)
      else do {
        let x = dr (i2_received s1);
        (r, s2) \<leftarrow> read_bytes_sync sr dr n (s1\<lparr>i2_received := i2_received s1 + 1\<rparr>);
        Some (map_option ((#) x) r, s2)
      })
   }"

text \<open>
  The interrupt-driven phases: any event or error fires while the interrupts are on, its handler
  turns them off and wakes the task.
\<close>

definition IRQ_FLAGS :: u32 where
  "IRQ_FLAGS = SR1_SB OR SR1_ADDR OR SR1_BTF OR SR1_ERROR_MASK"

definition i2c_isr :: "i2c \<Rightarrow> i2c" where
  "i2c_isr s = s\<lparr>i2_irq_on := False\<rparr>"

definition await_irq :: "(nat \<Rightarrow> u32) \<Rightarrow> i2c \<Rightarrow> i2c option" where
  "await_irq sr s = map_option (\<lambda>(v, s1). i2c_isr s1) (wait_sr1 sr IRQ_FLAGS s)"

definition start_async :: "(nat \<Rightarrow> u32) \<Rightarrow> i2c \<Rightarrow> i2c option" where
  "start_async sr s = await_irq sr (act Bus_start (s\<lparr>i2_irq_on := True\<rparr>))"

definition send_address_async :: "(nat \<Rightarrow> u32) \<Rightarrow> u8 \<Rightarrow> bool \<Rightarrow> i2c \<Rightarrow> (bool \<times> i2c) option" where
  "send_address_async sr a rd s = do {
     s1 \<leftarrow> await_irq sr (act (Bus_send (address_byte a rd)) (s\<lparr>i2_irq_on := True\<rparr>));
     let (v, s2) = read_sr1 sr s1;
     (if v AND SR1_AF \<noteq> 0 then Some (False, send_stop (act Clear_errors s2)) else Some (True, clear_addr sr s2))
   }"

text \<open>
  A transaction, polling or not (\<open>asy\<close>); \<open>None\<close> as the result is \<open>I2cError\<close>, otherwise the bytes of
  each read operation.
\<close>

definition i2c_operation :: "bool \<Rightarrow> (nat \<Rightarrow> u32) \<Rightarrow> (nat \<Rightarrow> u8) \<Rightarrow> u8 \<Rightarrow> i2c_op \<Rightarrow> bool \<Rightarrow> i2c
    \<Rightarrow> (u8 list option \<times> i2c) option" where
  "i2c_operation asy sr dr a op is_last_op s = do {
     s1 \<leftarrow> (if asy then start_async sr s else i2c_start sr s);
     (case op of
        I2c_write bs \<Rightarrow> do {
          (ok, s2) \<leftarrow> (if asy then send_address_async sr a False s1 else send_address sr a False s1);
          (if \<not> ok then Some (None, s2)
           else do { (ok1, s3) \<leftarrow> write_bytes_sync sr bs is_last_op s2; Some (if ok1 then Some [] else None, s3) })
        }
      | I2c_read n \<Rightarrow> do {
          (ok, s2) \<leftarrow> (if asy then send_address_async sr a True s1 else send_address sr a True s1);
          (if \<not> ok then Some (None, s2) else read_bytes_sync sr dr n s2)
        })
   }"

fun i2c_transaction :: "bool \<Rightarrow> (nat \<Rightarrow> u32) \<Rightarrow> (nat \<Rightarrow> u8) \<Rightarrow> u8 \<Rightarrow> i2c_op list \<Rightarrow> i2c
    \<Rightarrow> (u8 list list option \<times> i2c) option" where
  "i2c_transaction asy sr dr a [] s = Some (Some [], s)"
| "i2c_transaction asy sr dr a (op # ops) s = do {
     (r, s1) \<leftarrow> i2c_operation asy sr dr a op (ops = []) s;
     (case r of
        None \<Rightarrow> Some (None, s1)
      | Some xs \<Rightarrow> do {
          (rs, s2) \<leftarrow> i2c_transaction asy sr dr a ops s1;
          Some (map_option ((#) xs) rs, s2)
        })
   }"

section \<open>What the bus carries\<close>

text \<open>The frame of an operation that succeeds; the answer of the bus does not matter.\<close>

definition op_frame :: "u8 \<Rightarrow> i2c_op \<Rightarrow> bool \<Rightarrow> bus_act list" where
  "op_frame a op is_last_op = (case op of
     I2c_write bs \<Rightarrow> Bus_start # Bus_send (address_byte a False) # map Bus_send bs @ (if is_last_op then [Bus_stop] else [])
   | I2c_read n \<Rightarrow> Bus_start # Bus_send (address_byte a True) # (if n = 0 then [] else [Bus_nack, Bus_stop]))"

fun frames :: "u8 \<Rightarrow> i2c_op list \<Rightarrow> bus_act list" where
  "frames a [] = []"
| "frames a (op # ops) = op_frame a op (ops = []) @ frames a ops"

text \<open>
  Every flag the driver waits for is set again and again.
\<close>

definition responsive :: "(nat \<Rightarrow> u32) \<Rightarrow> bool" where
  "responsive sr \<longleftrightarrow> (\<forall>flag \<in> {SR1_SB, SR1_ADDR, SR1_BTF, SR1_RXNE, SR1_TXE}. \<forall>n. \<exists>m \<ge> n. sr m AND flag \<noteq> 0)"

lemma wait_sr1_ok:
  assumes "\<forall>n. \<exists>m \<ge> n. sr m AND flags \<noteq> 0"
  shows "\<exists>v k. wait_sr1 sr flags s = Some (v, s\<lparr>i2_reads := k\<rparr>) \<and> v AND flags \<noteq> 0"
proof -
  obtain m where m: "i2_reads s \<le> m" "sr m AND flags \<noteq> 0" using assms by blast
  have "\<exists>v k. wait_sr1 sr flags q = Some (v, q\<lparr>i2_reads := k\<rparr>) \<and> v AND flags \<noteq> 0" if "i2_reads q + d = m" for d q
    using that
  proof (induction d arbitrary: q)
    case 0
    then have "wait_sr1 sr flags q = Some (sr m, q\<lparr>i2_reads := m + 1\<rparr>)"
      using m(2) by (subst wait_sr1.simps) (simp add: read_sr1_def)
    then show ?case using m(2) by blast
  next
    case (Suc d)
    let ?q = "q\<lparr>i2_reads := i2_reads q + 1\<rparr>"
    have "i2_reads ?q + d = m" using Suc.prems by simp
    then obtain v k where later: "wait_sr1 sr flags ?q = Some (v, ?q\<lparr>i2_reads := k\<rparr>)" "v AND flags \<noteq> 0"
      using Suc.IH by blast
    have step: "wait_sr1 sr flags q = (if sr (i2_reads q) AND flags \<noteq> 0 then Some (sr (i2_reads q), ?q) else wait_sr1 sr flags ?q)"
      by (subst wait_sr1.simps) (simp add: read_sr1_def)
    show ?case
    proof (cases "sr (i2_reads q) AND flags = 0")
      case True
      then have "wait_sr1 sr flags q = Some (v, q\<lparr>i2_reads := k\<rparr>)" using step later(1) by simp
      then show ?thesis using later(2) by blast
    next
      case False
      then have "wait_sr1 sr flags q = Some (sr (i2_reads q), q\<lparr>i2_reads := i2_reads q + 1\<rparr>)" using step by simp
      then show ?thesis using False by blast
    qed
  qed
  from this [of s "m - i2_reads s"] m(1) show ?thesis by simp
qed

lemma and_or_mono:
  "v AND y \<noteq> 0 \<Longrightarrow> v AND (x OR y) \<noteq> 0" "v AND x \<noteq> 0 \<Longrightarrow> v AND (x OR y) \<noteq> 0" for v x y :: u32
  by (auto simp: bit_eq_iff bit_and_iff bit_or_iff)

lemma wait_flag:
  assumes r: "responsive sr" and f: "flag \<in> {SR1_SB, SR1_ADDR, SR1_BTF, SR1_RXNE, SR1_TXE}"
  shows "\<exists>v k. wait_sr1 sr (x OR flag) s = Some (v, s\<lparr>i2_reads := k\<rparr>)"
proof -
  have "\<forall>n. \<exists>m \<ge> n. sr m AND (x OR flag) \<noteq> 0"
  proof
    fix n
    obtain m where "n \<le> m" "sr m AND flag \<noteq> 0" using r f unfolding responsive_def by blast
    then show "\<exists>m \<ge> n. sr m AND (x OR flag) \<noteq> 0" using and_or_mono(1) by blast
  qed
  from wait_sr1_ok [OF this, of s] show ?thesis by blast
qed

lemma irq_flags: "IRQ_FLAGS = (SR1_ADDR OR SR1_BTF OR SR1_ERROR_MASK) OR SR1_SB"
  by (simp add: IRQ_FLAGS_def or.commute or.left_commute or.assoc)

lemma await_irq_ok: "responsive sr \<Longrightarrow> \<exists>k. await_irq sr s = Some (s\<lparr>i2_reads := k, i2_irq_on := False\<rparr>)"
  using wait_flag [of sr SR1_SB "SR1_ADDR OR SR1_BTF OR SR1_ERROR_MASK" s]
  by (auto simp: irq_flags await_irq_def i2c_isr_def)

text \<open>Each phase, on a responsive controller, returns, and appends to what the bus has carried.\<close>

definition carries :: "bus_act list \<Rightarrow> i2c \<Rightarrow> i2c \<Rightarrow> bool" where
  "carries as s s' \<longleftrightarrow> i2_bus s' = i2_bus s @ as"

lemma carries_trans: "carries as s s1 \<Longrightarrow> carries bs s1 s2 \<Longrightarrow> carries (as @ bs) s s2"
  by (simp add: carries_def)

lemma start_ok:
  assumes "responsive sr"
  shows "\<exists>s'. (if asy then start_async sr s else i2c_start sr s) = Some s' \<and> carries [Bus_start] s s'"
proof (cases asy)
  case True
  then show ?thesis using await_irq_ok [OF assms, of "act Bus_start (s\<lparr>i2_irq_on := True\<rparr>)"]
    by (auto simp: start_async_def carries_def)
next
  case False
  have "\<exists>v k. wait_sr1 sr (0 OR SR1_SB) (act Bus_start s) = Some (v, (act Bus_start s)\<lparr>i2_reads := k\<rparr>)"
    by (rule wait_flag [OF assms]) simp
  then show ?thesis using False by (auto simp: i2c_start_def carries_def)
qed

lemma send_address_ok:
  assumes "responsive sr"
  shows "\<exists>ok s'. (if asy then send_address_async sr a rd s else send_address sr a rd s) = Some (ok, s') \<and>
    carries (Bus_send (address_byte a rd) # (if ok then [] else [Clear_errors, Bus_stop])) s s'"
proof (cases asy)
  case True
  then show ?thesis using await_irq_ok [OF assms, of "act (Bus_send (address_byte a rd)) (s\<lparr>i2_irq_on := True\<rparr>)"]
    by (auto simp: send_address_async_def read_sr1_def clear_addr_def send_stop_def carries_def Let_def)
next
  case False
  let ?s = "act (Bus_send (address_byte a rd)) s"
  have "\<exists>v k. wait_sr1 sr (SR1_AF OR SR1_ADDR) ?s = Some (v, ?s\<lparr>i2_reads := k\<rparr>)"
    by (rule wait_flag [OF assms]) simp
  then show ?thesis using False
    by (auto simp: send_address_def read_sr1_def clear_addr_def send_stop_def carries_def)
qed

lemma write_ok:
  assumes "responsive sr"
  shows "\<exists>ok s'. write_bytes_sync sr bs is_last_op s = Some (ok, s') \<and>
    (if ok then carries (map Bus_send bs @ (if is_last_op then [Bus_stop] else [])) s s'
     else \<exists>k \<le> length bs. 0 < k \<and> carries (map Bus_send (take k bs) @ [Clear_errors, Bus_stop]) s s')"
proof (induction bs arbitrary: s)
  case Nil
  then show ?case by (intro exI [of _ True]) (simp add: send_stop_def carries_def)
next
  case (Cons b bs)
  let ?flag = "if bs = [] \<and> is_last_op then SR1_BTF else SR1_TXE"
  let ?s = "act (Bus_send b) s"
  obtain v n where w: "wait_sr1 sr (SR1_ERROR_MASK OR ?flag) ?s = Some (v, ?s\<lparr>i2_reads := n\<rparr>)"
  proof -
    have "?flag \<in> {SR1_SB, SR1_ADDR, SR1_BTF, SR1_RXNE, SR1_TXE}" by simp
    from wait_flag [OF assms this, of SR1_ERROR_MASK ?s] show thesis using that by blast
  qed
  show ?case
  proof (cases "v AND SR1_ERROR_MASK = 0")
    case False
    let ?s' = "send_stop (act Clear_errors (?s\<lparr>i2_reads := n\<rparr>))"
    have step: "write_bytes_sync sr (b # bs) is_last_op s = Some (False, ?s')"
      using False by (simp only: write_bytes_sync.simps w) simp
    have "carries (map Bus_send (take 1 (b # bs)) @ [Clear_errors, Bus_stop]) s ?s'"
      by (simp add: carries_def send_stop_def)
    then show ?thesis unfolding step by (intro exI [of _ False] exI [of _ ?s'] conjI refl) (auto intro!: exI [of _ 1])
  next
    case True
    obtain ok s' where r: "write_bytes_sync sr bs is_last_op (?s\<lparr>i2_reads := n\<rparr>) = Some (ok, s')"
      "if ok then carries (map Bus_send bs @ (if is_last_op then [Bus_stop] else [])) (?s\<lparr>i2_reads := n\<rparr>) s'
       else \<exists>k \<le> length bs. 0 < k \<and> carries (map Bus_send (take k bs) @ [Clear_errors, Bus_stop]) (?s\<lparr>i2_reads := n\<rparr>) s'"
      using Cons.IH by blast
    have "\<exists>k \<le> length (b # bs). 0 < k \<and> carries (map Bus_send (take k (b # bs)) @ [Clear_errors, Bus_stop]) s s'" if "\<not> ok"
    proof -
      obtain k where "k \<le> length bs" "carries (map Bus_send (take k bs) @ [Clear_errors, Bus_stop]) (?s\<lparr>i2_reads := n\<rparr>) s'"
        using r(2) \<open>\<not> ok\<close> by auto
      then show ?thesis by (intro exI [of _ "Suc k"]) (simp add: carries_def)
    qed
    moreover have "write_bytes_sync sr (b # bs) is_last_op s = Some (ok, s')" using r(1) True by (simp add: w)
    moreover have "carries (map Bus_send (b # bs) @ (if is_last_op then [Bus_stop] else [])) s s'" if ok
      using r(2) that by (simp add: carries_def)
    ultimately show ?thesis by (intro exI [of _ ok] exI [of _ s']) simp
  qed
qed

text \<open>The \<open>n\<close> last bytes of a read: the last one is announced before it is awaited.\<close>

definition read_failure :: "nat \<Rightarrow> bus_act list \<Rightarrow> bool" where
  "read_failure n as \<longleftrightarrow> as = [Bus_nack, Bus_stop, Clear_errors] \<and> 0 < n \<or> as = [Clear_errors] \<and> 1 < n"

lemma read_ok:
  assumes "responsive sr"
  shows "\<exists>r s'. read_bytes_sync sr dr n s = Some (r, s') \<and>
    (case r of Some xs \<Rightarrow> length xs = n \<and> carries (if n = 0 then [] else [Bus_nack, Bus_stop]) s s'
     | None \<Rightarrow> \<exists>as. read_failure n as \<and> carries as s s')"
proof (induction n arbitrary: s)
  case (Suc n)
  let ?s = "if n = 0 then send_stop (act Bus_nack s) else s"
  obtain v k where w: "wait_sr1 sr (SR1_ERROR_MASK OR SR1_RXNE) ?s = Some (v, ?s\<lparr>i2_reads := k\<rparr>)"
    using wait_flag [OF assms, of SR1_RXNE SR1_ERROR_MASK ?s] by auto
  have now: "carries (if n = 0 then [Bus_nack, Bus_stop] else []) s (?s\<lparr>i2_reads := k\<rparr>)"
    by (simp add: carries_def send_stop_def)
  show ?case
  proof (cases "v AND SR1_ERROR_MASK = 0")
    case False
    have "carries ((if n = 0 then [Bus_nack, Bus_stop] else []) @ [Clear_errors]) s (act Clear_errors (?s\<lparr>i2_reads := k\<rparr>))"
      by (rule carries_trans [OF now]) (simp add: carries_def)
    moreover have "read_failure (Suc n) ((if n = 0 then [Bus_nack, Bus_stop] else []) @ [Clear_errors])"
      by (simp add: read_failure_def)
    moreover have step: "read_bytes_sync sr dr (Suc n) s = Some (None, act Clear_errors (?s\<lparr>i2_reads := k\<rparr>))"
      using False by (simp only: read_bytes_sync.simps w) simp
    ultimately show ?thesis unfolding step
      by (intro exI [of _ None] exI [of _ "act Clear_errors (?s\<lparr>i2_reads := k\<rparr>)"]) auto
  next
    case True
    let ?s1 = "?s\<lparr>i2_reads := k, i2_received := i2_received ?s + 1\<rparr>"
    have now: "carries (if n = 0 then [Bus_nack, Bus_stop] else []) s ?s1" using now by (simp add: carries_def)
    obtain r s' where r: "read_bytes_sync sr dr n ?s1 = Some (r, s')"
      "case r of Some xs \<Rightarrow> length xs = n \<and> carries (if n = 0 then [] else [Bus_nack, Bus_stop]) ?s1 s'
       | None \<Rightarrow> \<exists>as. read_failure n as \<and> carries as ?s1 s'" using Suc.IH by blast
    have step: "read_bytes_sync sr dr (Suc n) s = Some (map_option ((#) (dr (i2_received ?s))) r, s')"
      using r(1) True by (simp only: read_bytes_sync.simps w) simp
    show ?thesis
    proof (cases r)
      case None
      then obtain as where as: "read_failure n as" "carries as ?s1 s'" using r(2) by auto
      then have "read_failure (Suc n) as" "n \<noteq> 0" by (auto simp: read_failure_def)
      then show ?thesis using carries_trans [OF now as(2)] None unfolding step by auto
    next
      case (Some xs)
      then have "carries (if n = 0 then [] else [Bus_nack, Bus_stop]) ?s1 s'" "length xs = n" using r(2) by auto
      then show ?thesis using carries_trans [OF now] Some unfolding step by (fastforce split: if_splits)
    qed
  qed
qed (simp add: carries_def)


text \<open>
  An operation that fails: not acknowledged, or an error on a byte written, and then a stop; an
  error on a byte read leaves the bus as it is, and that is stopped only for the last byte.
\<close>

definition op_failed :: "u8 \<Rightarrow> i2c_op \<Rightarrow> bus_act list \<Rightarrow> bool" where
  "op_failed a op as \<longleftrightarrow> (case op of
     I2c_write bs \<Rightarrow> \<exists>k \<le> length bs.
       as = Bus_start # Bus_send (address_byte a False) # map Bus_send (take k bs) @ [Clear_errors, Bus_stop]
   | I2c_read n \<Rightarrow> as = [Bus_start, Bus_send (address_byte a True), Clear_errors, Bus_stop] \<or>
       (\<exists>bs. read_failure n bs \<and> as = Bus_start # Bus_send (address_byte a True) # bs))"

definition answer_length :: "i2c_op \<Rightarrow> nat" where
  "answer_length op = (case op of I2c_write bs \<Rightarrow> 0 | I2c_read n \<Rightarrow> n)"

lemma operation_write_ok:
  assumes r: "responsive sr"
  shows "\<exists>xs s'. i2c_operation asy sr dr a (I2c_write bs) is_last_op s = Some (xs, s') \<and>
    (case xs of Some ys \<Rightarrow> ys = [] \<and> carries (op_frame a (I2c_write bs) is_last_op) s s'
     | None \<Rightarrow> \<exists>as. op_failed a (I2c_write bs) as \<and> carries as s s')"
proof -
  let ?head = "[Bus_start, Bus_send (address_byte a False)]"
  obtain s1 where s1: "(if asy then start_async sr s else i2c_start sr s) = Some s1" "carries [Bus_start] s s1"
    using start_ok [OF r] by blast
  obtain ok s2 where s2: "(if asy then send_address_async sr a False s1 else send_address sr a False s1) = Some (ok, s2)"
    "carries (Bus_send (address_byte a False) # (if ok then [] else [Clear_errors, Bus_stop])) s1 s2"
    using send_address_ok [OF r, of asy a False s1] by blast
  note head = carries_trans [OF s1(2) s2(2)]
  obtain ok1 s3 where w: "write_bytes_sync sr bs is_last_op s2 = Some (ok1, s3)"
    "if ok1 then carries (map Bus_send bs @ (if is_last_op then [Bus_stop] else [])) s2 s3
     else \<exists>k \<le> length bs. 0 < k \<and> carries (map Bus_send (take k bs) @ [Clear_errors, Bus_stop]) s2 s3"
    using write_ok [OF r] by blast
  have run: "i2c_operation asy sr dr a (I2c_write bs) is_last_op s =
      Some (if ok then (if ok1 then Some [] else None, s3) else (None, s2))"
    using s1(1) s2(1) w(1) by (simp add: i2c_operation_def)
  consider "\<not> ok" | "ok" "ok1" | "ok" "\<not> ok1" by blast
  then show ?thesis
  proof cases
    case 1
    have "op_failed a (I2c_write bs) (?head @ map Bus_send (take 0 bs) @ [Clear_errors, Bus_stop])"
      unfolding op_failed_def by (simp, rule exI [of _ 0]) simp
    then show ?thesis using run head 1 by auto
  next
    case 2
    have "carries (?head @ map Bus_send bs @ (if is_last_op then [Bus_stop] else [])) s s3"
      by (rule carries_trans [of _ _ s2]) (use head w(2) 2 in simp_all)
    then show ?thesis using run 2 by (simp add: op_frame_def)
  next
    case 3
    then obtain k where k: "k \<le> length bs" "carries (map Bus_send (take k bs) @ [Clear_errors, Bus_stop]) s2 s3"
      using w(2) by auto
    have "carries (?head @ map Bus_send (take k bs) @ [Clear_errors, Bus_stop]) s s3"
      by (rule carries_trans [OF _ k(2)]) (use head 3 in simp)
    moreover have "op_failed a (I2c_write bs) (?head @ map Bus_send (take k bs) @ [Clear_errors, Bus_stop])"
      using k(1) by (auto simp: op_failed_def)
    ultimately show ?thesis using run 3 by auto
  qed
qed

lemma operation_read_ok:
  assumes r: "responsive sr"
  shows "\<exists>xs s'. i2c_operation asy sr dr a (I2c_read n) is_last_op s = Some (xs, s') \<and>
    (case xs of Some ys \<Rightarrow> length ys = n \<and> carries (op_frame a (I2c_read n) is_last_op) s s'
     | None \<Rightarrow> \<exists>as. op_failed a (I2c_read n) as \<and> carries as s s')"
proof -
  let ?head = "[Bus_start, Bus_send (address_byte a True)]"
  obtain s1 where s1: "(if asy then start_async sr s else i2c_start sr s) = Some s1" "carries [Bus_start] s s1"
    using start_ok [OF r] by blast
  obtain ok s2 where s2: "(if asy then send_address_async sr a True s1 else send_address sr a True s1) = Some (ok, s2)"
    "carries (Bus_send (address_byte a True) # (if ok then [] else [Clear_errors, Bus_stop])) s1 s2"
    using send_address_ok [OF r, of asy a True s1] by blast
  note head = carries_trans [OF s1(2) s2(2)]
  obtain xs s3 where w: "read_bytes_sync sr dr n s2 = Some (xs, s3)"
    "case xs of Some ys \<Rightarrow> length ys = n \<and> carries (if n = 0 then [] else [Bus_nack, Bus_stop]) s2 s3
     | None \<Rightarrow> \<exists>as. read_failure n as \<and> carries as s2 s3" using read_ok [OF r] by blast
  have run: "i2c_operation asy sr dr a (I2c_read n) is_last_op s = Some (if ok then (xs, s3) else (None, s2))"
    using s1(1) s2(1) w(1) by (simp add: i2c_operation_def)
  consider "\<not> ok" | ys where "ok" "xs = Some ys" | "ok" "xs = None" by (cases xs) blast+
  then show ?thesis
  proof cases
    case 1
    then show ?thesis using run head by (auto simp: op_failed_def)
  next
    case 2
    have "carries (?head @ (if n = 0 then [] else [Bus_nack, Bus_stop])) s s3"
      by (rule carries_trans [of _ _ s2]) (use head w(2) 2 in simp_all)
    then show ?thesis using run w(2) 2 by (simp add: op_frame_def split: if_splits)
  next
    case 3
    then obtain as where as: "read_failure n as" "carries as s2 s3" using w(2) by auto
    have "carries (?head @ as) s s3" by (rule carries_trans [OF _ as(2)]) (use head 3 in simp)
    then show ?thesis using run 3 as(1) by (auto simp: op_failed_def)
  qed
qed

lemma operation_ok:
  assumes "responsive sr"
  shows "\<exists>r s'. i2c_operation asy sr dr a op is_last_op s = Some (r, s') \<and>
    (case r of Some xs \<Rightarrow> length xs = answer_length op \<and> carries (op_frame a op is_last_op) s s'
     | None \<Rightarrow> \<exists>as. op_failed a op as \<and> carries as s s')"
proof (cases op)
  case (I2c_write bs)
  obtain xs s' where "i2c_operation asy sr dr a (I2c_write bs) is_last_op s = Some (xs, s')"
    "case xs of Some ys \<Rightarrow> ys = [] \<and> carries (op_frame a (I2c_write bs) is_last_op) s s'
     | None \<Rightarrow> \<exists>as. op_failed a (I2c_write bs) as \<and> carries as s s'"
    using operation_write_ok [OF assms] by blast
  then show ?thesis unfolding I2c_write answer_length_def by (cases xs) auto
next
  case (I2c_read n)
  obtain xs s' where "i2c_operation asy sr dr a (I2c_read n) is_last_op s = Some (xs, s')"
    "case xs of Some ys \<Rightarrow> length ys = n \<and> carries (op_frame a (I2c_read n) is_last_op) s s'
     | None \<Rightarrow> \<exists>as. op_failed a (I2c_read n) as \<and> carries as s s'"
    using operation_read_ok [OF assms] by blast
  then show ?thesis unfolding I2c_read answer_length_def by (cases xs) auto
qed

text \<open>A transaction that fails has carried the whole frames of the operations before.\<close>

definition transaction_failed :: "u8 \<Rightarrow> i2c_op list \<Rightarrow> bus_act list \<Rightarrow> bool" where
  "transaction_failed a ops as \<longleftrightarrow> (\<exists>n < length ops. \<exists>bs. op_failed a (ops ! n) bs \<and>
     as = concat (map (\<lambda>op. op_frame a op False) (take n ops)) @ bs)"

lemma transaction_ok:
  assumes "responsive sr"
  shows "\<exists>r s'. i2c_transaction asy sr dr a ops s = Some (r, s') \<and>
    (case r of Some xss \<Rightarrow> map length xss = map answer_length ops \<and> carries (frames a ops) s s'
     | None \<Rightarrow> \<exists>as. transaction_failed a ops as \<and> carries as s s')"
proof (induction ops arbitrary: s)
  case Nil
  then show ?case by (simp add: carries_def)
next
  case (Cons op ops)
  obtain r s1 where o: "i2c_operation asy sr dr a op (ops = []) s = Some (r, s1)"
    "case r of Some xs \<Rightarrow> length xs = answer_length op \<and> carries (op_frame a op (ops = [])) s s1
     | None \<Rightarrow> \<exists>as. op_failed a op as \<and> carries as s s1" using operation_ok [OF assms] by blast
  show ?case
  proof (cases r)
    case None
    then obtain as where as: "op_failed a op as" "carries as s s1" using o(2) by auto
    then have "transaction_failed a (op # ops) as" by (auto simp: transaction_failed_def intro!: exI [of _ 0])
    then show ?thesis using o None as(2) by auto
  next
    case (Some xs)
    then have xs: "length xs = answer_length op" "carries (op_frame a op (ops = [])) s s1" using o(2) by auto
    obtain rs s' where t: "i2c_transaction asy sr dr a ops s1 = Some (rs, s')"
      "case rs of Some xss \<Rightarrow> map length xss = map answer_length ops \<and> carries (frames a ops) s1 s'
       | None \<Rightarrow> \<exists>as. transaction_failed a ops as \<and> carries as s1 s'" using Cons.IH by blast
    have run: "i2c_transaction asy sr dr a (op # ops) s = Some (map_option ((#) xs) rs, s')"
      using o(1) Some t(1) by simp
    show ?thesis
    proof (cases rs)
      case None
      then obtain as where as: "transaction_failed a ops as" "carries as s1 s'" using t(2) by auto
      obtain n bs where n: "n < length ops" "op_failed a (ops ! n) bs"
        "as = concat (map (\<lambda>op. op_frame a op False) (take n ops)) @ bs" using as(1) by (auto simp: transaction_failed_def)
      have "transaction_failed a (op # ops) (op_frame a op False @ as)"
        unfolding transaction_failed_def using n by (intro exI [of _ "Suc n"]) auto
      moreover have "ops \<noteq> []" using n(1) by auto
      ultimately show ?thesis using carries_trans [OF xs(2) as(2)] None unfolding run by auto
    next
      case (Some xss)
      then show ?thesis using carries_trans [OF xs(2)] t(2) xs(1) unfolding run by auto
    qed
  qed
qed

end
