(* ===== verification/Stellaris_I2c.thy ===== *)
theory Stellaris_I2c
  imports I2c
begin

text \<open>
  The I2C driver of the Stellaris boards (\<open>rivet-bsp-support/src/stellaris_i2c.rs\<close>). Unlike the one
  of \<open>I2c\<close> it hands the controller whole byte commands. The controller and the device on the bus are
  an argument (\<open>dev\<close>): to a command, after all commands before, it answers how many readings of the
  status register it stays busy, whether it fails, whether it raises the interrupt at the end, and
  the byte received.
\<close>

section \<open>State\<close>

record command =
  cm_control :: u32
  cm_address :: u32
  cm_byte :: u8

record outcome =
  oc_busy :: nat
  oc_error :: bool
  oc_irq :: bool
  oc_byte :: u8

record stellaris =
  sl_msa :: u32
  sl_mdr :: u8
  sl_commands :: "command list"
  sl_left :: nat
  sl_outcome :: outcome
  sl_latch :: bool
  sl_enabled :: bool

definition CS_RUN :: u32 where "CS_RUN = push_bit 0 1"
definition CS_START :: u32 where "CS_START = push_bit 1 1"
definition CS_STOP :: u32 where "CS_STOP = push_bit 2 1"
definition CS_ACK :: u32 where "CS_ACK = push_bit 3 1"

section \<open>The controller\<close>

text \<open>The handler acknowledges the interrupt and fires the latch.\<close>

definition stellaris_isr :: "stellaris \<Rightarrow> stellaris" where
  "stellaris_isr s = s\<lparr>sl_latch := True\<rparr>"

definition finish :: "stellaris \<Rightarrow> stellaris" where
  "finish s = (if oc_irq (sl_outcome s) then stellaris_isr s else s)"

definition issue :: "(command list \<Rightarrow> outcome) \<Rightarrow> u32 \<Rightarrow> stellaris \<Rightarrow> stellaris" where
  "issue dev cmd s =
    (let c = \<lparr>cm_control = cmd, cm_address = sl_msa s, cm_byte = (if bit (sl_msa s) 0 then 0 else sl_mdr s)\<rparr>;
         oc = dev (sl_commands s @ [c]);
         s1 = s\<lparr>sl_commands := sl_commands s @ [c], sl_left := oc_busy oc, sl_outcome := oc\<rparr>
     in if oc_busy oc = 0 then finish s1 else s1)"

text \<open>Reading the status: busy, or else failed or not.\<close>

definition mcs :: "stellaris \<Rightarrow> (bool \<times> bool) \<times> stellaris" where
  "mcs s = (if sl_left s = 0 then ((False, oc_error (sl_outcome s)), s)
     else ((True, False),
       (let s1 = s\<lparr>sl_left := sl_left s - 1\<rparr> in if sl_left s1 = 0 then finish s1 else s1)))"

section \<open>The driver\<close>

definition stellaris_init :: "stellaris \<Rightarrow> stellaris" where
  "stellaris_init s = s\<lparr>sl_enabled := True\<rparr>"

definition set_address :: "u8 \<Rightarrow> bool \<Rightarrow> stellaris \<Rightarrow> stellaris" where
  "set_address a rd s = s\<lparr>sl_msa := push_bit 1 (ucast a) OR (if rd then 1 else 0)\<rparr>"

definition write_dr :: "u8 \<Rightarrow> stellaris \<Rightarrow> stellaris" where
  "write_dr b s = s\<lparr>sl_mdr := b\<rparr>"

definition read_dr :: "stellaris \<Rightarrow> u8" where
  "read_dr s = oc_byte (sl_outcome s)"

partial_function (option) spin :: "stellaris \<Rightarrow> stellaris option" where
  [code]: "spin s = (let ((busy, err), s1) = mcs s in if busy then spin s1 else Some s1)"

partial_function (option) sig_wait :: "stellaris \<Rightarrow> stellaris option" where
  [code]: "sig_wait s = (if sl_latch s then Some (s\<lparr>sl_latch := False\<rparr>)
    else if sl_left s = 0 then sig_wait s else sig_wait (snd (mcs s)))"

text \<open>The result tells whether the command succeeded.\<close>

definition run_sync :: "(command list \<Rightarrow> outcome) \<Rightarrow> u32 \<Rightarrow> stellaris \<Rightarrow> (bool \<times> stellaris) option" where
  "run_sync dev cmd s = do {
     s1 \<leftarrow> spin (issue dev cmd s);
     let ((busy, err), s2) = mcs s1;
     Some (\<not> err, s2)
   }"

definition run_async :: "(command list \<Rightarrow> outcome) \<Rightarrow> u32 \<Rightarrow> stellaris \<Rightarrow> (bool \<times> stellaris) option" where
  "run_async dev cmd s =
    (let s1 = issue dev cmd (s\<lparr>sl_latch := False\<rparr>); ((busy, err), s2) = mcs s1
     in if \<not> busy
        then (let ((busy1, err1), s3) = mcs s2 in Some (\<not> err1, s3\<lparr>sl_latch := False\<rparr>))
        else do { s3 \<leftarrow> sig_wait s2; let ((busy1, err1), s4) = mcs s3; Some (\<not> err1, s4) })"

definition control :: "i2c_op \<Rightarrow> nat \<Rightarrow> nat \<Rightarrow> u32" where
  "control op j n = CS_RUN OR (if j = 0 then CS_START else 0) OR
     (if j + 1 = n then CS_STOP else case op of I2c_write _ \<Rightarrow> 0 | I2c_read _ \<Rightarrow> CS_ACK)"

fun write_loop :: "(u32 \<Rightarrow> stellaris \<Rightarrow> (bool \<times> stellaris) option) \<Rightarrow> u8 list \<Rightarrow> nat \<Rightarrow> u8 list \<Rightarrow> stellaris
    \<Rightarrow> (u8 list option \<times> stellaris) option" where
  "write_loop run bs j [] s = Some (Some [], s)"
| "write_loop run bs j (b # rest) s = do {
     (ok, s1) \<leftarrow> run (control (I2c_write bs) j (length bs)) (write_dr b s);
     (if ok then write_loop run bs (j + 1) rest s1 else Some (None, s1))
   }"

fun read_loop :: "(u32 \<Rightarrow> stellaris \<Rightarrow> (bool \<times> stellaris) option) \<Rightarrow> nat \<Rightarrow> nat \<Rightarrow> nat \<Rightarrow> stellaris
    \<Rightarrow> (u8 list option \<times> stellaris) option" where
  "read_loop run n j 0 s = Some (Some [], s)"
| "read_loop run n j (Suc left) s = do {
     (ok, s1) \<leftarrow> run (control (I2c_read n) j n) s;
     (if ok then do { (r, s2) \<leftarrow> read_loop run n (j + 1) left s1; Some (map_option ((#) (read_dr s1)) r, s2) }
      else Some (None, s1))
   }"

text \<open>One function for both kinds of waiting, as the macro of the code; \<open>None\<close> as the result is \<open>Nak\<close>.\<close>

fun stellaris_transaction :: "(u32 \<Rightarrow> stellaris \<Rightarrow> (bool \<times> stellaris) option) \<Rightarrow> u8 \<Rightarrow> i2c_op list \<Rightarrow> stellaris
    \<Rightarrow> (u8 list list option \<times> stellaris) option" where
  "stellaris_transaction run a [] s = Some (Some [], s)"
| "stellaris_transaction run a (op # ops) s = do {
     (r, s1) \<leftarrow> (case op of
         I2c_write bs \<Rightarrow> write_loop run bs 0 bs (set_address a False s)
       | I2c_read n \<Rightarrow> read_loop run n 0 n (set_address a True s));
     (case r of
        None \<Rightarrow> Some (None, s1)
      | Some xs \<Rightarrow> do {
          (rs, s2) \<leftarrow> stellaris_transaction run a ops s1;
          Some (map_option ((#) xs) rs, s2)
        })
   }"

section \<open>A command\<close>

text \<open>A command is done when the controller is idle with its outcome.\<close>

definition command_of :: "u32 \<Rightarrow> stellaris \<Rightarrow> command" where
  "command_of cmd s = \<lparr>cm_control = cmd, cm_address = sl_msa s, cm_byte = (if bit (sl_msa s) 0 then 0 else sl_mdr s)\<rparr>"

definition done_with :: "(command list \<Rightarrow> outcome) \<Rightarrow> u32 \<Rightarrow> stellaris \<Rightarrow> bool \<Rightarrow> stellaris" where
  "done_with dev cmd s l = s\<lparr>sl_commands := sl_commands s @ [command_of cmd s], sl_left := 0,
     sl_outcome := dev (sl_commands s @ [command_of cmd s]), sl_latch := l\<rparr>"

lemma spin_ok: "spin s = Some (if sl_left s = 0 then s else finish (s\<lparr>sl_left := 0\<rparr>))"
proof (induction "sl_left s" arbitrary: s)
  case 0
  then show ?case by (subst spin.simps) (simp add: mcs_def)
next
  case (Suc n)
  let ?s = "s\<lparr>sl_left := n\<rparr>"
  show ?case
  proof (cases n)
    case 0
    have "sl_left (finish ?s) = 0" using 0 by (simp add: finish_def stellaris_isr_def)
    then have "spin (finish ?s) = Some (finish ?s)" by (subst spin.simps) (simp add: mcs_def)
    then show ?thesis using Suc.hyps(2) [symmetric] 0 by (subst spin.simps) (simp add: mcs_def Let_def)
  next
    case (Suc m)
    then show ?thesis using Suc.hyps by (subst spin.simps) (simp add: mcs_def Let_def flip: Suc.hyps(2))
  qed
qed

lemma sig_wait_ok:
  assumes "0 < sl_left s" "\<not> sl_latch s" "oc_irq (sl_outcome s)"
  shows "sig_wait s = Some (s\<lparr>sl_left := 0\<rparr>)"
  using assms
proof (induction "sl_left s" arbitrary: s)
  case (Suc n)
  let ?s = "s\<lparr>sl_left := n\<rparr>"
  show ?case
  proof (cases n)
    case 0
    have "sig_wait (finish ?s) = Some (?s\<lparr>sl_latch := False\<rparr>)"
      using Suc.prems by (subst sig_wait.simps) (simp add: finish_def stellaris_isr_def)
    then show ?thesis using Suc.prems Suc.hyps(2) [symmetric] 0
      by (subst sig_wait.simps) (simp add: mcs_def Let_def)
  next
    case (Suc m)
    then show ?thesis using Suc.hyps Suc.prems
      by (subst sig_wait.simps) (simp add: mcs_def Let_def flip: Suc.hyps(2))
  qed
qed simp

lemma run_sync_ok: "\<exists>l. run_sync dev cmd s =
    Some (\<not> oc_error (dev (sl_commands s @ [command_of cmd s])), done_with dev cmd s l)"
  by (auto simp: run_sync_def spin_ok issue_def command_of_def done_with_def finish_def stellaris_isr_def mcs_def Let_def
      intro!: exI [of _ "sl_latch (finish (s\<lparr>sl_outcome := dev (sl_commands s @ [command_of cmd s])\<rparr>))"])

text \<open>
  What the interrupt-driven way needs: a command still in flight when the status is first read
  raises its interrupt. One that fails at once need not.
\<close>

definition signals :: "(command list \<Rightarrow> outcome) \<Rightarrow> bool" where
  "signals dev \<longleftrightarrow> (\<forall>cs. 0 < oc_busy (dev cs) \<longrightarrow> oc_irq (dev cs))"

lemma run_async_ok:
  assumes "signals dev"
  shows "run_async dev cmd s = Some (\<not> oc_error (dev (sl_commands s @ [command_of cmd s])), done_with dev cmd s False)"
proof -
  define oc where "oc = dev (sl_commands s @ [command_of cmd s])"
  define s1 where "s1 = s\<lparr>sl_latch := False, sl_commands := sl_commands s @ [command_of cmd s], sl_left := oc_busy oc, sl_outcome := oc\<rparr>"
  have issue: "issue dev cmd (s\<lparr>sl_latch := False\<rparr>) = (if oc_busy oc = 0 then finish s1 else s1)"
    by (simp add: issue_def oc_def s1_def command_of_def Let_def)
  have done_with: "done_with dev cmd s False = s1\<lparr>sl_left := 0, sl_latch := False\<rparr>"
    by (simp add: done_with_def s1_def oc_def)
  consider "oc_busy oc = 0" | "oc_busy oc = 1" | n where "oc_busy oc = Suc (Suc n)"
    by (metis One_nat_def not0_implies_Suc)
  then show ?thesis
  proof cases
    case 1
    then show ?thesis unfolding run_async_def issue done_with oc_def [symmetric]
      by (simp add: Let_def mcs_def finish_def stellaris_isr_def s1_def)
  next
    case 2
    then have "oc_irq oc" using assms unfolding signals_def oc_def by (metis zero_less_one)
    with 2 show ?thesis unfolding run_async_def issue done_with oc_def [symmetric]
      by (simp add: Let_def mcs_def finish_def stellaris_isr_def s1_def) (subst sig_wait.simps, simp add: mcs_def)
  next
    case 3
    let ?s2 = "s1\<lparr>sl_left := Suc n\<rparr>"
    have "oc_irq oc" using 3 assms unfolding signals_def oc_def by (metis zero_less_Suc)
    then have "sig_wait ?s2 = Some (?s2\<lparr>sl_left := 0\<rparr>)" by (intro sig_wait_ok) (simp_all add: s1_def)
    with 3 show ?thesis unfolding run_async_def issue done_with oc_def [symmetric]
      by (simp add: Let_def mcs_def s1_def)
  qed
qed

definition runs :: "(command list \<Rightarrow> outcome) \<Rightarrow> (u32 \<Rightarrow> stellaris \<Rightarrow> (bool \<times> stellaris) option) \<Rightarrow> bool" where
  "runs dev run \<longleftrightarrow> (\<forall>cmd s. \<exists>l. run cmd s =
     Some (\<not> oc_error (dev (sl_commands s @ [command_of cmd s])), done_with dev cmd s l))"

lemma sync_runs: "runs dev (run_sync dev)"
  unfolding runs_def using run_sync_ok by blast

lemma async_runs: "signals dev \<Longrightarrow> runs dev (run_async dev)"
  unfolding runs_def using run_async_ok by blast

section \<open>Transactions\<close>

text \<open>The commands of an operation, and of these the ones that are issued: none after a failure.\<close>

definition target :: "u8 \<Rightarrow> bool \<Rightarrow> u32" where
  "target a rd = push_bit 1 (ucast a) OR (if rd then 1 else 0)"

lemma target_bit [simp]: "bit (target a rd) 0 = rd"
  by (cases rd) (simp_all add: target_def bit_simps bit_0 even_or_iff)

definition write_command :: "u8 \<Rightarrow> u8 list \<Rightarrow> nat \<Rightarrow> command" where
  "write_command a bs j = \<lparr>cm_control = control (I2c_write bs) j (length bs), cm_address = target a False, cm_byte = bs ! j\<rparr>"

definition read_command :: "u8 \<Rightarrow> nat \<Rightarrow> nat \<Rightarrow> command" where
  "read_command a n j = \<lparr>cm_control = control (I2c_read n) j n, cm_address = target a True, cm_byte = 0\<rparr>"

definition plan :: "u8 \<Rightarrow> i2c_op \<Rightarrow> command list" where
  "plan a op = (case op of I2c_write bs \<Rightarrow> map (write_command a bs) [0..<length bs] | I2c_read n \<Rightarrow> map (read_command a n) [0..<n])"

primrec exchange :: "(command list \<Rightarrow> outcome) \<Rightarrow> command list \<Rightarrow> command list \<Rightarrow> (command \<times> outcome) list" where
  "exchange dev h [] = []"
| "exchange dev h (c # cs) = (c, dev (h @ [c])) # (if oc_error (dev (h @ [c])) then [] else exchange dev (h @ [c]) cs)"

definition accepted :: "(command \<times> outcome) list \<Rightarrow> bool" where
  "accepted xs \<longleftrightarrow> (\<forall>(c, oc) \<in> set xs. \<not> oc_error oc)"

lemma accepted_simps [simp]: "accepted []" "accepted (x # xs) \<longleftrightarrow> \<not> oc_error (snd x) \<and> accepted xs"
  "accepted (xs @ ys) \<longleftrightarrow> accepted xs \<and> accepted ys"
  by (auto simp: accepted_def)

lemma exchange_append: "exchange dev h (xs @ ys) =
    exchange dev h xs @ (if accepted (exchange dev h xs) then exchange dev (h @ xs) ys else [])"
  by (induction xs arbitrary: h) simp_all

lemma exchange_all: "accepted (exchange dev h xs) \<Longrightarrow> map fst (exchange dev h xs) = xs"
  by (induction xs arbitrary: h) (auto split: if_splits)

definition answered :: "(command list \<Rightarrow> outcome) \<Rightarrow> u8 \<Rightarrow> command list \<Rightarrow> i2c_op \<Rightarrow> u8 list" where
  "answered dev a h op = (case op of I2c_write _ \<Rightarrow> [] | I2c_read n \<Rightarrow> map (oc_byte \<circ> snd) (exchange dev h (plan a op)))"

fun replies :: "(command list \<Rightarrow> outcome) \<Rightarrow> u8 \<Rightarrow> command list \<Rightarrow> i2c_op list \<Rightarrow> u8 list list" where
  "replies dev a h [] = []"
| "replies dev a h (op # ops) = answered dev a h op # replies dev a (h @ plan a op) ops"

lemma done_with_select [simp]:
  "sl_commands (done_with dev cmd s l) = sl_commands s @ [command_of cmd s]" "sl_msa (done_with dev cmd s l) = sl_msa s"
  "read_dr (done_with dev cmd s l) = oc_byte (dev (sl_commands s @ [command_of cmd s]))"
  by (simp_all add: done_with_def read_dr_def)

lemma write_loop_ok:
  assumes run: "runs dev run" and "rest = drop j bs" "sl_msa s = target a False"
  shows "\<exists>s'. let xs = exchange dev (sl_commands s) (map (write_command a bs) [j..<length bs]) in
    write_loop run bs j rest s = Some (if accepted xs then Some [] else None, s') \<and>
    sl_commands s' = sl_commands s @ map fst xs"
  using assms(2,3)
proof (induction rest arbitrary: j s)
  case Nil
  then show ?case by (simp add: Let_def)
next
  case (Cons b rest)
  have j: "j < length bs" "b = bs ! j" "rest = drop (Suc j) bs"
  proof -
    show j: "j < length bs" using Cons.prems(1) by (metis drop_all leI list.discI)
    have "bs ! j # drop (Suc j) bs = b # rest" using Cons.prems(1) Cons_nth_drop_Suc [OF j] by simp
    then show "b = bs ! j" "rest = drop (Suc j) bs" by simp_all
  qed
  let ?cmd = "control (I2c_write bs) j (length bs)"
  have c: "command_of ?cmd (write_dr b s) = write_command a bs j" "sl_commands (write_dr b s) = sl_commands s"
    "sl_msa (write_dr b s) = target a False"
    using Cons.prems(2) j(2) by (simp_all add: command_of_def write_command_def write_dr_def)
  obtain l where l: "run ?cmd (write_dr b s) = Some (\<not> oc_error (dev (sl_commands s @ [write_command a bs j])),
      done_with dev ?cmd (write_dr b s) l)" using run [unfolded runs_def] c by metis
  let ?s = "done_with dev ?cmd (write_dr b s) l"
  have e: "map (write_command a bs) [j..<length bs] = write_command a bs j # map (write_command a bs) [Suc j..<length bs]"
    using j(1) by (simp add: upt_conv_Cons)
  show ?case
  proof (cases "oc_error (dev (sl_commands s @ [write_command a bs j]))")
    case True
    then show ?thesis unfolding e using l c by (simp add: Let_def)
  next
    case False
    from Cons.IH [OF j(3), of ?s] c(3) obtain s' where
      "write_loop run bs (Suc j) rest ?s = Some (if accepted (exchange dev (sl_commands s @ [write_command a bs j])
          (map (write_command a bs) [Suc j..<length bs])) then Some [] else None, s')"
      "sl_commands s' = sl_commands s @ write_command a bs j #
         map fst (exchange dev (sl_commands s @ [write_command a bs j]) (map (write_command a bs) [Suc j..<length bs]))"
      using c by (auto simp: Let_def)
    then show ?thesis unfolding e using False l by (simp add: Let_def)
  qed
qed

lemma read_loop_ok:
  assumes run: "runs dev run" and "j + left = n" "sl_msa s = target a True"
  shows "\<exists>s'. let xs = exchange dev (sl_commands s) (map (read_command a n) [j..<n]) in
    read_loop run n j left s = Some (if accepted xs then Some (map (oc_byte \<circ> snd) xs) else None, s') \<and>
    sl_commands s' = sl_commands s @ map fst xs"
  using assms(2,3)
proof (induction left arbitrary: j s)
  case 0
  then show ?case by (simp add: Let_def)
next
  case (Suc left)
  let ?cmd = "control (I2c_read n) j n" and ?c = "read_command a n j"
  have c: "command_of ?cmd s = ?c" using Suc.prems(2) by (simp add: command_of_def read_command_def)
  obtain l where l: "run ?cmd s = Some (\<not> oc_error (dev (sl_commands s @ [?c])), done_with dev ?cmd s l)"
    using run [unfolded runs_def] c by metis
  let ?s = "done_with dev ?cmd s l"
  have e: "map (read_command a n) [j..<n] = ?c # map (read_command a n) [Suc j..<n]"
    using Suc.prems(1) by (simp add: upt_conv_Cons)
  show ?case
  proof (cases "oc_error (dev (sl_commands s @ [?c]))")
    case True
    then show ?thesis unfolding e using l c by (simp add: Let_def)
  next
    case False
    have "Suc j + left = n" using Suc.prems(1) by simp
    from Suc.IH [OF this, of ?s] Suc.prems(2) obtain s' where
      "read_loop run n (Suc j) left ?s = Some (if accepted (exchange dev (sl_commands s @ [?c]) (map (read_command a n) [Suc j..<n]))
         then Some (map (oc_byte \<circ> snd) (exchange dev (sl_commands s @ [?c]) (map (read_command a n) [Suc j..<n]))) else None, s')"
      "sl_commands s' = sl_commands s @ ?c # map fst (exchange dev (sl_commands s @ [?c]) (map (read_command a n) [Suc j..<n]))"
      using c by (auto simp: Let_def)
    then show ?thesis unfolding e using False l c by (simp add: Let_def)
  qed
qed

lemma stellaris_transaction_ok:
  assumes run: "runs dev run"
  shows "\<exists>s'. let xs = exchange dev (sl_commands s) (concat (map (plan a) ops)) in
    stellaris_transaction run a ops s = Some (if accepted xs then Some (replies dev a (sl_commands s) ops) else None, s') \<and>
    sl_commands s' = sl_commands s @ map fst xs"
proof (induction ops arbitrary: s)
  case Nil
  then show ?case by (simp add: Let_def)
next
  case (Cons op ops)
  let ?xs = "exchange dev (sl_commands s) (plan a op)"
  have "\<exists>s1. (case op of I2c_write bs \<Rightarrow> write_loop run bs 0 bs (set_address a False s)
      | I2c_read n \<Rightarrow> read_loop run n 0 n (set_address a True s)) =
      Some (if accepted ?xs then Some (answered dev a (sl_commands s) op) else None, s1) \<and>
      sl_commands s1 = sl_commands s @ map fst ?xs"
  proof (cases op)
    case (I2c_write bs)
    then show ?thesis using write_loop_ok [OF run, of bs 0 bs "set_address a False s" a]
      by (auto simp: plan_def set_address_def target_def answered_def Let_def)
  next
    case (I2c_read n)
    then show ?thesis using read_loop_ok [OF run, of 0 n n "set_address a True s" a]
      by (auto simp: plan_def set_address_def target_def answered_def Let_def)
  qed
  then obtain s1 where s1: "(case op of I2c_write bs \<Rightarrow> write_loop run bs 0 bs (set_address a False s)
      | I2c_read n \<Rightarrow> read_loop run n 0 n (set_address a True s)) =
      Some (if accepted ?xs then Some (answered dev a (sl_commands s) op) else None, s1)"
    "sl_commands s1 = sl_commands s @ map fst ?xs" by blast
  show ?case
  proof (cases "accepted ?xs")
    case False
    then show ?thesis using s1 by (simp add: exchange_append Let_def)
  next
    case True
    then have "sl_commands s1 = sl_commands s @ plan a op" using s1(2) exchange_all by metis
    with Cons.IH [of s1] obtain s' where
      "stellaris_transaction run a ops s1 = Some (if accepted (exchange dev (sl_commands s @ plan a op) (concat (map (plan a) ops)))
         then Some (replies dev a (sl_commands s @ plan a op) ops) else None, s')"
      "sl_commands s' = sl_commands s @ plan a op @ map fst (exchange dev (sl_commands s @ plan a op) (concat (map (plan a) ops)))"
      by (auto simp: Let_def)
    then show ?thesis using s1(1) True exchange_all [OF True] by (simp add: exchange_append Let_def)
  qed
qed

text \<open>An empty write, with which callers probe for a device, reports success without using the bus.\<close>

lemma empty_write_succeeds:
  "stellaris_transaction run a [I2c_write []] s = Some (Some [[]], set_address a False s)"
  by simp

end
