(* ===== verification/Exti.thy ===== *)
theory Exti
  imports Rivet_Base "HOL-Library.Monad_Syntax"
begin

text \<open>
  Waiting for an edge on a pin of the STM32F401 board (\<open>rivet-bsp-stm32f401re/src/wait.rs\<close>). The level
  of the pin over time is an argument; time advances with every access to a register. The interrupt
  controller latches an edge of an armed kind and runs the handler while the line is unmasked.
\<close>

section \<open>State and controller\<close>

record exti =
  ex_imr :: u32
  ex_rtsr :: u32
  ex_ftsr :: u32
  ex_pr :: u32
  ex_latch :: bool
  ex_now :: nat

definition LINE13 :: u32 where "LINE13 = push_bit 13 1"

abbreviation line :: "u32 \<Rightarrow> bool" where "line w \<equiv> w AND LINE13 \<noteq> 0"

definition exti_isr :: "exti \<Rightarrow> exti" where
  "exti_isr s = (if line (ex_pr s) then s\<lparr>ex_pr := ex_pr s AND NOT LINE13, ex_latch := True\<rparr> else s)"

definition edge_at :: "(nat \<Rightarrow> bool) \<Rightarrow> exti \<Rightarrow> bool" where
  "edge_at lv s \<longleftrightarrow> \<not> lv (ex_now s) \<and> lv (ex_now s + 1) \<and> line (ex_rtsr s) \<or>
     lv (ex_now s) \<and> \<not> lv (ex_now s + 1) \<and> line (ex_ftsr s)"

definition pass :: "(nat \<Rightarrow> bool) \<Rightarrow> exti \<Rightarrow> exti" where
  "pass lv s =
    (let s1 = s\<lparr>ex_now := ex_now s + 1, ex_pr := (if edge_at lv s then ex_pr s OR LINE13 else ex_pr s)\<rparr>
     in if line (ex_pr s1) \<and> line (ex_imr s1) then exti_isr s1 else s1)"

section \<open>The driver\<close>

definition is_high :: "(nat \<Rightarrow> bool) \<Rightarrow> exti \<Rightarrow> bool \<times> exti" where
  "is_high lv s = (lv (ex_now s), pass lv s)"

definition set_triggers :: "(nat \<Rightarrow> bool) \<Rightarrow> bool \<Rightarrow> bool \<Rightarrow> exti \<Rightarrow> exti" where
  "set_triggers lv rising falling s =
    (let s1 = pass lv (s\<lparr>ex_rtsr := (if rising then ex_rtsr s OR LINE13 else ex_rtsr s AND NOT LINE13)\<rparr>);
         s2 = pass lv (s1\<lparr>ex_ftsr := (if falling then ex_ftsr s1 OR LINE13 else ex_ftsr s1 AND NOT LINE13)\<rparr>)
     in pass lv (s2\<lparr>ex_imr := ex_imr s2 OR LINE13\<rparr>))"

definition arm :: "(nat \<Rightarrow> bool) \<Rightarrow> bool \<Rightarrow> bool \<Rightarrow> exti \<Rightarrow> exti" where
  "arm lv rising falling s = set_triggers lv rising falling (pass lv (s\<lparr>ex_latch := False\<rparr>))"

partial_function (option) wait_armed :: "(nat \<Rightarrow> bool) \<Rightarrow> exti \<Rightarrow> exti option" where
  [code]: "wait_armed lv s = (if ex_latch s then Some (s\<lparr>ex_latch := False\<rparr>) else wait_armed lv (pass lv s))"

definition wait_for_edge :: "(nat \<Rightarrow> bool) \<Rightarrow> bool \<Rightarrow> bool \<Rightarrow> exti \<Rightarrow> exti option" where
  "wait_for_edge lv rising falling s = wait_armed lv (arm lv rising falling s)"

partial_function (option) wait_for_high :: "(nat \<Rightarrow> bool) \<Rightarrow> exti \<Rightarrow> exti option" where
  [code]: "wait_for_high lv s = (let (high, s1) = is_high lv s in
     if high then Some s1 else do { s2 \<leftarrow> wait_for_edge lv True False s1; wait_for_high lv s2 })"

partial_function (option) wait_for_low :: "(nat \<Rightarrow> bool) \<Rightarrow> exti \<Rightarrow> exti option" where
  [code]: "wait_for_low lv s = (let (high, s1) = is_high lv s in
     if \<not> high then Some s1 else do { s2 \<leftarrow> wait_for_edge lv False True s1; wait_for_low lv s2 })"

definition wait_for_rising_edge :: "(nat \<Rightarrow> bool) \<Rightarrow> exti \<Rightarrow> exti option" where
  "wait_for_rising_edge lv s = wait_for_edge lv True False s"

definition wait_for_falling_edge :: "(nat \<Rightarrow> bool) \<Rightarrow> exti \<Rightarrow> exti option" where
  "wait_for_falling_edge lv s = wait_for_edge lv False True s"

definition wait_for_any_edge :: "(nat \<Rightarrow> bool) \<Rightarrow> exti \<Rightarrow> exti option" where
  "wait_for_any_edge lv s = wait_for_edge lv True True s"

text \<open>Software pends the line as an edge would, whatever the triggers.\<close>

definition trigger_software_interrupt :: "(nat \<Rightarrow> bool) \<Rightarrow> exti \<Rightarrow> exti" where
  "trigger_software_interrupt lv s = pass lv (s\<lparr>ex_pr := ex_pr s OR LINE13\<rparr>)"

section \<open>What a wait sees\<close>

lemma line_simps [simp]: "line (w OR LINE13)" "(w AND NOT LINE13) AND LINE13 = 0" "LINE13 \<noteq> 0"
proof -
  have "bit LINE13 13" by (simp add: LINE13_def bit_simps)
  then have "bit ((w OR LINE13) AND LINE13) 13" by (simp add: bit_simps)
  then show "line (w OR LINE13)" by (metis bit_0_eq bot_apply bot_bool_def)
  show "(w AND NOT LINE13) AND LINE13 = 0" by (simp add: bit_eq_iff bit_simps)
  show "LINE13 \<noteq> 0" by (simp add: LINE13_def)
qed

lemma pass_simps [simp]:
  "ex_now (pass lv s) = ex_now s + 1" "ex_imr (pass lv s) = ex_imr s"
  "ex_rtsr (pass lv s) = ex_rtsr s" "ex_ftsr (pass lv s) = ex_ftsr s"
  by (simp_all add: pass_def exti_isr_def Let_def)

lemma pass_quiet: "\<not> line (ex_pr s) \<Longrightarrow> \<not> edge_at lv s \<Longrightarrow> pass lv s = s\<lparr>ex_now := ex_now s + 1\<rparr>"
  by (simp add: pass_def Let_def)

lemma pass_edge: "line (ex_imr s) \<Longrightarrow> edge_at lv s \<Longrightarrow> ex_latch (pass lv s) \<and> \<not> line (ex_pr (pass lv s))"
  by (simp add: pass_def exti_isr_def Let_def)

text \<open>An armed wait ends at the first armed edge, and does not end without one.\<close>

lemma wait_armed_ends:
  assumes "line (ex_imr s)" "\<not> line (ex_pr s)" "\<not> ex_latch s"
    and "edge_at lv (s\<lparr>ex_now := ex_now s + n\<rparr>)" and "\<forall>i < n. \<not> edge_at lv (s\<lparr>ex_now := ex_now s + i\<rparr>)"
  shows "\<exists>s'. wait_armed lv s = Some s' \<and> ex_now s' = ex_now s + n + 1 \<and> \<not> ex_latch s' \<and> \<not> line (ex_pr s')"
  using assms
proof (induction n arbitrary: s)
  case 0
  have e: "ex_latch (pass lv s) \<and> \<not> line (ex_pr (pass lv s))" using pass_edge [OF "0.prems"(1)] "0.prems"(4) by simp
  have "wait_armed lv s = wait_armed lv (pass lv s)" using "0.prems"(3) by (subst wait_armed.simps) simp
  also have "\<dots> = Some ((pass lv s)\<lparr>ex_latch := False\<rparr>)" using e by (subst wait_armed.simps) simp
  finally show ?case using e by simp
next
  case (Suc n)
  let ?s = "s\<lparr>ex_now := ex_now s + 1\<rparr>"
  have "\<not> edge_at lv s" using Suc.prems(5) by (metis add.right_neutral exti.surjective exti.update_convs(6) zero_less_Suc)
  then have p: "pass lv s = ?s" using pass_quiet [OF Suc.prems(2)] by simp
  have later: "edge_at lv (?s\<lparr>ex_now := ex_now ?s + i\<rparr>) = edge_at lv (s\<lparr>ex_now := ex_now s + Suc i\<rparr>)" for i by simp
  have "\<forall>i < n. \<not> edge_at lv (?s\<lparr>ex_now := ex_now ?s + i\<rparr>)" unfolding later using Suc.prems(5) by (metis Suc_mono)
  then have "\<exists>s'. wait_armed lv ?s = Some s' \<and> ex_now s' = ex_now ?s + n + 1 \<and> \<not> ex_latch s' \<and> \<not> line (ex_pr s')"
    using Suc.prems(1-4) later by (intro Suc.IH) simp_all
  then show ?case using Suc.prems(3) by (subst wait_armed.simps) (simp add: p)
qed

lemma wait_armed_stuck:
  assumes "wait_armed lv s = Some s'"
  shows "\<not> (\<not> line (ex_pr s) \<and> \<not> ex_latch s \<and> (\<forall>i. \<not> edge_at lv (s\<lparr>ex_now := ex_now s + i\<rparr>)))"
proof (rule wait_armed.raw_induct [of "\<lambda>lv s y. \<not> (\<not> line (ex_pr s) \<and> \<not> ex_latch s \<and> (\<forall>i. \<not> edge_at lv (s\<lparr>ex_now := ex_now s + i\<rparr>)))",
    OF _ assms], rule notI)
  fix f lv s x
  assume hyp: "\<And>lv s y. f lv s = Some y \<Longrightarrow>
      \<not> (\<not> line (ex_pr s) \<and> \<not> ex_latch s \<and> (\<forall>i. \<not> edge_at lv (s\<lparr>ex_now := ex_now s + i\<rparr>)))"
    and run: "(if ex_latch s then Some (s\<lparr>ex_latch := False\<rparr>) else f lv (pass lv s)) = Some x"
    and inv: "\<not> line (ex_pr s) \<and> \<not> ex_latch s \<and> (\<forall>i. \<not> edge_at lv (s\<lparr>ex_now := ex_now s + i\<rparr>))"
  let ?s = "s\<lparr>ex_now := ex_now s + 1\<rparr>"
  have "\<not> edge_at lv s" using inv by (metis add.right_neutral exti.surjective exti.update_convs(6))
  then have "f lv ?s = Some x" using run inv pass_quiet by auto
  moreover have "\<forall>i. \<not> edge_at lv (?s\<lparr>ex_now := ex_now ?s + i\<rparr>)" using inv by (metis (no_types, lifting) add.assoc exti.select_convs(6) exti.surjective exti.update_convs(6))
  ultimately show False using hyp [of lv ?s x] inv by simp
qed

text \<open>A wait for a level that returns has seen it with its last access.\<close>

lemma wait_for_high_truthful:
  assumes "wait_for_high lv s = Some s'"
  shows "\<exists>t. ex_now s' = t + 1 \<and> lv t"
proof (rule wait_for_high.raw_induct [of "\<lambda>lv s s'. \<exists>t. ex_now s' = t + 1 \<and> lv t", OF _ assms])
  fix f lv s x
  assume hyp: "\<And>lv s y. f lv s = Some y \<Longrightarrow> \<exists>t. ex_now y = t + 1 \<and> lv t"
    and run: "(let (high, s1) = is_high lv s in if high then Some s1 else do { s2 \<leftarrow> wait_for_edge lv True False s1; f lv s2 }) = Some x"
  show "\<exists>t. ex_now x = t + 1 \<and> lv t"
  proof (cases "lv (ex_now s)")
    case True
    then show ?thesis using run by (auto simp: is_high_def)
  next
    case False
    then obtain s2 where "f lv s2 = Some x" using run by (auto simp: is_high_def split: bind_splits)
    then show ?thesis by (rule hyp)
  qed
qed

text \<open>
  The level is read before the trigger is armed: a pin that goes high in between, and stays high, is
  waited for without end.
\<close>

lemma rise_before_arming_is_lost:
  assumes "\<not> line (ex_pr s)" "\<not> line (ex_rtsr s)" "\<not> lv (ex_now s)" "\<forall>t > ex_now s. lv t" and "\<not> line (ex_ftsr s)"
  shows "wait_for_high lv s = None"
proof -
  have q: "\<not> edge_at lv u" if "ex_now s < ex_now u \<or> u = s" for u
    using that assms by (auto simp: edge_at_def)
  have p1: "pass lv s = s\<lparr>ex_now := ex_now s + 1\<rparr>" by (rule pass_quiet [OF assms(1)]) (simp add: q)
  define u where "u = (s\<lparr>ex_now := ex_now s + 1\<rparr>)\<lparr>ex_latch := False\<rparr>"
  have stays: "pass lv v = v\<lparr>ex_now := ex_now v + 1\<rparr>" if "\<not> line (ex_pr v)" "ex_now s < ex_now v" for v
    by (rule pass_quiet [OF that(1)]) (simp add: q that(2))
  let ?v = "arm lv True False (pass lv s)"
  have v: "\<not> line (ex_pr ?v)" "\<not> ex_latch ?v" "ex_now s < ex_now ?v"
    using assms(1) by (simp_all add: arm_def set_triggers_def p1 stays Let_def)
  have "wait_armed lv ?v = None"
  proof (cases "wait_armed lv ?v")
    case (Some x)
    from wait_armed_stuck [OF this] v q show ?thesis by simp
  qed
  then show ?thesis using assms(3)
    by (subst wait_for_high.simps) (simp add: is_high_def wait_for_edge_def)
qed

end
