(* ===== verification/Gpio.thy ===== *)
theory Gpio
  imports Rivet_Base
begin

text \<open>
  The pins of the STM32F401 board (\<open>rivet-bsp-stm32f401re/src/gpio.rs\<close>). A pin is a port, by its base
  address, and a number below 16. The type of a pin tells whether it is an input or an output; that
  is the set \<open>outs\<close> of a run. A port whose clock is off ignores writes, and a write to \<open>BSRR\<close> sets the
  outputs of its lower half and clears those of its upper half, as the chip has it.
\<close>

section \<open>Registers\<close>

record gpio =
  ahb1enr :: u32
  moder :: "u32 \<Rightarrow> u32"
  odr :: "u32 \<Rightarrow> u32"
  idr :: "u32 \<Rightarrow> u32"

definition PORT_A :: u32 where "PORT_A = 0x40020000"

definition ahb1enr_bit :: "u32 \<Rightarrow> nat" where
  "ahb1enr_bit base = unat ((base - PORT_A) div 0x400)"

definition clock_on :: "u32 \<Rightarrow> gpio \<Rightarrow> bool" where
  "clock_on base s = bit (ahb1enr s) (ahb1enr_bit base)"

definition write_ahb1enr :: "u32 \<Rightarrow> gpio \<Rightarrow> gpio" where
  "write_ahb1enr v s = s\<lparr>ahb1enr := v\<rparr>"

definition write_moder :: "u32 \<Rightarrow> u32 \<Rightarrow> gpio \<Rightarrow> gpio" where
  "write_moder base v s = (if clock_on base s then s\<lparr>moder := (moder s)(base := v)\<rparr> else s)"

definition write_bsrr :: "u32 \<Rightarrow> u32 \<Rightarrow> gpio \<Rightarrow> gpio" where
  "write_bsrr base v s = (if clock_on base s
     then s\<lparr>odr := (odr s)(base := (odr s base AND NOT (drop_bit 16 v)) OR take_bit 16 v)\<rparr> else s)"

section \<open>Operations\<close>

definition mode_mask :: "nat \<Rightarrow> u32" where "mode_mask n = push_bit (n * 2) 3"

definition output_moder :: "nat \<Rightarrow> u32 \<Rightarrow> u32" where
  "output_moder n v = (v AND NOT (mode_mask n)) OR push_bit (n * 2) 1"

definition into_output :: "u32 \<Rightarrow> nat \<Rightarrow> gpio \<Rightarrow> gpio" where
  "into_output base n s =
    (let s1 = write_ahb1enr (ahb1enr s OR push_bit (ahb1enr_bit base) 1) s
     in write_moder base (output_moder n (moder s1 base)) s1)"

definition into_input :: "u32 \<Rightarrow> nat \<Rightarrow> gpio \<Rightarrow> gpio" where
  "into_input base n s = write_moder base (moder s base AND NOT (mode_mask n)) s"

definition set_high :: "u32 \<Rightarrow> nat \<Rightarrow> gpio \<Rightarrow> gpio" where
  "set_high base n s = write_bsrr base (push_bit n 1) s"

definition set_low :: "u32 \<Rightarrow> nat \<Rightarrow> gpio \<Rightarrow> gpio" where
  "set_low base n s = write_bsrr base (push_bit (n + 16) 1) s"

definition pin_is_high :: "u32 \<Rightarrow> nat \<Rightarrow> gpio \<Rightarrow> bool" where
  "pin_is_high base n s \<longleftrightarrow> drop_bit n (idr s base) AND 1 \<noteq> 0"

definition is_set_high :: "u32 \<Rightarrow> nat \<Rightarrow> gpio \<Rightarrow> bool" where
  "is_set_high base n s \<longleftrightarrow> drop_bit n (odr s base) AND 1 \<noteq> 0"

definition toggle :: "u32 \<Rightarrow> nat \<Rightarrow> gpio \<Rightarrow> gpio" where
  "toggle base n s = (if is_set_high base n s then set_low base n s else set_high base n s)"

section \<open>Every pin sees its own operations only\<close>

datatype pin_op = Into_output | Into_input | Set_high | Set_low | Toggle

fun pin_exec :: "(u32 \<times> nat) \<times> pin_op \<Rightarrow> gpio \<Rightarrow> gpio" where
  "pin_exec ((b, n), Into_output) s = into_output b n s"
| "pin_exec ((b, n), Into_input) s = into_input b n s"
| "pin_exec ((b, n), Set_high) s = set_high b n s"
| "pin_exec ((b, n), Set_low) s = set_low b n s"
| "pin_exec ((b, n), Toggle) s = toggle b n s"

text \<open>The operations the types allow, and the pins that are outputs after one.\<close>

definition pin_legal :: "(u32 \<times> nat) set \<Rightarrow> (u32 \<times> nat) \<times> pin_op \<Rightarrow> bool" where
  "pin_legal outs x \<longleftrightarrow> snd (fst x) < 16 \<and> ahb1enr_bit (fst (fst x)) < 32 \<and> (if snd x = Into_output then fst x \<notin> outs else fst x \<in> outs)"

definition outs_after :: "(u32 \<times> nat) set \<Rightarrow> (u32 \<times> nat) \<times> pin_op \<Rightarrow> (u32 \<times> nat) set" where
  "outs_after outs x = (case snd x of Into_output \<Rightarrow> insert (fst x) outs | Into_input \<Rightarrow> outs - {fst x} | _ \<Rightarrow> outs)"

fun pins_run :: "(u32 \<times> nat) set \<Rightarrow> ((u32 \<times> nat) \<times> pin_op) list \<Rightarrow> bool" where
  "pins_run outs [] \<longleftrightarrow> True"
| "pins_run outs (x # xs) \<longleftrightarrow> pin_legal outs x \<and> pins_run (outs_after outs x) xs"

text \<open>A pin as its owner sees it: its mode and what it drives.\<close>

definition pin_view :: "u32 \<times> nat \<Rightarrow> gpio \<Rightarrow> (bool \<times> bool) \<times> bool" where
  "pin_view p s = ((bit (moder s (fst p)) (2 * snd p + 1), bit (moder s (fst p)) (2 * snd p)), bit (odr s (fst p)) (snd p))"

fun own_step :: "pin_op \<Rightarrow> (bool \<times> bool) \<times> bool \<Rightarrow> (bool \<times> bool) \<times> bool" where
  "own_step Into_output (m, v) = ((False, True), v)"
| "own_step Into_input (m, v) = ((False, False), v)"
| "own_step Set_high (m, v) = (m, True)"
| "own_step Set_low (m, v) = (m, False)"
| "own_step Toggle (m, v) = (m, \<not> v)"

definition clocked :: "(u32 \<times> nat) set \<Rightarrow> gpio \<Rightarrow> bool" where
  "clocked outs s \<longleftrightarrow> (\<forall>p \<in> outs. clock_on (fst p) s)"

lemma is_set_high_bit: "is_set_high b n s = bit (odr s b) n"
  by (simp add: is_set_high_def and_one_eq bit_iff_odd_drop_bit odd_iff_mod_2_eq_one)

lemma write_bsrr_bit:
  assumes "n < 16" "m < 16" "clock_on b s"
  shows "bit (odr (set_high b n s) c) m = (if c = b \<and> m = n then True else bit (odr s c) m)"
    "bit (odr (set_low b n s) c) m = (if c = b \<and> m = n then False else bit (odr s c) m)"
  using assms by (auto simp: set_high_def set_low_def write_bsrr_def bit_simps)

lemma write_moder_bit:
  assumes "n < 16" "m < 16" "clock_on b s"
  shows "pin_view (c, m) (write_moder b (output_moder n (moder s b)) s) =
      (if (c, m) = (b, n) then ((False, True), bit (odr s c) m) else pin_view (c, m) s)"
    "pin_view (c, m) (into_input b n s) =
      (if (c, m) = (b, n) then ((False, False), bit (odr s c) m) else pin_view (c, m) s)"
proof -
  have mm: "mode_mask n = push_bit (n * 2) (mask 2)" for n
    by (simp add: mode_mask_def mask_eq_exp_minus_1)
  have b: "bit (output_moder n v) (Suc (2 * m)) = (n \<noteq> m \<and> bit v (Suc (2 * m)))"
    "bit (output_moder n v) (2 * m) = (n = m \<or> bit v (2 * m))"
    "bit (v AND NOT (mode_mask n)) (Suc (2 * m)) = (n \<noteq> m \<and> bit v (Suc (2 * m)))"
    "bit (v AND NOT (mode_mask n)) (2 * m) = (n \<noteq> m \<and> bit v (2 * m))" if "m < 16" for v m
    using assms(1) that by (auto simp: output_moder_def mm bit_simps bit_1_iff; presburger)+
  show "pin_view (c, m) (write_moder b (output_moder n (moder s b)) s) =
      (if (c, m) = (b, n) then ((False, True), bit (odr s c) m) else pin_view (c, m) s)"
    "pin_view (c, m) (into_input b n s) =
      (if (c, m) = (b, n) then ((False, False), bit (odr s c) m) else pin_view (c, m) s)"
    using assms by (auto simp: pin_view_def into_input_def write_moder_def b simp del: bit_and_iff)
qed

lemma pin_step:
  assumes l: "pin_legal outs x" and q: "m < 16" and c: "clocked outs s"
  shows "pin_view (b, m) (pin_exec x s) = (if fst x = (b, m) then own_step (snd x) (pin_view (b, m) s) else pin_view (b, m) s)"
    and "clocked (outs_after outs x) (pin_exec x s)"
proof -
  obtain a n op where x: "x = ((a, n), op)" by (metis surj_pair)
  have n: "n < 16" and a: "ahb1enr_bit a < 32" and t: "if op = Into_output then (a, n) \<notin> outs else (a, n) \<in> outs"
    using l by (auto simp: pin_legal_def x split: if_splits)
  have on: "clock_on a s" if "op \<noteq> Into_output" using t c that by (auto simp: clocked_def)
  define s1 where "s1 = write_ahb1enr (ahb1enr s OR push_bit (ahb1enr_bit a) 1) s"
  have s1: "clock_on a s1" "\<And>b. clock_on b s \<Longrightarrow> clock_on b s1" "pin_view p s1 = pin_view p s" "odr s1 = odr s" for p
    using a by (auto simp: s1_def clock_on_def write_ahb1enr_def bit_simps pin_view_def)
  have o: "into_output a n s = write_moder a (output_moder n (moder s1 a)) s1"
    by (simp add: into_output_def s1_def Let_def)
  show "pin_view (b, m) (pin_exec x s) = (if fst x = (b, m) then own_step (snd x) (pin_view (b, m) s) else pin_view (b, m) s)"
  proof (cases op)
    case Into_output
    then show ?thesis using write_moder_bit(1) [OF n q s1(1), of b] s1(3) [of "(b, m)"] s1(4)
      by (cases "pin_view (b, m) s") (auto simp: x o pin_view_def)
  next
    case Into_input
    then show ?thesis using write_moder_bit(2) [OF n q on, of b]
      by (auto simp: x pin_view_def)
  next
    case Set_high
    then show ?thesis using write_bsrr_bit(1) [OF n q on, of b] on
      by (auto simp: x pin_view_def set_high_def write_bsrr_def)
  next
    case Set_low
    then show ?thesis using write_bsrr_bit(2) [OF n q on, of b] on
      by (auto simp: x pin_view_def set_low_def write_bsrr_def)
  next
    case Toggle
    then show ?thesis using write_bsrr_bit [OF n q on, of b] on
      by (auto simp: x pin_view_def toggle_def is_set_high_bit set_low_def set_high_def write_bsrr_def)
  qed
  have same: "ahb1enr (pin_exec x s) = ahb1enr s" if "op \<noteq> Into_output"
    using that by (cases op) (simp_all add: x into_input_def set_high_def set_low_def toggle_def write_moder_def write_bsrr_def)
  show "clocked (outs_after outs x) (pin_exec x s)"
  proof (cases "op = Into_output")
    case True
    have "clock_on b (pin_exec x s)" if "clock_on b s1" for b
      using that True by (simp add: x o write_moder_def clock_on_def)
    then show ?thesis using c s1(1,2) True by (auto simp: clocked_def outs_after_def x)
  next
    case False
    then have "clock_on b (pin_exec x s) = clock_on b s" for b using same by (simp add: clock_on_def)
    then show ?thesis using c False by (auto simp: clocked_def outs_after_def x split: pin_op.splits)
  qed
qed

lemma pins_independent:
  assumes "pins_run outs xs" and "clocked outs s" and "m < 16"
  shows "pin_view (b, m) (fold pin_exec xs s) =
    fold own_step (map snd (filter (\<lambda>x. fst x = (b, m)) xs)) (pin_view (b, m) s)"
  using assms(1,2)
proof (induction xs arbitrary: outs s)
  case (Cons x xs)
  have l: "pin_legal outs x" "pins_run (outs_after outs x) xs" using Cons.prems(1) by simp_all
  show ?case using Cons.IH [OF l(2) pin_step(2) [OF l(1) assms(3) Cons.prems(2)]]
      pin_step(1) [OF l(1) assms(3) Cons.prems(2), of b] by auto
qed simp

text \<open>
  The change of a mode is a read and a write of the whole register. If another owner of a pin of
  the same port comes in between, its change is lost, although each has its pin to itself.
\<close>

lemma mode_change_lost:
  assumes "n < 16" "m < 16" "n \<noteq> m" "clock_on b s"
  shows "let v = moder s b; s1 = into_output b m s; s2 = write_moder b (output_moder n v) s1
    in fst (pin_view (b, m) s1) = (False, True) \<and> fst (pin_view (b, m) s2) = fst (pin_view (b, m) s)"
proof -
  define s0 where "s0 = write_ahb1enr (ahb1enr s OR push_bit (ahb1enr_bit b) 1) s"
  have s0: "clock_on b s0" "moder s0 = moder s"
    using assms(4) by (simp_all add: s0_def clock_on_def write_ahb1enr_def bit_or_iff)
  have o: "into_output b m s = write_moder b (output_moder m (moder s b)) s0"
    by (simp add: into_output_def s0_def write_ahb1enr_def Let_def)
  have "clock_on b (into_output b m s)" using s0(1) by (simp add: o write_moder_def clock_on_def)
  then have "fst (pin_view (b, m) (write_moder b (output_moder n (moder s b)) (into_output b m s))) =
      fst (pin_view (b, m) (write_moder b (output_moder n (moder s b)) s))"
    using assms(4) by (simp add: write_moder_def pin_view_def)
  moreover have "fst (pin_view (b, m) (write_moder b (output_moder n (moder s b)) s)) = fst (pin_view (b, m) s)"
    using write_moder_bit(1) [OF assms(1,2,4), of b] assms(3) by simp
  moreover have "fst (pin_view (b, m) (into_output b m s)) = (False, True)"
    using write_moder_bit(1) [OF assms(2,2) s0(1), of b] by (simp add: o s0(2))
  ultimately show ?thesis by (simp add: Let_def)
qed

end
