(* ===== verification/Props_Drivers.thy ===== *)
theory Props_Drivers
  imports Spi I2c Stellaris_I2c Exti Gpio
begin

text \<open>The properties of the bus drivers of the boards.\<close>

section \<open>SPI\<close>

text \<open>
  C39: on an idle controller that keeps moving bytes, however slowly, and with any device on the
  bus, the polling transfer returns the answers to the words it sends, padded with zeros to the
  longer of the two buffers, and leaves the controller idle again. The interrupt-driven transfer
  sends and returns the same, unless the last chunk of eight is shorter than four bytes: then it
  never returns. In loopback mode both return what was sent.
\<close>
theorem spi_transfers_agree:
  assumes p: "progress steps" and idle: "tx_fifo d = []" "rx_fifo d = []"
  shows "\<exists>d1 d2. let m = max n (length ws); sent = padded m ws; reply = take n (dialogue slave (loopback d) (shifted d) sent) in
    spi_transfer slave steps n ws d = Some (reply, d1) \<and>
    transfer_async slave steps n ws d = (if m mod 8 \<in> {1, 2, 3} then None else Some (reply, d2)) \<and>
    (\<forall>q \<in> {d1, d2}. shifted q = shifted d @ sent \<and> tx_fifo q = [] \<and> rx_fifo q = []) \<and>
    (loopback d \<longrightarrow> reply = take n sent)"
proof -
  define m where "m = max n (length ws)"
  have ok: "spi_ok slave (shifted d) (length (shifted d)) d" using idle by (simp add: spi_idle)
  have len: "length (padded m ws) = m" by (simp add: m_def)
  have long: "chunks_long m \<longleftrightarrow> m mod 8 \<notin> {1, 2, 3}"
    using mod_less_divisor [of 8 m] by (auto simp: chunks_long_def FIFO_DEPTH_def)
  obtain d1 where d1: "spi_exchange slave steps (padded m ws) d = Some (dialogue slave (loopback d) (shifted d) (padded m ws), d1)"
    "shifted d1 = shifted d @ padded m ws" "tx_fifo d1 = []" "rx_fifo d1 = []"
    using spi_exchange_ok [OF ok p, of "padded m ws"] unfolding spi_idle by blast
  have "\<exists>d2. async_exchange slave steps (padded m ws) d =
      (if m mod 8 \<in> {1, 2, 3} then None else Some (dialogue slave (loopback d) (shifted d) (padded m ws), d2)) \<and>
      shifted d2 = shifted d @ padded m ws \<and> tx_fifo d2 = [] \<and> rx_fifo d2 = []"
  proof (cases "chunks_long m")
    case True
    then show ?thesis using async_exchange_ok [OF ok _ p, of "padded m ws"] len long unfolding spi_idle by auto
  next
    case False
    then show ?thesis using async_exchange_short [OF ok _ p, of "padded m ws"] len long d1 by auto
  qed
  then obtain d2 where "async_exchange slave steps (padded m ws) d =
      (if m mod 8 \<in> {1, 2, 3} then None else Some (dialogue slave (loopback d) (shifted d) (padded m ws), d2))"
    "shifted d2 = shifted d @ padded m ws" "tx_fifo d2 = []" "rx_fifo d2 = []" by blast
  then show ?thesis using d1
    by (intro exI [of _ d1] exI [of _ d2])
      (simp add: spi_transfer_def transfer_async_def bind_take Let_def dialogue_loopback flip: m_def)
qed

definition demo_spi :: pl022 where
  "demo_spi = \<lparr>tx_fifo = [], rx_fifo = [], shifted = [], rxim = False, latch = False, accesses = 0, loopback = True\<rparr>"

text \<open>A controller that moves a byte at every second access; five bytes go through, two do not.\<close>

theorem spi_transfers_agree_witness:
  "(\<exists>d2. transfer_async (\<lambda>_. 0) (\<lambda>n. n mod 2) 4 [1, 2, 3, 4, 5] demo_spi = Some ([1, 2, 3, 4], d2)) \<and>
   transfer_async (\<lambda>_. 0) (\<lambda>n. n mod 2) 2 [1] demo_spi = None"
proof -
  have p: "progress (\<lambda>n. n mod 2)"
    unfolding progress_def
  proof
    fix n :: nat
    show "\<exists>m \<ge> n. 0 < m mod 2" by (intro exI [of _ "2 * n + 1"]) simp
  qed
  have i: "tx_fifo demo_spi = []" "rx_fifo demo_spi = []" "loopback demo_spi" by (simp_all add: demo_spi_def)
  show ?thesis
    using spi_transfers_agree [OF p i(1,2), where n = 4 and ws = "[1, 2, 3, 4, 5]" and slave = "\<lambda>_. 0"]
      spi_transfers_agree [OF p i(1,2), where n = 2 and ws = "[1]" and slave = "\<lambda>_. 0"] i(3)
    by (auto simp: Let_def padded_def)
qed

section \<open>I2C\<close>





section \<open>I2C on the Stellaris boards\<close>

text \<open>
  C40: with any device and any duration of its commands, provided a command still in flight raises
  its interrupt, the interrupt-driven transaction has the result of the polling one, and both hand
  the controller the same commands. These are the planned ones, each with its own address and byte,
  up to the first that fails. The transaction succeeds exactly when none does, and then returns the
  bytes of the reads, byte for byte.
\<close>
theorem stellaris_transactions_agree:
  assumes "signals dev"
  shows "\<exists>s1 s2. let xs = exchange dev (sl_commands s) (concat (map (plan a) ops));
      r = (if \<forall>(c, oc) \<in> set xs. \<not> oc_error oc then Some (replies dev a (sl_commands s) ops) else None) in
    stellaris_transaction (run_sync dev) a ops s = Some (r, s1) \<and>
    stellaris_transaction (run_async dev) a ops s = Some (r, s2) \<and>
    sl_commands s1 = sl_commands s @ map fst xs \<and> sl_commands s2 = sl_commands s1 \<and>
    (r \<noteq> None \<longrightarrow> map fst xs = concat (map (plan a) ops))"
proof -
  let ?xs = "exchange dev (sl_commands s) (concat (map (plan a) ops))"
  obtain s1 where "stellaris_transaction (run_sync dev) a ops s =
      Some (if accepted ?xs then Some (replies dev a (sl_commands s) ops) else None, s1)"
    "sl_commands s1 = sl_commands s @ map fst ?xs"
    using stellaris_transaction_ok [OF sync_runs, of dev s a ops] by (auto simp: Let_def)
  moreover obtain s2 where "stellaris_transaction (run_async dev) a ops s =
      Some (if accepted ?xs then Some (replies dev a (sl_commands s) ops) else None, s2)"
    "sl_commands s2 = sl_commands s @ map fst ?xs"
    using stellaris_transaction_ok [OF async_runs [OF assms], of s a ops] by (auto simp: Let_def)
  ultimately show ?thesis unfolding accepted_def [symmetric]
    using exchange_all [of dev "sl_commands s" "concat (map (plan a) ops)"]
    by (intro exI [of _ s1] exI [of _ s2]) (simp add: Let_def)
qed

text \<open>A device that is busy for two readings, refuses its third command and else answers their number.\<close>

definition demo_device :: "command list \<Rightarrow> outcome" where
  "demo_device cs = \<lparr>oc_busy = 2, oc_error = (length cs = 3), oc_irq = True, oc_byte = of_nat (length cs)\<rparr>"

definition demo_stellaris :: stellaris where
  "demo_stellaris = stellaris_init \<lparr>sl_msa = 0, sl_mdr = 0, sl_commands = [], sl_left = 0,
     sl_outcome = \<lparr>oc_busy = 0, oc_error = False, oc_irq = False, oc_byte = 0\<rparr>, sl_latch = False, sl_enabled = False\<rparr>"

theorem stellaris_transactions_agree_witness:
  "(\<exists>s1. stellaris_transaction (run_async demo_device) 0x50 [I2c_write [9], I2c_read 1] demo_stellaris = Some (Some [[], [2]], s1)) \<and>
   (\<exists>s2. stellaris_transaction (run_async demo_device) 0x50 [I2c_write [9], I2c_read 2] demo_stellaris = Some (None, s2) \<and>
     length (sl_commands s2) = 3)"
proof -
  let ?good = "[I2c_write [9], I2c_read 1]" and ?bad = "[I2c_write [9], I2c_read 2]"
  have d: "signals demo_device" by (simp add: signals_def demo_device_def)
  have c: "sl_commands demo_stellaris = []" by (simp add: demo_stellaris_def stellaris_init_def)
  have v: "replies demo_device 0x50 [] ?good = [[], [2]]"
    "(\<forall>(c, oc) \<in> set (exchange demo_device [] (concat (map (plan 0x50) ?good))). \<not> oc_error oc) = True"
    "(\<forall>(c, oc) \<in> set (exchange demo_device [] (concat (map (plan 0x50) ?bad))). \<not> oc_error oc) = False"
    "length (map fst (exchange demo_device [] (concat (map (plan 0x50) ?bad)))) = 3"
    by code_simp+
  obtain s1 where "stellaris_transaction (run_async demo_device) 0x50 ?good demo_stellaris = Some (Some [[], [2]], s1)"
    using stellaris_transactions_agree [OF d, of demo_stellaris "0x50" ?good] unfolding Let_def c v(1,2) if_True by blast
  moreover obtain s2 where "stellaris_transaction (run_async demo_device) 0x50 ?bad demo_stellaris = Some (None, s2)"
    "sl_commands s2 = map fst (exchange demo_device [] (concat (map (plan 0x50) ?bad)))"
    using stellaris_transactions_agree [OF d, of demo_stellaris "0x50" ?bad] unfolding Let_def c v(3) if_False by auto
  ultimately show ?thesis using v(4) by metis
qed

end
