(* ===== verification/Spec2Isabelle.thy ===== *)
theory Spec2Isabelle
  imports Props_Kernel Props_Tasks Props_Time Props_Coop Props_Sync Props_System Props_Ports Props_Arch Props_Drivers
begin

text \<open>
  A model of the Rivet real-time kernel: the crate \<open>src/rivet\<close> and the parts of its processor
  ports on which its guarantees rest. Paths below are relative to \<open>src/\<close>; a file name alone is
  one of \<open>rivet/src/\<close>.

  \<^bold>\<open>How the program is put together.\<close> Rivet runs preemptive tasks under a fixed-priority scheduler
  and, inside the one task of priority 0, an executor of asynchronous tasks. A port enters the
  kernel in two ways: a trap or exception handler calls \<open>on_tick\<close> with the interrupted stack
  pointer and resumes the one it returns, and its timer interrupt calls the watchdog and
  \<open>poll_timers\<close>. Everything else is called by tasks. The state is a set of statics that all of
  these share: the task table, the ready bitmap and queues, the current task of every hart, the
  two timer tables, the executor's ready words, the mutexes, and the devices of the port.

  \<^bold>\<open>Conventions.\<close> Integers keep their width (\<open>u8\<close> to \<open>u64\<close>, \<open>usize\<close> is 32 bits). A Rust panic, an
  index out of range and an arithmetic overflow are the value \<open>None\<close> of an option, so that an
  operation that never panics is one shown to return \<open>Some\<close>. A call into the board that has an
  effect (console output, reset, exit) is an action appended to a log. Values that the code
  reads from hardware or memory (clocks, cycle counters, stack contents) are arguments. Code of
  applications (task bodies, futures, handlers) is an argument or an arbitrary step of the rest
  of the system.
\<close>

text \<open>
  \<^bold>\<open>Prelude.\<close> \<open>Rivet_Base\<close>: machine words, single bits, zero counts, updates of lists. \<open>Bytes\<close>:
  little-endian bytes. \<open>Print\<close>: decimal and hexadecimal numbers as the kernel prints them.

  \<^bold>\<open>Kernel data.\<close> \<open>Kernel_State\<close>: the constants and bounds of \<open>rivet/build.rs\<close>, the task control
  block of \<open>preempt/tcb.rs\<close>, the mutex header and the record \<open>kernel\<close> of all statics.

  \<^bold>\<open>Scheduler.\<close> \<open>Ready_Bitmap\<close>: one bitmap word over an array of queue words, as an implementation
  of the locale \<open>prio_set\<close>; the scheduler and the wakers both use it. \<open>Sched\<close>:
  \<open>preempt/sched.rs\<close>, with \<open>schedule\<close>, the age comparison of dispatch stamps, \<open>should_preempt\<close>
  and requeueing. \<open>Sched_Spec\<close>: what is scheduled. \<open>Sched_Fairness\<close>: the bound on waiting and
  its end when the 32-bit counter wraps.

  \<^bold>\<open>Tasks.\<close> \<open>Tcb\<close>: registration, state and priority changes, \<open>spawn\<close>, \<open>despawn\<close>, \<open>pause\<close>, \<open>resume\<close>,
  \<open>request_stop\<close> (\<open>preempt/tcb.rs\<close>, \<open>preempt/mod.rs\<close>). \<open>Tcb_Inv\<close>: the kernel invariant \<open>good\<close>: table
  sizes, queue membership exactly for ready tasks at their effective priority, bitmap bits.
  \<open>Tcb_Ops\<close>: every operation keeps it; the locale \<open>task_states\<close> states what blocking and
  unblocking promise their callers. \<open>Tick\<close> and \<open>Tick_Spec\<close>: \<open>on_tick_locked\<close>, \<open>start\<close> and
  \<open>start_secondary_hart\<close>. \<open>Tick_Trace\<close>: \<open>on_tick\<close> around them with its measurement and tracing.
  \<open>Lifecycle\<close>: exit and join (\<open>preempt/lifecycle.rs\<close>). \<open>Fault\<close>: policies, dump, isolation
  (\<open>fault.rs\<close>). \<open>Stack_Pool\<close>: carving and reuse of stacks (\<open>preempt/stack_pool.rs\<close>).

  \<^bold>\<open>Time.\<close> \<open>Timer\<close>: both timer tables and their expiry (\<open>timer.rs\<close>). \<open>Accounting\<close>: execution time,
  periods and budgets (\<open>exec_time.rs\<close>, \<open>deadlines.rs\<close>). \<open>Sleep\<close>: durations and the sleep future
  (\<open>time.rs\<close>). \<open>Watchdog\<close>: \<open>watchdog.rs\<close> and \<open>rivet-bsp-support/src/sw_watchdog.rs\<close>.

  \<^bold>\<open>Synchronisation.\<close> \<open>Mutex\<close>, \<open>Mutex_Spec\<close>, \<open>Mutex_Lock\<close>: the priority-inheriting mutex
  (\<open>preempt/mutex.rs\<close>), its header invariant and the locking loop as a run against an arbitrary
  rest of the system. \<open>Channel\<close>: the ring buffer (\<open>sync/channel.rs\<close>), a bounded queue by the locale
  \<open>bounded_queue\<close>, and its futures. \<open>Semaphore\<close>, \<open>Signal\<close>: \<open>sync/semaphore.rs\<close>,
  \<open>sync/signal.rs\<close>. \<open>Critical\<close>: the recursive spin lock over harts (\<open>critical.rs\<close>).
  \<open>Waker\<close>: ready words of the executor (\<open>waker.rs\<close>, \<open>task.rs\<close>). \<open>Executor\<close>: registration and the
  polling loop (\<open>executor.rs\<close>, \<open>task.rs\<close>).

  \<^bold>\<open>Services.\<close> \<open>Console\<close> (\<open>console.rs\<close>, \<open>sync/once.rs\<close>), \<open>Irq\<close> (\<open>irq.rs\<close>), \<open>Log\<close> (\<open>log.rs\<close>), \<open>Trace\<close>
  (\<open>trace.rs\<close>), \<open>Latency\<close> (\<open>latency.rs\<close>), \<open>Report\<close> (\<open>report.rs\<close>), \<open>Kernel_Init\<close> (\<open>lib.rs\<close>: \<open>init\<close>, \<open>run\<close>).

  \<^bold>\<open>RISC-V port\<close> (\<open>rivet-arch-riscv/src/\<close>). \<open>Pmp\<close>: stack guards (\<open>pmp.rs\<close>) with the protection
  registers as the privileged specification defines them. \<open>Clint\<close>: timer and software
  interrupts (\<open>clint.rs\<close>). \<open>Plic\<close>: external interrupts (\<open>plic.rs\<close>). \<open>Riscv_Context\<close>: the
  assembly that saves and restores a task, as instruction lists on a register machine, and the
  first frame of a task (\<open>lib.rs\<close>). \<open>Riscv_Trap\<close>: trap dispatch (\<open>lib.rs\<close>).

  \<^bold>\<open>Cortex-M ports\<close> (\<open>rivet-arch-cortex-m/src/\<close>, \<open>rivet-arch-cortex-m0/src/\<close>). \<open>Mpu\<close>: the two protection
  regions (\<open>mpu.rs\<close>), with the check the architecture makes. \<open>Arm_Context\<close>: exception entry and
  return, the save and restore code of both cores as instruction lists, the first frame, the
  supervisor call that builds it (\<open>lib.rs\<close>). \<open>Arm_Kernel\<close>: PendSV and the memory fault around the
  kernel. \<open>Systick\<close>: the tick and the two clocks (\<open>systick.rs\<close>). \<open>Nvic\<close>: \<open>nvic.rs\<close>.

  \<^bold>\<open>Xtensa port\<close> (\<open>rivet-arch-xtensa/src/\<close>). \<open>Xtensa_Timer\<close>: the cycle-counter tick (\<open>timer.rs\<close>).
  \<open>Xtensa\<close>: saved contexts, the bootstrap table and the level 3 interrupt (\<open>lib.rs\<close>).

  \<^bold>\<open>Drivers.\<close> \<open>Spi\<close>: the SPI driver (\<open>rivet-bsp-support/src/pl022.rs\<close>) over the queues of the
  controller. \<open>I2c\<close>: the I2C driver (\<open>rivet-bsp-stm32f401re/src/i2c.rs\<close>), with what it asks of the
  bus. \<open>Stellaris_I2c\<close>: the other one (\<open>rivet-bsp-support/src/stellaris_i2c.rs\<close>), over any device.
  \<open>Exti\<close>: waiting for a level or an edge on a pin (\<open>rivet-bsp-stm32f401re/src/wait.rs\<close>); an armed wait
  ends at the first edge, and a level that changes before the wait is armed is missed. \<open>Gpio\<close>: pins
  (\<open>rivet-bsp-stm32f401re/src/gpio.rs\<close>); every pin sees its own operations only, unless two tasks
  configure pins of one port at the same time. The polling loops are partial functions; on a
  controller that keeps making progress they are shown to return.

  \<^bold>\<open>Composition.\<close> \<open>Boot\<close>: the boot state. \<open>System\<close>: every operation of the kernel as a step on any
  hart in any order, and the invariant of all reachable states. \<open>Demo\<close>: concrete reachable
  kernels on which the properties are applied.
\<close>

text \<open>
  \<^bold>\<open>What is shown.\<close> The properties are in the theories \<open>Props_*\<close>, each after its statement in words.
  \<open>Props_Kernel\<close>: the invariant of every reachable kernel; what the scheduler picks, how long a
  task can wait, and that a hart runs the highest-priority ready task after a tick.
  \<open>Props_Tasks\<close>: spawn, despawn, pause, locking with inheritance, unlocking, exit and join,
  isolation of a faulting task. \<open>Props_Time\<close>: timers expire exactly, sleepers wake on time,
  execution time is conserved. \<open>Props_Coop\<close>: the executor. \<open>Props_Sync\<close>: channel, semaphore, signal,
  critical section, stack pool, console. \<open>Props_System\<close>: boot, sleep, watchdog, interrupt
  dispatch, trace stream, log. \<open>Props_Ports\<close>: guards, context switches, the tick and the trap
  path down to the hardware registers. \<open>Props_Arch\<close>: stack isolation, context switches and clocks on
  Cortex-M and Xtensa. \<open>Props_Drivers\<close>: what the drivers return and what the bus has carried.
  Each hypothesis of a property is discharged on a concrete
  state in the theorem that follows it. Some lemmas show that the code fails at something its
  comments promise; they are the findings of the development.

  \<^bold>\<open>Bounds and fuel.\<close> Loops over tables are structural recursions on the list of indices. The
  executor's pass and the dequeue of the wakers recurse with a measure: the number of marked
  tasks, shown to decrease. The locking and joining loops, which other tasks may keep waiting
  for ever, are relations between states with no fuel. \<open>read_mtime\<close> may loop for ever against an
  adversarial clock and is a \<open>partial_function\<close>, shown to return within two rounds on a clock
  that advances slower than its low word wraps; the precise clock of Cortex-M likewise. The number printers take the size of the buffer
  of the code as their bound and are shown to stay inside it.

  \<^bold>\<open>Not modelled.\<close> Memory orderings: every atomic access is sequentially consistent; where the
  order of separate accesses matters (\<open>critical.rs\<close>, \<open>waker.rs\<close>, \<open>sync/signal.rs\<close>) they are separate steps. The
  bodies of tasks and futures, formatting by \<open>core::fmt\<close>, the values protected by a mutex.
  \<open>port/arch.rs\<close> and \<open>port/board.rs\<close> declare what a port provides and have no behaviour of their own;
  \<open>port/host.rs\<close> and \<open>test_support.rs\<close> are test doubles. Of the ports:
  what runs below the stack pointer of an exception handler, cycle counters, the interrupt matrix
  and the start of the second core on Xtensa. The rest of the boards (\<open>rivet-bsp-*\<close>)
  programs device registers whose behaviour is not in the repository; \<open>rivet-macros\<close> generates code, \<open>rivet-rt\<close>
  is the reset path in assembly and \<open>xtask\<close> drives external tools.
\<close>

end
